(* ===== verification/Sim_Prelude.thy ===== *)
theory Sim_Prelude
  imports Main "HOL-Library.AList" "HOL-Library.Multiset"
begin

text \<open>
  What the components of the simulator share: unsigned 64-bit arithmetic on natural
  numbers with the wrap-around written out, the hash maps of the C++ code as association
  lists, computations that may abort, and three interfaces as locales (a hash map, a
  coding of one type into another, an invariant of a transition system).
\<close>

named_theorems u64_simps \<open>rewriting of unsigned 64-bit arithmetic\<close>
named_theorems umap_simps \<open>lookups in updated hash maps\<close>
named_theorems ok_simps \<open>computations that may abort\<close>

section \<open>Unsigned 64-bit arithmetic\<close>

text \<open>
  A value of type \<open>uint64_t\<close> is a natural number below \<open>2 ^ 64\<close>. Sums and products are
  written \<open>u64 (a + b)\<close> and \<open>u64 (a * b)\<close>; a difference wraps around below zero.
\<close>

definition u64 :: "nat \<Rightarrow> nat" where
  "u64 n = n mod 2 ^ 64"

definition u64_sub :: "nat \<Rightarrow> nat \<Rightarrow> nat" where
  "u64_sub a b = u64 (a + 2 ^ 64 - b)"

lemma u64_id [u64_simps]: "n < 2 ^ 64 \<Longrightarrow> u64 n = n"
  by (simp add: u64_def)

lemma u64_less [simp]: "u64 n < 2 ^ 64"
  by (simp add: u64_def)

lemma u64_le [intro]: "u64 n \<le> n"
  by (simp add: u64_def)

lemma u64_sub_id [u64_simps]: "b \<le> a \<Longrightarrow> a < 2 ^ 64 \<Longrightarrow> u64_sub a b = a - b"
  by (simp add: u64_sub_def u64_def le_mod_geq)

lemma u64_sub_add: "b \<le> a \<Longrightarrow> a < 2 ^ 64 \<Longrightarrow> u64 (u64_sub a b + b) = a"
  by (simp add: u64_sub_id u64_id)

section \<open>Hash maps\<close>

text \<open>
  A \<open>std::unordered_map\<close> is an association list with distinct keys. The order of the list
  stands for the iteration order of the container, which the standard leaves open.
  \<open>um_at d m k\<close> is the value that \<open>m[k]\<close> yields: a missing key is created with the default
  \<open>d\<close> of the value type; the sites that keep the created entry use \<open>um_put\<close>.
\<close>

type_synonym ('k, 'v) umap = "('k \<times> 'v) list"

definition um_get :: "('k, 'v) umap \<Rightarrow> 'k \<Rightarrow> 'v option" where
  "um_get m k = map_of m k"

definition um_has :: "('k, 'v) umap \<Rightarrow> 'k \<Rightarrow> bool" where
  "um_has m k = (map_of m k \<noteq> None)"

definition um_at :: "'v \<Rightarrow> ('k, 'v) umap \<Rightarrow> 'k \<Rightarrow> 'v" where
  "um_at d m k = (case map_of m k of None \<Rightarrow> d | Some v \<Rightarrow> v)"

definition um_put :: "'k \<Rightarrow> 'v \<Rightarrow> ('k, 'v) umap \<Rightarrow> ('k, 'v) umap" where
  "um_put k v m = AList.update k v m"

definition um_del :: "'k \<Rightarrow> ('k, 'v) umap \<Rightarrow> ('k, 'v) umap" where
  "um_del k m = AList.delete k m"

definition um_wf :: "('k, 'v) umap \<Rightarrow> bool" where
  "um_wf m = distinct (map fst m)"

lemma um_get_put [umap_simps]: "um_get (um_put k v m) j = (if j = k then Some v else um_get m j)"
  by (simp add: um_get_def um_put_def update_conv')

lemma um_get_del [umap_simps]: "um_get (um_del k m) j = (if j = k then None else um_get m j)"
  by (simp add: um_get_def um_del_def delete_conv')

lemma um_get_put_map: "um_get (um_put k v m) = (um_get m)(k \<mapsto> v)"
  by (auto simp: um_get_put)

lemma um_get_del_map: "um_get (um_del k m) = (um_get m)(k := None)"
  by (auto simp: um_get_del)

lemma um_get_Nil [umap_simps]: "um_get [] k = None"
  by (simp add: um_get_def)

lemma um_has_get: "um_has m k \<longleftrightarrow> um_get m k \<noteq> None"
  by (simp add: um_get_def um_has_def)

lemma um_at_get: "um_at d m k = (case um_get m k of None \<Rightarrow> d | Some v \<Rightarrow> v)"
  by (simp add: um_get_def um_at_def)

lemma um_at_Some [umap_simps]: "um_get m k = Some v \<Longrightarrow> um_at d m k = v"
  by (simp add: um_at_get)

lemma um_has_put [umap_simps]: "um_has (um_put k v m) j \<longleftrightarrow> j = k \<or> um_has m j"
  by (simp add: um_has_get um_get_put)

lemma um_has_del [umap_simps]: "um_has (um_del k m) j \<longleftrightarrow> j \<noteq> k \<and> um_has m j"
  by (simp add: um_has_get um_get_del)

lemma um_at_put [umap_simps]: "um_at d (um_put k v m) j = (if j = k then v else um_at d m j)"
  by (simp add: um_at_get um_get_put)

lemma um_at_del [umap_simps]: "um_at d (um_del k m) j = (if j = k then d else um_at d m j)"
  by (simp add: um_at_get um_get_del)

lemma um_wf_put [intro, simp]: "um_wf m \<Longrightarrow> um_wf (um_put k v m)"
  by (simp add: um_wf_def um_put_def distinct_update)

lemma um_wf_del [intro, simp]: "um_wf m \<Longrightarrow> um_wf (um_del k m)"
  by (simp add: um_wf_def um_del_def distinct_delete)

lemma um_wf_Nil [simp]: "um_wf []"
  by (simp add: um_wf_def)

lemma um_keys_put: "fst ` set (um_put k v m) = insert k (fst ` set m)"
  by (induction m) (auto simp: um_put_def)

lemma um_size_put:
  "um_wf m \<Longrightarrow> length (um_put k v m) = (if um_has m k then length m else Suc (length m))"
  by (induction m) (auto simp: um_put_def um_wf_def um_has_def map_of_eq_None_iff image_iff dest!: map_of_SomeD)

lemma um_del_absent: "\<not> um_has m k \<Longrightarrow> um_del k m = m"
  by (induction m) (auto simp: um_del_def um_has_def split: if_splits)

lemma um_size_del:
  "um_wf m \<Longrightarrow> length (um_del k m) = (if um_has m k then length m - 1 else length m)"
proof (induction m)
  case Nil
  then show ?case by (simp add: um_del_def um_has_def)
next
  case (Cons e m)
  obtain j v where e: "e = (j, v)" by (cases e)
  have wf: "um_wf m" and fresh: "\<not> um_has m j"
    using Cons.prems by (auto simp: e um_wf_def um_has_def map_of_eq_None_iff image_iff)
  show ?case
  proof (cases "j = k")
    case True
    have "um_del k (e # m) = um_del k m" using True by (simp add: e um_del_def)
    also have "\<dots> = m" using fresh True by (simp add: um_del_absent)
    finally show ?thesis using True by (simp add: e um_has_def)
  next
    case False
    have del: "um_del k (e # m) = e # um_del k m" using False by (simp add: e um_del_def)
    have has: "um_has (e # m) k = um_has m k" using False by (simp add: e um_has_def)
    have "um_has m k \<Longrightarrow> 0 < length m" by (auto simp: um_has_def)
    then show ?thesis using Cons.IH [OF wf] by (auto simp: del has)
  qed
qed

lemma um_get_in_set: "um_get m k = Some v \<Longrightarrow> (k, v) \<in> set m"
  by (simp add: um_get_def map_of_SomeD)

lemma um_get_from_set: "um_wf m \<Longrightarrow> (k, v) \<in> set m \<Longrightarrow> um_get m k = Some v"
  by (simp add: um_get_def um_wf_def)

text \<open>The interface of a hash map, and that the association lists provide it.\<close>

locale hash_map =
  fixes get :: "'m \<Rightarrow> 'k \<Rightarrow> 'v option"
    and put :: "'k \<Rightarrow> 'v \<Rightarrow> 'm \<Rightarrow> 'm"
    and del :: "'k \<Rightarrow> 'm \<Rightarrow> 'm"
    and size_of :: "'m \<Rightarrow> nat"
    and wf :: "'m \<Rightarrow> bool"
  assumes get_put: "get (put k v m) j = (if j = k then Some v else get m j)"
    and get_del: "get (del k m) j = (if j = k then None else get m j)"
    and wf_put: "wf m \<Longrightarrow> wf (put k v m)"
    and wf_del: "wf m \<Longrightarrow> wf (del k m)"
    and size_put: "wf m \<Longrightarrow> size_of (put k v m) = (if get m k = None then Suc (size_of m) else size_of m)"
    and size_del: "wf m \<Longrightarrow> size_of (del k m) = (if get m k = None then size_of m else size_of m - 1)"
begin

lemma replace_entry: "j \<noteq> k \<Longrightarrow> get (put j v (del k m)) k = None"
  by (simp add: get_put get_del)

lemma size_replace:
  "wf m \<Longrightarrow> get m k \<noteq> None \<Longrightarrow> get m j = None \<Longrightarrow> j \<noteq> k \<Longrightarrow>
   size_of (put j v (del k m)) = Suc (size_of m - 1)"
  using get_del [of k m j] by (auto simp: size_put [OF wf_del] size_del)

lemma size_put_bound:
  "wf m \<Longrightarrow> size_of m < n \<Longrightarrow> size_of (put k v m) \<le> n"
  by (simp add: size_put)

end

interpretation um: hash_map um_get um_put um_del length um_wf
  by unfold_locales (auto simp: um_get_put um_get_del um_size_put um_size_del um_has_get)

section \<open>Computations that may abort\<close>

text \<open>
  A failed \<open>assert\<close>, an \<open>abort()\<close> or an \<open>exit()\<close> is \<open>Inl\<close> of an error value.
  \<open>okR m P\<close> says that \<open>m\<close> returns normally with a result that satisfies \<open>P\<close>.
\<close>

fun bindR :: "'e + 'a \<Rightarrow> ('a \<Rightarrow> 'e + 'b) \<Rightarrow> 'e + 'b" where
  "bindR (Inl e) f = Inl e"
| "bindR (Inr x) f = f x"

definition assertR :: "'e \<Rightarrow> bool \<Rightarrow> 'a \<Rightarrow> 'e + 'a" where
  "assertR e b x = (if b then Inr x else Inl e)"

fun okR :: "'e + 'a \<Rightarrow> ('a \<Rightarrow> bool) \<Rightarrow> bool" where
  "okR (Inl e) P = False"
| "okR (Inr x) P = P x"

declare bindR.simps [ok_simps]

lemma okR_bind [ok_simps]: "okR (bindR m f) P \<longleftrightarrow> okR m (\<lambda>x. okR (f x) P)"
  by (cases m) auto

lemma okR_assert [ok_simps]: "okR (assertR e b x) P \<longleftrightarrow> b \<and> P x"
  by (simp add: assertR_def)

lemma okR_iff: "okR m P \<longleftrightarrow> (\<exists>x. m = Inr x \<and> P x)"
  by (cases m) auto

lemma okR_mono: "okR m P \<Longrightarrow> (\<And>x. P x \<Longrightarrow> Q x) \<Longrightarrow> okR m Q"
  by (cases m) auto

lemma okR_conj: "okR m P \<Longrightarrow> okR m Q \<Longrightarrow> okR m (\<lambda>x. P x \<and> Q x)"
  by (cases m) auto

lemma bindR_assoc: "bindR (bindR m f) g = bindR m (\<lambda>x. bindR (f x) g)"
  by (cases m) auto

lemma bindR_eq_Inr: "bindR m f = Inr y \<longleftrightarrow> (\<exists>x. m = Inr x \<and> f x = Inr y)"
  by (cases m) auto

text \<open>\<open>partR m P\<close>: if \<open>m\<close> returns normally, then with \<open>P\<close>.\<close>

fun partR :: "'e + 'a \<Rightarrow> ('a \<Rightarrow> bool) \<Rightarrow> bool" where
  "partR (Inl e) P = True"
| "partR (Inr x) P = P x"

lemma partR_bind: "partR m Q \<Longrightarrow> (\<And>x. Q x \<Longrightarrow> partR (f x) P) \<Longrightarrow> partR (bindR m f) P"
  by (cases m) auto

lemma partR_assert [simp]: "partR (assertR e b x) P \<longleftrightarrow> (b \<longrightarrow> P x)"
  by (cases b) (auto simp: assertR_def)

lemma partR_mono: "partR m Q \<Longrightarrow> (\<And>x. Q x \<Longrightarrow> P x) \<Longrightarrow> partR m P"
  by (cases m) auto

text \<open>A loop over a list whose body may fail.\<close>

primrec foldR :: "('a \<Rightarrow> 's \<Rightarrow> 'e + 's) \<Rightarrow> 'a list \<Rightarrow> 's \<Rightarrow> 'e + 's" where
  "foldR f [] s = Inr s"
| "foldR f (x # xs) s = bindR (f x s) (foldR f xs)"

lemma partR_fold: "(\<And>x s. x \<in> set xs \<Longrightarrow> P s \<Longrightarrow> partR (f x s) P) \<Longrightarrow> P s \<Longrightarrow> partR (foldR f xs s) P"
proof (induction xs arbitrary: s)
  case (Cons x xs)
  have "partR (f x s) P" using Cons.prems by simp
  then show ?case using Cons.IH Cons.prems(1) by (auto intro: partR_bind)
qed simp

section \<open>Codings\<close>

text \<open>
  A coding splits a value into parts and puts it together again: the page number of a
  flash address into tag and set, a physical address into channel, rank, bank, row and
  column.
\<close>

locale coding =
  fixes enc :: "'a \<Rightarrow> 'b" and dec :: "'b \<Rightarrow> 'a"
    and valid_a :: "'a \<Rightarrow> bool" and valid_b :: "'b \<Rightarrow> bool"
  assumes enc_valid: "valid_a x \<Longrightarrow> valid_b (enc x)"
    and dec_enc: "valid_a x \<Longrightarrow> dec (enc x) = x"
    and enc_dec: "valid_b y \<Longrightarrow> enc (dec y) = y"
    and dec_valid: "valid_b y \<Longrightarrow> valid_a (dec y)"
begin

lemma enc_inject: "valid_a x \<Longrightarrow> valid_a y \<Longrightarrow> enc x = enc y \<longleftrightarrow> x = y"
  by (metis dec_enc)

lemma enc_bij: "bij_betw enc {x. valid_a x} {y. valid_b y}"
  by (rule bij_betw_byWitness [where f' = dec]) (auto simp: enc_valid dec_valid dec_enc enc_dec)

end

section \<open>Transition systems\<close>

inductive reach :: "('s \<Rightarrow> bool) \<Rightarrow> ('s \<Rightarrow> 's \<Rightarrow> bool) \<Rightarrow> 's \<Rightarrow> bool"
  for init :: "'s \<Rightarrow> bool" and step :: "'s \<Rightarrow> 's \<Rightarrow> bool" where
  reach_init: "init s \<Longrightarrow> reach init step s"
| reach_step: "reach init step s \<Longrightarrow> step s t \<Longrightarrow> reach init step t"

locale safe_system =
  fixes init :: "'s \<Rightarrow> bool" and step :: "'s \<Rightarrow> 's \<Rightarrow> bool" and inv :: "'s \<Rightarrow> bool"
  assumes init_inv: "init s \<Longrightarrow> inv s"
    and step_inv: "inv s \<Longrightarrow> step s t \<Longrightarrow> inv t"
begin

lemma reach_inv: "reach init step s \<Longrightarrow> inv s"
  by (induction rule: reach.induct) (auto intro: init_inv step_inv)

end

section \<open>Lists\<close>

text \<open>The position of the first smallest key, as the scans for a victim compute it.\<close>

lemma sum_list_map_update:
  fixes f :: "'a \<Rightarrow> nat"
  shows "i < length xs \<Longrightarrow> sum_list (map f (xs[i := x])) + f (xs ! i) = sum_list (map f xs) + f x"
proof (induction xs arbitrary: i)
  case Nil
  then show ?case by simp
next
  case (Cons y ys)
  show ?case
  proof (cases i)
    case 0
    then show ?thesis by simp
  next
    case (Suc j)
    then have "j < length ys" using Cons.prems by simp
    from Cons.IH [OF this] show ?thesis using Suc by simp
  qed
qed

lemma sum_list_pos_nat:
  fixes f :: "'a \<Rightarrow> nat"
  shows "(\<And>x. x \<in> set xs \<Longrightarrow> 0 < f x) \<Longrightarrow> length xs \<le> sum_list (map f xs)"
proof (induction xs)
  case Nil
  then show ?case by simp
next
  case (Cons x xs)
  then have "0 < f x" and "length xs \<le> sum_list (map f xs)" by auto
  then show ?case by simp
qed

section \<open>Rounds\<close>

text \<open>
  A successor function that runs through finitely many positions in a circle. A loop that
  starts somewhere and follows it until it is back has at most as many rounds as there are
  positions; \<open>togo\<close> counts the rounds that are left.
\<close>

definition togo :: "('a \<Rightarrow> nat) \<Rightarrow> nat \<Rightarrow> 'a \<Rightarrow> 'a \<Rightarrow> nat" where
  "togo idx N start x = N - (idx x + (N - idx start)) mod N"

locale circle =
  fixes succ_of :: "'a \<Rightarrow> 'a" and idx :: "'a \<Rightarrow> nat" and N :: nat and valid :: "'a \<Rightarrow> bool"
  assumes idx_less: "valid x \<Longrightarrow> idx x < N"
    and idx_inj: "valid x \<Longrightarrow> valid y \<Longrightarrow> idx x = idx y \<Longrightarrow> x = y"
    and valid_succ: "valid x \<Longrightarrow> valid (succ_of x)"
    and idx_succ: "valid x \<Longrightarrow> idx (succ_of x) = (idx x + 1) mod N"
begin

lemma togo_bounds: "valid x \<Longrightarrow> 0 < togo idx N start x \<and> togo idx N start x \<le> N"
  using idx_less [of x] by (auto simp: togo_def)

lemma togo_succ:
  assumes "valid start" "valid x" "succ_of x \<noteq> start"
  shows "togo idx N start x = Suc (togo idx N start (succ_of x))"
proof -
  define k where "k = (idx x + (N - idx start)) mod N"
  have N: "0 < N" "idx start < N" using idx_less [OF assms(1)] by auto
  have k: "k < N" using N by (simp add: k_def)
  have k': "(idx (succ_of x) + (N - idx start)) mod N = (k + 1) mod N"
    using assms(2) by (simp add: idx_succ k_def mod_simps)
  have "k + 1 \<noteq> N"
  proof
    assume "k + 1 = N"
    then have "(idx (succ_of x) + (N - idx start)) mod N = 0" using k' by simp
    then obtain q where q: "idx (succ_of x) + (N - idx start) = N * q" by (auto simp: mod_eq_0_iff_dvd)
    have lt: "idx (succ_of x) < N" using idx_less [OF valid_succ [OF assms(2)]] .
    have "q = 1"
    proof -
      have "0 < N * q" "N * q < N * 2" using q N lt by linarith+
      then have "0 < q" "q < 2" by (metis mult_0_right less_numeral_extra(3) neq0_conv, metis mult_less_cancel1)
      then show ?thesis by simp
    qed
    then have "idx (succ_of x) = idx start" using q N by simp
    then show False using assms idx_inj valid_succ by blast
  qed
  then have "(k + 1) mod N = k + 1" using k by simp
  then show ?thesis using k \<open>k + 1 \<noteq> N\<close> by (simp add: togo_def k' k_def [symmetric] Suc_diff_Suc)
qed

lemma togo_start: "valid start \<Longrightarrow> togo idx N start start = N"
  using idx_less [of start] by (simp add: togo_def)

lemma idx_funpow: "valid x \<Longrightarrow> valid ((succ_of ^^ k) x) \<and> idx ((succ_of ^^ k) x) = (idx x + k) mod N"
proof (induction k)
  case 0
  then show ?case using idx_less [of x] by simp
next
  case (Suc k)
  then have "valid ((succ_of ^^ k) x)" "idx ((succ_of ^^ k) x) = (idx x + k) mod N" by auto
  then show ?case using valid_succ idx_succ by (simp add: mod_simps)
qed

text \<open>A full round visits every point and ends where it began.\<close>

lemma round_visits:
  assumes "valid x" "valid y"
  shows "\<exists>k<N. (succ_of ^^ k) x = y"
proof -
  define k where "k = (idx y + (N - idx x)) mod N"
  have less: "idx x < N" "idx y < N" using assms idx_less by auto
  have "(idx x + k) mod N = (idx x + (idx y + (N - idx x))) mod N" by (simp add: k_def mod_simps)
  also have "idx x + (idx y + (N - idx x)) = N + idx y" using less by simp
  also have "(N + idx y) mod N = idx y" using less by simp
  finally have "(succ_of ^^ k) x = y" using idx_funpow [OF assms(1), of k] idx_inj assms(2) by simp
  moreover have "k < N" using less by (simp add: k_def)
  ultimately show ?thesis by blast
qed

lemma round_ends: "valid x \<Longrightarrow> (succ_of ^^ N) x = x"
  using idx_funpow [of x N] idx_inj [of "(succ_of ^^ N) x" x] idx_less [of x] by simp

lemma togo_last:
  assumes "valid x" "valid start" "succ_of x = start"
  shows "togo idx N start x = 1"
proof -
  have N: "idx x < N" "idx start < N" using idx_less assms by auto
  have s: "idx start = (idx x + 1) mod N" using idx_succ [OF assms(1)] assms(3) by simp
  show ?thesis
  proof (cases "idx x + 1 = N")
    case True
    then have "idx start = 0" using s by simp
    then have "(idx x + (N - idx start)) mod N = idx x" using N by simp
    then show ?thesis using True by (simp add: togo_def flip: True)
  next
    case False
    then have "idx start = idx x + 1" using s N by simp
    then have "idx x + (N - idx start) = N - 1" using N by simp
    then show ?thesis using N by (simp add: togo_def)
  qed
qed

lemma togo_inj:
  assumes "valid x" "valid y" "valid start" "togo idx N start x = togo idx N start y"
  shows "x = y"
proof -
  have N: "idx x < N" "idx y < N" "idx start < N" using idx_less assms by auto
  define d where "d = N - idx start"
  have d: "0 < d" "d \<le> N" using N by (auto simp: d_def)
  have "(idx x + d) mod N = (idx y + d) mod N"
  proof -
    have "(idx x + d) mod N < N" "(idx y + d) mod N < N" using N by auto
    then show ?thesis using assms(4) by (simp add: togo_def d_def [symmetric])
  qed
  moreover have "(k + d) mod N = (if k + d < N then k + d else k + d - N)" if "k < N" for k
    using that d by (simp add: mod_if)
  ultimately have "idx x = idx y" using N d by (auto split: if_splits)
  then show ?thesis using idx_inj [OF assms(1,2)] by simp
qed

end

end
