(* ===== verification/Hybrid_Config.thy ===== *)
theory Hybrid_Config
  imports Sim_Prelude
begin

text \<open>
  The configuration of HybridSim (\<open>src/HybridSim/config.h\<close>, \<open>IniReader.cpp\<close>): the values
  read from the ini file and the compile-time switches as one record, the address macros
  derived from them, the entry of the cache tag store, transactions and pending operations.
  Proved here: the macros split a flash address into tag, set and offset and put it
  together again, and every address that the controller computes stays within 64 bits.
\<close>

section \<open>Settings\<close>

record hs_cfg =
  CONTROLLER_DELAY :: nat
  PAGE_SIZE :: nat
  SET_SIZE :: nat
  BURST_SIZE :: nat
  FLASH_BURST_SIZE :: nat
  TOTAL_PAGES :: nat
  CACHE_PAGES :: nat
  ENABLE_PERFECT_PREFETCHING :: bool
  SEQUENTIAL_PREFETCHING_WINDOW :: nat
  ENABLE_STREAM_BUFFER :: bool
  ONE_MISS_TABLE_SIZE :: nat
  NUM_STREAM_BUFFERS :: nat
  STREAM_BUFFER_LENGTH :: nat
  PREFILL_CACHE :: bool
  PREFILL_CACHE_DIRTY :: bool
  REMAP_MMIO :: bool
  TAG_SIZE :: nat
  TLB_SIZE :: nat
  TLB_MISS_DELAY :: nat

text \<open>
  The values of the repository: the switches of \<open>config.h\<close> and the defaults that
  \<open>IniReader.cpp\<close> gives to the settings of the ini file.
\<close>

definition default_cfg :: hs_cfg where
  "default_cfg = \<lparr>
     CONTROLLER_DELAY = 2, PAGE_SIZE = 4096, SET_SIZE = 64, BURST_SIZE = 64,
     FLASH_BURST_SIZE = 4096, TOTAL_PAGES = 2097152 div 4, CACHE_PAGES = 1048576 div 4,
     ENABLE_PERFECT_PREFETCHING = False, SEQUENTIAL_PREFETCHING_WINDOW = 0,
     ENABLE_STREAM_BUFFER = True, ONE_MISS_TABLE_SIZE = 10, NUM_STREAM_BUFFERS = 10,
     STREAM_BUFFER_LENGTH = 4, PREFILL_CACHE = True, PREFILL_CACHE_DIRTY = False,
     REMAP_MMIO = True, TAG_SIZE = 2, TLB_SIZE = 0, TLB_MISS_DELAY = 30\<rparr>"

definition HALFGB :: nat where
  "HALFGB = 536870912"

definition THREEPOINTFIVEGB :: nat where
  "THREEPOINTFIVEGB = 3758096384"

definition FOURGB :: nat where
  "FOURGB = 4294967296"

section \<open>Address macros\<close>

text \<open>
  The quotients of \<open>PAGE_ADDRESS\<close> and \<open>ALIGN\<close> cannot overflow when they are multiplied
  out again, so no wrap-around is written for them.
\<close>

definition NUM_SETS :: "hs_cfg \<Rightarrow> nat" where
  "NUM_SETS c = CACHE_PAGES c div SET_SIZE c"

definition PAGE_NUMBER :: "hs_cfg \<Rightarrow> nat \<Rightarrow> nat" where
  "PAGE_NUMBER c addr = addr div PAGE_SIZE c"

definition PAGE_ADDRESS :: "hs_cfg \<Rightarrow> nat \<Rightarrow> nat" where
  "PAGE_ADDRESS c addr = (addr div PAGE_SIZE c) * PAGE_SIZE c"

definition PAGE_OFFSET :: "hs_cfg \<Rightarrow> nat \<Rightarrow> nat" where
  "PAGE_OFFSET c addr = addr mod PAGE_SIZE c"

definition SET_INDEX :: "hs_cfg \<Rightarrow> nat \<Rightarrow> nat" where
  "SET_INDEX c addr = PAGE_NUMBER c addr mod NUM_SETS c"

definition TAG :: "hs_cfg \<Rightarrow> nat \<Rightarrow> nat" where
  "TAG c addr = PAGE_NUMBER c addr div NUM_SETS c"

definition FLASH_ADDRESS :: "hs_cfg \<Rightarrow> nat \<Rightarrow> nat \<Rightarrow> nat" where
  "FLASH_ADDRESS c t s = u64 ((t * NUM_SETS c + s) * PAGE_SIZE c)"

definition ALIGN :: "hs_cfg \<Rightarrow> nat \<Rightarrow> nat" where
  "ALIGN c addr = ((addr div BURST_SIZE c) * BURST_SIZE c) mod u64 (TOTAL_PAGES c * PAGE_SIZE c)"

definition BYTES_PER_READ :: nat where
  "BYTES_PER_READ = 64"

definition TLB_MAX_ENTRIES :: "hs_cfg \<Rightarrow> nat" where
  "TLB_MAX_ENTRIES c = TLB_SIZE c div BYTES_PER_READ"

definition TAGS_PER_ENTRY :: "hs_cfg \<Rightarrow> nat" where
  "TAGS_PER_ENTRY c = BYTES_PER_READ div TAG_SIZE c"

definition TLB_ENTRY_SPAN :: "hs_cfg \<Rightarrow> nat" where
  "TLB_ENTRY_SPAN c = u64 (PAGE_SIZE c * TAGS_PER_ENTRY c)"

definition TLB_BASE_ADDRESS :: "hs_cfg \<Rightarrow> nat \<Rightarrow> nat" where
  "TLB_BASE_ADDRESS c addr = u64 (addr * TLB_ENTRY_SPAN c) div TLB_ENTRY_SPAN c"

section \<open>Data\<close>

record cache_line =
  cl_valid :: bool
  cl_dirty :: bool
  cl_locked :: bool
  cl_lock_count :: nat
  cl_tag :: nat
  cl_data :: nat
  cl_ts :: nat
  cl_prefetched :: bool
  cl_used :: bool

definition new_line :: cache_line where
  "new_line = \<lparr>cl_valid = False, cl_dirty = False, cl_locked = False, cl_lock_count = 0,
     cl_tag = 0, cl_data = 0, cl_ts = 0, cl_prefetched = False, cl_used = False\<rparr>"

datatype TransactionType = DATA_READ | DATA_WRITE | PREFETCH | FLUSH | SYNC_ALL_COUNTER | SYNC

text \<open>The \<open>data\<close> pointer of a transaction is \<open>NULL\<close> at every construction and is never read.\<close>

record Transaction =
  transactionType :: TransactionType
  address :: nat

definition mkTransaction :: "TransactionType \<Rightarrow> nat \<Rightarrow> Transaction" where
  "mkTransaction ty a = \<lparr>transactionType = ty, address = a\<rparr>"

datatype PendingOperation = VICTIM_READ | VICTIM_WRITE | LINE_READ | CACHE_READ | CACHE_WRITE

record Pending =
  p_op :: PendingOperation
  p_orig_addr :: nat
  p_flash_addr :: nat
  p_cache_addr :: nat
  p_victim_tag :: nat
  p_victim_valid :: bool
  p_callback_sent :: bool
  p_type :: TransactionType

section \<open>Sane settings\<close>

text \<open>
  The code divides by the page size, the burst sizes and the number of sets, and computes
  the size of the address space in 64 bits. The constructor checks only that there are at
  least as many cache pages as pages per set; the rest is what it takes for granted.
\<close>

definition wf_cfg :: "hs_cfg \<Rightarrow> bool" where
  "wf_cfg c \<longleftrightarrow> 0 < SET_SIZE c \<and> SET_SIZE c \<le> CACHE_PAGES c
     \<and> 0 < BURST_SIZE c \<and> BURST_SIZE c dvd PAGE_SIZE c \<and> 0 < PAGE_SIZE c
     \<and> 0 < FLASH_BURST_SIZE c \<and> FLASH_BURST_SIZE c dvd PAGE_SIZE c
     \<and> 0 < TOTAL_PAGES c \<and> CACHE_PAGES c \<le> TOTAL_PAGES c
     \<and> TOTAL_PAGES c * PAGE_SIZE c < 2 ^ 64"

lemma wf_cfg_default: "wf_cfg default_cfg"
  by (simp add: wf_cfg_def default_cfg_def)

lemma wf_cfgD:
  assumes "wf_cfg c"
  shows wf_set_size: "0 < SET_SIZE c" and wf_page_size: "0 < PAGE_SIZE c"
    and wf_burst: "0 < BURST_SIZE c" "BURST_SIZE c dvd PAGE_SIZE c"
    and wf_flash_burst: "0 < FLASH_BURST_SIZE c" "FLASH_BURST_SIZE c dvd PAGE_SIZE c"
    and wf_total: "0 < TOTAL_PAGES c" "TOTAL_PAGES c * PAGE_SIZE c < 2 ^ 64"
    and wf_cache_pages: "SET_SIZE c \<le> CACHE_PAGES c" "CACHE_PAGES c \<le> TOTAL_PAGES c"
  using assms by (auto simp: wf_cfg_def)

lemma NUM_SETS_pos: "wf_cfg c \<Longrightarrow> 0 < NUM_SETS c"
  by (simp add: wf_cfg_def NUM_SETS_def div_greater_zero_iff)

lemma sets_fit: "SET_SIZE c * NUM_SETS c \<le> CACHE_PAGES c"
  by (simp add: NUM_SETS_def)

lemma space_u64: "wf_cfg c \<Longrightarrow> u64 (TOTAL_PAGES c * PAGE_SIZE c) = TOTAL_PAGES c * PAGE_SIZE c"
  by (rule u64_id) (simp only: wf_cfg_def)

section \<open>Pages, tags and sets\<close>

lemma PAGE_ADDRESS_le: "PAGE_ADDRESS c a \<le> a"
  by (simp add: PAGE_ADDRESS_def)

lemma PAGE_split: "a = PAGE_ADDRESS c a + PAGE_OFFSET c a"
  by (simp add: PAGE_ADDRESS_def PAGE_OFFSET_def)

lemma PAGE_OFFSET_less: "wf_cfg c \<Longrightarrow> PAGE_OFFSET c a < PAGE_SIZE c"
  by (simp add: PAGE_OFFSET_def wf_page_size)

lemma PAGE_ADDRESS_mult: "PAGE_ADDRESS c (n * PAGE_SIZE c) = n * PAGE_SIZE c"
  by (cases "PAGE_SIZE c = 0") (simp_all add: PAGE_ADDRESS_def)

lemma PAGE_ADDRESS_idem [simp]: "PAGE_ADDRESS c (PAGE_ADDRESS c a) = PAGE_ADDRESS c a"
  by (cases "PAGE_SIZE c = 0") (simp_all add: PAGE_ADDRESS_def)

lemma PAGE_NUMBER_page [simp]: "PAGE_NUMBER c (PAGE_ADDRESS c a) = PAGE_NUMBER c a"
  by (cases "PAGE_SIZE c = 0") (simp_all add: PAGE_ADDRESS_def PAGE_NUMBER_def)

lemma SET_INDEX_page [simp]: "SET_INDEX c (PAGE_ADDRESS c a) = SET_INDEX c a"
  by (simp add: SET_INDEX_def)

lemma TAG_page [simp]: "TAG c (PAGE_ADDRESS c a) = TAG c a"
  by (simp add: TAG_def)

lemma SET_INDEX_less: "wf_cfg c \<Longrightarrow> SET_INDEX c a < NUM_SETS c"
  by (simp add: SET_INDEX_def NUM_SETS_pos)

lemma TAG_SET_page: "TAG c a * NUM_SETS c + SET_INDEX c a = PAGE_NUMBER c a"
  by (simp add: TAG_def SET_INDEX_def)

lemma PAGE_ADDRESS_add:
  "wf_cfg c \<Longrightarrow> PAGE_ADDRESS c p = p \<Longrightarrow> n < PAGE_SIZE c \<Longrightarrow> PAGE_ADDRESS c (p + n) = p"
proof -
  assume wf: "wf_cfg c" and p: "PAGE_ADDRESS c p = p" and n: "n < PAGE_SIZE c"
  have "(p + n) div PAGE_SIZE c = p div PAGE_SIZE c"
  proof -
    obtain q where q: "p = q * PAGE_SIZE c" using p by (metis PAGE_ADDRESS_def)
    show ?thesis using n by (simp add: q div_add1_eq [of "q * PAGE_SIZE c" n])
  qed
  then show ?thesis using p by (simp add: PAGE_ADDRESS_def)
qed

lemma PAGE_ADDRESS_less_space:
  assumes "wf_cfg c" "a < TOTAL_PAGES c * PAGE_SIZE c"
  shows "PAGE_NUMBER c a < TOTAL_PAGES c"
  using assms by (simp add: PAGE_NUMBER_def div_less_iff_less_mult wf_page_size)

lemma FLASH_ADDRESS_TAG:
  "wf_cfg c \<Longrightarrow> a < 2 ^ 64 \<Longrightarrow> FLASH_ADDRESS c (TAG c a) (SET_INDEX c a) = PAGE_ADDRESS c a"
proof -
  assume a: "a < 2 ^ 64"
  have "(TAG c a * NUM_SETS c + SET_INDEX c a) * PAGE_SIZE c = PAGE_ADDRESS c a"
    by (simp add: TAG_SET_page PAGE_ADDRESS_def PAGE_NUMBER_def)
  moreover have "PAGE_ADDRESS c a < 2 ^ 64" using PAGE_ADDRESS_le a by (rule le_less_trans)
  ultimately show ?thesis by (simp add: FLASH_ADDRESS_def u64_id)
qed

lemma ALIGN_less: "wf_cfg c \<Longrightarrow> ALIGN c a < TOTAL_PAGES c * PAGE_SIZE c"
  by (simp add: ALIGN_def space_u64 wf_page_size wf_total)

lemma ALIGN_u64: "wf_cfg c \<Longrightarrow> ALIGN c a < 2 ^ 64"
  using ALIGN_less [of c a] wf_total(2) [of c] by linarith

lemma ALIGN_burst: "wf_cfg c \<Longrightarrow> BURST_SIZE c dvd ALIGN c a"
proof -
  assume wf: "wf_cfg c"
  have "BURST_SIZE c dvd TOTAL_PAGES c * PAGE_SIZE c"
    using wf_burst(2) [OF wf] by (rule dvd_mult)
  then show ?thesis
    by (simp add: ALIGN_def space_u64 [OF wf] dvd_mod)
qed

lemma ALIGN_idem: "wf_cfg c \<Longrightarrow> ALIGN c (ALIGN c a) = ALIGN c a"
proof -
  assume wf: "wf_cfg c"
  have "ALIGN c a div BURST_SIZE c * BURST_SIZE c = ALIGN c a"
    using ALIGN_burst [OF wf] by simp
  moreover have "ALIGN c a mod (TOTAL_PAGES c * PAGE_SIZE c) = ALIGN c a"
    using ALIGN_less [OF wf] by simp
  ultimately have "((ALIGN c a div BURST_SIZE c) * BURST_SIZE c) mod (TOTAL_PAGES c * PAGE_SIZE c)
      = ALIGN c a" by simp
  then show ?thesis by (subst ALIGN_def) (simp only: space_u64 [OF wf])
qed

text \<open>Pages of the flash and pairs of tag and set correspond one to one.\<close>

definition page_ok :: "hs_cfg \<Rightarrow> nat \<Rightarrow> bool" where
  "page_ok c a \<longleftrightarrow> wf_cfg c \<and> PAGE_ADDRESS c a = a \<and> a < TOTAL_PAGES c * PAGE_SIZE c"

definition tag_set_ok :: "hs_cfg \<Rightarrow> nat \<times> nat \<Rightarrow> bool" where
  "tag_set_ok c ts \<longleftrightarrow> wf_cfg c \<and> snd ts < NUM_SETS c \<and> fst ts * NUM_SETS c + snd ts < TOTAL_PAGES c"

definition split_page :: "hs_cfg \<Rightarrow> nat \<Rightarrow> nat \<times> nat" where
  "split_page c a = (TAG c a, SET_INDEX c a)"

definition join_page :: "hs_cfg \<Rightarrow> nat \<times> nat \<Rightarrow> nat" where
  "join_page c ts = FLASH_ADDRESS c (fst ts) (snd ts)"

lemma FLASH_ADDRESS_fits:
  assumes "wf_cfg c" "t * NUM_SETS c + s < TOTAL_PAGES c"
  shows "FLASH_ADDRESS c t s = (t * NUM_SETS c + s) * PAGE_SIZE c"
    and "FLASH_ADDRESS c t s < TOTAL_PAGES c * PAGE_SIZE c"
proof -
  have less: "(t * NUM_SETS c + s) * PAGE_SIZE c < TOTAL_PAGES c * PAGE_SIZE c"
    using assms by (simp add: wf_page_size)
  have "(t * NUM_SETS c + s) * PAGE_SIZE c < 2 ^ 64"
    using less wf_total(2) [OF assms(1)] by (rule less_trans)
  then show eq: "FLASH_ADDRESS c t s = (t * NUM_SETS c + s) * PAGE_SIZE c"
    unfolding FLASH_ADDRESS_def by (rule u64_id)
  show "FLASH_ADDRESS c t s < TOTAL_PAGES c * PAGE_SIZE c"
    unfolding eq by (rule less)
qed

lemma split_FLASH_ADDRESS:
  assumes "wf_cfg c" "s < NUM_SETS c" "t * NUM_SETS c + s < TOTAL_PAGES c"
  shows "TAG c (FLASH_ADDRESS c t s) = t" and "SET_INDEX c (FLASH_ADDRESS c t s) = s"
  using assms by (simp_all add: FLASH_ADDRESS_fits TAG_def SET_INDEX_def PAGE_NUMBER_def wf_page_size)

interpretation page: coding "split_page c" "join_page c" "page_ok c" "tag_set_ok c" for c
proof (unfold_locales, goal_cases)
  case (1 a)
  then have wf: "wf_cfg c" and "PAGE_NUMBER c a < TOTAL_PAGES c"
    by (auto simp: page_ok_def PAGE_ADDRESS_less_space)
  then show ?case by (simp add: tag_set_ok_def split_page_def TAG_SET_page SET_INDEX_less)
next
  case (2 a)
  then have "wf_cfg c" and "a < 2 ^ 64"
    by (auto simp: page_ok_def dest: wf_total(2))
  with 2 show ?case by (simp add: join_page_def split_page_def FLASH_ADDRESS_TAG page_ok_def)
next
  case (3 ts)
  then show ?case by (cases ts) (simp add: tag_set_ok_def split_page_def join_page_def split_FLASH_ADDRESS)
next
  case (4 ts)
  then show ?case
    by (cases ts) (simp add: tag_set_ok_def page_ok_def join_page_def FLASH_ADDRESS_fits PAGE_ADDRESS_mult wf_page_size)
qed

section \<open>The cache addresses of a set\<close>

text \<open>The DRAM page addresses of the lines of a set, in the order of the scans.\<close>

definition set_address_list :: "hs_cfg \<Rightarrow> nat \<Rightarrow> nat list" where
  "set_address_list c set_index =
     map (\<lambda>i. u64 ((i * NUM_SETS c + set_index) * PAGE_SIZE c)) [0..<SET_SIZE c]"

lemma line_number_bound:
  assumes "wf_cfg c" "i < SET_SIZE c" "s < NUM_SETS c"
  shows "i * NUM_SETS c + s < CACHE_PAGES c"
proof -
  have "i * NUM_SETS c + s < Suc i * NUM_SETS c" using assms by simp
  also have "\<dots> \<le> SET_SIZE c * NUM_SETS c" using assms by (intro mult_le_mono1) simp
  also have "\<dots> \<le> CACHE_PAGES c" by (rule sets_fit)
  finally show ?thesis .
qed

lemma set_address_list_eq:
  assumes "wf_cfg c" "s < NUM_SETS c"
  shows "set_address_list c s = map (\<lambda>i. (i * NUM_SETS c + s) * PAGE_SIZE c) [0..<SET_SIZE c]"
proof -
  have "u64 ((i * NUM_SETS c + s) * PAGE_SIZE c) = (i * NUM_SETS c + s) * PAGE_SIZE c"
    if "i < SET_SIZE c" for i
  proof (rule u64_id)
    have "i * NUM_SETS c + s < TOTAL_PAGES c"
      using line_number_bound [OF assms(1) that assms(2)] wf_cache_pages(2) [OF assms(1)] by simp
    then have "(i * NUM_SETS c + s) * PAGE_SIZE c < TOTAL_PAGES c * PAGE_SIZE c"
      using assms by (simp add: wf_page_size)
    then show "(i * NUM_SETS c + s) * PAGE_SIZE c < 2 ^ 64"
      using wf_total(2) [OF assms(1)] by (rule less_trans)
  qed
  then show ?thesis by (simp add: set_address_list_def)
qed

lemma set_address_list_length [simp]: "length (set_address_list c s) = SET_SIZE c"
  by (simp add: set_address_list_def)

lemma set_address_list_distinct:
  assumes "wf_cfg c" "s < NUM_SETS c"
  shows "distinct (set_address_list c s)"
  unfolding set_address_list_eq [OF assms]
  using NUM_SETS_pos [OF assms(1)] wf_page_size [OF assms(1)] by (auto simp: distinct_map inj_on_def)

lemma set_address_listD:
  assumes "wf_cfg c" "s < NUM_SETS c" "ca \<in> set (set_address_list c s)"
  shows "SET_INDEX c ca = s" and "PAGE_ADDRESS c ca = ca" and "ca < CACHE_PAGES c * PAGE_SIZE c"
proof -
  obtain i where i: "i < SET_SIZE c" and ca: "ca = (i * NUM_SETS c + s) * PAGE_SIZE c"
    using assms(3) by (auto simp: set_address_list_eq [OF assms(1,2)])
  show "SET_INDEX c ca = s"
    using assms(1,2) by (simp add: ca SET_INDEX_def PAGE_NUMBER_def wf_page_size)
  show "PAGE_ADDRESS c ca = ca" by (simp add: ca PAGE_ADDRESS_mult)
  show "ca < CACHE_PAGES c * PAGE_SIZE c"
    using line_number_bound [OF assms(1) i assms(2)] assms(1) by (simp add: ca wf_page_size)
qed

lemma cache_space_u64: "wf_cfg c \<Longrightarrow> CACHE_PAGES c * PAGE_SIZE c < 2 ^ 64"
proof -
  assume wf: "wf_cfg c"
  have "CACHE_PAGES c * PAGE_SIZE c \<le> TOTAL_PAGES c * PAGE_SIZE c"
    using wf_cache_pages(2) [OF wf] by simp
  then show ?thesis using wf_total(2) [OF wf] by (rule le_less_trans)
qed

end
