(* ===== verification/Hybrid_State.thy ===== *)
theory Hybrid_State
  imports Hybrid_Config
begin

text \<open>
  The state of the hybrid memory controller (\<open>class HybridSystem\<close> of
  \<open>src/HybridSim/HybridSystem.h\<close>) and the operations on its tables: the transaction
  queue, the page contention locks, the TLB, the stream buffers and the callbacks to the
  user of the library. A failed \<open>assert\<close> or an \<open>abort()\<close> is a value of \<open>herr\<close>.
  The statistics kept by the logger are not part of the state.
\<close>

section \<open>State\<close>

datatype herr =
    Not_Pending_Flash_Addr
  | Victim_On_Hit
  | Not_Pending_Page
  | Not_Locked_Victim
  | Bad_Transaction_Type
  | Address_Out_Of_Bounds
  | Sync_Miss
  | Dram_Pending_Twice
  | Cache_Address_Mismatch
  | Invalid_Dram_Op
  | Dram_Address_Not_Pending
  | Invalid_Flash_Op
  | Flash_Address_Not_Pending
  | Critical_Line_Twice
  | Sync_Address_Mismatch
  | Sync_Clean_Line
  | Tlb_Full
  | Invalid_Mmio
  | Restore_No_File
  | Restore_Mismatch
  | Iterator_Past_End

text \<open>
  A call of the user's callback: whether it is for a write, the system id, the address and
  the cycle. The list \<open>done_calls\<close> of the calls made is the output of the controller.
  \<open>ReadDone\<close> and \<open>WriteDone\<close> say whether the callbacks are registered.
\<close>

type_synonym done_call = "bool \<times> nat \<times> nat \<times> nat"

record hs =
  cfg :: hs_cfg
  systemID :: nat
  ReadDone :: bool
  WriteDone :: bool
  currentClockCycle :: nat
  cache :: "(nat, cache_line) umap"
  dram_pending :: "(nat, Pending) umap"
  flash_pending :: "(nat, Pending) umap"
  dram_pending_wait :: "(nat, nat set) umap"
  flash_pending_wait :: "(nat, nat set) umap"
  pending_flash_addr :: "(nat, nat) umap"
  pending_pages :: "(nat, nat) umap"
  set_counter :: "(nat, nat) umap"
  check_queue :: bool
  delay_counter :: nat
  active_transaction :: Transaction
  active_transaction_flag :: bool
  pending_count :: int
  dram_pending_set :: "nat set"
  max_dram_pending :: nat
  pending_pages_max :: nat
  trans_queue_max :: nat
  trans_queue_size :: nat
  trans_queue :: "Transaction list"
  dram_queue :: "Transaction list"
  flash_queue :: "Transaction list"
  prefetch_access_number :: "(nat, nat list) umap"
  prefetch_flush_addr :: "(nat, nat list) umap"
  prefetch_new_addr :: "(nat, nat list) umap"
  prefetch_counter :: "(nat, nat) umap"
  tlb_base_set :: "(nat, nat) umap"
  tlb_misses :: nat
  tlb_hits :: nat
  total_prefetches :: nat
  unused_prefetches :: nat
  unused_prefetch_victims :: nat
  prefetch_hit_nops :: nat
  prefetch_cheat_count :: nat
  one_miss_table :: "(nat \<times> nat) list"
  stream_buffers :: "(nat, nat) umap"
  unique_one_misses :: nat
  unique_stream_buffers :: nat
  stream_buffer_hits :: nat
  prefetch_cheat_map :: "(nat, nat) umap"
  done_calls :: "done_call list"

section \<open>Callbacks to the user\<close>

definition RegisterCallbacks :: "bool \<Rightarrow> bool \<Rightarrow> hs \<Rightarrow> hs" where
  "RegisterCallbacks readDone writeDone s = s\<lparr>ReadDone := readDone, WriteDone := writeDone\<rparr>"

definition callback_addr :: "hs_cfg \<Rightarrow> nat \<Rightarrow> nat" where
  "callback_addr c orig_addr =
     (if REMAP_MMIO c \<and> THREEPOINTFIVEGB \<le> orig_addr then u64 (orig_addr + HALFGB) else orig_addr)"

definition ReadDoneCallback :: "nat \<Rightarrow> nat \<Rightarrow> nat \<Rightarrow> hs \<Rightarrow> hs" where
  "ReadDoneCallback sysID orig_addr cycle s =
     (if ReadDone s
      then s\<lparr>done_calls := done_calls s @ [(False, sysID, callback_addr (cfg s) orig_addr, cycle)]\<rparr>
      else s)"

definition WriteDoneCallback :: "nat \<Rightarrow> nat \<Rightarrow> nat \<Rightarrow> hs \<Rightarrow> hs" where
  "WriteDoneCallback sysID orig_addr cycle s =
     (if WriteDone s
      then s\<lparr>done_calls := done_calls s @ [(True, sysID, callback_addr (cfg s) orig_addr, cycle)]\<rparr>
      else s)"

section \<open>The transaction queue\<close>

definition push_front_transaction :: "TransactionType \<Rightarrow> nat \<Rightarrow> hs \<Rightarrow> hs" where
  "push_front_transaction ty addr s =
     s\<lparr>trans_queue := mkTransaction ty addr # trans_queue s,
       trans_queue_size := u64 (trans_queue_size s + 1),
       pending_count := pending_count s + 1,
       check_queue := True\<rparr>"

definition addPrefetch :: "nat \<Rightarrow> hs \<Rightarrow> hs" where
  "addPrefetch prefetch_addr s = push_front_transaction PREFETCH prefetch_addr s"

definition addFlush :: "nat \<Rightarrow> hs \<Rightarrow> hs" where
  "addFlush flush_addr s = push_front_transaction FLUSH flush_addr s"

definition addSync :: "nat \<Rightarrow> hs \<Rightarrow> hs" where
  "addSync addr s = push_front_transaction SYNC addr s"

definition addSyncCounter :: "nat \<Rightarrow> bool \<Rightarrow> hs \<Rightarrow> hs" where
  "addSyncCounter addr initial s =
     (if initial
      then s\<lparr>trans_queue := trans_queue s @ [mkTransaction SYNC_ALL_COUNTER addr],
             trans_queue_size := u64 (trans_queue_size s + 1),
             pending_count := pending_count s + 1,
             check_queue := True\<rparr>
      else push_front_transaction SYNC_ALL_COUNTER addr s)"

definition syncAll :: "hs \<Rightarrow> hs" where
  "syncAll s = addSyncCounter 0 True s"

text \<open>
  A transaction in the range of the memory-mapped devices is answered at once with its own
  address; one above 4 GB is moved down by half a gigabyte.
\<close>

definition addTransaction :: "Transaction \<Rightarrow> hs \<Rightarrow> herr + hs" where
  "addTransaction tr s =
     (let c = cfg s; a = address tr in
      if REMAP_MMIO c \<and> THREEPOINTFIVEGB \<le> a \<and> a < FOURGB then
        (case transactionType tr of
           DATA_READ \<Rightarrow>
             Inr (if ReadDone s
                  then s\<lparr>done_calls := done_calls s @ [(False, systemID s, a, currentClockCycle s)]\<rparr>
                  else s)
         | DATA_WRITE \<Rightarrow>
             Inr (if WriteDone s
                  then s\<lparr>done_calls := done_calls s @ [(True, systemID s, a, currentClockCycle s)]\<rparr>
                  else s)
         | _ \<Rightarrow> Inl Bad_Transaction_Type)
      else
        let a' = (if REMAP_MMIO c \<and> FOURGB \<le> a then u64_sub a HALFGB else a);
            s' = s\<lparr>pending_count := pending_count s + 1,
                   trans_queue := trans_queue s @ [tr\<lparr>address := a'\<rparr>],
                   trans_queue_size := u64 (trans_queue_size s + 1)\<rparr>
        in if transactionType tr = PREFETCH \<or> transactionType tr = FLUSH
           then Inl Bad_Transaction_Type
           else Inr (s'\<lparr>check_queue := True\<rparr>))"

definition addTransaction_rw :: "bool \<Rightarrow> nat \<Rightarrow> hs \<Rightarrow> herr + hs" where
  "addTransaction_rw isWrite addr s =
     addTransaction (mkTransaction (if isWrite then DATA_WRITE else DATA_READ) addr) s"

definition WillAcceptTransaction :: "hs \<Rightarrow> bool" where
  "WillAcceptTransaction s = True"

section \<open>Page contention\<close>

definition contention_lock :: "nat \<Rightarrow> hs \<Rightarrow> hs" where
  "contention_lock flash_addr s =
     s\<lparr>pending_flash_addr := um_put flash_addr 0 (pending_flash_addr s)\<rparr>"

definition contention_page_lock :: "nat \<Rightarrow> hs \<Rightarrow> hs" where
  "contention_page_lock flash_addr s =
     s\<lparr>pending_pages := um_put (PAGE_ADDRESS (cfg s) flash_addr) 0 (pending_pages s)\<rparr>"

definition contention_increment :: "nat \<Rightarrow> hs \<Rightarrow> hs" where
  "contention_increment flash_addr s =
     (let page_addr = PAGE_ADDRESS (cfg s) flash_addr in
      s\<lparr>pending_pages := um_put page_addr (u64 (um_at 0 (pending_pages s) page_addr + 1)) (pending_pages s)\<rparr>)"

definition contention_decrement :: "nat \<Rightarrow> hs \<Rightarrow> hs" where
  "contention_decrement flash_addr s =
     (let page_addr = PAGE_ADDRESS (cfg s) flash_addr in
      s\<lparr>pending_pages := um_put page_addr (u64_sub (um_at 0 (pending_pages s) page_addr) 1) (pending_pages s)\<rparr>)"

definition contention_victim_lock :: "nat \<Rightarrow> hs \<Rightarrow> hs" where
  "contention_victim_lock page_addr s = s\<lparr>pending_pages := um_put page_addr 0 (pending_pages s)\<rparr>"

definition contention_victim_unlock :: "nat \<Rightarrow> hs \<Rightarrow> herr + hs" where
  "contention_victim_unlock page_addr s =
     (if um_has (pending_pages s) page_addr
      then Inr (s\<lparr>pending_pages := um_del page_addr (pending_pages s)\<rparr>)
      else Inl Not_Locked_Victim)"

definition contention_cache_line_lock :: "nat \<Rightarrow> hs \<Rightarrow> hs" where
  "contention_cache_line_lock cache_addr s =
     (let cur_line = um_at new_line (cache s) cache_addr;
          cur_line' = cur_line\<lparr>cl_locked := True, cl_lock_count := u64 (cl_lock_count cur_line + 1)\<rparr>;
          set_index = SET_INDEX (cfg s) cache_addr
      in s\<lparr>cache := um_put cache_addr cur_line' (cache s),
           set_counter := (if um_has (set_counter s) set_index
              then um_put set_index (u64 (um_at 0 (set_counter s) set_index + 1)) (set_counter s)
              else um_put set_index 1 (set_counter s))\<rparr>)"

text \<open>The assertion \<open>lock_count >= 0\<close> is vacuous on an unsigned counter and is left out.\<close>

definition contention_cache_line_unlock :: "nat \<Rightarrow> hs \<Rightarrow> hs" where
  "contention_cache_line_unlock cache_addr s =
     (let cur_line = um_at new_line (cache s) cache_addr;
          n = u64_sub (cl_lock_count cur_line) 1;
          cur_line' = cur_line\<lparr>cl_lock_count := n,
                               cl_locked := (if n = 0 then False else cl_locked cur_line)\<rparr>;
          set_index = SET_INDEX (cfg s) cache_addr
      in s\<lparr>cache := um_put cache_addr cur_line' (cache s),
           set_counter := um_put set_index (u64_sub (um_at 0 (set_counter s) set_index) 1) (set_counter s)\<rparr>)"

definition contention_unlock :: "nat \<Rightarrow> bool \<Rightarrow> nat \<Rightarrow> bool \<Rightarrow> nat \<Rightarrow> hs \<Rightarrow> herr + hs" where
  "contention_unlock flash_addr victim_valid victim_page cache_line_valid cache_addr s =
     (let page_addr = PAGE_ADDRESS (cfg s) flash_addr in
      if \<not> um_has (pending_pages s) page_addr then
        bindR (assertR Not_Pending_Flash_Addr (um_has (pending_flash_addr s) flash_addr)
                 (s\<lparr>pending_flash_addr := um_del flash_addr (pending_flash_addr s)\<rparr>)) (\<lambda>s1.
        bindR (assertR Victim_On_Hit (\<not> victim_valid) s1) (\<lambda>s2.
        let s3 = (if cache_line_valid then contention_cache_line_unlock cache_addr s2 else s2)
        in Inr (s3\<lparr>check_queue := True, pending_count := pending_count s3 - 1\<rparr>)))
      else if um_at 0 (pending_pages s) page_addr = 0 then
        (let s1 = s\<lparr>pending_pages := um_del page_addr (pending_pages s)\<rparr> in
         bindR (assertR Not_Pending_Flash_Addr (um_has (pending_flash_addr s1) flash_addr)
                  (s1\<lparr>pending_flash_addr := um_del flash_addr (pending_flash_addr s1)\<rparr>)) (\<lambda>s2.
         bindR (if victim_valid then contention_victim_unlock victim_page s2 else Inr s2) (\<lambda>s3.
         let s4 = (if cache_line_valid then contention_cache_line_unlock cache_addr s3 else s3)
         in Inr (s4\<lparr>check_queue := True, pending_count := pending_count s4 - 1\<rparr>))))
      else Inr s)"

definition contention_is_unlocked :: "nat \<Rightarrow> hs \<Rightarrow> bool" where
  "contention_is_unlocked flash_addr s =
     (let page_addr = PAGE_ADDRESS (cfg s) flash_addr;
          set_index = SET_INDEX (cfg s) page_addr in
      if um_has (set_counter s) set_index \<and> um_at 0 (set_counter s) set_index = SET_SIZE (cfg s)
      then False
      else \<not> um_has (pending_pages s) page_addr \<and> \<not> um_has (pending_flash_addr s) flash_addr)"

section \<open>TLB\<close>

text \<open>The entry with the smallest time stamp, the first one on a tie.\<close>

fun tlb_oldest :: "nat \<Rightarrow> nat \<Rightarrow> (nat \<times> nat) list \<Rightarrow> nat" where
  "tlb_oldest victim ts [] = victim"
| "tlb_oldest victim ts ((a, cur_ts) # rest) =
     (if cur_ts < ts then tlb_oldest a cur_ts rest else tlb_oldest victim ts rest)"

definition tlb_victim :: "(nat \<times> nat) list \<Rightarrow> nat" where
  "tlb_victim m = (case m of [] \<Rightarrow> 0 | (a, ts) # _ \<Rightarrow> tlb_oldest a ts m)"

definition check_tlb :: "nat \<Rightarrow> hs \<Rightarrow> herr + hs" where
  "check_tlb page_addr s =
     (let c = cfg s; base = TLB_BASE_ADDRESS c page_addr in
      if TLB_SIZE c = 0 then Inr s
      else if \<not> um_has (tlb_base_set s) base then
        let s1 = s\<lparr>tlb_misses := u64 (tlb_misses s + 1)\<rparr>;
            s2 = (if length (tlb_base_set s1) = TLB_MAX_ENTRIES c
                  then s1\<lparr>tlb_base_set := um_del (tlb_victim (tlb_base_set s1)) (tlb_base_set s1)\<rparr>
                  else s1)
        in if length (tlb_base_set s2) < TLB_MAX_ENTRIES c
           then Inr (s2\<lparr>tlb_base_set := um_put base (currentClockCycle s2) (tlb_base_set s2),
                        delay_counter := u64 (delay_counter s2 + TLB_MISS_DELAY c)\<rparr>)
           else Inl Tlb_Full
      else Inr (s\<lparr>tlb_hits := u64 (tlb_hits s + 1),
                  tlb_base_set := um_put base (currentClockCycle s) (tlb_base_set s)\<rparr>))"

section \<open>Prefetching\<close>

text \<open>
  Prefetches of the pages at distance \<open>n\<close>, ..., 1 above an address, farthest first, so that
  the nearest page ends up at the front of the queue.
\<close>

fun issue_prefetches :: "nat \<Rightarrow> nat \<Rightarrow> hs \<Rightarrow> hs" where
  "issue_prefetches page_addr 0 s = s"
| "issue_prefetches page_addr (Suc i) s =
     (let prefetch_address = u64 (page_addr + Suc i * PAGE_SIZE (cfg s)) in
      issue_prefetches page_addr i
        (if u64 (TOTAL_PAGES (cfg s) * PAGE_SIZE (cfg s)) \<le> prefetch_address then s
         else addPrefetch prefetch_address s))"

definition issue_sequential_prefetches :: "nat \<Rightarrow> hs \<Rightarrow> hs" where
  "issue_sequential_prefetches page_addr s =
     issue_prefetches page_addr (SEQUENTIAL_PREFETCHING_WINDOW (cfg s)) s"

section \<open>Stream buffers\<close>

text \<open>
  The scan of the one-miss table. An entry for the missed page itself is erased and the
  iterator, which then stands on the next entry, is advanced once more by the loop: the
  next entry is skipped, and behind the last entry the increment is undefined. An entry for
  the page before ends the scan.
\<close>

datatype scan_result = Stream_Found "(nat \<times> nat) list" | No_Stream "(nat \<times> nat) list" | Scan_Past_End

fun one_miss_scan :: "nat \<Rightarrow> nat \<Rightarrow> (nat \<times> nat) list \<Rightarrow> (nat \<times> nat) list \<Rightarrow> scan_result" where
  "one_miss_scan miss_page prior_page pre [] = No_Stream pre"
| "one_miss_scan miss_page prior_page pre [e] =
     (if fst e = miss_page then Scan_Past_End
      else if fst e = prior_page then Stream_Found pre
      else No_Stream (pre @ [e]))"
| "one_miss_scan miss_page prior_page pre (e # e2 # rest) =
     (if fst e = miss_page then one_miss_scan miss_page prior_page (pre @ [e2]) rest
      else if fst e = prior_page then Stream_Found (pre @ e2 # rest)
      else one_miss_scan miss_page prior_page (pre @ [e]) (e2 # rest))"

fun stream_oldest :: "nat \<Rightarrow> nat \<Rightarrow> (nat \<times> nat) list \<Rightarrow> nat" where
  "stream_oldest oldest_key oldest_cycle [] = oldest_key"
| "stream_oldest oldest_key oldest_cycle ((a, cyc) # rest) =
     (if cyc < oldest_cycle then stream_oldest a cyc rest
      else stream_oldest oldest_key oldest_cycle rest)"

definition new_stream_buffer :: "nat \<Rightarrow> hs \<Rightarrow> hs" where
  "new_stream_buffer next_page s =
     (let sb = um_put next_page (currentClockCycle s) (stream_buffers s) in
      s\<lparr>stream_buffers :=
          (if NUM_STREAM_BUFFERS (cfg s) < length sb
           then um_del (stream_oldest 0 (currentClockCycle s) sb) sb else sb),
        unique_stream_buffers := u64 (unique_stream_buffers s + 1)\<rparr>)"

definition trim_one_miss_table :: "hs \<Rightarrow> hs" where
  "trim_one_miss_table s =
     (if ONE_MISS_TABLE_SIZE (cfg s) < length (one_miss_table s)
      then s\<lparr>one_miss_table := tl (one_miss_table s)\<rparr> else s)"

definition stream_buffer_miss_handler :: "nat \<Rightarrow> hs \<Rightarrow> herr + hs" where
  "stream_buffer_miss_handler miss_page s =
     (let c = cfg s in
      if miss_page = 0 \<or> miss_page = u64 (u64_sub (TOTAL_PAGES c) 1 * PAGE_SIZE c) then Inr s
      else
        (let prior_page = u64_sub miss_page (PAGE_SIZE c);
             next_page = u64 (miss_page + PAGE_SIZE c) in
         case one_miss_scan miss_page prior_page [] (one_miss_table s) of
           Stream_Found table \<Rightarrow>
             Inr (trim_one_miss_table
               (issue_prefetches miss_page (STREAM_BUFFER_LENGTH c)
                  (new_stream_buffer next_page (s\<lparr>one_miss_table := table\<rparr>))))
         | No_Stream table \<Rightarrow>
             Inr (trim_one_miss_table
               (s\<lparr>one_miss_table := table @ [(miss_page, currentClockCycle s)],
                  unique_one_misses := u64 (unique_one_misses s + 1)\<rparr>))
         | Scan_Past_End \<Rightarrow> Inl Iterator_Past_End))"

definition stream_buffer_hit_handler :: "nat \<Rightarrow> hs \<Rightarrow> hs" where
  "stream_buffer_hit_handler hit_page s =
     (if um_has (stream_buffers s) hit_page then
        let c = cfg s;
            next_page = u64 (hit_page + PAGE_SIZE c);
            prefetch_address = u64 (hit_page + STREAM_BUFFER_LENGTH c * PAGE_SIZE c);
            s1 = s\<lparr>stream_buffer_hits := u64 (stream_buffer_hits s + 1),
                   stream_buffers := um_del hit_page (stream_buffers s)\<rparr>
        in if prefetch_address < u64 (TOTAL_PAGES c * PAGE_SIZE c)
           then (let s2 = addPrefetch prefetch_address s1 in
                 s2\<lparr>stream_buffers := um_put next_page (currentClockCycle s2) (stream_buffers s2)\<rparr>)
           else s1
      else s)"

end
