(* ===== verification/Hybrid_Ops.thy ===== *)
theory Hybrid_Ops
  imports Hybrid_State
begin

text \<open>
  The operations of the hybrid memory controller (\<open>src/HybridSim/HybridSystem.cpp\<close>): the
  processing of a transaction against the cache tag store, the page transfers between
  flash and DRAM, the callbacks from the two memories, the cycle function \<open>update\<close>, the
  device interface \<open>mmio\<close> and the saving and restoring of the tag store.
  The build has \<open>SINGLE_WORD\<close> off, so pages move in bursts.
\<close>

section \<open>Page transfers\<close>

definition burst_addrs :: "nat \<Rightarrow> nat \<Rightarrow> nat \<Rightarrow> nat list" where
  "burst_addrs base page_size burst = map (\<lambda>i. u64 (base + i * burst)) [0..<page_size div burst]"

definition dram_bursts :: "hs_cfg \<Rightarrow> nat \<Rightarrow> nat list" where
  "dram_bursts c base = burst_addrs base (PAGE_SIZE c) (BURST_SIZE c)"

definition flash_bursts :: "hs_cfg \<Rightarrow> nat \<Rightarrow> nat list" where
  "flash_bursts c base = burst_addrs base (PAGE_SIZE c) (FLASH_BURST_SIZE c)"

definition VictimRead :: "Pending \<Rightarrow> hs \<Rightarrow> herr + hs" where
  "VictimRead p s =
     (let s1 = contention_increment (p_flash_addr p) s;
          addrs = dram_bursts (cfg s) (p_cache_addr p);
          s2 = s1\<lparr>dram_pending_wait := um_put (p_cache_addr p) (set addrs) (dram_pending_wait s1),
                  dram_queue := dram_queue s1 @ map (mkTransaction DATA_READ) addrs\<rparr>
      in if um_has (dram_pending s2) (p_cache_addr p) then Inl Dram_Pending_Twice
         else Inr (s2\<lparr>dram_pending :=
                        um_put (p_cache_addr p) (p\<lparr>p_op := VICTIM_READ\<rparr>) (dram_pending s2)\<rparr>))"

definition VictimWrite :: "Pending \<Rightarrow> hs \<Rightarrow> hs" where
  "VictimWrite p s =
     (let victim_flash_addr =
            u64 ((p_victim_tag p * NUM_SETS (cfg s) + SET_INDEX (cfg s) (p_flash_addr p)) * PAGE_SIZE (cfg s))
      in s\<lparr>flash_queue := flash_queue s @
             map (mkTransaction DATA_WRITE) (flash_bursts (cfg s) victim_flash_addr)\<rparr>)"

definition VictimReadFinish :: "nat \<Rightarrow> Pending \<Rightarrow> hs \<Rightarrow> herr + hs" where
  "VictimReadFinish addr p s =
     (let cache_page_addr = p_cache_addr p;
          wait = um_at {} (dram_pending_wait s) cache_page_addr - {addr};
          s1 = s\<lparr>dram_pending_wait := um_put cache_page_addr wait (dram_pending_wait s)\<rparr>
      in if wait \<noteq> {} then
           Inr (s1\<lparr>dram_pending := um_put cache_page_addr p (dram_pending s1),
                   dram_pending_set := dram_pending_set s1 - {addr}\<rparr>)
         else
           let s2 = s1\<lparr>dram_pending_wait := um_del cache_page_addr (dram_pending_wait s1)\<rparr>;
               s3 = contention_decrement (p_flash_addr p) s2;
               victim_address = FLASH_ADDRESS (cfg s) (p_victim_tag p) (SET_INDEX (cfg s) (p_cache_addr p))
           in bindR (contention_unlock (p_flash_addr p) (p_victim_valid p) victim_address True (p_cache_addr p) s3)
                (\<lambda>s4. Inr (VictimWrite p s4)))"

definition LineRead :: "Pending \<Rightarrow> hs \<Rightarrow> hs" where
  "LineRead p s =
     (let page_addr = PAGE_ADDRESS (cfg s) (p_flash_addr p);
          s1 = contention_increment (p_flash_addr p) s;
          addrs = flash_bursts (cfg s) page_addr
      in s1\<lparr>flash_pending_wait := um_put page_addr (set addrs) (flash_pending_wait s1),
            flash_queue := flash_queue s1 @ map (mkTransaction DATA_READ) addrs,
            flash_pending := um_put page_addr (p\<lparr>p_op := LINE_READ\<rparr>) (flash_pending s1)\<rparr>)"

definition LineWrite :: "Pending \<Rightarrow> hs \<Rightarrow> hs" where
  "LineWrite p s =
     s\<lparr>dram_queue := dram_queue s @
         map (mkTransaction DATA_WRITE) (dram_bursts (cfg s) (p_cache_addr p))\<rparr>"

section \<open>Accesses to cached lines\<close>

definition line_used :: "cache_line \<Rightarrow> hs \<Rightarrow> hs" where
  "line_used cur_line s =
     (if cl_prefetched cur_line \<and> \<not> cl_used cur_line
      then s\<lparr>unused_prefetches := u64_sub (unused_prefetches s) 1\<rparr> else s)"

definition CacheRead :: "nat \<Rightarrow> nat \<Rightarrow> nat \<Rightarrow> hs \<Rightarrow> herr + hs" where
  "CacheRead orig_addr flash_addr cache_addr s =
     (let c = cfg s; data_addr = u64 (cache_addr + PAGE_OFFSET c flash_addr) in
      bindR (assertR Cache_Address_Mismatch (cache_addr = PAGE_ADDRESS c data_addr) s) (\<lambda>s0.
      let s1 = s0\<lparr>dram_queue := dram_queue s0 @ [mkTransaction DATA_READ data_addr]\<rparr>;
          cur_line = um_at new_line (cache s1) cache_addr;
          s2 = line_used cur_line s1;
          s3 = s2\<lparr>cache := um_put cache_addr
                     (cur_line\<lparr>cl_ts := currentClockCycle s, cl_used := True\<rparr>) (cache s2)\<rparr>;
          p = \<lparr>p_op = CACHE_READ, p_orig_addr = orig_addr, p_flash_addr = flash_addr,
               p_cache_addr = cache_addr, p_victim_tag = 0, p_victim_valid = False,
               p_callback_sent = False, p_type = DATA_READ\<rparr>
      in if um_has (dram_pending s3) data_addr then Inl Dram_Pending_Twice
         else Inr (s3\<lparr>dram_pending := um_put data_addr p (dram_pending s3)\<rparr>)))"

definition CacheReadFinish :: "Pending \<Rightarrow> hs \<Rightarrow> herr + hs" where
  "CacheReadFinish p s =
     (let s1 = (if \<not> p_callback_sent p
                then ReadDoneCallback (systemID s) (p_orig_addr p) (currentClockCycle s) s else s);
          victim_address = FLASH_ADDRESS (cfg s) (p_victim_tag p) (SET_INDEX (cfg s) (p_cache_addr p))
      in contention_unlock (p_flash_addr p) (p_victim_valid p) victim_address True (p_cache_addr p) s1)"

definition CacheWriteFinish :: "Pending \<Rightarrow> hs \<Rightarrow> herr + hs" where
  "CacheWriteFinish p s =
     (let cur_line = um_at new_line (cache s) (p_cache_addr p);
          s1 = line_used cur_line s;
          s2 = s1\<lparr>cache := um_put (p_cache_addr p)
                     (cur_line\<lparr>cl_dirty := True, cl_valid := True, cl_used := True,
                               cl_ts := currentClockCycle s\<rparr>) (cache s1)\<rparr>;
          s3 = (if \<not> p_callback_sent p
                then WriteDoneCallback (systemID s) (p_orig_addr p) (currentClockCycle s) s2 else s2);
          victim_address = FLASH_ADDRESS (cfg s) (p_victim_tag p) (SET_INDEX (cfg s) (p_cache_addr p))
      in contention_unlock (p_flash_addr p) (p_victim_valid p) victim_address True (p_cache_addr p) s3)"

definition CacheWrite :: "nat \<Rightarrow> nat \<Rightarrow> nat \<Rightarrow> hs \<Rightarrow> herr + hs" where
  "CacheWrite orig_addr flash_addr cache_addr s =
     (let data_addr = u64 (cache_addr + PAGE_OFFSET (cfg s) flash_addr);
          s1 = s\<lparr>dram_queue := dram_queue s @ [mkTransaction DATA_WRITE data_addr]\<rparr>;
          p = \<lparr>p_op = VICTIM_READ, p_orig_addr = orig_addr, p_flash_addr = flash_addr,
               p_cache_addr = cache_addr, p_victim_tag = 0, p_victim_valid = False,
               p_callback_sent = False, p_type = DATA_WRITE\<rparr>
      in CacheWriteFinish p s1)"

definition Flush :: "nat \<Rightarrow> hs \<Rightarrow> herr + hs" where
  "Flush cache_addr s =
     (let cur_line = um_at new_line (cache s) cache_addr;
          s1 = s\<lparr>cache := um_put cache_addr (cur_line\<lparr>cl_ts := 0\<rparr>) (cache s)\<rparr>;
          flash_address = FLASH_ADDRESS (cfg s) (cl_tag cur_line) (SET_INDEX (cfg s) cache_addr)
      in contention_unlock flash_address False 0 True cache_addr s1)"

definition fill_line :: "Pending \<Rightarrow> hs \<Rightarrow> hs" where
  "fill_line p s =
     (let cur_line = um_at new_line (cache s) (p_cache_addr p);
          cur_line' = cur_line\<lparr>cl_tag := TAG (cfg s) (p_flash_addr p), cl_dirty := False,
                               cl_valid := True, cl_ts := currentClockCycle s, cl_used := False,
                               cl_prefetched := (p_type p = PREFETCH)\<rparr>;
          s1 = s\<lparr>cache := um_put (p_cache_addr p) cur_line' (cache s)\<rparr>
      in if p_type p = PREFETCH
         then s1\<lparr>total_prefetches := u64 (total_prefetches s + 1),
                 unused_prefetches := u64 (unused_prefetches s + 1)\<rparr>
         else s1)"

definition LineReadFinish :: "nat \<Rightarrow> Pending \<Rightarrow> hs \<Rightarrow> herr + hs" where
  "LineReadFinish addr p s =
     (let page_addr = PAGE_ADDRESS (cfg s) (p_flash_addr p);
          wait = um_at {} (flash_pending_wait s) page_addr - {addr};
          s1 = s\<lparr>flash_pending_wait := um_put page_addr wait (flash_pending_wait s)\<rparr>
      in if wait \<noteq> {} then
           Inr (s1\<lparr>flash_pending := um_put (PAGE_ADDRESS (cfg s) addr) p (flash_pending s1)\<rparr>)
         else
           let s2 = s1\<lparr>flash_pending_wait := um_del page_addr (flash_pending_wait s1)\<rparr>;
               s3 = contention_decrement (p_flash_addr p) s2;
               s4 = fill_line p s3;
               s5 = LineWrite p s4;
               victim_address = FLASH_ADDRESS (cfg s) (p_victim_tag p) (SET_INDEX (cfg s) (p_cache_addr p))
           in (case p_type p of
                 DATA_READ \<Rightarrow> CacheReadFinish p s5
               | DATA_WRITE \<Rightarrow> CacheWriteFinish p s5
               | PREFETCH \<Rightarrow>
                   contention_unlock (p_flash_addr p) (p_victim_valid p) victim_address True (p_cache_addr p) s5
               | _ \<Rightarrow> Inr s5))"

section \<open>Synchronisation\<close>

text \<open>
  The line is read before it is locked and the copy, marked clean, is written back
  afterwards: the lock taken in between is lost from the line but stays in the set counter.
\<close>

definition sync :: "nat \<Rightarrow> nat \<Rightarrow> Transaction \<Rightarrow> hs \<Rightarrow> herr + hs" where
  "sync addr cache_address tr s =
     (let cur_line = um_at new_line (cache s) cache_address;
          victim_flash_addr = FLASH_ADDRESS (cfg s) (cl_tag cur_line) (SET_INDEX (cfg s) cache_address)
      in bindR (assertR Sync_Address_Mismatch (victim_flash_addr = addr) s) (\<lambda>s0.
         let s1 = contention_cache_line_lock cache_address s0;
             p = \<lparr>p_op = VICTIM_READ, p_orig_addr = address tr, p_flash_addr = addr,
                  p_cache_addr = cache_address, p_victim_tag = cl_tag cur_line, p_victim_valid = False,
                  p_callback_sent = False, p_type = transactionType tr\<rparr>
         in bindR (assertR Sync_Clean_Line (cl_dirty cur_line) s1) (\<lambda>s2.
            bindR (VictimRead p s2) (\<lambda>s3.
            Inr (s3\<lparr>cache := um_put cache_address (cur_line\<lparr>cl_dirty := False\<rparr>) (cache s3)\<rparr>)))))"

definition syncAllCounter :: "nat \<Rightarrow> hs \<Rightarrow> herr + hs" where
  "syncAllCounter addr s =
     (let c = cfg s; next_addr = u64 (addr + PAGE_SIZE c);
          s1 = (if next_addr < u64 (CACHE_PAGES c * PAGE_SIZE c) then addSyncCounter next_addr False s else s);
          s2 = (if um_has (cache s1) addr then s1 else s1\<lparr>cache := um_put addr new_line (cache s1)\<rparr>);
          cur_line = um_at new_line (cache s2) addr;
          s3 = (if cl_valid cur_line \<and> cl_dirty cur_line
                then addSync (FLASH_ADDRESS c (cl_tag cur_line) (SET_INDEX c addr)) s2 else s2)
      in contention_unlock addr False 0 False 0 s3)"

section \<open>Processing a transaction\<close>

text \<open>
  The search for a hit allocates the lines of the set that are missing from the table up to
  the line that hits.
\<close>

fun find_line :: "nat \<Rightarrow> nat list \<Rightarrow> (nat, cache_line) umap \<Rightarrow> nat option \<times> (nat, cache_line) umap" where
  "find_line t [] m = (None, m)"
| "find_line t (cur_address # rest) m =
     (let m' = (if um_has m cur_address then m else um_put cur_address new_line m);
          cur_line = um_at new_line m' cur_address
      in if cl_valid cur_line \<and> cl_tag cur_line = t then (Some cur_address, m')
         else find_line t rest m')"

text \<open>The victim: the unlocked line with the smallest time stamp, the first one on a tie.\<close>

fun victim_scan :: "(nat, cache_line) umap \<Rightarrow> nat list \<Rightarrow> nat \<Rightarrow> nat \<Rightarrow> bool \<Rightarrow> nat" where
  "victim_scan m [] victim min_ts min_init = victim"
| "victim_scan m (cur_address # rest) victim min_ts min_init =
     (let cur_line = um_at new_line m cur_address in
      if (cl_ts cur_line < min_ts \<or> \<not> min_init) \<and> \<not> cl_locked cur_line
      then victim_scan m rest cur_address (cl_ts cur_line) True
      else victim_scan m rest victim min_ts min_init)"

definition select_victim :: "(nat, cache_line) umap \<Rightarrow> nat list \<Rightarrow> nat" where
  "select_victim m addrs = victim_scan m addrs (hd addrs) 18446744073709551615 False"

definition perfect_prefetch :: "nat \<Rightarrow> hs \<Rightarrow> hs" where
  "perfect_prefetch set_index s =
     (let n = u64 (um_at 0 (prefetch_counter s) set_index + 1);
          s1 = s\<lparr>prefetch_counter := um_put set_index n (prefetch_counter s)\<rparr>
      in case um_at [] (prefetch_access_number s1) set_index of
           [] \<Rightarrow> s1
         | acc # accs \<Rightarrow>
             if acc < n then
               let s2 = addPrefetch (hd (um_at [] (prefetch_new_addr s1) set_index)) s1;
                   s3 = addFlush (hd (um_at [] (prefetch_flush_addr s2) set_index)) s2
               in s3\<lparr>prefetch_access_number := um_put set_index accs (prefetch_access_number s3),
                     prefetch_flush_addr := um_put set_index
                       (tl (um_at [] (prefetch_flush_addr s3) set_index)) (prefetch_flush_addr s3),
                     prefetch_new_addr := um_put set_index
                       (tl (um_at [] (prefetch_new_addr s3) set_index)) (prefetch_new_addr s3)\<rparr>
             else s1)"

definition is_data :: "TransactionType \<Rightarrow> bool" where
  "is_data ty = (ty = DATA_READ \<or> ty = DATA_WRITE)"

definition process_hit :: "Transaction \<Rightarrow> nat \<Rightarrow> nat \<Rightarrow> hs \<Rightarrow> herr + hs" where
  "process_hit tr addr cache_address s =
     (let s1 = contention_cache_line_lock cache_address s;
          s2 = (if ENABLE_STREAM_BUFFER (cfg s) \<and> is_data (transactionType tr)
                then stream_buffer_hit_handler (PAGE_ADDRESS (cfg s) addr) s1 else s1)
      in case transactionType tr of
           DATA_READ \<Rightarrow> CacheRead (address tr) addr cache_address s2
         | DATA_WRITE \<Rightarrow> CacheWrite (address tr) addr cache_address s2
         | FLUSH \<Rightarrow> Flush cache_address s2
         | PREFETCH \<Rightarrow>
             bindR (contention_unlock addr False 0 True cache_address s2)
               (\<lambda>s3. Inr (s3\<lparr>prefetch_hit_nops := u64 (prefetch_hit_nops s3 + 1)\<rparr>))
         | SYNC \<Rightarrow> sync addr cache_address tr s2
         | SYNC_ALL_COUNTER \<Rightarrow> Inl Bad_Transaction_Type)"

text \<open>A cheating prefetch fills the line at once, without any transfer.\<close>

definition cheat_fill :: "nat \<Rightarrow> nat \<Rightarrow> hs \<Rightarrow> herr + hs" where
  "cheat_fill addr cache_address s =
     (let c = cfg s; page_address = PAGE_ADDRESS c addr;
          cur_line = um_at new_line (cache s) cache_address;
          n = u64_sub (um_at 0 (prefetch_cheat_map s) page_address) 1;
          s1 = s\<lparr>prefetch_cheat_map := (if n = 0 then um_del page_address (prefetch_cheat_map s)
                    else um_put page_address n (prefetch_cheat_map s)),
                 total_prefetches := u64 (total_prefetches s + 1),
                 unused_prefetches := u64 (unused_prefetches s + 1),
                 prefetch_cheat_count := u64 (prefetch_cheat_count s + 1),
                 cache := um_put cache_address
                   (cur_line\<lparr>cl_tag := TAG c page_address, cl_dirty := False, cl_valid := True,
                             cl_ts := currentClockCycle s, cl_used := False, cl_prefetched := True\<rparr>)
                   (cache s)\<rparr>
      in contention_unlock addr False 0 False 0 s1)"

definition start_miss :: "Transaction \<Rightarrow> nat \<Rightarrow> nat \<Rightarrow> hs \<Rightarrow> herr + hs" where
  "start_miss tr addr cache_address s =
     (let c = cfg s;
          cur_line = um_at new_line (cache s) cache_address;
          victim_flash_addr = FLASH_ADDRESS c (cl_tag cur_line) (SET_INDEX c addr);
          s1 = (if cl_valid cur_line then contention_victim_lock victim_flash_addr s else s);
          s2 = contention_cache_line_lock cache_address s1;
          p = \<lparr>p_op = VICTIM_READ, p_orig_addr = address tr, p_flash_addr = addr,
               p_cache_addr = cache_address, p_victim_tag = cl_tag cur_line,
               p_victim_valid = cl_valid cur_line, p_callback_sent = False,
               p_type = transactionType tr\<rparr>;
          s3 = LineRead p s2
      in if cl_dirty cur_line then VictimRead p s3 else Inr s3)"

definition process_miss :: "Transaction \<Rightarrow> nat \<Rightarrow> hs \<Rightarrow> herr + hs" where
  "process_miss tr addr s =
     (let c = cfg s; ty = transactionType tr; s1 = contention_page_lock addr s in
      if ty = FLUSH then contention_unlock addr False 0 False 0 s1
      else if ty = SYNC then Inl Sync_Miss
      else
        let s2 = (if 0 < SEQUENTIAL_PREFETCHING_WINDOW c \<and> ty \<noteq> PREFETCH
                  then issue_sequential_prefetches addr s1 else s1)
        in bindR (if ENABLE_STREAM_BUFFER c \<and> ty \<noteq> PREFETCH
                  then stream_buffer_miss_handler (PAGE_ADDRESS c addr) s2 else Inr s2) (\<lambda>s3.
           let cache_address = select_victim (cache s3) (set_address_list c (SET_INDEX c addr));
               cur_line = um_at new_line (cache s3) cache_address;
               s4 = (if cl_prefetched cur_line \<and> \<not> cl_used cur_line
                     then s3\<lparr>unused_prefetches := u64_sub (unused_prefetches s3) 1,
                             unused_prefetch_victims := u64 (unused_prefetch_victims s3 + 1)\<rparr>
                     else s3)
           in if ty = PREFETCH \<and> um_has (prefetch_cheat_map s4) (PAGE_ADDRESS c addr)
              then cheat_fill addr cache_address s4
              else start_miss tr addr cache_address s4))"

definition ProcessTransaction :: "Transaction \<Rightarrow> hs \<Rightarrow> herr + hs" where
  "ProcessTransaction tr s =
     (let c = cfg s; addr = ALIGN c (address tr) in
      if transactionType tr = SYNC_ALL_COUNTER then syncAllCounter addr s
      else if u64 (TOTAL_PAGES c * PAGE_SIZE c) \<le> addr then Inl Address_Out_Of_Bounds
      else
        let set_index = SET_INDEX c addr;
            (hit, cache') = find_line (TAG c addr) (set_address_list c set_index) (cache s);
            s1 = s\<lparr>cache := cache'\<rparr>;
            s2 = (if ENABLE_PERFECT_PREFETCHING c \<and> is_data (transactionType tr)
                  then perfect_prefetch set_index s1 else s1)
        in case hit of
             Some cache_address \<Rightarrow> process_hit tr addr cache_address s2
           | None \<Rightarrow> process_miss tr addr s2)"

section \<open>Callbacks from the memories\<close>

definition DRAMReadCallback :: "nat \<Rightarrow> hs \<Rightarrow> herr + hs" where
  "DRAMReadCallback addr s =
     (let pending_addr = (if um_has (dram_pending_wait s) (PAGE_ADDRESS (cfg s) addr)
                          then PAGE_ADDRESS (cfg s) addr else addr)
      in case um_get (dram_pending s) pending_addr of
           None \<Rightarrow> Inl Dram_Address_Not_Pending
         | Some p \<Rightarrow>
             let s1 = s\<lparr>dram_pending := um_del pending_addr (dram_pending s)\<rparr> in
             bindR (case p_op p of
                      VICTIM_READ \<Rightarrow> VictimReadFinish addr p s1
                    | CACHE_READ \<Rightarrow> CacheReadFinish p s1
                    | _ \<Rightarrow> Inl Invalid_Dram_Op)
               (\<lambda>s2. Inr (s2\<lparr>dram_pending_set := dram_pending_set s2 - {addr}\<rparr>)))"

definition DRAMWriteCallback :: "nat \<Rightarrow> hs \<Rightarrow> hs" where
  "DRAMWriteCallback addr s = s\<lparr>dram_pending_set := dram_pending_set s - {addr}\<rparr>"

definition FlashReadCallback :: "nat \<Rightarrow> hs \<Rightarrow> herr + hs" where
  "FlashReadCallback addr s =
     (let page_addr = PAGE_ADDRESS (cfg s) addr in
      case um_get (flash_pending s) page_addr of
        None \<Rightarrow> Inl Flash_Address_Not_Pending
      | Some p \<Rightarrow>
          let s1 = s\<lparr>flash_pending := um_del page_addr (flash_pending s)\<rparr> in
          if p_op p = LINE_READ then LineReadFinish addr p s1 else Inl Invalid_Flash_Op)"

definition FlashCriticalLineCallback :: "nat \<Rightarrow> hs \<Rightarrow> herr + hs" where
  "FlashCriticalLineCallback addr s =
     (let page_addr = PAGE_ADDRESS (cfg s) addr in
      case um_get (flash_pending s) page_addr of
        None \<Rightarrow> Inl Flash_Address_Not_Pending
      | Some p \<Rightarrow>
          if p_op p = LINE_READ then
            if p_callback_sent p then Inl Critical_Line_Twice
            else
              let s1 = (case p_type p of
                          DATA_READ \<Rightarrow> ReadDoneCallback (systemID s) (p_orig_addr p) (currentClockCycle s) s
                        | DATA_WRITE \<Rightarrow> WriteDoneCallback (systemID s) (p_orig_addr p) (currentClockCycle s) s
                        | _ \<Rightarrow> s)
              in Inr (s1\<lparr>flash_pending := um_put page_addr (p\<lparr>p_callback_sent := True\<rparr>) (flash_pending s1)\<rparr>)
          else Inl Invalid_Flash_Op)"

definition FlashWriteCallback :: "nat \<Rightarrow> hs \<Rightarrow> hs" where
  "FlashWriteCallback addr s = s"

datatype mem_cb = DRAM_Read_CB nat | DRAM_Write_CB nat | Flash_Read_CB nat | Flash_Crit_CB nat | Flash_Write_CB nat

fun run_cb :: "mem_cb \<Rightarrow> hs \<Rightarrow> herr + hs" where
  "run_cb (DRAM_Read_CB a) s = DRAMReadCallback a s"
| "run_cb (DRAM_Write_CB a) s = Inr (DRAMWriteCallback a s)"
| "run_cb (Flash_Read_CB a) s = FlashReadCallback a s"
| "run_cb (Flash_Crit_CB a) s = FlashCriticalLineCallback a s"
| "run_cb (Flash_Write_CB a) s = Inr (FlashWriteCallback a s)"

fun run_cbs :: "mem_cb list \<Rightarrow> hs \<Rightarrow> herr + hs" where
  "run_cbs [] s = Inr s"
| "run_cbs (cb # cbs) s = bindR (run_cb cb s) (run_cbs cbs)"

section \<open>One cycle\<close>

definition update_maxima :: "hs \<Rightarrow> hs" where
  "update_maxima s =
     s\<lparr>max_dram_pending := max (max_dram_pending s) (length (dram_pending s)),
       pending_pages_max := max (pending_pages_max s) (length (pending_pages s)),
       trans_queue_max := max (trans_queue_max s) (trans_queue_size s)\<rparr>"

definition process_active :: "hs \<Rightarrow> herr + hs" where
  "process_active s =
     (if active_transaction_flag s \<and> delay_counter s = 0
      then bindR (ProcessTransaction (active_transaction s) s)
             (\<lambda>s1. Inr (s1\<lparr>active_transaction_flag := False\<rparr>))
      else Inr s)"

definition start_transaction :: "Transaction \<Rightarrow> hs \<Rightarrow> herr + hs" where
  "start_transaction tr s =
     (let c = cfg s; flash_addr = ALIGN c (address tr); page_addr = PAGE_ADDRESS c flash_addr;
          s1 = (contention_lock flash_addr s)\<lparr>active_transaction := tr, active_transaction_flag := True,
                                              delay_counter := CONTROLLER_DELAY c\<rparr>
      in if transactionType tr \<noteq> SYNC_ALL_COUNTER then check_tlb page_addr s1 else Inr s1)"

text \<open>
  The scan of the transaction queue: \<open>pre\<close> holds the transactions already passed over, and
  the transaction under the iterator is the first of the third argument. A cheating
  prefetch is processed on the spot and the scan goes on; the entries that processing puts
  at the front of the queue lie before the iterator. The result says whether a transaction
  was sent.
\<close>

fun scan_queue :: "Transaction list \<Rightarrow> Transaction list \<Rightarrow> hs \<Rightarrow> herr + (bool \<times> hs)" where
  "scan_queue pre [] s = Inr (False, s)"
| "scan_queue pre (tr # rest) s =
     (if length (pending_pages s) < NUM_SETS (cfg s) \<and> check_queue s \<and> delay_counter s = 0 then
        if contention_is_unlocked (ALIGN (cfg s) (address tr)) s then
          bindR (start_transaction tr s) (\<lambda>s1.
          let s2 = s1\<lparr>trans_queue := pre @ rest, trans_queue_size := u64_sub (trans_queue_size s1) 1\<rparr>
          in if transactionType tr = PREFETCH \<and>
                um_has (prefetch_cheat_map s2) (PAGE_ADDRESS (cfg s2) (ALIGN (cfg s2) (address tr)))
             then bindR (ProcessTransaction tr s2) (\<lambda>s3.
                  let s4 = s3\<lparr>active_transaction_flag := False, delay_counter := 0\<rparr>;
                      pre' = take (length (trans_queue s4) - length rest) (trans_queue s4)
                  in scan_queue pre' rest s4)
             else Inr (True, s2))
        else scan_queue (pre @ [tr]) rest s
      else Inr (False, s))"

definition check_transactions :: "hs \<Rightarrow> herr + hs" where
  "check_transactions s =
     bindR (scan_queue [] (trans_queue s) s) (\<lambda>(sent_transaction, s1).
     Inr (if \<not> sent_transaction \<and> delay_counter s1 = 0 then s1\<lparr>check_queue := False\<rparr> else s1))"

text \<open>
  \<open>dram_ok\<close> and \<open>flash_ok\<close> are the answers of the memories' own \<open>addTransaction\<close> to the
  front of the queue.
\<close>

definition issue_dram :: "bool \<Rightarrow> hs \<Rightarrow> hs" where
  "issue_dram dram_ok s =
     (case dram_queue s of
        [] \<Rightarrow> s
      | tmp # rest \<Rightarrow>
          if dram_ok then s\<lparr>dram_queue := rest, dram_pending_set := insert (address tmp) (dram_pending_set s)\<rparr>
          else s)"

definition issue_flash :: "bool \<Rightarrow> hs \<Rightarrow> hs" where
  "issue_flash flash_ok s =
     (case flash_queue s of [] \<Rightarrow> s | tmp # rest \<Rightarrow> if flash_ok then s\<lparr>flash_queue := rest\<rparr> else s)"

definition tick_delay :: "hs \<Rightarrow> hs" where
  "tick_delay s = (if 0 < delay_counter s then s\<lparr>delay_counter := delay_counter s - 1\<rparr> else s)"

definition step :: "hs \<Rightarrow> hs" where
  "step s = s\<lparr>currentClockCycle := u64 (currentClockCycle s + 1)\<rparr>"

text \<open>
  The whole cycle. \<open>dram_cbs\<close> and \<open>flash_cbs\<close> are the callbacks that the memories make
  while their own \<open>update\<close> runs.
\<close>

definition update :: "bool \<Rightarrow> bool \<Rightarrow> mem_cb list \<Rightarrow> mem_cb list \<Rightarrow> hs \<Rightarrow> herr + hs" where
  "update dram_ok flash_ok dram_cbs flash_cbs s =
     bindR (process_active (update_maxima s)) (\<lambda>s1.
     bindR (check_transactions s1) (\<lambda>s2.
     bindR (run_cbs dram_cbs (tick_delay (issue_flash flash_ok (issue_dram dram_ok s2)))) (\<lambda>s3.
     bindR (run_cbs flash_cbs s3) (\<lambda>s4.
     Inr (step s4)))))"

section \<open>Device interface\<close>

fun prefetch_range :: "bool \<Rightarrow> nat \<Rightarrow> nat list \<Rightarrow> hs \<Rightarrow> hs" where
  "prefetch_range cheat base_address [] s = s"
| "prefetch_range cheat base_address (i # js) s =
     (let prefetch_addr = u64 (base_address + i * PAGE_SIZE (cfg s));
          s1 = addPrefetch prefetch_addr s
      in prefetch_range cheat base_address js
           (if cheat
            then s1\<lparr>prefetch_cheat_map := um_put prefetch_addr
                      (u64 (um_at 0 (prefetch_cheat_map s1) prefetch_addr + 1)) (prefetch_cheat_map s1)\<rparr>
            else s1))"

definition mmio :: "nat \<Rightarrow> nat \<Rightarrow> hs \<Rightarrow> herr + hs" where
  "mmio operation addr s =
     (if operation = 0 then Inr s
      else if operation = 1 then Inr (syncAll s)
      else if operation = 2 then Inr s
      else if operation = 3 \<or> operation = 4 then
        (let base_address = addr mod 2 ^ 48;
             prefetch_pages = (addr div 2 ^ 48) mod 2 ^ 16 + 1
         in Inr (prefetch_range (operation = 4) base_address [0..<prefetch_pages] s))
      else Inl Invalid_Mmio)"

section \<open>Construction, saving and restoring\<close>

definition prefill_line :: "hs_cfg \<Rightarrow> nat \<Rightarrow> cache_line" where
  "prefill_line c cache_addr =
     new_line\<lparr>cl_valid := True, cl_dirty := PREFILL_CACHE_DIRTY c, cl_locked := False,
              cl_tag := TAG c cache_addr, cl_data := 0, cl_ts := 0\<rparr>"

definition prefill_cache :: "hs_cfg \<Rightarrow> (nat, cache_line) umap \<Rightarrow> (nat, cache_line) umap" where
  "prefill_cache c m =
     fold (\<lambda>i m. um_put (u64 (i * PAGE_SIZE c)) (prefill_line c (u64 (i * PAGE_SIZE c))) m)
       [0..<CACHE_PAGES c] m"

text \<open>
  The state that the constructor sets up before it fills the table. The callback pointers
  are whatever they were; \<open>rd\<close> and \<open>wd\<close> say whether they are set.
\<close>

definition blank_hs :: "hs_cfg \<Rightarrow> nat \<Rightarrow> bool \<Rightarrow> bool \<Rightarrow> hs" where
  "blank_hs c sysid rd wd = \<lparr>
     cfg = c, systemID = sysid, ReadDone = rd, WriteDone = wd, currentClockCycle = 0,
     cache = [],
     dram_pending = [], flash_pending = [], dram_pending_wait = [], flash_pending_wait = [],
     pending_flash_addr = [], pending_pages = [], set_counter = [],
     check_queue = True, delay_counter = 0, active_transaction = mkTransaction DATA_READ 0,
     active_transaction_flag = False, pending_count = 0, dram_pending_set = {},
     max_dram_pending = 0, pending_pages_max = 0, trans_queue_max = 0, trans_queue_size = 0,
     trans_queue = [], dram_queue = [], flash_queue = [],
     prefetch_access_number = [], prefetch_flush_addr = [], prefetch_new_addr = [], prefetch_counter = [],
     tlb_base_set = [], tlb_misses = 0, tlb_hits = 0, total_prefetches = 0, unused_prefetches = 0,
     unused_prefetch_victims = 0, prefetch_hit_nops = 0, prefetch_cheat_count = 0,
     one_miss_table = [], stream_buffers = [], unique_one_misses = 0, unique_stream_buffers = 0,
     stream_buffer_hits = 0, prefetch_cheat_map = [], done_calls = []\<rparr>"

text \<open>The saved table as the sequence of numbers in the file.\<close>

definition bool_num :: "bool \<Rightarrow> nat" where
  "bool_num b = (if b then 1 else 0)"

definition save_line :: "nat \<Rightarrow> cache_line \<Rightarrow> nat list" where
  "save_line cache_addr l =
     [cache_addr, bool_num (cl_valid l), bool_num (cl_dirty l), cl_tag l, cl_data l, cl_ts l]"

definition saveCacheTable :: "hs \<Rightarrow> nat list" where
  "saveCacheTable s =
     (let c = cfg s in
      [PAGE_SIZE c, SET_SIZE c, CACHE_PAGES c, TOTAL_PAGES c] @
      concat (map (\<lambda>i. let cache_addr = u64 (i * PAGE_SIZE c) in
                       case um_get (cache s) cache_addr of
                         None \<Rightarrow> []
                       | Some l \<Rightarrow> if cl_valid l then save_line cache_addr l else [])
        [0..<CACHE_PAGES c]))"

text \<open>
  An input stream of numbers: \<open>None\<close> once an extraction has failed. A failed extraction
  leaves the variable as it is, except that a number other than 0 and 1 read into a
  \<open>bool\<close> sets it to true.
\<close>

fun read_num :: "nat \<Rightarrow> nat list option \<Rightarrow> nat \<times> nat list option" where
  "read_num d (Some (x # xs)) = (x, Some xs)"
| "read_num d _ = (d, None)"

fun read_bool :: "bool \<Rightarrow> nat list option \<Rightarrow> bool \<times> nat list option" where
  "read_bool d (Some (x # xs)) = (if x = 0 then (False, Some xs) else if x = 1 then (True, Some xs) else (True, None))"
| "read_bool d _ = (d, None)"

definition read_record :: "bool \<Rightarrow> nat \<Rightarrow> nat list option \<Rightarrow> nat \<times> cache_line \<times> nat list option" where
  "read_record clean garbage f =
     (let (cache_addr, f1) = read_num garbage f;
          (v, f2) = read_bool (cl_valid new_line) f1;
          (d, f3) = read_bool (cl_dirty new_line) f2;
          (t, f4) = read_num (cl_tag new_line) f3;
          (dt, f5) = read_num (cl_data new_line) f4;
          (ts, f6) = read_num (cl_ts new_line) f5
      in (cache_addr,
          new_line\<lparr>cl_valid := v, cl_dirty := (if clean then False else d), cl_tag := t,
                    cl_data := dt, cl_ts := ts, cl_locked := False\<rparr>, f6))"

text \<open>
  The loop reads as long as the stream is good, and the stream is still good after the last
  record because of the line end behind it: in the extra round the address keeps the
  indeterminate value \<open>garbage\<close> of the local variable. Every round but the last takes six
  numbers, so as many rounds as there are numbers, and one more, are enough.
\<close>

fun restore_loop :: "nat \<Rightarrow> bool \<Rightarrow> nat \<Rightarrow> nat list option \<Rightarrow> (nat, cache_line) umap \<Rightarrow> (nat, cache_line) umap" where
  "restore_loop 0 clean garbage f m = m"
| "restore_loop (Suc n) clean garbage f m =
     (case f of
        None \<Rightarrow> m
      | Some xs \<Rightarrow>
          let (cache_addr, l, f') = read_record clean garbage f
          in restore_loop n clean garbage f' (um_put cache_addr l m))"

definition restore_lines :: "bool \<Rightarrow> nat \<Rightarrow> nat list option \<Rightarrow> (nat, cache_line) umap \<Rightarrow> (nat, cache_line) umap" where
  "restore_lines clean garbage f m =
     restore_loop (case f of None \<Rightarrow> 0 | Some xs \<Rightarrow> Suc (length xs)) clean garbage f m"

text \<open>
  \<open>enable\<close> and \<open>clean\<close> are the switches \<open>ENABLE_RESTORE\<close> and \<open>RESTORE_CLEAN\<close>, \<open>inFile\<close> is
  the content of the file, \<open>None\<close> if it cannot be opened. The state of the flash is
  restored by the flash itself.
\<close>

definition restoreCacheTable :: "bool \<Rightarrow> bool \<Rightarrow> nat \<Rightarrow> nat list option \<Rightarrow> hs \<Rightarrow> herr + hs" where
  "restoreCacheTable enable clean garbage inFile s =
     (let c = cfg s;
          s1 = (if PREFILL_CACHE c then s\<lparr>cache := prefill_cache c (cache s)\<rparr> else s)
      in if \<not> enable then Inr s1
         else case inFile of
           None \<Rightarrow> Inl Restore_No_File
         | Some xs \<Rightarrow>
             let (ps, f1) = read_num garbage (Some xs);
                 (ss, f2) = read_num ps f1;
                 (cp, f3) = read_num ss f2;
                 (tp, f4) = read_num cp f3
             in if ps = PAGE_SIZE c \<and> ss = SET_SIZE c \<and> cp = CACHE_PAGES c \<and> tp = TOTAL_PAGES c
                then Inr (s1\<lparr>cache := restore_lines clean garbage f4 (cache s1)\<rparr>)
                else Inl Restore_Mismatch)"

text \<open>The state after construction without a file to restore.\<close>

definition init_hs :: "hs_cfg \<Rightarrow> nat \<Rightarrow> bool \<Rightarrow> bool \<Rightarrow> hs" where
  "init_hs c sysid rd wd =
     (let s = blank_hs c sysid rd wd
      in if PREFILL_CACHE c then s\<lparr>cache := prefill_cache c (cache s)\<rparr> else s)"

section \<open>Results polled by the C interface\<close>

text \<open>The four parallel lists of the object that collects completions.\<close>

record c_callbacks =
  done_id :: "nat list"
  done_address :: "nat list"
  done_cycle :: "nat list"
  done_isWrite :: "bool list"

definition read_complete :: "nat \<Rightarrow> nat \<Rightarrow> nat \<Rightarrow> c_callbacks \<Rightarrow> c_callbacks" where
  "read_complete i a cyc b =
     b\<lparr>done_id := done_id b @ [i], done_address := done_address b @ [a],
       done_cycle := done_cycle b @ [cyc], done_isWrite := done_isWrite b @ [False]\<rparr>"

definition write_complete :: "nat \<Rightarrow> nat \<Rightarrow> nat \<Rightarrow> c_callbacks \<Rightarrow> c_callbacks" where
  "write_complete i a cyc b =
     b\<lparr>done_id := done_id b @ [i], done_address := done_address b @ [a],
       done_cycle := done_cycle b @ [cyc], done_isWrite := done_isWrite b @ [True]\<rparr>"

definition get_next_result :: "c_callbacks \<Rightarrow> (bool \<times> nat \<times> nat \<times> nat \<times> bool) \<times> c_callbacks" where
  "get_next_result b =
     (if done_id b = [] then ((False, 0, 0, 0, False), b)
      else ((True, hd (done_id b), hd (done_address b), hd (done_cycle b), hd (done_isWrite b)),
            b\<lparr>done_id := tl (done_id b), done_address := tl (done_address b),
              done_cycle := tl (done_cycle b), done_isWrite := tl (done_isWrite b)\<rparr>))"

end
