(* ===== verification/Hybrid_Flights.thy ===== *)
theory Hybrid_Flights
  imports Hybrid_Ops
begin

text \<open>
  The abstract view of the accesses that the hybrid controller has under way: one flight for
  each locked flash address, a hit that reads the DRAM or a miss that reads a page from
  flash and possibly writes a victim back. Predicates relate the flights to the
  tables of the controller (locked pages, line locks, tags, outstanding transfers), and
  lemmas say how each predicate changes when a flight starts, changes phase or ends.
\<close>

named_theorems flight_defs \<open>definitions about flights\<close>

section \<open>Flights\<close>

record flight =
  f_miss :: bool
  f_orig :: nat
  f_line :: nat
  f_vtag :: nat
  f_vvalid :: bool
  f_lr :: bool
  f_vr :: bool
  f_sent :: bool
  f_type :: TransactionType

type_synonym flights = "nat \<Rightarrow> flight option"

definition set_lines :: "hs_cfg \<Rightarrow> nat \<Rightarrow> nat set" where
  "set_lines c i = set (set_address_list c i)"

definition vpage :: "hs_cfg \<Rightarrow> nat \<Rightarrow> flight \<Rightarrow> nat" where
  "vpage c a x = FLASH_ADDRESS c (f_vtag x) (SET_INDEX c a)"

definition data_addr :: "hs_cfg \<Rightarrow> nat \<Rightarrow> nat \<Rightarrow> nat" where
  "data_addr c a l = u64 (l + PAGE_OFFSET c a)"

text \<open>The pages that a flight keeps locked: that of a miss and that of its victim.\<close>

definition own_pages :: "hs_cfg \<Rightarrow> nat \<Rightarrow> flight \<Rightarrow> nat set" where
  "own_pages c a x =
     (if f_miss x then insert (PAGE_ADDRESS c a) (if f_vvalid x then {vpage c a x} else {}) else {})"

definition mkp :: "nat \<Rightarrow> flight \<Rightarrow> PendingOperation \<Rightarrow> bool \<Rightarrow> Pending" where
  "mkp a x pop sent =
     \<lparr>p_op = pop, p_orig_addr = f_orig x, p_flash_addr = a, p_cache_addr = f_line x,
      p_victim_tag = f_vtag x, p_victim_valid = f_vvalid x, p_callback_sent = sent, p_type = f_type x\<rparr>"

lemma mkp_sel [simp]:
  "p_op (mkp a x pop sent) = pop" "p_orig_addr (mkp a x pop sent) = f_orig x"
  "p_flash_addr (mkp a x pop sent) = a" "p_cache_addr (mkp a x pop sent) = f_line x"
  "p_victim_tag (mkp a x pop sent) = f_vtag x" "p_victim_valid (mkp a x pop sent) = f_vvalid x"
  "p_callback_sent (mkp a x pop sent) = sent" "p_type (mkp a x pop sent) = f_type x"
  "mkp a x pop sent\<lparr>p_op := pop'\<rparr> = mkp a x pop' sent"
  "mkp a x pop sent\<lparr>p_callback_sent := sent'\<rparr> = mkp a x pop sent'"
  by (simp_all add: mkp_def)

lemma own_pages_upd [simp]:
  "own_pages c a (x\<lparr>f_lr := b\<rparr>) = own_pages c a x" "own_pages c a (x\<lparr>f_vr := b\<rparr>) = own_pages c a x"
  "own_pages c a (x\<lparr>f_sent := b\<rparr>) = own_pages c a x"
  "vpage c a (x\<lparr>f_lr := b\<rparr>) = vpage c a x" "vpage c a (x\<lparr>f_vr := b\<rparr>) = vpage c a x"
  "vpage c a (x\<lparr>f_sent := b\<rparr>) = vpage c a x"
  "mkp a (x\<lparr>f_lr := b\<rparr>) pop sent = mkp a x pop sent" "mkp a (x\<lparr>f_vr := b\<rparr>) pop sent = mkp a x pop sent"
  "mkp a (x\<lparr>f_sent := b\<rparr>) pop sent = mkp a x pop sent"
  by (simp_all add: own_pages_def vpage_def mkp_def)

section \<open>Addresses of lines\<close>

lemma set_linesD:
  assumes "wf_cfg c" "l \<in> set_lines c (SET_INDEX c a)"
  shows "SET_INDEX c l = SET_INDEX c a" "PAGE_ADDRESS c l = l" "l < CACHE_PAGES c * PAGE_SIZE c"
  using set_address_listD [OF assms(1) SET_INDEX_less [OF assms(1)]] assms(2)
  by (auto simp: set_lines_def)

lemma page_room:
  assumes "wf_cfg c" "l \<in> set_lines c (SET_INDEX c a)" "n < PAGE_SIZE c"
  shows "l + n < 2 ^ 64" "PAGE_ADDRESS c (l + n) = l"
proof -
  note D = set_linesD [OF assms(1,2)]
  obtain q where q: "l = q * PAGE_SIZE c" using D(2) by (metis PAGE_ADDRESS_def)
  have "q < CACHE_PAGES c" using D(3) by (simp add: q)
  then have "Suc q * PAGE_SIZE c \<le> CACHE_PAGES c * PAGE_SIZE c" by (intro mult_le_mono1) simp
  then have "l + PAGE_SIZE c \<le> CACHE_PAGES c * PAGE_SIZE c" by (simp add: q)
  moreover note cache_space_u64 [OF assms(1)]
  ultimately show "l + n < 2 ^ 64" using assms(3) by linarith
  show "PAGE_ADDRESS c (l + n) = l" by (rule PAGE_ADDRESS_add [OF assms(1) D(2) assms(3)])
qed

lemma data_addr_eq:
  assumes "wf_cfg c" "l \<in> set_lines c (SET_INDEX c a)"
  shows "data_addr c b l = l + PAGE_OFFSET c b" "PAGE_ADDRESS c (data_addr c b l) = l"
  using page_room [OF assms PAGE_OFFSET_less [OF assms(1), of b]]
  by (simp_all add: data_addr_def u64_id)

lemma dram_bursts_eq:
  assumes "wf_cfg c" "l \<in> set_lines c (SET_INDEX c a)"
  shows "dram_bursts c l = map (\<lambda>i. l + i * BURST_SIZE c) [0..<PAGE_SIZE c div BURST_SIZE c]"
proof -
  have "u64 (l + i * BURST_SIZE c) = l + i * BURST_SIZE c" if "i < PAGE_SIZE c div BURST_SIZE c" for i
  proof -
    have "i * BURST_SIZE c < PAGE_SIZE c"
      using that wf_burst [OF assms(1)] by (metis dvd_mult_div_cancel mult.commute nat_mult_less_cancel1)
    from page_room(1) [OF assms this] show ?thesis by (rule u64_id)
  qed
  then show ?thesis by (simp add: dram_bursts_def burst_addrs_def)
qed

lemma dram_bursts_page:
  assumes "wf_cfg c" "l \<in> set_lines c (SET_INDEX c a)" "b \<in> set (dram_bursts c l)"
  shows "PAGE_ADDRESS c b = l"
proof -
  obtain i where "i < PAGE_SIZE c div BURST_SIZE c" and b: "b = l + i * BURST_SIZE c"
    using assms(3) unfolding dram_bursts_eq [OF assms(1,2)] by auto
  then have "i * BURST_SIZE c < PAGE_SIZE c"
    using wf_burst [OF assms(1)] by (metis dvd_mult_div_cancel mult.commute nat_mult_less_cancel1)
  from page_room(2) [OF assms(1,2) this] show ?thesis by (simp add: b)
qed

lemma dram_bursts_distinct:
  assumes "wf_cfg c" "l \<in> set_lines c (SET_INDEX c a)"
  shows "distinct (dram_bursts c l)" "dram_bursts c l \<noteq> []"
proof -
  show "distinct (dram_bursts c l)"
    using wf_burst [OF assms(1)] by (simp add: dram_bursts_eq [OF assms] distinct_map inj_on_def)
  have "0 < PAGE_SIZE c div BURST_SIZE c"
    using wf_burst [OF assms(1)] wf_page_size [OF assms(1)] by (simp add: div_greater_zero_iff dvd_imp_le)
  then show "dram_bursts c l \<noteq> []" by (simp add: dram_bursts_eq [OF assms])
qed

lemma flash_bursts_page:
  assumes "wf_cfg c" "FLASH_BURST_SIZE c = PAGE_SIZE c" "a < 2 ^ 64"
  shows "flash_bursts c (PAGE_ADDRESS c a) = [PAGE_ADDRESS c a]"
proof -
  have "PAGE_ADDRESS c a < 2 ^ 64" using PAGE_ADDRESS_le assms(3) by (rule le_less_trans)
  then show ?thesis
    using wf_page_size [OF assms(1)] by (simp add: flash_bursts_def burst_addrs_def assms(2) u64_id)
qed

lemma same_page:
  assumes "wf_cfg c" "a < 2 ^ 64" "b < 2 ^ 64"
  shows "PAGE_ADDRESS c a = PAGE_ADDRESS c b \<longleftrightarrow> TAG c a = TAG c b \<and> SET_INDEX c a = SET_INDEX c b"
  using FLASH_ADDRESS_TAG [OF assms(1,2)] FLASH_ADDRESS_TAG [OF assms(1,3)]
  by (metis SET_INDEX_page TAG_page)

lemma aligned_u64: "wf_cfg c \<Longrightarrow> ALIGN c a = a \<Longrightarrow> a < 2 ^ 64"
  using ALIGN_u64 [of c a] by simp

section \<open>Well-formed flights\<close>

definition flight_wf :: "hs_cfg \<Rightarrow> nat \<Rightarrow> flight \<Rightarrow> bool" where
  "flight_wf c a x \<longleftrightarrow> ALIGN c a = a \<and> f_line x \<in> set_lines c (SET_INDEX c a) \<and>
     (if f_miss x then (f_lr x \<or> f_vr x) \<and>
          (f_vvalid x \<longrightarrow> vpage c a x \<noteq> PAGE_ADDRESS c a \<and> f_vtag x * NUM_SETS c + SET_INDEX c a < TOTAL_PAGES c)
        \<and> f_type x \<in> {DATA_READ, DATA_WRITE, PREFETCH} \<and> (\<not> f_lr x \<longrightarrow> f_sent x)
      else \<not> f_vvalid x \<and> f_vtag x = 0 \<and> \<not> f_sent x \<and> f_type x = DATA_READ)"

definition fl_wf :: "hs_cfg \<Rightarrow> flights \<Rightarrow> bool" where
  "fl_wf c fl \<longleftrightarrow> finite (dom fl) \<and> (\<forall>a x. fl a = Some x \<longrightarrow> flight_wf c a x) \<and>
     (\<forall>a b x y. fl a = Some x \<longrightarrow> fl b = Some y \<longrightarrow> a \<noteq> b \<longrightarrow> f_miss x \<longrightarrow>
        PAGE_ADDRESS c b \<notin> own_pages c a x \<and> own_pages c a x \<inter> own_pages c b y = {} \<and> f_line x \<noteq> f_line y)"

text \<open>An access to \<open>a\<close> does not meet a locked page.\<close>

definition clear_of :: "hs_cfg \<Rightarrow> flights \<Rightarrow> nat \<Rightarrow> bool" where
  "clear_of c fl a \<longleftrightarrow> a \<notin> dom fl \<and> (\<forall>b y. fl b = Some y \<longrightarrow> PAGE_ADDRESS c a \<notin> own_pages c b y)"

lemma fl_wfD:
  assumes "fl_wf c fl" "fl a = Some x"
  shows "flight_wf c a x" "finite (dom fl)"
  using assms by (auto simp: fl_wf_def)

lemma fl_wf_excl:
  assumes "fl_wf c fl" "fl a = Some x" "fl b = Some y" "a \<noteq> b" "f_miss x"
  shows "PAGE_ADDRESS c b \<notin> own_pages c a x" "own_pages c a x \<inter> own_pages c b y = {}" "f_line x \<noteq> f_line y"
  using assms by (simp_all add: fl_wf_def)

lemma fl_wfI:
  assumes "finite (dom fl)" "\<And>a x. fl a = Some x \<Longrightarrow> flight_wf c a x"
    and "\<And>a b x y. fl a = Some x \<Longrightarrow> fl b = Some y \<Longrightarrow> a \<noteq> b \<Longrightarrow> f_miss x \<Longrightarrow>
        PAGE_ADDRESS c b \<notin> own_pages c a x \<and> own_pages c a x \<inter> own_pages c b y = {} \<and> f_line x \<noteq> f_line y"
  shows "fl_wf c fl"
  using assms by (simp add: fl_wf_def)

lemma flight_wf_line: "flight_wf c a x \<Longrightarrow> f_line x \<in> set_lines c (SET_INDEX c a)"
  by (simp add: flight_wf_def)

lemma flight_wf_align: "flight_wf c a x \<Longrightarrow> ALIGN c a = a"
  by (simp add: flight_wf_def)

lemma fl_wf_empty [simp]: "fl_wf c Map.empty"
  by (simp add: fl_wf_def)

lemma fl_wf_remove: "fl_wf c fl \<Longrightarrow> fl_wf c (fl(a := None))"
  unfolding fl_wf_def by (auto split: if_splits)

lemma fl_wf_add_hit:
  assumes "fl_wf c fl" "clear_of c fl a" "flight_wf c a x" "\<not> f_miss x"
    and "\<And>b y. fl b = Some y \<Longrightarrow> f_miss y \<Longrightarrow> f_line y \<noteq> f_line x"
  shows "fl_wf c (fl(a \<mapsto> x))"
  using assms unfolding fl_wf_def clear_of_def by (auto simp: own_pages_def split: if_splits)

lemma fl_wf_add_miss:
  assumes "fl_wf c fl" "clear_of c fl a" "flight_wf c a x"
    and "\<And>b y. fl b = Some y \<Longrightarrow> f_line y \<noteq> f_line x"
    and "\<And>b y. fl b = Some y \<Longrightarrow> PAGE_ADDRESS c b \<notin> own_pages c a x \<and> own_pages c a x \<inter> own_pages c b y = {}"
  shows "fl_wf c (fl(a \<mapsto> x))"
proof (rule fl_wfI)
  show "finite (dom (fl(a \<mapsto> x)))" using assms(1) by (simp add: fl_wf_def)
  show "flight_wf c b z" if "(fl(a \<mapsto> x)) b = Some z" for b z
    using that assms(1,3) by (auto simp: fl_wf_def split: if_splits)
  fix a' b' x' y'
  assume new: "(fl(a \<mapsto> x)) a' = Some x'" "(fl(a \<mapsto> x)) b' = Some y'" and ne: "a' \<noteq> b'" and m: "f_miss x'"
  consider "a' = a" "x' = x" "fl b' = Some y'" | "b' = a" "y' = x" "fl a' = Some x'"
    | "fl a' = Some x'" "fl b' = Some y'" using new ne by (cases "a' = a"; cases "b' = a") simp_all
  then show "PAGE_ADDRESS c b' \<notin> own_pages c a' x' \<and> own_pages c a' x' \<inter> own_pages c b' y' = {}
       \<and> f_line x' \<noteq> f_line y'"
  proof cases
    case 1
    show ?thesis using assms(4) [OF 1(3)] assms(5) [OF 1(3)] by (simp only: 1(1,2)) metis
  next
    case 2
    have "PAGE_ADDRESS c a \<notin> own_pages c a' x'" using assms(2) 2(3) by (simp add: clear_of_def)
    then show ?thesis using assms(4) [OF 2(3)] assms(5) [OF 2(3)] by (simp add: 2(1,2) Int_commute)
  next
    case 3
    then show ?thesis using fl_wf_excl [OF assms(1) _ _ ne m] by blast
  qed
qed

text \<open>A new phase of a flight keeps its line and its pages.\<close>

definition same_flight :: "hs_cfg \<Rightarrow> nat \<Rightarrow> flight \<Rightarrow> flight \<Rightarrow> bool" where
  "same_flight c a x y \<longleftrightarrow> f_miss y = f_miss x \<and> f_line y = f_line x \<and> own_pages c a y = own_pages c a x"

lemma fl_wf_phase:
  assumes "fl_wf c fl" "fl a = Some x" "flight_wf c a y" "same_flight c a x y"
  shows "fl_wf c (fl(a \<mapsto> y))"
proof (rule fl_wfI)
  show "finite (dom (fl(a \<mapsto> y)))" using assms(1) by (simp add: fl_wf_def)
  show "flight_wf c b z" if "(fl(a \<mapsto> y)) b = Some z" for b z
    using that assms(1,3) by (auto simp: fl_wf_def split: if_splits)
  show "PAGE_ADDRESS c b' \<notin> own_pages c a' x' \<and> own_pages c a' x' \<inter> own_pages c b' y' = {}
       \<and> f_line x' \<noteq> f_line y'"
    if "(fl(a \<mapsto> y)) a' = Some x'" "(fl(a \<mapsto> y)) b' = Some y'" "a' \<noteq> b'" "f_miss x'" for a' b' x' y'
    using that fl_wf_excl [OF assms(1)] assms(2,4) unfolding same_flight_def
    by (auto split: if_splits)
qed

section \<open>Locked pages\<close>

text \<open>
  The page of a miss carries the number of its outstanding transfers, the page of its
  victim the number 0, and no other page is locked.
\<close>

definition pages_ok :: "hs_cfg \<Rightarrow> flights \<Rightarrow> (nat \<Rightarrow> nat option) \<Rightarrow> bool" where
  "pages_ok c fl PP \<longleftrightarrow>
     (\<forall>a x. fl a = Some x \<longrightarrow> f_miss x \<longrightarrow>
        PP (PAGE_ADDRESS c a) = Some (of_bool (f_lr x) + of_bool (f_vr x)) \<and>
        (f_vvalid x \<longrightarrow> PP (vpage c a x) = Some 0)) \<and>
     (\<forall>k. PP k \<noteq> None \<longrightarrow> (\<exists>a x. fl a = Some x \<and> k \<in> own_pages c a x))"

lemma pages_ok_empty [simp]: "pages_ok c Map.empty PP \<longleftrightarrow> PP = Map.empty"
  by (auto simp: pages_ok_def)

lemma pages_okD:
  assumes "pages_ok c fl PP" "fl a = Some x" "f_miss x"
  shows "PP (PAGE_ADDRESS c a) = Some (of_bool (f_lr x) + of_bool (f_vr x))"
    and "f_vvalid x \<Longrightarrow> PP (vpage c a x) = Some 0"
  using assms by (simp_all add: pages_ok_def)

lemma pages_okI:
  assumes "\<And>a x. fl a = Some x \<Longrightarrow> f_miss x \<Longrightarrow> PP (PAGE_ADDRESS c a) = Some (of_bool (f_lr x) + of_bool (f_vr x))"
    and "\<And>a x. fl a = Some x \<Longrightarrow> f_miss x \<Longrightarrow> f_vvalid x \<Longrightarrow> PP (vpage c a x) = Some 0"
    and "\<And>k n. PP k = Some n \<Longrightarrow> \<exists>a x. fl a = Some x \<and> k \<in> own_pages c a x"
  shows "pages_ok c fl PP"
  using assms by (auto simp: pages_ok_def)

lemma pages_ok_owner:
  "pages_ok c fl PP \<Longrightarrow> PP k = Some n \<Longrightarrow> \<exists>a x. fl a = Some x \<and> k \<in> own_pages c a x"
  by (simp add: pages_ok_def)

lemma pages_ok_clear:
  assumes "pages_ok c fl PP" "a \<notin> dom fl"
  shows "PP (PAGE_ADDRESS c a) = None \<longleftrightarrow> clear_of c fl a"
proof
  assume none: "PP (PAGE_ADDRESS c a) = None"
  have "PAGE_ADDRESS c a \<notin> own_pages c b y" if "fl b = Some y" for b y
    using none pages_okD [OF assms(1) that] by (auto simp: own_pages_def split: if_splits)
  then show "clear_of c fl a" using assms(2) by (simp add: clear_of_def)
next
  assume "clear_of c fl a"
  then show "PP (PAGE_ADDRESS c a) = None"
    using pages_ok_owner [OF assms(1), of "PAGE_ADDRESS c a"] by (cases "PP (PAGE_ADDRESS c a)") (auto simp: clear_of_def)
qed

lemma pages_add_hit:
  "pages_ok c fl PP \<Longrightarrow> fl a = None \<Longrightarrow> \<not> f_miss x \<Longrightarrow> pages_ok c (fl(a \<mapsto> x)) PP"
  by (rule pages_okI) (auto dest: pages_okD pages_ok_owner split: if_splits, metis option.distinct(1) pages_ok_owner)

lemma pages_remove_hit:
  assumes "pages_ok c fl PP" "fl a = Some x" "\<not> f_miss x"
  shows "pages_ok c (fl(a := None)) PP"
proof (rule pages_okI)
  fix k n assume "PP k = Some n"
  then obtain b y where b: "fl b = Some y" "k \<in> own_pages c b y" using pages_ok_owner [OF assms(1)] by blast
  then have "b \<noteq> a" using assms(2,3) by (auto simp: own_pages_def)
  then show "\<exists>b y. (fl(a := None)) b = Some y \<and> k \<in> own_pages c b y" using b by (auto intro!: exI [of _ b])
qed (use pages_okD [OF assms(1)] in \<open>auto split: if_splits\<close>)

lemma own_pages_miss: "f_miss x \<Longrightarrow> PAGE_ADDRESS c a \<in> own_pages c a x"
  "f_miss x \<Longrightarrow> f_vvalid x \<Longrightarrow> vpage c a x \<in> own_pages c a x"
  by (simp_all add: own_pages_def)

text \<open>The entries of the other flights survive a change of the entries of one flight.\<close>

lemma pages_others:
  assumes "pages_ok c fl PP" "fl_wf c (fl(a \<mapsto> x))" "f_miss x"
    and same: "\<And>k. k \<notin> own_pages c a x \<Longrightarrow> PP' k = PP k"
    and b: "fl b = Some y" "b \<noteq> a" "f_miss y"
  shows "PP' (PAGE_ADDRESS c b) = Some (of_bool (f_lr y) + of_bool (f_vr y))"
    and "f_vvalid y \<Longrightarrow> PP' (vpage c b y) = Some 0"
proof -
  have "own_pages c a x \<inter> own_pages c b y = {}"
    using fl_wf_excl(2) [OF assms(2), of b y a x] b by auto
  then show "PP' (PAGE_ADDRESS c b) = Some (of_bool (f_lr y) + of_bool (f_vr y))"
    and "f_vvalid y \<Longrightarrow> PP' (vpage c b y) = Some 0"
    using same pages_okD [OF assms(1) b(1,3)] own_pages_miss [OF b(3)] by (metis disjoint_iff)+
qed

lemma pages_set_miss:
  assumes "pages_ok c fl PP" "fl_wf c (fl(a \<mapsto> x))" "f_miss x"
    and old: "\<And>x0. fl a = Some x0 \<Longrightarrow> own_pages c a x0 = own_pages c a x"
    and same: "\<And>k. k \<notin> own_pages c a x \<Longrightarrow> PP' k = PP k"
    and new: "PP' (PAGE_ADDRESS c a) = Some (of_bool (f_lr x) + of_bool (f_vr x))"
      "f_vvalid x \<Longrightarrow> PP' (vpage c a x) = Some 0"
  shows "pages_ok c (fl(a \<mapsto> x)) PP'"
proof (rule pages_okI)
  fix k n assume k: "PP' k = Some n"
  show "\<exists>b y. (fl(a \<mapsto> x)) b = Some y \<and> k \<in> own_pages c b y"
  proof (cases "k \<in> own_pages c a x")
    case True
    then show ?thesis by (auto intro!: exI [of _ a])
  next
    case False
    then have "PP k = Some n" using k same by simp
    then obtain b y where b: "fl b = Some y" "k \<in> own_pages c b y" using pages_ok_owner [OF assms(1)] by blast
    then have "b \<noteq> a" using False old by auto
    then show ?thesis using b by (auto intro!: exI [of _ b])
  qed
qed (use new pages_others [OF assms(1-3) same] in \<open>auto split: if_splits\<close>)

lemma pages_remove_miss:
  assumes "pages_ok c fl PP" "fl_wf c fl" "fl a = Some x" "f_miss x"
    and PP': "\<And>k. PP' k = (if k \<in> own_pages c a x then None else PP k)"
  shows "pages_ok c (fl(a := None)) PP'"
proof (rule pages_okI)
  have wf: "fl_wf c (fl(a \<mapsto> x))" using assms(2,3) by (simp add: map_upd_triv)
  have same: "PP' k = PP k" if "k \<notin> own_pages c a x" for k using that PP' by simp
  note others = pages_others [OF assms(1) wf assms(4) same]
  show "PP' (PAGE_ADDRESS c b) = Some (of_bool (f_lr y) + of_bool (f_vr y))"
    if "(fl(a := None)) b = Some y" "f_miss y" for b y using that others(1) by (auto split: if_splits)
  show "PP' (vpage c b y) = Some 0"
    if "(fl(a := None)) b = Some y" "f_miss y" "f_vvalid y" for b y using that others(2) by (auto split: if_splits)
  fix k n assume "PP' k = Some n"
  then have k: "k \<notin> own_pages c a x" "PP k = Some n" using PP' by (auto split: if_splits)
  then obtain b y where b: "fl b = Some y" "k \<in> own_pages c b y" using pages_ok_owner [OF assms(1)] by blast
  then have "b \<noteq> a" using k(1) assms(3) by auto
  then show "\<exists>b y. (fl(a := None)) b = Some y \<and> k \<in> own_pages c b y" using b by (auto intro!: exI [of _ b])
qed

section \<open>Line locks\<close>

definition holders :: "flights \<Rightarrow> nat \<Rightarrow> nat set" where
  "holders fl l = {a. \<exists>x. fl a = Some x \<and> f_line x = l}"

definition set_holders :: "hs_cfg \<Rightarrow> flights \<Rightarrow> nat \<Rightarrow> nat set" where
  "set_holders c fl i = {a \<in> dom fl. SET_INDEX c a = i}"

text \<open>
  The lock count of a line is the number of flights on it, the counter of a set the number
  of flights on its lines.
\<close>

definition locks_ok :: "hs_cfg \<Rightarrow> flights \<Rightarrow> (nat \<Rightarrow> cache_line) \<Rightarrow> (nat \<Rightarrow> nat) \<Rightarrow> bool" where
  "locks_ok c fl L SC \<longleftrightarrow>
     (\<forall>l. cl_lock_count (L l) = card (holders fl l) \<and> (cl_locked (L l) \<longleftrightarrow> holders fl l \<noteq> {})) \<and>
     (\<forall>i. SC i = card (set_holders c fl i)) \<and> (\<forall>i. card (set_holders c fl i) \<le> SET_SIZE c)"

lemma holders_upd:
  "holders (fl(a \<mapsto> x)) l = (if f_line x = l then insert a (holders fl l) else holders fl l - {a})"
  "holders (fl(a := None)) l = holders fl l - {a}"
  by (auto simp: holders_def)

lemma set_holders_upd:
  "set_holders c (fl(a \<mapsto> x)) i = (if SET_INDEX c a = i then insert a (set_holders c fl i) else set_holders c fl i)"
  "set_holders c (fl(a := None)) i = set_holders c fl i - {a}"
  by (auto simp: set_holders_def)

lemma holders_sub: "holders fl l \<subseteq> dom fl" "set_holders c fl i \<subseteq> dom fl"
  by (auto simp: holders_def set_holders_def)

lemma holders_finite: "finite (dom fl) \<Longrightarrow> finite (holders fl l)" "finite (dom fl) \<Longrightarrow> finite (set_holders c fl i)"
  by (rule finite_subset [OF holders_sub(1)], assumption) (rule finite_subset [OF holders_sub(2)], assumption)

lemma holders_fresh: "fl a = None \<Longrightarrow> a \<notin> holders fl l" "fl a = None \<Longrightarrow> a \<notin> set_holders c fl i"
  by (auto simp: holders_def set_holders_def)

lemma locks_ok_empty [simp]:
  "locks_ok c Map.empty L SC \<longleftrightarrow> (\<forall>l. cl_lock_count (L l) = 0 \<and> \<not> cl_locked (L l)) \<and> (\<forall>i. SC i = 0)"
  by (auto simp: locks_ok_def holders_def set_holders_def)

lemma locks_okI:
  assumes "\<And>l. cl_lock_count (L l) = card (holders fl l)" "\<And>l. cl_locked (L l) \<longleftrightarrow> holders fl l \<noteq> {}"
    and "\<And>i. SC i = card (set_holders c fl i)" "\<And>i. SC i \<le> SET_SIZE c"
  shows "locks_ok c fl L SC"
  unfolding locks_ok_def using assms by (simp add: assms(3) [symmetric])

lemma locks_okD:
  assumes "locks_ok c fl L SC"
  shows "cl_lock_count (L l) = card (holders fl l)" "cl_locked (L l) \<longleftrightarrow> holders fl l \<noteq> {}"
    and "SC i = card (set_holders c fl i)" "SC i \<le> SET_SIZE c"
  using assms by (simp_all add: locks_ok_def)

lemma locks_add:
  assumes "locks_ok c fl L SC" "finite (dom fl)" "fl a = None" "SC (SET_INDEX c a) < SET_SIZE c"
    and "\<And>l. cl_lock_count (L' l) = (if l = f_line x then Suc (cl_lock_count (L l)) else cl_lock_count (L l))"
    and "\<And>l. cl_locked (L' l) = (l = f_line x \<or> cl_locked (L l))"
    and "\<And>i. SC' i = (if i = SET_INDEX c a then Suc (SC i) else SC i)"
  shows "locks_ok c (fl(a \<mapsto> x)) L' SC'"
proof (rule locks_okI)
  note fin = holders_finite [OF assms(2)] and fresh = holders_fresh [of fl a, OF assms(3)]
  show "cl_lock_count (L' l) = card (holders (fl(a \<mapsto> x)) l)" for l
    using fin fresh locks_okD(1) [OF assms(1)] by (simp add: assms(5) holders_upd)
  show "cl_locked (L' l) \<longleftrightarrow> holders (fl(a \<mapsto> x)) l \<noteq> {}" for l
    using fresh locks_okD(2) [OF assms(1)] by (simp add: assms(6) holders_upd)
  show "SC' i = card (set_holders c (fl(a \<mapsto> x)) i)" for i
    using fin fresh locks_okD(3) [OF assms(1)] by (auto simp: assms(7) set_holders_upd)
  show "SC' i \<le> SET_SIZE c" for i
    using locks_okD(4) [OF assms(1)] assms(4) by (auto simp: assms(7) Suc_le_eq)
qed

lemma locks_remove:
  assumes "locks_ok c fl L SC" "finite (dom fl)" "fl a = Some x"
    and "\<And>l. cl_lock_count (L' l) = (if l = f_line x then cl_lock_count (L l) - 1 else cl_lock_count (L l))"
    and "\<And>l. cl_locked (L' l) = (if l = f_line x then 1 < cl_lock_count (L l) else cl_locked (L l))"
    and "\<And>i. SC' i = (if i = SET_INDEX c a then SC i - 1 else SC i)"
  shows "locks_ok c (fl(a := None)) L' SC'"
proof (rule locks_okI)
  have in1: "a \<in> holders fl (f_line x)" and in2: "a \<in> set_holders c fl (SET_INDEX c a)"
    using assms(3) by (auto simp: holders_def set_holders_def)
  have out1: "holders fl l - {a} = holders fl l" if "l \<noteq> f_line x" for l
    using that assms(3) by (auto simp: holders_def)
  have out2: "set_holders c fl i - {a} = set_holders c fl i" if "i \<noteq> SET_INDEX c a" for i
    using that by (auto simp: set_holders_def)
  note fin = holders_finite [OF assms(2)]
  have gt: "1 < card (holders fl (f_line x)) \<longleftrightarrow> holders fl (f_line x) - {a} \<noteq> {}"
    using in1 fin(1) [of "f_line x"] by (metis card_Diff_singleton card_gt_0_iff finite_Diff zero_less_diff)
  show "cl_lock_count (L' l) = card (holders (fl(a := None)) l)" for l
    using in1 out1 locks_okD(1) [OF assms(1)] by (simp add: assms(4) holders_upd)
  show "cl_locked (L' l) \<longleftrightarrow> holders (fl(a := None)) l \<noteq> {}" for l
  proof (cases "l = f_line x")
    case True
    then show ?thesis using gt locks_okD(1) [OF assms(1)] by (simp add: assms(5) holders_upd)
  next
    case False
    then show ?thesis using locks_okD(2) [OF assms(1)] by (simp only: assms(5) holders_upd if_False out1 [OF False])
  qed
  show "SC' i = card (set_holders c (fl(a := None)) i)" for i
    using in2 out2 locks_okD(3) [OF assms(1)] by (simp add: assms(6) set_holders_upd)
  show "SC' i \<le> SET_SIZE c" for i
    using locks_okD(4) [OF assms(1), of i] by (auto simp: assms(6))
qed

lemma locks_phase:
  assumes "locks_ok c fl L SC" "fl a = Some x" "f_line y = f_line x"
  shows "locks_ok c (fl(a \<mapsto> y)) L SC"
proof -
  have "holders (fl(a \<mapsto> y)) = holders fl" using assms(2,3) by (auto simp: holders_def fun_eq_iff)
  moreover have "set_holders c (fl(a \<mapsto> y)) = set_holders c fl" using assms(2) by (auto simp: set_holders_def fun_eq_iff)
  ultimately show ?thesis using assms(1) by (simp add: locks_ok_def)
qed

lemma locks_lines:
  assumes "locks_ok c fl L SC"
    and "\<And>l. cl_lock_count (L' l) = cl_lock_count (L l)" "\<And>l. cl_locked (L' l) = cl_locked (L l)"
  shows "locks_ok c fl L' SC"
  using assms by (simp add: locks_ok_def)

lemma locked_iff: "locks_ok c fl L SC \<Longrightarrow> cl_locked (L l) \<longleftrightarrow> (\<exists>a x. fl a = Some x \<and> f_line x = l)"
  by (auto simp: locks_ok_def holders_def)

text \<open>As long as the counter of a set is below the set size, one of its lines is not locked.\<close>

lemma unlocked_line_exists:
  assumes "wf_cfg c" "locks_ok c fl L SC" "fl_wf c fl" "SC (SET_INDEX c a) < SET_SIZE c"
  shows "\<exists>l \<in> set_lines c (SET_INDEX c a). \<not> cl_locked (L l)"
proof (rule ccontr)
  assume "\<not> ?thesis"
  then have all: "\<And>l. l \<in> set_lines c (SET_INDEX c a) \<Longrightarrow> \<exists>b x. fl b = Some x \<and> f_line x = l"
    using locked_iff [OF assms(2)] by blast
  let ?f = "\<lambda>b. f_line (the (fl b))"
  have "set_lines c (SET_INDEX c a) \<subseteq> ?f ` set_holders c fl (SET_INDEX c a)"
  proof
    fix l assume l: "l \<in> set_lines c (SET_INDEX c a)"
    then obtain b x where b: "fl b = Some x" "f_line x = l" using all by blast
    have "f_line x \<in> set_lines c (SET_INDEX c b)" using fl_wfD(1) [OF assms(3) b(1)] by (rule flight_wf_line)
    then have "SET_INDEX c b = SET_INDEX c a"
      using set_linesD(1) [OF assms(1)] l b(2) by metis
    then show "l \<in> ?f ` set_holders c fl (SET_INDEX c a)"
      using b by (auto simp: set_holders_def intro!: image_eqI [of _ _ b])
  qed
  moreover have fin: "finite (set_holders c fl (SET_INDEX c a))"
    using assms(3) by (auto simp: fl_wf_def intro: holders_finite)
  ultimately have "card (set_lines c (SET_INDEX c a)) \<le> card (set_holders c fl (SET_INDEX c a))"
    using surj_card_le by blast
  moreover have "card (set_lines c (SET_INDEX c a)) = SET_SIZE c"
    using set_address_list_distinct [OF assms(1) SET_INDEX_less [OF assms(1)]]
    by (simp add: set_lines_def distinct_card)
  ultimately show False using locks_okD(3) [OF assms(2)] assms(4) by simp
qed

section \<open>Tags\<close>

definition absent :: "hs_cfg \<Rightarrow> (nat \<Rightarrow> cache_line) \<Rightarrow> nat \<Rightarrow> nat \<Rightarrow> bool" where
  "absent c L i t \<longleftrightarrow> (\<forall>l \<in> set_lines c i. cl_valid (L l) \<longrightarrow> cl_tag (L l) \<noteq> t)"

text \<open>Valid lines hold pages of the flash, and no page is held twice.\<close>

definition lines_wf :: "hs_cfg \<Rightarrow> (nat \<Rightarrow> cache_line) \<Rightarrow> bool" where
  "lines_wf c L \<longleftrightarrow> (\<forall>i < NUM_SETS c. \<forall>l \<in> set_lines c i. cl_valid (L l) \<longrightarrow>
     cl_tag (L l) * NUM_SETS c + i < TOTAL_PAGES c \<and>
     (\<forall>m \<in> set_lines c i. cl_valid (L m) \<longrightarrow> cl_tag (L m) = cl_tag (L l) \<longrightarrow> m = l))"

text \<open>
  The line of a miss still holds the victim while the page is read from flash, and the
  new page afterwards; the line of a hit holds its page.
\<close>

definition flight_tags :: "hs_cfg \<Rightarrow> (nat \<Rightarrow> cache_line) \<Rightarrow> nat \<Rightarrow> flight \<Rightarrow> bool" where
  "flight_tags c L a x \<longleftrightarrow>
     (if f_miss x \<and> f_lr x then cl_valid (L (f_line x)) = f_vvalid x \<and>
          (f_vvalid x \<longrightarrow> cl_tag (L (f_line x)) = f_vtag x) \<and> absent c L (SET_INDEX c a) (TAG c a)
      else cl_valid (L (f_line x)) \<and> cl_tag (L (f_line x)) = TAG c a \<and>
          (f_miss x \<longrightarrow> f_vvalid x \<longrightarrow> absent c L (SET_INDEX c a) (f_vtag x)))"

definition tags_ok :: "hs_cfg \<Rightarrow> flights \<Rightarrow> (nat \<Rightarrow> cache_line) \<Rightarrow> bool" where
  "tags_ok c fl L \<longleftrightarrow> lines_wf c L \<and> (\<forall>a x. fl a = Some x \<longrightarrow> flight_tags c L a x)"

lemma tags_ok_empty [simp]: "tags_ok c Map.empty L \<longleftrightarrow> lines_wf c L"
  by (simp add: tags_ok_def)

lemma tags_okD: "tags_ok c fl L \<Longrightarrow> fl a = Some x \<Longrightarrow> flight_tags c L a x"
  by (simp add: tags_ok_def)

lemma tags_lines:
  assumes "\<And>l. cl_valid (L' l) = cl_valid (L l)" "\<And>l. cl_tag (L' l) = cl_tag (L l)"
  shows "tags_ok c fl L' = tags_ok c fl L"
  using assms by (simp add: tags_ok_def lines_wf_def flight_tags_def absent_def)

lemma tags_cong:
  assumes "tags_ok c fl L" "\<And>l. cl_valid (L' l) = cl_valid (L l)" "\<And>l. cl_tag (L' l) = cl_tag (L l)"
  shows "tags_ok c fl L'"
  using assms(1) tags_lines [OF assms(2,3)] by simp

lemma tags_set: "tags_ok c fl L \<Longrightarrow> flight_tags c L a x \<Longrightarrow> tags_ok c (fl(a \<mapsto> x)) L"
  by (simp add: tags_ok_def)

lemma tags_remove: "tags_ok c fl L \<Longrightarrow> tags_ok c (fl(a := None)) L"
  by (simp add: tags_ok_def)

lemma lines_fill:
  assumes wf: "wf_cfg c" and "lines_wf c L" and al: "ALIGN c a = a" and l: "l \<in> set_lines c (SET_INDEX c a)"
    and ab: "absent c L (SET_INDEX c a) (TAG c a)"
    and new: "cl_valid (L' l)" "cl_tag (L' l) = TAG c a"
    and old: "\<And>m. m \<noteq> l \<Longrightarrow> cl_valid (L' m) = cl_valid (L m) \<and> cl_tag (L' m) = cl_tag (L m)"
  shows "lines_wf c L'"
  unfolding lines_wf_def
proof (intro allI impI ballI)
  fix i m assume i: "i < NUM_SETS c" and m: "m \<in> set_lines c i" "cl_valid (L' m)"
  have fits: "TAG c a * NUM_SETS c + SET_INDEX c a < TOTAL_PAGES c"
    using PAGE_ADDRESS_less_space [OF wf] ALIGN_less [OF wf, of a] al by (simp add: TAG_SET_page)
  show "cl_tag (L' m) * NUM_SETS c + i < TOTAL_PAGES c \<and>
     (\<forall>m'\<in>set_lines c i. cl_valid (L' m') \<longrightarrow> cl_tag (L' m') = cl_tag (L' m) \<longrightarrow> m' = m)"
  proof (cases "i = SET_INDEX c a")
    case True
    have "cl_tag (L m') \<noteq> TAG c a" if "m' \<in> set_lines c i" "m' \<noteq> l" "cl_valid (L' m')" for m'
      using ab that old [OF that(2)] True by (simp add: absent_def)
    then show ?thesis
      using assms(2) i m fits True old new unfolding lines_wf_def by (metis (no_types, lifting))
  next
    case False
    have "l \<notin> set_lines c i"
      using set_address_listD(1) [OF wf i] set_linesD(1) [OF wf l] False by (auto simp: set_lines_def)
    then have "cl_valid (L' m') = cl_valid (L m') \<and> cl_tag (L' m') = cl_tag (L m')" if "m' \<in> set_lines c i" for m'
      using that old by metis
    then show ?thesis using assms(2) i m unfolding lines_wf_def by simp
  qed
qed

lemma flight_tags_fill:
  assumes wf: "wf_cfg c" and x: "flight_tags c L b y" "flight_wf c b y" "f_line y \<noteq> l"
    and al: "ALIGN c a = a" and l: "l \<in> set_lines c (SET_INDEX c a)"
    and clear: "PAGE_ADDRESS c a \<notin> own_pages c b y"
    and new: "cl_tag (L' l) = TAG c a"
    and old: "\<And>m. m \<noteq> l \<Longrightarrow> cl_valid (L' m) = cl_valid (L m) \<and> cl_tag (L' m) = cl_tag (L m)"
  shows "flight_tags c L' b y"
proof -
  have keep: "absent c L' (SET_INDEX c b) t"
    if "absent c L (SET_INDEX c b) t" "SET_INDEX c b = SET_INDEX c a \<Longrightarrow> t \<noteq> TAG c a" for t
    unfolding absent_def
  proof (intro ballI impI)
    fix m assume m: "m \<in> set_lines c (SET_INDEX c b)" "cl_valid (L' m)"
    show "cl_tag (L' m) \<noteq> t"
    proof (cases "m = l")
      case True
      then have "SET_INDEX c b = SET_INDEX c a" using set_linesD(1) [OF wf] m(1) l by metis
      then show ?thesis using that(2) new True by simp
    next
      case False
      then show ?thesis using old [OF False] m that(1) by (simp add: absent_def)
    qed
  qed
  have b: "b < 2 ^ 64" and a: "a < 2 ^ 64" using aligned_u64 [OF wf] al flight_wf_align [OF x(2)] by blast+
  have k1: "TAG c b \<noteq> TAG c a" if "f_miss y" "SET_INDEX c b = SET_INDEX c a"
    using clear that same_page [OF wf a b] by (auto simp: own_pages_def split: if_splits)
  have k2: "f_vtag y \<noteq> TAG c a" if "f_miss y" "f_vvalid y" "SET_INDEX c b = SET_INDEX c a"
    using clear that FLASH_ADDRESS_TAG [OF wf a] by (auto simp: own_pages_def vpage_def)
  show ?thesis
    using x(1) old [OF x(3)] keep k1 k2 unfolding flight_tags_def by (auto split: if_splits)
qed

text \<open>The end of the line read of a miss.\<close>

lemma tags_fill_miss:
  assumes wf: "wf_cfg c" and fl: "fl_wf c fl" "tags_ok c fl L" "fl a = Some x" "f_miss x" "f_lr x"
    and y: "y = x\<lparr>f_lr := False, f_sent := True\<rparr>"
    and new: "cl_valid (L' (f_line x))" "cl_tag (L' (f_line x)) = TAG c a"
    and old: "\<And>m. m \<noteq> f_line x \<Longrightarrow> cl_valid (L' m) = cl_valid (L m) \<and> cl_tag (L' m) = cl_tag (L m)"
  shows "tags_ok c (fl(a \<mapsto> y)) L'"
proof -
  note w = fl_wfD(1) [OF fl(1,3)]
  note al = flight_wf_align [OF w] and l = flight_wf_line [OF w] and tx = tags_okD [OF fl(2,3)]
  have a: "a < 2 ^ 64" using aligned_u64 [OF wf al] .
  have ab: "absent c L (SET_INDEX c a) (TAG c a)" using tx fl(4,5) by (simp add: flight_tags_def)
  have "lines_wf c L'"
    using lines_fill [OF wf _ al l ab new old] fl(2) by (simp add: tags_ok_def)
  moreover have "flight_tags c L' b z" if "fl b = Some z" "b \<noteq> a" for b z
    by (rule flight_tags_fill [OF wf tags_okD [OF fl(2) that(1)] fl_wfD(1) [OF fl(1) that(1)] _ al l _ new(2) old])
      (use fl_wf_excl [OF fl(1) fl(3) that(1) that(2) [symmetric] fl(4)] own_pages_miss(1) [OF fl(4)] in auto)
  moreover have "flight_tags c L' a y"
  proof -
    have "absent c L' (SET_INDEX c a) (f_vtag x)" if v: "f_vvalid x"
      unfolding absent_def
    proof (intro ballI impI)
      fix m assume m: "m \<in> set_lines c (SET_INDEX c a)" "cl_valid (L' m)"
      have "f_vtag x \<noteq> TAG c a"
        using w v fl(4) FLASH_ADDRESS_TAG [OF wf a] by (auto simp: flight_wf_def vpage_def)
      moreover have "cl_valid (L (f_line x))" "cl_tag (L (f_line x)) = f_vtag x"
        using tx v fl(4,5) by (simp_all add: flight_tags_def)
      moreover have "lines_wf c L" using fl(2) by (simp add: tags_ok_def)
      ultimately show "cl_tag (L' m) \<noteq> f_vtag x"
        using new(2) old [of m] m l SET_INDEX_less [OF wf] unfolding lines_wf_def by metis
    qed
    then show ?thesis using new fl(4) by (simp add: flight_tags_def y)
  qed
  ultimately show ?thesis by (simp add: tags_ok_def)
qed

text \<open>A page that is put into a line without a flight.\<close>

lemma tags_fill_free:
  assumes wf: "wf_cfg c" and fl: "fl_wf c fl" "tags_ok c fl L" "clear_of c fl a"
    and al: "ALIGN c a = a" and l: "l \<in> set_lines c (SET_INDEX c a)"
    and ab: "absent c L (SET_INDEX c a) (TAG c a)"
    and free: "\<And>b y. fl b = Some y \<Longrightarrow> f_line y \<noteq> l"
    and new: "cl_valid (L' l)" "cl_tag (L' l) = TAG c a"
    and old: "\<And>m. m \<noteq> l \<Longrightarrow> cl_valid (L' m) = cl_valid (L m) \<and> cl_tag (L' m) = cl_tag (L m)"
  shows "tags_ok c fl L'"
  unfolding tags_ok_def
proof (intro conjI allI impI)
  show "lines_wf c L'" using lines_fill [OF wf _ al l ab new old] fl(2) by (simp add: tags_ok_def)
  fix b y assume b: "fl b = Some y"
  have "PAGE_ADDRESS c a \<notin> own_pages c b y" using fl(3) b by (simp add: clear_of_def)
  from flight_tags_fill [OF wf tags_okD [OF fl(2) b] fl_wfD(1) [OF fl(1) b] free [OF b] al l this new(2) old]
  show "flight_tags c L' b y" .
qed

section \<open>Tables with an entry per flight\<close>

text \<open>
  A table has one entry for each flight that has a key, with a value that fits the flight,
  and no other entry.
\<close>

definition keyed :: "(nat \<Rightarrow> flight \<Rightarrow> nat option) \<Rightarrow> (nat \<Rightarrow> flight \<Rightarrow> 'v \<Rightarrow> bool) \<Rightarrow> flights
    \<Rightarrow> (nat \<Rightarrow> 'v option) \<Rightarrow> bool" where
  "keyed key P fl T \<longleftrightarrow>
     (\<forall>a x k. fl a = Some x \<longrightarrow> key a x = Some k \<longrightarrow> (\<exists>v. T k = Some v \<and> P a x v)) \<and>
     (\<forall>k v. T k = Some v \<longrightarrow> (\<exists>a x. fl a = Some x \<and> key a x = Some k))"

lemma keyed_empty [simp]: "keyed key P Map.empty T \<longleftrightarrow> T = Map.empty"
  by (auto simp: keyed_def)

lemma keyedD: "keyed key P fl T \<Longrightarrow> fl a = Some x \<Longrightarrow> key a x = Some k \<Longrightarrow> \<exists>v. T k = Some v \<and> P a x v"
  by (simp add: keyed_def)

lemma keyed_owner: "keyed key P fl T \<Longrightarrow> T k = Some v \<Longrightarrow> \<exists>a x. fl a = Some x \<and> key a x = Some k \<and> P a x v"
  unfolding keyed_def by (metis option.inject)

lemma keyed_fresh:
  "keyed key P fl T \<Longrightarrow> (\<And>b y. fl b = Some y \<Longrightarrow> key b y \<noteq> Some k) \<Longrightarrow> T k = None"
  unfolding keyed_def by (metis not_None_eq)

lemma keyed_set:
  assumes "keyed key P fl T" "key a x = Some k" "P a x v"
    and "\<And>b y. fl b = Some y \<Longrightarrow> b \<noteq> a \<Longrightarrow> key b y \<noteq> Some k"
    and "\<And>x0. fl a = Some x0 \<Longrightarrow> key a x0 = None \<or> key a x0 = Some k"
  shows "keyed key P (fl(a \<mapsto> x)) (T(k \<mapsto> v))"
  unfolding keyed_def
proof (intro conjI allI impI)
  fix b y j assume "(fl(a \<mapsto> x)) b = Some y" "key b y = Some j"
  then show "\<exists>v'. (T(k \<mapsto> v)) j = Some v' \<and> P b y v'"
    using assms(1-4) keyedD [OF assms(1), of b y j] by (cases "b = a") auto
next
  fix j v' assume j: "(T(k \<mapsto> v)) j = Some v'"
  show "\<exists>b y. (fl(a \<mapsto> x)) b = Some y \<and> key b y = Some j"
  proof (cases "j = k")
    case True
    then show ?thesis using assms(2) by (auto intro!: exI [of _ a])
  next
    case False
    then obtain b y where b: "fl b = Some y" "key b y = Some j" using j keyed_owner [OF assms(1)] by fastforce
    then have "b \<noteq> a" using False assms(5) by auto
    then show ?thesis using b by (auto intro!: exI [of _ b])
  qed
qed

lemma keyed_del:
  assumes "keyed key P fl T" "fl a = Some x" "key a x = Some k"
    and "\<And>b y. fl b = Some y \<Longrightarrow> b \<noteq> a \<Longrightarrow> key b y \<noteq> Some k"
    and "\<And>y. z = Some y \<Longrightarrow> key a y = None"
  shows "keyed key P (fl(a := z)) (T(k := None))"
  unfolding keyed_def
proof (intro conjI allI impI)
  fix b y j assume "(fl(a := z)) b = Some y" "key b y = Some j"
  then show "\<exists>v'. (T(k := None)) j = Some v' \<and> P b y v'"
    using assms(4,5) keyedD [OF assms(1), of b y j] by (cases "b = a") auto
next
  fix j v' assume j: "(T(k := None)) j = Some v'"
  then have "T j = Some v'" "j \<noteq> k" by (auto split: if_splits)
  then obtain b y where b: "fl b = Some y" "key b y = Some j" using keyed_owner [OF assms(1)] by blast
  then have "b \<noteq> a" using \<open>j \<noteq> k\<close> assms(2,3) by auto
  then show "\<exists>b y. (fl(a := z)) b = Some y \<and> key b y = Some j" using b by (auto intro!: exI [of _ b])
qed

lemma keyed_phase:
  assumes "keyed key P fl T" "fl a = Some x" "key a y = key a x" "\<And>v. P a x v \<Longrightarrow> P a y v"
  shows "keyed key P (fl(a \<mapsto> y)) T"
  unfolding keyed_def
proof (intro conjI allI impI)
  fix b z j assume "(fl(a \<mapsto> y)) b = Some z" "key b z = Some j"
  then show "\<exists>v. T j = Some v \<and> P b z v"
    using assms keyedD [OF assms(1), of b _ j] by (cases "b = a") auto
next
  fix j v assume "T j = Some v"
  then obtain b z where b: "fl b = Some z" "key b z = Some j" using keyed_owner [OF assms(1)] by blast
  then show "\<exists>b z. (fl(a \<mapsto> y)) b = Some z \<and> key b z = Some j"
    using assms(2,3) by (cases "b = a") (auto intro!: exI [of _ b])
qed

lemma keyed_none:
  assumes "keyed key P fl T" "\<And>x. fl a = Some x \<Longrightarrow> key a x = None" "\<And>y. z = Some y \<Longrightarrow> key a y = None"
  shows "keyed key P (fl(a := z)) T"
  unfolding keyed_def
proof (intro conjI allI impI)
  fix b y j assume "(fl(a := z)) b = Some y" "key b y = Some j"
  then show "\<exists>v. T j = Some v \<and> P b y v"
    using assms(3) keyedD [OF assms(1), of b y j] by (cases "b = a") auto
next
  fix j v assume "T j = Some v"
  then obtain b y where b: "fl b = Some y" "key b y = Some j" using keyed_owner [OF assms(1)] by blast
  then have "b \<noteq> a" using assms(2) by auto
  then show "\<exists>b y. (fl(a := z)) b = Some y \<and> key b y = Some j" using b by (auto intro!: exI [of _ b])
qed

subsection \<open>Keys in the tables of the controller\<close>

definition flash_key :: "hs_cfg \<Rightarrow> nat \<Rightarrow> flight \<Rightarrow> nat option" where
  "flash_key c a x = (if f_miss x \<and> f_lr x then Some (PAGE_ADDRESS c a) else None)"

definition victim_key :: "nat \<Rightarrow> flight \<Rightarrow> nat option" where
  "victim_key a x = (if f_miss x \<and> f_vr x then Some (f_line x) else None)"

definition dram_key :: "hs_cfg \<Rightarrow> nat \<Rightarrow> flight \<Rightarrow> nat option" where
  "dram_key c a x = (if f_miss x then victim_key a x else Some (data_addr c a (f_line x)))"

definition hit_key :: "hs_cfg \<Rightarrow> nat \<Rightarrow> flight \<Rightarrow> nat option" where
  "hit_key c a x = (if f_miss x then None else Some (data_addr c a (f_line x)))"

definition flash_val :: "nat \<Rightarrow> flight \<Rightarrow> Pending \<Rightarrow> bool" where
  "flash_val a x p \<longleftrightarrow> p = mkp a x LINE_READ (f_sent x)"

definition flash_wait_val :: "hs_cfg \<Rightarrow> nat \<Rightarrow> flight \<Rightarrow> nat set \<Rightarrow> bool" where
  "flash_wait_val c a x w \<longleftrightarrow> w = {PAGE_ADDRESS c a}"

definition dram_val :: "nat \<Rightarrow> flight \<Rightarrow> Pending \<Rightarrow> bool" where
  "dram_val a x p \<longleftrightarrow> p = mkp a x (if f_miss x then VICTIM_READ else CACHE_READ) False"

definition dram_wait_val :: "hs_cfg \<Rightarrow> nat \<Rightarrow> flight \<Rightarrow> nat set \<Rightarrow> bool" where
  "dram_wait_val c a x w \<longleftrightarrow> w \<noteq> {} \<and> w \<subseteq> set (dram_bursts c (f_line x))"

lemmas key_defs = flash_key_def victim_key_def dram_key_def hit_key_def
  flash_val_def flash_wait_val_def dram_val_def dram_wait_val_def

lemma flash_key_inj:
  assumes "fl_wf c fl" "fl a = Some x" "fl b = Some y" "b \<noteq> a" "flash_key c a x = Some k"
  shows "flash_key c b y \<noteq> Some k"
  using fl_wf_excl(1) [OF assms(1-3)] assms(4,5) by (auto simp: key_defs own_pages_def split: if_splits)

lemma victim_key_inj:
  assumes "fl_wf c fl" "fl a = Some x" "fl b = Some y" "b \<noteq> a" "victim_key a x = Some k"
  shows "victim_key b y \<noteq> Some k"
  using fl_wf_excl(3) [OF assms(1-3)] assms(4,5) by (auto simp: key_defs split: if_splits)

lemma dram_key_page:
  assumes "wf_cfg c" "flight_wf c a x" "dram_key c a x = Some k"
  shows "PAGE_ADDRESS c k = f_line x"
  using data_addr_eq(2) [OF assms(1) flight_wf_line [OF assms(2)]] set_linesD(2) [OF assms(1) flight_wf_line [OF assms(2)]] assms(3)
  by (auto simp: key_defs split: if_splits)

lemma hit_data_inj:
  assumes wf: "wf_cfg c" and tags: "flight_tags c L a x" "flight_tags c L b y"
    and w: "flight_wf c a x" "flight_wf c b y" and hit: "\<not> f_miss x" "\<not> f_miss y" and ne: "a \<noteq> b"
  shows "data_addr c a (f_line x) \<noteq> data_addr c b (f_line y)"
proof
  assume eq: "data_addr c a (f_line x) = data_addr c b (f_line y)"
  have line: "f_line x = f_line y"
    using eq data_addr_eq(2) [OF wf flight_wf_line [OF w(1)]] data_addr_eq(2) [OF wf flight_wf_line [OF w(2)]] by metis
  have off: "PAGE_OFFSET c a = PAGE_OFFSET c b"
    using eq data_addr_eq(1) [OF wf flight_wf_line [OF w(1)]] by (simp add: line)
  have "SET_INDEX c a = SET_INDEX c b"
    using set_linesD(1) [OF wf flight_wf_line [OF w(1)]] set_linesD(1) [OF wf flight_wf_line [OF w(2)]] by (simp add: line)
  moreover have "TAG c a = TAG c b" using tags hit by (simp add: flight_tags_def line)
  ultimately have "PAGE_ADDRESS c a = PAGE_ADDRESS c b"
    using same_page [OF wf aligned_u64 [OF wf flight_wf_align [OF w(1)]] aligned_u64 [OF wf flight_wf_align [OF w(2)]]] by simp
  then show False using off ne PAGE_split [of a c] PAGE_split [of b c] by simp
qed

lemma dram_key_inj:
  assumes wf: "wf_cfg c" and fl: "fl_wf c fl" "tags_ok c fl L" "fl a = Some x" "fl b = Some y" "b \<noteq> a"
    and k: "dram_key c a x = Some k"
  shows "dram_key c b y \<noteq> Some k"
proof
  assume k': "dram_key c b y = Some k"
  note w = fl_wfD(1) [OF fl(1,3)] fl_wfD(1) [OF fl(1,4)]
  have line: "f_line x = f_line y" using dram_key_page [OF wf w(1) k] dram_key_page [OF wf w(2) k'] by simp
  have hit: "\<not> f_miss x" "\<not> f_miss y"
    using line fl_wf_excl(3) [OF fl(1)] fl(3-5) by metis+
  show False
    using hit_data_inj [OF wf tags_okD [OF fl(2,3)] tags_okD [OF fl(2,4)] w hit] fl(5) k k' hit by (simp add: key_defs)
qed

section \<open>Outstanding reads of the DRAM\<close>

text \<open>The addresses whose read callbacks the controller still expects.\<close>

definition dram_exp :: "hs_cfg \<Rightarrow> flights \<Rightarrow> (nat \<Rightarrow> nat set option) \<Rightarrow> nat set" where
  "dram_exp c fl W = {k. \<exists>a x. fl a = Some x \<and> hit_key c a x = Some k} \<union> \<Union> (ran W)"

definition reads_ok :: "nat list \<Rightarrow> nat set \<Rightarrow> bool" where
  "reads_ok R E \<longleftrightarrow> distinct R \<and> set R = E"

lemma reads_ok_mset: "mset R' = mset R \<Longrightarrow> reads_ok R' E = reads_ok R E"
  by (metis mset_eq_imp_distinct_iff reads_ok_def set_mset_mset)

lemma reads_ok_add: "reads_ok R E \<Longrightarrow> distinct A \<Longrightarrow> E \<inter> set A = {} \<Longrightarrow> reads_ok (R @ A) (E \<union> set A)"
  by (auto simp: reads_ok_def)

lemma reads_ok_remove: "reads_ok R E \<Longrightarrow> reads_ok (remove1 a R) (E - {a})"
  by (auto simp: reads_ok_def)

lemma hit_expected_line:
  assumes "wf_cfg c" "flight_wf c a x" "hit_key c a x = Some k"
  shows "PAGE_ADDRESS c k = f_line x" "\<not> f_miss x"
  using assms dram_key_page [OF assms(1,2), of k] by (auto simp: key_defs split: if_splits)

lemma victim_expected_line:
  assumes "wf_cfg c" "fl_wf c fl" "keyed victim_key (dram_wait_val c) fl W" "W l = Some w" "k \<in> w"
  shows "PAGE_ADDRESS c k = l" "\<exists>a x. fl a = Some x \<and> f_miss x \<and> f_vr x \<and> f_line x = l"
proof -
  obtain a x where a: "fl a = Some x" "victim_key a x = Some l" "dram_wait_val c a x w"
    using keyed_owner [OF assms(3,4)] by blast
  then have "f_miss x" "f_vr x" and l: "f_line x = l" by (auto simp: key_defs split: if_splits)
  then show "\<exists>a x. fl a = Some x \<and> f_miss x \<and> f_vr x \<and> f_line x = l" using a(1) by blast
  show "PAGE_ADDRESS c k = l"
    using dram_bursts_page [OF assms(1) flight_wf_line [OF fl_wfD(1) [OF assms(2) a(1)]], of k] a(3) assms(5)
    by (auto simp: key_defs l)
qed

lemma hit_not_awaited:
  assumes "wf_cfg c" "fl_wf c fl" "keyed victim_key (dram_wait_val c) fl W"
    and hit: "fl a = Some x" "hit_key c a x = Some k"
  shows "W (PAGE_ADDRESS c k) = None" "k \<notin> \<Union> (ran W)"
proof -
  note D = hit_expected_line [OF assms(1) fl_wfD(1) [OF assms(2) hit(1)] hit(2)]
  show none: "W (PAGE_ADDRESS c k) = None"
  proof (rule keyed_fresh [OF assms(3)])
    show "victim_key b y \<noteq> Some (PAGE_ADDRESS c k)" if "fl b = Some y" for b y
      using fl_wf_excl(3) [OF assms(2) that hit(1)] D hit(1) that by (cases "b = a") (auto simp: key_defs)
  qed
  show "k \<notin> \<Union> (ran W)"
    using victim_expected_line(1) [OF assms(1-3)] none by (force simp: ran_def)
qed

lemma free_line_not_expected:
  assumes "wf_cfg c" "fl_wf c fl" "keyed victim_key (dram_wait_val c) fl W"
    and free: "\<And>b y. fl b = Some y \<Longrightarrow> f_line y \<noteq> PAGE_ADDRESS c k"
  shows "k \<notin> dram_exp c fl W"
proof
  assume "k \<in> dram_exp c fl W"
  then consider a x where "fl a = Some x" "hit_key c a x = Some k" | l w where "W l = Some w" "k \<in> w"
    by (auto simp: dram_exp_def ran_def)
  then show False
  proof cases
    case 1
    then show False using hit_expected_line(1) [OF assms(1) fl_wfD(1) [OF assms(2)]] free by metis
  next
    case 2
    then show False using victim_expected_line [OF assms(1-3) 2] free by metis
  qed
qed

lemma dram_exp_add_hit:
  "hit_key c a x = Some k \<Longrightarrow> fl a = None \<Longrightarrow> dram_exp c (fl(a \<mapsto> x)) W = dram_exp c fl W \<union> {k}"
  unfolding dram_exp_def by (auto split: if_splits) (metis option.distinct(1))

lemma dram_exp_remove_hit:
  assumes "wf_cfg c" "fl_wf c fl" "tags_ok c fl L" "keyed victim_key (dram_wait_val c) fl W"
    and hit: "fl a = Some x" "hit_key c a x = Some k"
  shows "dram_exp c (fl(a := None)) W = dram_exp c fl W - {k}"
proof -
  have "hit_key c b y \<noteq> Some k" if "fl b = Some y" "b \<noteq> a" for b y
    using dram_key_inj [OF assms(1-3) hit(1) that, of k] hit(2) by (auto simp: key_defs split: if_splits)
  then have "{j. \<exists>b y. (fl(a := None)) b = Some y \<and> hit_key c b y = Some j} =
      {j. \<exists>b y. fl b = Some y \<and> hit_key c b y = Some j} - {k}"
    using hit by (auto split: if_splits) (metis option.inject)
  then show ?thesis using hit_not_awaited(2) [OF assms(1,2,4) hit] by (simp add: dram_exp_def Un_Diff)
qed

text \<open>Misses do not count among the expected hits, so only their awaited bursts matter.\<close>

lemma dram_exp_miss:
  assumes "\<And>x. fl a = Some x \<Longrightarrow> f_miss x" "\<And>y. z = Some y \<Longrightarrow> f_miss y"
  shows "dram_exp c (fl(a := z)) W = dram_exp c fl W"
proof -
  have "(\<exists>b y. (fl(a := z)) b = Some y \<and> hit_key c b y = Some k) \<longleftrightarrow> (\<exists>b y. fl b = Some y \<and> hit_key c b y = Some k)" for k
    using assms by (auto simp: hit_key_def split: if_splits) metis+
  then show ?thesis by (simp add: dram_exp_def)
qed

lemma dram_exp_await:
  "W l = None \<Longrightarrow> dram_exp c fl (W(l \<mapsto> w)) = dram_exp c fl W \<union> w"
  by (simp add: dram_exp_def ran_map_upd Un_ac)

lemma in_Union_ran: "j \<in> \<Union> (ran T) \<longleftrightarrow> (\<exists>m v. T m = Some v \<and> j \<in> v)"
  by (auto simp: ran_def)

lemma dram_exp_answer:
  assumes "wf_cfg c" "fl_wf c fl" "keyed victim_key (dram_wait_val c) fl W" "W l = Some w" "k \<in> w"
    and z: "w - {k} = {} \<and> z = None \<or> z = Some (w - {k})"
  shows "dram_exp c fl (W(l := z)) = dram_exp c fl W - {k}"
proof -
  have "k \<in> \<Union> (ran W)" using assms(4,5) by (auto simp: ran_def)
  then have "\<And>a x. fl a = Some x \<Longrightarrow> hit_key c a x \<noteq> Some k"
    using hit_not_awaited(2) [OF assms(1-3)] by blast
  moreover have other: "k \<notin> w'" if "W l' = Some w'" "l' \<noteq> l" for l' w'
    using victim_expected_line(1) [OF assms(1-3)] that assms(4,5) by metis
  have "(\<exists>m v. (W(l := z)) m = Some v \<and> j \<in> v) \<longleftrightarrow> (\<exists>m v. W m = Some v \<and> j \<in> v) \<and> j \<noteq> k" for j
  proof (cases "j \<in> w")
    case True
    then show ?thesis using z assms(4) other by (auto split: if_splits)
  next
    case False
    then have "\<And>m v. W m = Some v \<Longrightarrow> j \<in> v \<Longrightarrow> m \<noteq> l" using assms(4) by auto
    then show ?thesis using False z assms(4,5) by (auto split: if_splits)
  qed
  then have "\<Union> (ran (W(l := z))) = \<Union> (ran W) - {k}"
    by (intro set_eqI) (simp only: in_Union_ran Diff_iff singleton_iff simp_thms)
  ultimately show ?thesis by (auto simp: dram_exp_def)
qed

section \<open>Completions owed to the user\<close>

definition call_mset :: "hs_cfg \<Rightarrow> TransactionType \<Rightarrow> nat \<Rightarrow> (bool \<times> nat) multiset" where
  "call_mset c ty orig = (case ty of
       DATA_READ \<Rightarrow> {#(False, callback_addr c orig)#}
     | DATA_WRITE \<Rightarrow> {#(True, callback_addr c orig)#}
     | _ \<Rightarrow> {#})"

definition owed_flight :: "hs_cfg \<Rightarrow> flight \<Rightarrow> (bool \<times> nat) multiset" where
  "owed_flight c x = (if f_sent x then {#} else call_mset c (f_type x) (f_orig x))"

definition owed_fl :: "hs_cfg \<Rightarrow> flights \<Rightarrow> (bool \<times> nat) multiset" where
  "owed_fl c fl = (\<Sum>a\<in>dom fl. owed_flight c (the (fl a)))"

lemma owed_fl_empty [simp]: "owed_fl c Map.empty = {#}"
  by (simp add: owed_fl_def)

lemma owed_add:
  assumes "finite (dom fl)" "fl a = None"
  shows "owed_fl c (fl(a \<mapsto> x)) = owed_fl c fl + owed_flight c x"
proof -
  have "(\<Sum>b\<in>dom fl. owed_flight c (the ((fl(a \<mapsto> x)) b))) = owed_fl c fl"
    unfolding owed_fl_def using assms(2) by (intro sum.cong) auto
  moreover have "a \<notin> dom fl" using assms(2) by auto
  ultimately show ?thesis using assms(1) by (simp add: owed_fl_def add.commute)
qed

lemma owed_remove:
  assumes "finite (dom fl)" "fl a = Some x"
  shows "owed_fl c fl = owed_fl c (fl(a := None)) + owed_flight c x"
proof -
  have "finite (dom (fl(a := None)))" "(fl(a := None)) a = None" using assms(1) by auto
  from owed_add [OF this] have "owed_fl c ((fl(a := None))(a \<mapsto> x)) = owed_fl c (fl(a := None)) + owed_flight c x" .
  moreover have "(fl(a := None))(a \<mapsto> x) = fl" using assms(2) by auto
  ultimately show ?thesis by simp
qed

lemma owed_phase:
  assumes "finite (dom fl)" "fl a = Some x"
  shows "owed_fl c (fl(a \<mapsto> y)) + owed_flight c x = owed_fl c fl + owed_flight c y"
proof -
  have "owed_fl c ((fl(a := None))(a \<mapsto> y)) = owed_fl c (fl(a := None)) + owed_flight c y"
    by (rule owed_add) (use assms(1) in auto)
  then show ?thesis using owed_remove [OF assms] by simp
qed

end
