(* ===== verification/Hybrid_Invariant.thy ===== *)
theory Hybrid_Invariant
  imports Hybrid_Flights
begin

text \<open>
  The simulation between the controller and its flights: the relation \<open>Rel\<close> ties every table
  of the state to the flights under way and to the reads that the memories still have to
  answer. Each operation of the controller returns normally and is matched by a change of
  the flights; no completion call is lost or made twice, and the count of pending accesses
  is exact.
\<close>

section \<open>The relation\<close>

text \<open>Reads that the DRAM and the flash hold, and the pages whose critical line was announced.\<close>

record menv =
  dout :: "nat list"
  fout :: "nat list"
  crit :: "nat set"

definition reads :: "Transaction list \<Rightarrow> nat list" where
  "reads q = map address (filter (\<lambda>t. transactionType t = DATA_READ) q)"

definition flash_keys :: "hs_cfg \<Rightarrow> flights \<Rightarrow> nat set" where
  "flash_keys c fl = {k. \<exists>a x. fl a = Some x \<and> flash_key c a x = Some k}"

definition crit_keys :: "hs_cfg \<Rightarrow> flights \<Rightarrow> nat set" where
  "crit_keys c fl = {k. \<exists>a x. fl a = Some x \<and> flash_key c a x = Some k \<and> f_sent x}"

abbreviation lines :: "hs \<Rightarrow> nat \<Rightarrow> cache_line" where
  "lines s \<equiv> um_at new_line (cache s)"

abbreviation counters :: "hs \<Rightarrow> nat \<Rightarrow> nat" where
  "counters s \<equiv> um_at 0 (set_counter s)"

definition Rel :: "hs \<Rightarrow> flights \<Rightarrow> nat set \<Rightarrow> menv \<Rightarrow> bool" where
  "Rel s fl X e \<longleftrightarrow>
     fl_wf (cfg s) fl \<and>
     pages_ok (cfg s) fl (um_get (pending_pages s)) \<and>
     (\<forall>k. um_has (pending_flash_addr s) k \<longleftrightarrow> k \<in> dom fl \<union> X) \<and> dom fl \<inter> X = {} \<and>
     locks_ok (cfg s) fl (lines s) (counters s) \<and>
     tags_ok (cfg s) fl (lines s) \<and>
     keyed (flash_key (cfg s)) flash_val fl (um_get (flash_pending s)) \<and>
     keyed (flash_key (cfg s)) (flash_wait_val (cfg s)) fl (um_get (flash_pending_wait s)) \<and>
     keyed (dram_key (cfg s)) dram_val fl (um_get (dram_pending s)) \<and>
     keyed victim_key (dram_wait_val (cfg s)) fl (um_get (dram_pending_wait s)) \<and>
     reads_ok (reads (dram_queue s) @ dout e) (dram_exp (cfg s) fl (um_get (dram_pending_wait s))) \<and>
     reads_ok (reads (flash_queue s) @ fout e) (flash_keys (cfg s) fl) \<and>
     crit e = crit_keys (cfg s) fl"

lemma RelD:
  assumes "Rel s fl X e"
  shows Rel_wf: "fl_wf (cfg s) fl" and Rel_pages: "pages_ok (cfg s) fl (um_get (pending_pages s))"
    and Rel_addr: "\<And>k. um_has (pending_flash_addr s) k \<longleftrightarrow> k \<in> dom fl \<union> X" and Rel_disj: "dom fl \<inter> X = {}"
    and Rel_locks: "locks_ok (cfg s) fl (lines s) (counters s)" and Rel_tags: "tags_ok (cfg s) fl (lines s)"
    and Rel_flash: "keyed (flash_key (cfg s)) flash_val fl (um_get (flash_pending s))"
    and Rel_flash_wait: "keyed (flash_key (cfg s)) (flash_wait_val (cfg s)) fl (um_get (flash_pending_wait s))"
    and Rel_dram: "keyed (dram_key (cfg s)) dram_val fl (um_get (dram_pending s))"
    and Rel_dram_wait: "keyed victim_key (dram_wait_val (cfg s)) fl (um_get (dram_pending_wait s))"
    and Rel_dreads: "reads_ok (reads (dram_queue s) @ dout e) (dram_exp (cfg s) fl (um_get (dram_pending_wait s)))"
    and Rel_freads: "reads_ok (reads (flash_queue s) @ fout e) (flash_keys (cfg s) fl)"
    and Rel_crit: "crit e = crit_keys (cfg s) fl"
  using assms by (simp_all add: Rel_def)

lemma RelI:
  assumes "fl_wf (cfg s) fl" "pages_ok (cfg s) fl (um_get (pending_pages s))"
    and "\<And>k. um_has (pending_flash_addr s) k \<longleftrightarrow> k \<in> dom fl \<union> X" "dom fl \<inter> X = {}"
    and "locks_ok (cfg s) fl (lines s) (counters s)" "tags_ok (cfg s) fl (lines s)"
    and "keyed (flash_key (cfg s)) flash_val fl (um_get (flash_pending s))"
    and "keyed (flash_key (cfg s)) (flash_wait_val (cfg s)) fl (um_get (flash_pending_wait s))"
    and "keyed (dram_key (cfg s)) dram_val fl (um_get (dram_pending s))"
    and "keyed victim_key (dram_wait_val (cfg s)) fl (um_get (dram_pending_wait s))"
    and "reads_ok (reads (dram_queue s) @ dout e) (dram_exp (cfg s) fl (um_get (dram_pending_wait s)))"
    and "reads_ok (reads (flash_queue s) @ fout e) (flash_keys (cfg s) fl)"
    and "crit e = crit_keys (cfg s) fl"
  shows "Rel s fl X e"
  using assms by (simp add: Rel_def)

text \<open>The settings under which the relation is kept.\<close>

definition cfg_ok :: "hs_cfg \<Rightarrow> bool" where
  "cfg_ok c \<longleftrightarrow> wf_cfg c \<and> FLASH_BURST_SIZE c = PAGE_SIZE c \<and> \<not> ENABLE_PERFECT_PREFETCHING c \<and>
     (TLB_SIZE c = 0 \<or> BYTES_PER_READ \<le> TLB_SIZE c)"

lemma cfg_okD: "cfg_ok c \<Longrightarrow> wf_cfg c" "cfg_ok c \<Longrightarrow> FLASH_BURST_SIZE c = PAGE_SIZE c"
  "cfg_ok c \<Longrightarrow> \<not> ENABLE_PERFECT_PREFETCHING c"
  by (simp_all add: cfg_ok_def)

subsection \<open>Bookkeeping\<close>

text \<open>
  \<open>account\<close> collects the completion calls made, those owed to queued transactions and those
  owed to flights; \<open>balance\<close> compares the counter of pending accesses with the accesses.
\<close>

definition done_mset :: "hs \<Rightarrow> (bool \<times> nat) multiset" where
  "done_mset s = mset (map (\<lambda>(w, i, a, t). (w, a)) (done_calls s))"

definition call_of :: "hs_cfg \<Rightarrow> Transaction \<Rightarrow> (bool \<times> nat) multiset" where
  "call_of c tr = call_mset c (transactionType tr) (address tr)"

definition queue_mset :: "hs \<Rightarrow> (bool \<times> nat) multiset" where
  "queue_mset s = sum_list (map (call_of (cfg s)) (trans_queue s))"

definition account :: "hs \<Rightarrow> flights \<Rightarrow> (bool \<times> nat) multiset" where
  "account s fl = done_mset s + queue_mset s + owed_fl (cfg s) fl"

definition balance :: "hs \<Rightarrow> flights \<Rightarrow> int" where
  "balance s fl = pending_count s - int (length (trans_queue s)) - int (card (dom fl))"

text \<open>Fields that the processing of a transaction and the callbacks leave alone.\<close>

definition misc :: "hs \<Rightarrow> _" where
  "misc s = (cfg s, systemID s, ReadDone s, WriteDone s, tlb_base_set s, active_transaction s,
     active_transaction_flag s, delay_counter s, currentClockCycle s)"

definition prefetches :: "nat list \<Rightarrow> Transaction list" where
  "prefetches as = map (mkTransaction PREFETCH) as"

definition size_ok :: "hs \<Rightarrow> bool" where
  "size_ok s \<longleftrightarrow> trans_queue_size s = u64 (length (trans_queue s))"

definition good :: "hs \<Rightarrow> flights \<Rightarrow> (bool \<times> nat) multiset \<Rightarrow> int \<Rightarrow> hs \<Rightarrow> flights \<Rightarrow> bool" where
  "good s fl d n s' fl' \<longleftrightarrow> misc s' = misc s \<and> (\<exists>as. trans_queue s' = prefetches as @ trans_queue s) \<and>
     account s' fl' = account s fl + d \<and> balance s' fl' = balance s fl + n \<and> (size_ok s \<longrightarrow> size_ok s')"

lemma goodI:
  assumes "misc s' = misc s" "trans_queue s' = prefetches as @ trans_queue s"
    "account s' fl' = account s fl + d" "balance s' fl' = balance s fl + n" "size_ok s \<Longrightarrow> size_ok s'"
  shows "good s fl d n s' fl'"
  using assms by (auto simp: good_def)

lemma good_trans:
  assumes "good s fl d n s' fl'" "good s' fl' d' n' s'' fl''"
  shows "good s fl (d + d') (n + n') s'' fl''"
proof -
  obtain as bs where "trans_queue s' = prefetches as @ trans_queue s"
    "trans_queue s'' = prefetches bs @ trans_queue s'" using assms by (auto simp: good_def)
  then have "trans_queue s'' = prefetches (bs @ as) @ trans_queue s" by (simp add: prefetches_def)
  then show ?thesis using assms by (intro goodI [of _ _ "bs @ as"]) (auto simp: good_def add.assoc)
qed

lemma good_cfg: "good s fl d n s' fl' \<Longrightarrow> cfg s' = cfg s"
  by (simp add: good_def misc_def)

section \<open>Operations as record updates\<close>

lemma line_used_eq:
  "line_used l s = s\<lparr>unused_prefetches :=
     (if cl_prefetched l \<and> \<not> cl_used l then u64_sub (unused_prefetches s) 1 else unused_prefetches s)\<rparr>"
  by (simp add: line_used_def)

lemma ReadDone_eq:
  "ReadDone s \<Longrightarrow> ReadDoneCallback i a t s = s\<lparr>done_calls := done_calls s @ [(False, i, callback_addr (cfg s) a, t)]\<rparr>"
  by (simp add: ReadDoneCallback_def)

lemma WriteDone_eq:
  "WriteDone s \<Longrightarrow> WriteDoneCallback i a t s = s\<lparr>done_calls := done_calls s @ [(True, i, callback_addr (cfg s) a, t)]\<rparr>"
  by (simp add: WriteDoneCallback_def)

lemma fill_line_eq:
  "fill_line p s = s\<lparr>cache := um_put (p_cache_addr p)
       ((lines s (p_cache_addr p))\<lparr>cl_tag := TAG (cfg s) (p_flash_addr p), cl_dirty := False,
          cl_valid := True, cl_ts := currentClockCycle s, cl_used := False,
          cl_prefetched := (p_type p = PREFETCH)\<rparr>) (cache s),
     total_prefetches := (if p_type p = PREFETCH then u64 (total_prefetches s + 1) else total_prefetches s),
     unused_prefetches := (if p_type p = PREFETCH then u64 (unused_prefetches s + 1) else unused_prefetches s)\<rparr>"
  by (simp add: fill_line_def Let_def)

lemma unlock_hit:
  assumes "um_get (pending_pages s) (PAGE_ADDRESS (cfg s) a) = None" "um_has (pending_flash_addr s) a"
  shows "contention_unlock a False v lv l s =
    Inr (let s1 = s\<lparr>pending_flash_addr := um_del a (pending_flash_addr s)\<rparr>;
             s2 = (if lv then contention_cache_line_unlock l s1 else s1)
         in s2\<lparr>check_queue := True, pending_count := pending_count s2 - 1\<rparr>)"
  using assms by (simp add: contention_unlock_def um_has_get assertR_def Let_def)

lemma unlock_wait:
  assumes "um_get (pending_pages s) (PAGE_ADDRESS (cfg s) a) = Some n" "n \<noteq> 0"
  shows "contention_unlock a vv v lv l s = Inr s"
  using assms by (simp add: contention_unlock_def um_has_get um_at_Some)

lemma unlock_miss:
  assumes "um_get (pending_pages s) (PAGE_ADDRESS (cfg s) a) = Some 0" "um_has (pending_flash_addr s) a"
    and "vv \<Longrightarrow> um_has (pending_pages s) v" "vv \<Longrightarrow> v \<noteq> PAGE_ADDRESS (cfg s) a"
  shows "contention_unlock a vv v lv l s =
    Inr (let s1 = s\<lparr>pending_pages := (if vv then um_del v else id) (um_del (PAGE_ADDRESS (cfg s) a) (pending_pages s)),
                    pending_flash_addr := um_del a (pending_flash_addr s)\<rparr>;
             s2 = (if lv then contention_cache_line_unlock l s1 else s1)
         in s2\<lparr>check_queue := True, pending_count := pending_count s2 - 1\<rparr>)"
proof -
  have swap: "s\<lparr>pending_flash_addr := f, pending_pages := p\<rparr> = s\<lparr>pending_pages := p, pending_flash_addr := f\<rparr>" for f p
    by (rule hs.equality) simp_all
  show ?thesis
    using assms by (cases vv) (simp_all add: contention_unlock_def contention_victim_unlock_def um_has_get
        um_at_Some assertR_def Let_def um_get_del swap)
qed

section \<open>Locking and unlocking a line\<close>

lemma set_size_u64: "wf_cfg c \<Longrightarrow> SET_SIZE c < 2 ^ 64"
proof -
  assume wf: "wf_cfg c"
  have "SET_SIZE c * 1 \<le> TOTAL_PAGES c * PAGE_SIZE c"
    using wf_cache_pages [OF wf] wf_page_size [OF wf] by (intro mult_le_mono) auto
  then show ?thesis using wf_total(2) [OF wf] by linarith
qed

lemma lock_bound:
  assumes "wf_cfg c" "fl_wf c fl" "locks_ok c fl L SC" "l \<in> set_lines c (SET_INDEX c a)"
  shows "cl_lock_count (L l) \<le> SC (SET_INDEX c a)"
proof -
  have "holders fl l \<subseteq> set_holders c fl (SET_INDEX c a)"
  proof
    fix b assume "b \<in> holders fl l"
    then obtain x where b: "fl b = Some x" "f_line x = l" by (auto simp: holders_def)
    have "SET_INDEX c l = SET_INDEX c b"
      using set_linesD(1) [OF assms(1)] flight_wf_line [OF fl_wfD(1) [OF assms(2) b(1)]] b(2) by metis
    moreover have "SET_INDEX c l = SET_INDEX c a" by (rule set_linesD(1) [OF assms(1,4)])
    ultimately show "b \<in> set_holders c fl (SET_INDEX c a)" using b(1) by (auto simp: set_holders_def)
  qed
  moreover have "finite (set_holders c fl (SET_INDEX c a))"
    using assms(2) by (auto simp: fl_wf_def intro: holders_finite)
  ultimately show ?thesis using locks_okD(1,3) [OF assms(3)] by (simp add: card_mono)
qed

lemma lock_keeps_tags [simp]:
  "cl_valid (lines (contention_cache_line_lock l s) m) = cl_valid (lines s m)"
  "cl_tag (lines (contention_cache_line_lock l s) m) = cl_tag (lines s m)"
  "cl_valid (lines (contention_cache_line_unlock l s) m) = cl_valid (lines s m)"
  "cl_tag (lines (contention_cache_line_unlock l s) m) = cl_tag (lines s m)"
  by (simp_all add: contention_cache_line_lock_def contention_cache_line_unlock_def Let_def um_at_put)

lemma lock_line:
  assumes wf: "wf_cfg (cfg s)" and fl: "fl_wf (cfg s) fl" "locks_ok (cfg s) fl (lines s) (counters s)" "fl a = None"
    and l: "f_line x = l" "l \<in> set_lines (cfg s) (SET_INDEX (cfg s) a)"
    and room: "counters s (SET_INDEX (cfg s) a) < SET_SIZE (cfg s)"
  shows "locks_ok (cfg s) (fl(a \<mapsto> x)) (lines (contention_cache_line_lock l s)) (counters (contention_cache_line_lock l s))"
proof (rule locks_add [OF fl(2) _ fl(3) room])
  have n: "u64 (n + 1) = Suc n" if "n \<le> counters s (SET_INDEX (cfg s) a)" for n
    using that room set_size_u64 [OF wf] by (simp add: u64_id)
  note count = n [OF lock_bound [OF wf fl(1,2) l(2)]] and counter = n [OF order_refl]
  have set: "SET_INDEX (cfg s) l = SET_INDEX (cfg s) a" by (rule set_linesD(1) [OF wf l(2)])
  show "finite (dom fl)" using fl(1) by (simp add: fl_wf_def)
  show "cl_lock_count (lines (contention_cache_line_lock l s) m) =
      (if m = f_line x then Suc (cl_lock_count (lines s m)) else cl_lock_count (lines s m))" for m
    using count by (simp add: contention_cache_line_lock_def Let_def um_at_put l(1))
  show "cl_locked (lines (contention_cache_line_lock l s) m) = (m = f_line x \<or> cl_locked (lines s m))" for m
    by (simp add: contention_cache_line_lock_def Let_def um_at_put l(1))
  show "counters (contention_cache_line_lock l s) i =
      (if i = SET_INDEX (cfg s) a then Suc (counters s i) else counters s i)" for i
    using counter by (auto simp: contention_cache_line_lock_def Let_def um_at_put set um_has_get um_at_get um_get_put)
qed

lemma unlock_line:
  assumes wf: "wf_cfg (cfg s)" and fl: "fl_wf (cfg s) fl" "locks_ok (cfg s) fl (lines s) (counters s)"
    and x: "fl a = Some x" "f_line x = l"
  shows "locks_ok (cfg s) (fl(a := None)) (lines (contention_cache_line_unlock l s)) (counters (contention_cache_line_unlock l s))"
proof (rule locks_remove [OF fl(2) _ x(1)])
  have l: "l \<in> set_lines (cfg s) (SET_INDEX (cfg s) a)"
    using flight_wf_line [OF fl_wfD(1) [OF fl(1) x(1)]] x(2) by simp
  have set: "SET_INDEX (cfg s) l = SET_INDEX (cfg s) a" by (rule set_linesD(1) [OF wf l])
  have fin: "finite (dom fl)" using fl(1) by (simp add: fl_wf_def)
  then show "finite (dom fl)" .
  have "a \<in> holders fl l" using x by (auto simp: holders_def)
  then have pos: "0 < cl_lock_count (lines s l)"
    using locks_okD(1) [OF fl(2)] holders_finite(1) [OF fin] by (auto simp: card_gt_0_iff)
  have sub: "u64_sub n 1 = n - 1" if "0 < n" "n \<le> counters s (SET_INDEX (cfg s) a)" for n
    using that locks_okD(4) [OF fl(2)] set_size_u64 [OF wf]
    by (intro u64_sub_id) (auto simp: Suc_le_eq intro: le_less_trans)
  note bound = lock_bound [OF wf fl l]
  note count = sub [OF pos bound] and counter = sub [OF less_le_trans [OF pos bound] order_refl]
  show "cl_lock_count (lines (contention_cache_line_unlock l s) m) =
      (if m = f_line x then cl_lock_count (lines s m) - 1 else cl_lock_count (lines s m))" for m
    using count by (simp add: contention_cache_line_unlock_def Let_def um_at_put x(2))
  show "cl_locked (lines (contention_cache_line_unlock l s) m) =
      (if m = f_line x then 1 < cl_lock_count (lines s m) else cl_locked (lines s m))" for m
    using count pos locks_okD(1,2) [OF fl(2)] \<open>a \<in> holders fl l\<close>
    by (auto simp: contention_cache_line_unlock_def Let_def um_at_put x(2))
  show "counters (contention_cache_line_unlock l s) i =
      (if i = SET_INDEX (cfg s) a then counters s i - 1 else counters s i)" for i
    using counter by (simp add: contention_cache_line_unlock_def Let_def um_at_put set)
qed

lemma unlock_fields [simp]:
  "cfg (contention_cache_line_unlock l s) = cfg s" "pending_pages (contention_cache_line_unlock l s) = pending_pages s"
  "pending_flash_addr (contention_cache_line_unlock l s) = pending_flash_addr s"
  "flash_pending (contention_cache_line_unlock l s) = flash_pending s"
  "flash_pending_wait (contention_cache_line_unlock l s) = flash_pending_wait s"
  "dram_pending (contention_cache_line_unlock l s) = dram_pending s"
  "dram_pending_wait (contention_cache_line_unlock l s) = dram_pending_wait s"
  "dram_queue (contention_cache_line_unlock l s) = dram_queue s"
  "flash_queue (contention_cache_line_unlock l s) = flash_queue s"
  "trans_queue (contention_cache_line_unlock l s) = trans_queue s" "trans_queue_size (contention_cache_line_unlock l s) = trans_queue_size s"
  "pending_count (contention_cache_line_unlock l s) = pending_count s"
  "done_calls (contention_cache_line_unlock l s) = done_calls s"
  "misc (contention_cache_line_unlock l s) = misc s"
  by (simp_all add: contention_cache_line_unlock_def Let_def misc_def)

lemma lock_fields [simp]:
  "cfg (contention_cache_line_lock l s) = cfg s" "pending_pages (contention_cache_line_lock l s) = pending_pages s"
  "pending_flash_addr (contention_cache_line_lock l s) = pending_flash_addr s"
  "flash_pending (contention_cache_line_lock l s) = flash_pending s"
  "flash_pending_wait (contention_cache_line_lock l s) = flash_pending_wait s"
  "dram_pending (contention_cache_line_lock l s) = dram_pending s"
  "dram_pending_wait (contention_cache_line_lock l s) = dram_pending_wait s"
  "dram_queue (contention_cache_line_lock l s) = dram_queue s"
  "flash_queue (contention_cache_line_lock l s) = flash_queue s"
  "trans_queue (contention_cache_line_lock l s) = trans_queue s" "trans_queue_size (contention_cache_line_lock l s) = trans_queue_size s"
  "pending_count (contention_cache_line_lock l s) = pending_count s"
  "done_calls (contention_cache_line_lock l s) = done_calls s"
  "misc (contention_cache_line_lock l s) = misc s"
  "currentClockCycle (contention_cache_line_lock l s) = currentClockCycle s"
  "systemID (contention_cache_line_lock l s) = systemID s" "ReadDone (contention_cache_line_lock l s) = ReadDone s"
  "WriteDone (contention_cache_line_lock l s) = WriteDone s"
  "stream_buffers (contention_cache_line_lock l s) = stream_buffers s"
  "prefetch_cheat_map (contention_cache_line_lock l s) = prefetch_cheat_map s"
  by (simp_all add: contention_cache_line_lock_def Let_def misc_def)

section \<open>Keys of the flash table\<close>

lemma collect_upd:
  "{k. \<exists>b y. (fl(a := z)) b = Some y \<and> Q b y k} =
     {k. \<exists>y. z = Some y \<and> Q a y k} \<union> {k. \<exists>b y. b \<noteq> a \<and> fl b = Some y \<and> Q b y k}"
  by (auto split: if_splits)

lemma collect_at:
  "{k. \<exists>b y. fl b = Some y \<and> Q b y k} =
     {k. \<exists>y. fl a = Some y \<and> Q a y k} \<union> {k. \<exists>b y. b \<noteq> a \<and> fl b = Some y \<and> Q b y k}"
  by auto

lemma flash_keys_upd:
  "flash_keys c (fl(a := z)) = {k. \<exists>y. z = Some y \<and> flash_key c a y = Some k} \<union>
     {k. \<exists>b y. b \<noteq> a \<and> fl b = Some y \<and> flash_key c b y = Some k}"
  "flash_keys c fl = {k. \<exists>y. fl a = Some y \<and> flash_key c a y = Some k} \<union>
     {k. \<exists>b y. b \<noteq> a \<and> fl b = Some y \<and> flash_key c b y = Some k}"
  unfolding flash_keys_def by (rule collect_upd) (rule collect_at)

lemma crit_keys_upd:
  "crit_keys c (fl(a := z)) = {k. \<exists>y. z = Some y \<and> flash_key c a y = Some k \<and> f_sent y} \<union>
     {k. \<exists>b y. b \<noteq> a \<and> fl b = Some y \<and> flash_key c b y = Some k \<and> f_sent y}"
  "crit_keys c fl = {k. \<exists>y. fl a = Some y \<and> flash_key c a y = Some k \<and> f_sent y} \<union>
     {k. \<exists>b y. b \<noteq> a \<and> fl b = Some y \<and> flash_key c b y = Some k \<and> f_sent y}"
  unfolding crit_keys_def by (rule collect_upd) (rule collect_at)

lemma keys_none:
  assumes "\<And>x. fl a = Some x \<Longrightarrow> flash_key c a x = None" "\<And>y. z = Some y \<Longrightarrow> flash_key c a y = None"
  shows "flash_keys c (fl(a := z)) = flash_keys c fl" "crit_keys c (fl(a := z)) = crit_keys c fl"
  unfolding flash_keys_upd(1) flash_keys_upd(2) [of c fl a] crit_keys_upd(1) crit_keys_upd(2) [of c fl a]
  using assms by auto

lemma keys_phase:
  assumes "fl a = Some x" "flash_key c a y = flash_key c a x" "f_sent y = f_sent x \<or> flash_key c a x = None"
  shows "flash_keys c (fl(a \<mapsto> y)) = flash_keys c fl" "crit_keys c (fl(a \<mapsto> y)) = crit_keys c fl"
  unfolding flash_keys_upd(1) flash_keys_upd(2) [of c fl a] crit_keys_upd(1) crit_keys_upd(2) [of c fl a]
  using assms by auto

lemma keys_add:
  assumes "fl a = None" "flash_key c a x = Some k" "\<not> f_sent x"
  shows "flash_keys c (fl(a \<mapsto> x)) = flash_keys c fl \<union> {k}" "crit_keys c (fl(a \<mapsto> x)) = crit_keys c fl"
  unfolding flash_keys_upd(1) flash_keys_upd(2) [of c fl a] crit_keys_upd(1) crit_keys_upd(2) [of c fl a]
  using assms by auto

lemma keys_del:
  assumes "fl a = Some x" "flash_key c a x = Some k"
    and "\<And>b y. fl b = Some y \<Longrightarrow> b \<noteq> a \<Longrightarrow> flash_key c b y \<noteq> Some k"
    and "\<And>y. z = Some y \<Longrightarrow> flash_key c a y = None"
  shows "flash_keys c (fl(a := z)) = flash_keys c fl - {k}" "crit_keys c (fl(a := z)) = crit_keys c fl - {k}"
  unfolding flash_keys_upd(1) flash_keys_upd(2) [of c fl a] crit_keys_upd(1) crit_keys_upd(2) [of c fl a]
  using assms by auto

lemma keys_sent:
  assumes "fl a = Some x" "flash_key c a x = Some k" "flash_key c a y = Some k" "f_sent y"
  shows "flash_keys c (fl(a \<mapsto> y)) = flash_keys c fl" "crit_keys c (fl(a \<mapsto> y)) = insert k (crit_keys c fl)"
  unfolding flash_keys_upd(1) flash_keys_upd(2) [of c fl a] crit_keys_upd(1) crit_keys_upd(2) [of c fl a]
  using assms by auto

section \<open>Answers of the DRAM\<close>

lemma hit_page_free:
  assumes "Rel s fl X e" "fl a = Some x" "\<not> f_miss x"
  shows "um_get (pending_pages s) (PAGE_ADDRESS (cfg s) a) = None"
proof (cases "um_get (pending_pages s) (PAGE_ADDRESS (cfg s) a)")
  case (Some n)
  then obtain b y where b: "fl b = Some y" "PAGE_ADDRESS (cfg s) a \<in> own_pages (cfg s) b y"
    using pages_ok_owner [OF Rel_pages [OF assms(1)]] by blast
  then have "f_miss y" by (auto simp: own_pages_def split: if_splits)
  moreover from this have "b \<noteq> a" using b(1) assms(2,3) by auto
  ultimately show ?thesis using fl_wf_excl(1) [OF Rel_wf [OF assms(1)] b(1) assms(2)] b(2) by blast
qed

lemma reads_ok_answer:
  assumes "reads_ok (R @ out) E" "k \<in> set out"
  shows "reads_ok (R @ remove1 k out) (E - {k})"
proof -
  have "k \<notin> set R" using assms by (auto simp: reads_ok_def)
  then show ?thesis using reads_ok_remove [OF assms(1), of k] by (simp add: remove1_append)
qed

lemmas account_defs = account_def done_mset_def queue_mset_def owed_flight_def call_mset_def

lemma dom_remove: "fl a = Some x \<Longrightarrow> finite (dom fl) \<Longrightarrow> int (card (dom (fl(a := None)))) = int (card (dom fl)) - 1"
proof -
  assume a: "fl a = Some x" and fin: "finite (dom fl)"
  have "dom (fl(a := None)) = dom fl - {a}" "a \<in> dom fl" using a by auto
  then show ?thesis using fin card_gt_0_iff [of "dom fl"] by (auto simp: card_Diff_singleton of_nat_diff Suc_le_eq)
qed

lemma DRAM_hit_answer:
  assumes ok: "cfg_ok (cfg s)" "ReadDone s" and rel: "Rel s fl X e"
    and x: "fl a = Some x" "\<not> f_miss x" and k: "k = data_addr (cfg s) a (f_line x)" "k \<in> set (dout e)"
  shows "okR (DRAMReadCallback k s) (\<lambda>s'. Rel s' (fl(a := None)) X (e\<lparr>dout := remove1 k (dout e)\<rparr>) \<and>
    good s fl {#} 0 s' (fl(a := None)))"
proof -
  let ?c = "cfg s" and ?l = "f_line x"
  note wf = cfg_okD(1) [OF ok(1)] and w = fl_wfD(1) [OF Rel_wf [OF rel] x(1)]
  have hk: "hit_key ?c a x = Some k" and dk: "dram_key ?c a x = Some k" using x(2) k(1) by (simp_all add: key_defs)
  note nw = hit_not_awaited [OF wf Rel_wf [OF rel] Rel_dram_wait [OF rel] x(1) hk]
  have dp: "um_get (dram_pending s) k = Some (mkp a x CACHE_READ False)"
    using keyedD [OF Rel_dram [OF rel] x(1) dk] x(2) by (simp add: dram_val_def)
  have vx: "\<not> f_vvalid x" "\<not> f_sent x" "f_type x = DATA_READ" using w x(2) by (simp_all add: flight_wf_def)
  define s1 where "s1 = s\<lparr>dram_pending := um_del k (dram_pending s),
    done_calls := done_calls s @ [(False, systemID s, callback_addr ?c (f_orig x), currentClockCycle s)],
    pending_flash_addr := um_del a (pending_flash_addr s)\<rparr>"
  define s2 where "s2 = contention_cache_line_unlock ?l s1"
  let ?s' = "s2\<lparr>check_queue := True, pending_count := pending_count s2 - 1,
    dram_pending_set := dram_pending_set s2 - {k}\<rparr>"
  have "um_has (pending_flash_addr s) a" using Rel_addr [OF rel] x(1) by auto
  then have res: "DRAMReadCallback k s = Inr ?s'"
    using nw(1) dp hit_page_free [OF rel x] vx ok(2)
    by (simp add: DRAMReadCallback_def um_has_get CacheReadFinish_def ReadDone_eq Let_def unlock_hit s1_def s2_def)
  have c: "cfg ?s' = ?c" by (simp add: s1_def s2_def)
  note sd = s1_def s2_def
  have al: "a \<notin> X" using Rel_disj [OF rel] x(1) by auto
  have "Rel ?s' (fl(a := None)) X (e\<lparr>dout := remove1 k (dout e)\<rparr>)"
  proof (rule RelI, unfold c)
    show "fl_wf ?c (fl(a := None))" by (rule fl_wf_remove [OF Rel_wf [OF rel]])
    show "pages_ok ?c (fl(a := None)) (um_get (pending_pages ?s'))"
      using pages_remove_hit [OF Rel_pages [OF rel] x] by (simp add: sd)
    show "um_has (pending_flash_addr ?s') j \<longleftrightarrow> j \<in> dom (fl(a := None)) \<union> X" for j
      using Rel_addr [OF rel] al by (auto simp: sd um_has_del)
    show "dom (fl(a := None)) \<inter> X = {}" using Rel_disj [OF rel] by auto
    show "locks_ok ?c (fl(a := None)) (lines ?s') (counters ?s')"
      using unlock_line [of s1 fl a x ?l] wf Rel_wf [OF rel] Rel_locks [OF rel] x(1) by (simp add: sd)
    show "tags_ok ?c (fl(a := None)) (lines ?s')"
      by (rule tags_cong [OF tags_remove [OF Rel_tags [OF rel]]]) (simp_all add: sd)
    show "keyed (flash_key ?c) flash_val (fl(a := None)) (um_get (flash_pending ?s'))"
      using keyed_none [OF Rel_flash [OF rel], of a None] x by (simp add: sd flash_key_def)
    show "keyed (flash_key ?c) (flash_wait_val ?c) (fl(a := None)) (um_get (flash_pending_wait ?s'))"
      using keyed_none [OF Rel_flash_wait [OF rel], of a None] x by (simp add: sd flash_key_def)
    show "keyed (dram_key ?c) dram_val (fl(a := None)) (um_get (dram_pending ?s'))"
      using keyed_del [OF Rel_dram [OF rel] x(1) dk dram_key_inj [OF wf Rel_wf [OF rel] Rel_tags [OF rel] x(1) _ _ dk], of None]
      by (simp add: sd um_get_del_map)
    show "keyed victim_key (dram_wait_val ?c) (fl(a := None)) (um_get (dram_pending_wait ?s'))"
      using keyed_none [OF Rel_dram_wait [OF rel], of a None] x by (simp add: sd victim_key_def)
    show "reads_ok (reads (dram_queue ?s') @ dout (e\<lparr>dout := remove1 k (dout e)\<rparr>))
        (dram_exp ?c (fl(a := None)) (um_get (dram_pending_wait ?s')))"
      using reads_ok_answer [OF Rel_dreads [OF rel] k(2)]
      by (simp add: sd dram_exp_remove_hit [OF wf Rel_wf [OF rel] Rel_tags [OF rel] Rel_dram_wait [OF rel] x(1) hk])
    show "reads_ok (reads (flash_queue ?s') @ fout (e\<lparr>dout := remove1 k (dout e)\<rparr>)) (flash_keys ?c (fl(a := None)))"
      using Rel_freads [OF rel] keys_none(1) [of fl a ?c None] x by (simp add: sd flash_key_def)
    show "crit (e\<lparr>dout := remove1 k (dout e)\<rparr>) = crit_keys ?c (fl(a := None))"
      using Rel_crit [OF rel] keys_none(2) [of fl a ?c None] x by (simp add: flash_key_def)
  qed
  moreover have "good s fl {#} 0 ?s' (fl(a := None))"
  proof (rule goodI [of _ _ "[]"])
    have fin: "finite (dom fl)" using Rel_wf [OF rel] by (simp add: fl_wf_def)
    show "misc ?s' = misc s" by (simp add: misc_def s2_def s1_def contention_cache_line_unlock_def Let_def)
    show "trans_queue ?s' = prefetches [] @ trans_queue s" by (simp add: s2_def s1_def prefetches_def)
    show "account ?s' (fl(a := None)) = account s fl + {#}"
      using owed_remove [OF fin x(1), of ?c] vx
      by (simp add: account_defs s2_def s1_def)
    show "balance ?s' (fl(a := None)) = balance s fl + 0"
      using dom_remove [OF x(1) fin] by (simp add: balance_def s2_def s1_def)
    show "size_ok s \<Longrightarrow> size_ok ?s'" by (simp add: size_ok_def s2_def s1_def)
  qed
  ultimately show ?thesis by (simp add: res)
qed

lemma reads_append [simp]: "reads (p @ q) = reads p @ reads q"
  by (simp add: reads_def)

lemma reads_writes [simp]: "reads (map (mkTransaction DATA_WRITE) as) = []"
  by (induction as) (simp_all add: reads_def mkTransaction_def)

lemma reads_reads [simp]: "reads (map (mkTransaction DATA_READ) as) = as"
  by (induction as) (simp_all add: reads_def mkTransaction_def)

lemma victim_pending:
  assumes ok: "cfg_ok (cfg s)" and rel: "Rel s fl X e" and x: "fl a = Some x" "f_miss x" "f_vr x"
    and w: "um_get (dram_pending_wait s) (f_line x) = Some w" "k \<in> w"
  shows "PAGE_ADDRESS (cfg s) k = f_line x" "um_get (dram_pending s) (f_line x) = Some (mkp a x VICTIM_READ False)"
    and "w \<subseteq> set (dram_bursts (cfg s) (f_line x))"
proof -
  have vk: "victim_key a x = Some (f_line x)" and dk: "dram_key (cfg s) a x = Some (f_line x)"
    using x by (simp_all add: key_defs)
  show "PAGE_ADDRESS (cfg s) k = f_line x"
    by (rule victim_expected_line(1) [OF cfg_okD(1) [OF ok] Rel_wf [OF rel] Rel_dram_wait [OF rel] w])
  show "um_get (dram_pending s) (f_line x) = Some (mkp a x VICTIM_READ False)"
    using keyedD [OF Rel_dram [OF rel] x(1) dk] x(2) by (simp add: dram_val_def)
  show "w \<subseteq> set (dram_bursts (cfg s) (f_line x))"
    using keyedD [OF Rel_dram_wait [OF rel] x(1) vk] w(1) by (simp add: dram_wait_val_def)
qed

text \<open>A burst of the victim arrives and others are still to come.\<close>

lemma DRAM_victim_more:
  assumes ok: "cfg_ok (cfg s)" and rel: "Rel s fl X e" and x: "fl a = Some x" "f_miss x" "f_vr x"
    and w: "um_get (dram_pending_wait s) (f_line x) = Some w" "k \<in> w" "w - {k} \<noteq> {}" and k: "k \<in> set (dout e)"
  shows "okR (DRAMReadCallback k s) (\<lambda>s'. Rel s' fl X (e\<lparr>dout := remove1 k (dout e)\<rparr>) \<and> good s fl {#} 0 s' fl)"
proof -
  let ?c = "cfg s" and ?l = "f_line x" and ?p = "mkp a x VICTIM_READ False"
  note wf = cfg_okD(1) [OF ok]
  note vp = victim_pending [OF ok rel x w(1,2)]
  have vk: "victim_key a x = Some ?l" using x by (simp add: key_defs)
  let ?s' = "s\<lparr>dram_pending := um_put ?l ?p (um_del ?l (dram_pending s)),
    dram_pending_wait := um_put ?l (w - {k}) (dram_pending_wait s),
    dram_pending_set := dram_pending_set s - {k} - {k}\<rparr>"
  have res: "DRAMReadCallback k s = Inr ?s'"
    using vp(1,2) w(1,3)
    by (simp add: DRAMReadCallback_def um_has_get VictimReadFinish_def Let_def um_at_Some)
  have T: "um_get (um_put ?l ?p (um_del ?l (dram_pending s))) = um_get (dram_pending s)"
    using vp(2) by (auto simp: um_get_put_map um_get_del_map)
  have W: "keyed victim_key (dram_wait_val ?c) fl (um_get (um_put ?l (w - {k}) (dram_pending_wait s)))"
  proof -
    have "dram_wait_val ?c a x (w - {k})" using vp(3) w(3) by (auto simp: dram_wait_val_def)
    from keyed_set [OF Rel_dram_wait [OF rel] vk this]
    have "keyed victim_key (dram_wait_val ?c) (fl(a \<mapsto> x)) ((um_get (dram_pending_wait s))(?l \<mapsto> w - {k}))"
      using victim_key_inj [OF Rel_wf [OF rel] x(1) _ _ vk] x(1) vk by auto
    then show ?thesis using x(1) by (simp add: map_upd_triv um_get_put_map)
  qed
  have "reads_ok (reads (dram_queue s) @ remove1 k (dout e)) (dram_exp ?c fl ((um_get (dram_pending_wait s))(?l := Some (w - {k}))))"
    using reads_ok_answer [OF Rel_dreads [OF rel] k]
    by (simp add: dram_exp_answer [OF wf Rel_wf [OF rel] Rel_dram_wait [OF rel] w(1,2)])
  then have "Rel ?s' fl X (e\<lparr>dout := remove1 k (dout e)\<rparr>)"
    using rel T W by (simp add: Rel_def um_get_put_map)
  moreover have "good s fl {#} 0 ?s' fl"
    by (rule goodI [of _ _ "[]"]) (simp_all add: misc_def prefetches_def size_ok_def account_def done_mset_def queue_mset_def balance_def)
  ultimately show ?thesis by (simp add: res)
qed

definition victim_writes :: "hs_cfg \<Rightarrow> Pending \<Rightarrow> Transaction list" where
  "victim_writes c p = map (mkTransaction DATA_WRITE) (flash_bursts c
     (u64 ((p_victim_tag p * NUM_SETS c + SET_INDEX c (p_flash_addr p)) * PAGE_SIZE c)))"

lemma VictimWrite_eq: "VictimWrite p s = s\<lparr>flash_queue := flash_queue s @ victim_writes (cfg s) p\<rparr>"
  by (simp add: VictimWrite_def victim_writes_def Let_def)

lemma reads_victim_writes [simp]: "reads (victim_writes c p) = []"
  by (simp add: victim_writes_def)

text \<open>The last burst of the victim arrives while the new page is still read from flash.\<close>

lemma DRAM_victim_first:
  assumes ok: "cfg_ok (cfg s)" and rel: "Rel s fl X e" and x: "fl a = Some x" "f_miss x" "f_vr x" "f_lr x"
    and w: "um_get (dram_pending_wait s) (f_line x) = Some {k}" and k: "k \<in> set (dout e)"
    and y: "y = x\<lparr>f_vr := False\<rparr>"
  shows "okR (DRAMReadCallback k s) (\<lambda>s'. Rel s' (fl(a \<mapsto> y)) X (e\<lparr>dout := remove1 k (dout e)\<rparr>) \<and>
    good s fl {#} 0 s' (fl(a \<mapsto> y)))"
proof -
  let ?c = "cfg s" and ?l = "f_line x" and ?p = "mkp a x VICTIM_READ False" and ?pa = "PAGE_ADDRESS (cfg s) a"
  note wf = cfg_okD(1) [OF ok] and fw = fl_wfD [OF Rel_wf [OF rel] x(1)]
  note vp = victim_pending [OF ok rel x(1-3) w, simplified]
  have vk: "victim_key a x = Some ?l" and dk: "dram_key ?c a x = Some ?l" using x by (simp_all add: key_defs)
  note pp = pages_okD [OF Rel_pages [OF rel] x(1,2)]
  let ?s' = "s\<lparr>dram_pending := um_del ?l (dram_pending s),
    dram_pending_wait := um_del ?l (um_put ?l {} (dram_pending_wait s)),
    pending_pages := um_put ?pa 1 (pending_pages s),
    flash_queue := flash_queue s @ victim_writes ?c ?p,
    dram_pending_set := dram_pending_set s - {k}\<rparr>"
  have res: "DRAMReadCallback k s = Inr ?s'"
    using vp(1,2) w pp(1) x
    by (simp add: DRAMReadCallback_def um_has_get VictimReadFinish_def Let_def um_at_Some
        contention_decrement_def u64_sub_id unlock_wait [where n = 1] VictimWrite_eq um_get_put)
  have c: "cfg ?s' = ?c" by simp
  have ky: "dram_key ?c a y = None" "victim_key a y = None" using x by (simp_all add: key_defs y)
  have em: "dram_exp ?c (fl(a \<mapsto> y)) W = dram_exp ?c fl W" for W by (rule dram_exp_miss) (use x in \<open>auto simp: y\<close>)
  have wfy: "flight_wf ?c a y" using fw(1) x by (simp add: flight_wf_def y)
  have fl': "fl_wf ?c (fl(a \<mapsto> y))"
    by (rule fl_wf_phase [OF Rel_wf [OF rel] x(1) wfy]) (simp add: same_flight_def y)
  have "Rel ?s' (fl(a \<mapsto> y)) X (e\<lparr>dout := remove1 k (dout e)\<rparr>)"
  proof (rule RelI, unfold c)
    show "fl_wf ?c (fl(a \<mapsto> y))" by (rule fl')
    show "pages_ok ?c (fl(a \<mapsto> y)) (um_get (pending_pages ?s'))"
      by (rule pages_set_miss [OF Rel_pages [OF rel] fl'])
        (use x pp fw(1) in \<open>auto simp: um_get_put own_pages_def flight_wf_def y\<close>)
    show "um_has (pending_flash_addr ?s') j \<longleftrightarrow> j \<in> dom (fl(a \<mapsto> y)) \<union> X" for j
      using Rel_addr [OF rel] x(1) by auto
    show "dom (fl(a \<mapsto> y)) \<inter> X = {}" using Rel_disj [OF rel] x(1) by auto
    show "locks_ok ?c (fl(a \<mapsto> y)) (lines ?s') (counters ?s')"
      using locks_phase [OF Rel_locks [OF rel] x(1), of y] by (simp add: y)
    show "tags_ok ?c (fl(a \<mapsto> y)) (lines ?s')"
      using tags_set [OF Rel_tags [OF rel], of a y] tags_okD [OF Rel_tags [OF rel] x(1)] x by (simp add: flight_tags_def y)
    show "keyed (flash_key ?c) flash_val (fl(a \<mapsto> y)) (um_get (flash_pending ?s'))"
      using keyed_phase [OF Rel_flash [OF rel] x(1), of y] by (simp add: key_defs y)
    show "keyed (flash_key ?c) (flash_wait_val ?c) (fl(a \<mapsto> y)) (um_get (flash_pending_wait ?s'))"
      using keyed_phase [OF Rel_flash_wait [OF rel] x(1), of y] by (simp add: key_defs y)
    show "keyed (dram_key ?c) dram_val (fl(a \<mapsto> y)) (um_get (dram_pending ?s'))"
      using keyed_del [OF Rel_dram [OF rel] x(1) dk dram_key_inj [OF wf Rel_wf [OF rel] Rel_tags [OF rel] x(1) _ _ dk], of "Some y"]
      by (simp add: um_get_del_map ky)
    show W: "keyed victim_key (dram_wait_val ?c) (fl(a \<mapsto> y)) (um_get (dram_pending_wait ?s'))"
      using keyed_del [OF Rel_dram_wait [OF rel] x(1) vk victim_key_inj [OF Rel_wf [OF rel] x(1) _ _ vk], of "Some y"]
      by (simp add: um_get_del_map um_get_put_map ky)
    show "reads_ok (reads (dram_queue ?s') @ dout (e\<lparr>dout := remove1 k (dout e)\<rparr>))
        (dram_exp ?c (fl(a \<mapsto> y)) (um_get (dram_pending_wait ?s')))"
      using reads_ok_answer [OF Rel_dreads [OF rel] k]
        dram_exp_answer [OF wf Rel_wf [OF rel] Rel_dram_wait [OF rel] w, of k None]
      by (simp add: um_get_del_map um_get_put_map em)
    show "reads_ok (reads (flash_queue ?s') @ fout (e\<lparr>dout := remove1 k (dout e)\<rparr>)) (flash_keys ?c (fl(a \<mapsto> y)))"
      using Rel_freads [OF rel] keys_phase(1) [of fl a x ?c y] x(1) by (simp add: y flash_key_def)
    show "crit (e\<lparr>dout := remove1 k (dout e)\<rparr>) = crit_keys ?c (fl(a \<mapsto> y))"
      using Rel_crit [OF rel] keys_phase(2) [of fl a x ?c y] x(1) by (simp add: y flash_key_def)
  qed
  moreover have "good s fl {#} 0 ?s' (fl(a \<mapsto> y))"
  proof (rule goodI [of _ _ "[]"])
    have "owed_flight ?c y = owed_flight ?c x" by (cases "f_sent x") (simp_all add: owed_flight_def y)
    then show "account ?s' (fl(a \<mapsto> y)) = account s fl + {#}"
      using owed_phase [OF fw(2) x(1), of ?c y] by (simp add: account_def done_mset_def queue_mset_def)
  qed (use x(1) in \<open>simp_all add: misc_def prefetches_def size_ok_def balance_def insert_absorb domI\<close>)
  ultimately show ?thesis by (simp add: res)
qed

lemma victim_address_eq:
  assumes "wf_cfg c" "flight_wf c a x"
  shows "FLASH_ADDRESS c (f_vtag x) (SET_INDEX c (f_line x)) = vpage c a x"
  using set_linesD(1) [OF assms(1) flight_wf_line [OF assms(2)]] by (simp add: vpage_def)

text \<open>The pages of a finished miss are released.\<close>

lemma pages_release:
  assumes "pages_ok c fl PP" "fl_wf c fl" "fl a = Some x" "f_miss x"
    and "um_get m = PP(PAGE_ADDRESS c a \<mapsto> n)"
  shows "pages_ok c (fl(a := None))
    (um_get ((if f_vvalid x then um_del (vpage c a x) else id) (um_del (PAGE_ADDRESS c a) m)))"
  by (rule pages_remove_miss [OF assms(1-4)]) (use assms(4,5) in \<open>auto simp: own_pages_def um_get_del_map\<close>)

text \<open>The last burst of the victim arrives after the new page.\<close>

lemma DRAM_victim_last:
  assumes ok: "cfg_ok (cfg s)" and rel: "Rel s fl X e" and x: "fl a = Some x" "f_miss x" "f_vr x" "\<not> f_lr x"
    and w: "um_get (dram_pending_wait s) (f_line x) = Some {k}" and k: "k \<in> set (dout e)"
  shows "okR (DRAMReadCallback k s) (\<lambda>s'. Rel s' (fl(a := None)) X (e\<lparr>dout := remove1 k (dout e)\<rparr>) \<and>
    good s fl {#} 0 s' (fl(a := None)))"
proof -
  let ?c = "cfg s" and ?l = "f_line x" and ?p = "mkp a x VICTIM_READ False" and ?pa = "PAGE_ADDRESS (cfg s) a"
  note wf = cfg_okD(1) [OF ok] and fw = fl_wfD [OF Rel_wf [OF rel] x(1)]
  note vp = victim_pending [OF ok rel x(1-3) w, simplified]
  have vk: "victim_key a x = Some ?l" and dk: "dram_key ?c a x = Some ?l" using x by (simp_all add: key_defs)
  note pp = pages_okD [OF Rel_pages [OF rel] x(1,2)]
  define s1 where "s1 = s\<lparr>dram_pending := um_del ?l (dram_pending s),
    dram_pending_wait := um_del ?l (um_put ?l {} (dram_pending_wait s)),
    pending_pages := (if f_vvalid x then um_del (vpage ?c a x) else id) (um_del ?pa (um_put ?pa 0 (pending_pages s))),
    pending_flash_addr := um_del a (pending_flash_addr s)\<rparr>"
  define s2 where "s2 = contention_cache_line_unlock ?l s1"
  note sd = s1_def s2_def
  let ?s' = "s2\<lparr>check_queue := True, pending_count := pending_count s2 - 1,
    flash_queue := flash_queue s2 @ victim_writes ?c ?p,
    dram_pending_set := dram_pending_set s2 - {k}\<rparr>"
  have "um_has (pending_flash_addr s) a" using Rel_addr [OF rel] x(1) by auto
  moreover have "f_vvalid x \<Longrightarrow> vpage ?c a x \<noteq> ?pa" using fw(1) x(2) by (simp add: flight_wf_def)
  ultimately have res: "DRAMReadCallback k s = Inr ?s'"
    using vp(1,2) w pp x
    by (simp add: DRAMReadCallback_def um_has_get VictimReadFinish_def Let_def um_at_Some
        contention_decrement_def u64_sub_id unlock_miss VictimWrite_eq um_get_put victim_address_eq [OF wf fw(1)] sd)
  have c: "cfg ?s' = ?c" by (simp add: sd)
  have em: "dram_exp ?c (fl(a := None)) W = dram_exp ?c fl W" for W by (rule dram_exp_miss) (use x in auto)
  have al: "a \<notin> X" using Rel_disj [OF rel] x(1) by auto
  have "Rel ?s' (fl(a := None)) X (e\<lparr>dout := remove1 k (dout e)\<rparr>)"
  proof (rule RelI, unfold c)
    show "fl_wf ?c (fl(a := None))" by (rule fl_wf_remove [OF Rel_wf [OF rel]])
    show "pages_ok ?c (fl(a := None)) (um_get (pending_pages ?s'))"
      using pages_release [OF Rel_pages [OF rel] Rel_wf [OF rel] x(1,2) um_get_put_map, of 0] by (simp add: sd)
    show "um_has (pending_flash_addr ?s') j \<longleftrightarrow> j \<in> dom (fl(a := None)) \<union> X" for j
      using Rel_addr [OF rel] al by (auto simp: sd um_has_del)
    show "dom (fl(a := None)) \<inter> X = {}" using Rel_disj [OF rel] by auto
    show "locks_ok ?c (fl(a := None)) (lines ?s') (counters ?s')"
      using unlock_line [of s1 fl a x ?l] wf Rel_wf [OF rel] Rel_locks [OF rel] x(1) by (simp add: sd)
    show "tags_ok ?c (fl(a := None)) (lines ?s')"
      by (rule tags_cong [OF tags_remove [OF Rel_tags [OF rel]]]) (simp_all add: sd)
    show "keyed (flash_key ?c) flash_val (fl(a := None)) (um_get (flash_pending ?s'))"
      using keyed_none [OF Rel_flash [OF rel], of a None] x by (simp add: sd flash_key_def)
    show "keyed (flash_key ?c) (flash_wait_val ?c) (fl(a := None)) (um_get (flash_pending_wait ?s'))"
      using keyed_none [OF Rel_flash_wait [OF rel], of a None] x by (simp add: sd flash_key_def)
    show "keyed (dram_key ?c) dram_val (fl(a := None)) (um_get (dram_pending ?s'))"
      using keyed_del [OF Rel_dram [OF rel] x(1) dk dram_key_inj [OF wf Rel_wf [OF rel] Rel_tags [OF rel] x(1) _ _ dk], of None]
      by (simp add: sd um_get_del_map)
    show "keyed victim_key (dram_wait_val ?c) (fl(a := None)) (um_get (dram_pending_wait ?s'))"
      using keyed_del [OF Rel_dram_wait [OF rel] x(1) vk victim_key_inj [OF Rel_wf [OF rel] x(1) _ _ vk], of None]
      by (simp add: sd um_get_del_map um_get_put_map)
    show "reads_ok (reads (dram_queue ?s') @ dout (e\<lparr>dout := remove1 k (dout e)\<rparr>))
        (dram_exp ?c (fl(a := None)) (um_get (dram_pending_wait ?s')))"
      using reads_ok_answer [OF Rel_dreads [OF rel] k]
        dram_exp_answer [OF wf Rel_wf [OF rel] Rel_dram_wait [OF rel] w, of k None]
      by (simp add: sd um_get_del_map um_get_put_map em)
    show "reads_ok (reads (flash_queue ?s') @ fout (e\<lparr>dout := remove1 k (dout e)\<rparr>)) (flash_keys ?c (fl(a := None)))"
      using Rel_freads [OF rel] keys_none(1) [of fl a ?c None] x by (simp add: sd flash_key_def)
    show "crit (e\<lparr>dout := remove1 k (dout e)\<rparr>) = crit_keys ?c (fl(a := None))"
      using Rel_crit [OF rel] keys_none(2) [of fl a ?c None] x by (simp add: flash_key_def)
  qed
  moreover have "good s fl {#} 0 ?s' (fl(a := None))"
  proof (rule goodI [of _ _ "[]"])
    show "misc ?s' = misc s" by (simp add: misc_def sd contention_cache_line_unlock_def Let_def)
    show "trans_queue ?s' = prefetches [] @ trans_queue s" by (simp add: sd prefetches_def)
    show "account ?s' (fl(a := None)) = account s fl + {#}"
      using owed_remove [OF fw(2) x(1), of ?c] fw(1) x by (simp add: account_defs sd flight_wf_def)
    show "balance ?s' (fl(a := None)) = balance s fl + 0"
      using dom_remove [OF x(1) fw(2)] by (simp add: balance_def sd)
    show "size_ok s \<Longrightarrow> size_ok ?s'" by (simp add: size_ok_def sd)
  qed
  ultimately show ?thesis by (simp add: res)
qed

text \<open>Flights end or change phase, but none starts.\<close>

definition settled :: "hs_cfg \<Rightarrow> flights \<Rightarrow> flights \<Rightarrow> bool" where
  "settled c fl fl' \<longleftrightarrow> (\<forall>b y. fl' b = Some y \<longrightarrow> (\<exists>z. fl b = Some z \<and> own_pages c b y = own_pages c b z))"

lemma settled_refl [simp]: "settled c fl fl"
  by (simp add: settled_def)

lemma settled_trans: "settled c fl fl' \<Longrightarrow> settled c fl' fl'' \<Longrightarrow> settled c fl fl''"
  unfolding settled_def by metis

lemma settled_remove [simp]: "settled c fl (fl(a := None))"
  by (simp add: settled_def)

lemma settled_phase: "fl a = Some x \<Longrightarrow> own_pages c a y = own_pages c a x \<Longrightarrow> settled c fl (fl(a \<mapsto> y))"
  by (simp add: settled_def)

lemma settled_dom: "settled c fl fl' \<Longrightarrow> dom fl' \<subseteq> dom fl"
  unfolding settled_def by blast

lemma settled_clear: "settled c fl fl' \<Longrightarrow> clear_of c fl a \<Longrightarrow> clear_of c fl' a"
  unfolding clear_of_def using settled_dom [of c fl fl'] by (auto simp: settled_def) metis

text \<open>Every answer to a read that the DRAM holds is accepted.\<close>

lemma DRAM_answer:
  assumes ok: "cfg_ok (cfg s)" "ReadDone s" and rel: "Rel s fl X e" and k: "k \<in> set (dout e)"
  shows "okR (DRAMReadCallback k s) (\<lambda>s'. \<exists>fl'. settled (cfg s) fl fl' \<and>
    Rel s' fl' X (e\<lparr>dout := remove1 k (dout e)\<rparr>) \<and> good s fl {#} 0 s' fl')"
proof -
  have "k \<in> dram_exp (cfg s) fl (um_get (dram_pending_wait s))"
    using Rel_dreads [OF rel] k by (auto simp: reads_ok_def)
  then consider a x where "fl a = Some x" "hit_key (cfg s) a x = Some k"
    | l w where "um_get (dram_pending_wait s) l = Some w" "k \<in> w"
    by (auto simp: dram_exp_def ran_def)
  then show ?thesis
  proof cases
    case 1
    then have "\<not> f_miss x" "k = data_addr (cfg s) a (f_line x)" by (auto simp: hit_key_def split: if_splits)
    from DRAM_hit_answer [OF ok rel 1(1) this k] show ?thesis
      by (rule okR_mono) (blast intro: settled_remove)
  next
    case 2
    from victim_expected_line(2) [OF cfg_okD(1) [OF ok(1)] Rel_wf [OF rel] Rel_dram_wait [OF rel] 2]
    obtain a x where x: "fl a = Some x" "f_miss x" "f_vr x" and l: "f_line x = l" by blast
    consider "w - {k} \<noteq> {}" | "w = {k}" "f_lr x" | "w = {k}" "\<not> f_lr x" using 2(2) by blast
    then show ?thesis
    proof cases
      case 1
      from DRAM_victim_more [OF ok(1) rel x, unfolded l, OF 2 1 k] show ?thesis
        by (rule okR_mono) (blast intro: settled_refl)
    next
      case wk: 2
      have "settled (cfg s) fl (fl(a \<mapsto> x\<lparr>f_vr := False\<rparr>))" by (rule settled_phase [of fl a x]) (simp_all add: x(1))
      with DRAM_victim_first [OF ok(1) rel x wk(2), unfolded l, OF 2(1) [unfolded wk(1)] k refl] show ?thesis
        by (auto elim!: okR_mono)
    next
      case wk: 3
      from DRAM_victim_last [OF ok(1) rel x wk(2), unfolded l, OF 2(1) [unfolded wk(1)] k] show ?thesis
        by (rule okR_mono) (blast intro: settled_remove)
    qed
  qed
qed

section \<open>Answers of the flash\<close>

lemma flash_pending_entry:
  assumes ok: "cfg_ok (cfg s)" and rel: "Rel s fl X e" and k: "k \<in> set (fout e)"
  obtains a x where "fl a = Some x" "f_miss x" "f_lr x" "k = PAGE_ADDRESS (cfg s) a"
    "um_get (flash_pending s) k = Some (mkp a x LINE_READ (f_sent x))"
    "um_get (flash_pending_wait s) k = Some {k}" "flash_key (cfg s) a x = Some k"
proof -
  have "k \<in> flash_keys (cfg s) fl" using Rel_freads [OF rel] k by (auto simp: reads_ok_def)
  then obtain a x where a: "fl a = Some x" "flash_key (cfg s) a x = Some k" by (auto simp: flash_keys_def)
  show ?thesis
    using keyedD [OF Rel_flash [OF rel] a] keyedD [OF Rel_flash_wait [OF rel] a] a
    by (intro that [OF a(1)]) (auto simp: key_defs split: if_splits)
qed

lemma flash_critical:
  assumes ok: "cfg_ok (cfg s)" "ReadDone s" "WriteDone s" and rel: "Rel s fl X e"
    and k: "k \<in> set (fout e)" "k \<notin> crit e"
  shows "okR (FlashCriticalLineCallback k s) (\<lambda>s'. \<exists>fl'. settled (cfg s) fl fl' \<and>
    Rel s' fl' X (e\<lparr>crit := insert k (crit e)\<rparr>) \<and> good s fl {#} 0 s' fl')"
proof -
  let ?c = "cfg s"
  obtain a x where x: "fl a = Some x" "f_miss x" "f_lr x" and kp: "k = PAGE_ADDRESS ?c a"
    and fp: "um_get (flash_pending s) k = Some (mkp a x LINE_READ (f_sent x))"
    and key: "flash_key ?c a x = Some k" by (rule flash_pending_entry [OF ok(1) rel k(1)])
  note fw = fl_wfD [OF Rel_wf [OF rel] x(1)]
  have ns: "\<not> f_sent x" using k(2) Rel_crit [OF rel] x(1) key by (auto simp: crit_keys_def)
  define y where "y = x\<lparr>f_sent := True\<rparr>"
  define dn where "dn = (case f_type x of DATA_READ \<Rightarrow> [(False, systemID s, callback_addr ?c (f_orig x), currentClockCycle s)]
     | DATA_WRITE \<Rightarrow> [(True, systemID s, callback_addr ?c (f_orig x), currentClockCycle s)] | _ \<Rightarrow> [])"
  let ?s' = "s\<lparr>done_calls := done_calls s @ dn, flash_pending := um_put k (mkp a x LINE_READ True) (flash_pending s)\<rparr>"
  have res: "FlashCriticalLineCallback k s = Inr ?s'"
    using fp ns ok(2,3) kp
    by (cases "f_type x") (simp_all add: FlashCriticalLineCallback_def Let_def ReadDone_eq WriteDone_eq dn_def)
  have keyy: "flash_key ?c a y = Some k" using key by (simp add: key_defs y_def split: if_splits)
  have ky: "dram_key ?c a y = dram_key ?c a x" "victim_key a y = victim_key a x" by (simp_all add: key_defs y_def)
  have flw: "fl_wf ?c (fl(a \<mapsto> y))"
    by (rule fl_wf_phase [OF Rel_wf [OF rel] x(1)]) (use fw(1) x in \<open>auto simp: flight_wf_def same_flight_def y_def\<close>)
  have "Rel ?s' (fl(a \<mapsto> y)) X (e\<lparr>crit := insert k (crit e)\<rparr>)"
  proof -
    have "pages_ok ?c (fl(a \<mapsto> y)) (um_get (pending_pages s))"
      by (rule pages_set_miss [OF Rel_pages [OF rel] flw])
        (use x pages_okD [OF Rel_pages [OF rel] x(1,2)] in \<open>auto simp: y_def\<close>)
    moreover have "locks_ok ?c (fl(a \<mapsto> y)) (lines s) (counters s)"
      using locks_phase [OF Rel_locks [OF rel] x(1), of y] by (simp add: y_def)
    moreover have "tags_ok ?c (fl(a \<mapsto> y)) (lines s)"
      using tags_set [OF Rel_tags [OF rel], of a y] tags_okD [OF Rel_tags [OF rel] x(1)] x by (simp add: flight_tags_def y_def)
    moreover have "keyed (flash_key ?c) flash_val (fl(a \<mapsto> y)) ((um_get (flash_pending s))(k \<mapsto> mkp a x LINE_READ True))"
      by (rule keyed_set [OF Rel_flash [OF rel] keyy _ flash_key_inj [OF Rel_wf [OF rel] x(1) _ _ key]])
        (use x(1) key in \<open>auto simp: flash_val_def y_def\<close>)
    moreover have "keyed (flash_key ?c) (flash_wait_val ?c) (fl(a \<mapsto> y)) (um_get (flash_pending_wait s))"
      using keyed_phase [OF Rel_flash_wait [OF rel] x(1), of y] by (simp add: keyy key flash_wait_val_def)
    moreover have "keyed (dram_key ?c) dram_val (fl(a \<mapsto> y)) (um_get (dram_pending s))"
      using keyed_phase [OF Rel_dram [OF rel] x(1) ky(1)] by (simp add: dram_val_def y_def)
    moreover have "keyed victim_key (dram_wait_val ?c) (fl(a \<mapsto> y)) (um_get (dram_pending_wait s))"
      using keyed_phase [OF Rel_dram_wait [OF rel] x(1) ky(2)] by (simp add: dram_wait_val_def y_def)
    moreover have "dram_exp ?c (fl(a \<mapsto> y)) (um_get (dram_pending_wait s)) = dram_exp ?c fl (um_get (dram_pending_wait s))"
      by (rule dram_exp_miss) (use x in \<open>auto simp: y_def\<close>)
    moreover note keys_sent [of fl a x ?c k y] x(1) key keyy
    moreover have "insert a (dom fl) = dom fl" using x(1) by auto
    ultimately show ?thesis using rel flw by (simp add: Rel_def um_get_put_map y_def)
  qed
  moreover have "good s fl {#} 0 ?s' (fl(a \<mapsto> y))"
  proof (rule goodI [of _ _ "[]"])
    have "mset (map (\<lambda>(w, i, a, t). (w, a)) dn) = owed_flight ?c x"
      using ns by (cases "f_type x") (simp_all add: dn_def owed_flight_def call_mset_def)
    then show "account ?s' (fl(a \<mapsto> y)) = account s fl + {#}"
      using owed_phase [OF fw(2) x(1), of ?c y] ns
      by (simp add: account_def done_mset_def queue_mset_def owed_flight_def y_def ac_simps)
  qed (use x(1) in \<open>simp_all add: misc_def prefetches_def size_ok_def balance_def insert_absorb domI\<close>)
  ultimately show ?thesis
    using settled_phase [of fl a x ?c y] x(1) by (auto simp: res y_def)
qed

lemma um_put_put [simp]: "um_put k v (um_put k v' m) = um_put k v m"
  by (simp add: um_put_def)

text \<open>What the end of a write does before it unlocks.\<close>

definition written :: "Pending \<Rightarrow> hs \<Rightarrow> hs" where
  "written p s = (let cur_line = lines s (p_cache_addr p) in
     s\<lparr>unused_prefetches := (if cl_prefetched cur_line \<and> \<not> cl_used cur_line
          then u64_sub (unused_prefetches s) 1 else unused_prefetches s),
       cache := um_put (p_cache_addr p)
          (cur_line\<lparr>cl_dirty := True, cl_valid := True, cl_used := True, cl_ts := currentClockCycle s\<rparr>) (cache s),
       done_calls := done_calls s @ (if p_callback_sent p then []
          else [(True, systemID s, callback_addr (cfg s) (p_orig_addr p), currentClockCycle s)])\<rparr>)"

lemma CacheWriteFinish_eq:
  "WriteDone s \<Longrightarrow> CacheWriteFinish p s = contention_unlock (p_flash_addr p) (p_victim_valid p)
     (FLASH_ADDRESS (cfg s) (p_victim_tag p) (SET_INDEX (cfg s) (p_cache_addr p))) True (p_cache_addr p) (written p s)"
  by (cases "p_callback_sent p") (simp_all add: CacheWriteFinish_def line_used_eq WriteDone_eq written_def Let_def)

text \<open>
  What the end of a line read does before it unlocks: the line takes the new page, the page
  is written to the DRAM, and the completion call is made unless it was made for the
  critical line.
\<close>

definition filled :: "hs \<Rightarrow> nat \<Rightarrow> flight \<Rightarrow> cache_line \<Rightarrow> nat \<Rightarrow> nat \<Rightarrow> done_call list \<Rightarrow> hs" where
  "filled s a x l' tp up dn = s\<lparr>cache := um_put (f_line x) l' (cache s), total_prefetches := tp, unused_prefetches := up,
     dram_queue := dram_queue s @ map (mkTransaction DATA_WRITE) (dram_bursts (cfg s) (f_line x)),
     done_calls := done_calls s @ dn\<rparr>"

definition filled_ok :: "hs \<Rightarrow> nat \<Rightarrow> flight \<Rightarrow> cache_line \<Rightarrow> done_call list \<Rightarrow> bool" where
  "filled_ok s a x l' dn \<longleftrightarrow> cl_valid l' \<and> cl_tag l' = TAG (cfg s) a \<and>
     cl_lock_count l' = cl_lock_count (lines s (f_line x)) \<and> cl_locked l' = cl_locked (lines s (f_line x)) \<and>
     mset (map (\<lambda>(w, i, a, t). (w, a)) dn) = owed_flight (cfg s) x"

lemma line_read_complete:
  assumes ty: "f_type x \<in> {DATA_READ, DATA_WRITE, PREFETCH}" and cb: "ReadDone s" "WriteDone s"
    and p: "p = mkp a x LINE_READ (f_sent x)"
    and v: "v = FLASH_ADDRESS (cfg s) (f_vtag x) (SET_INDEX (cfg s) (f_line x))"
  obtains l' tp up dn where "filled_ok s a x l' dn"
    and "(case p_type p of
            DATA_READ \<Rightarrow> CacheReadFinish p (LineWrite p (fill_line p s))
          | DATA_WRITE \<Rightarrow> CacheWriteFinish p (LineWrite p (fill_line p s))
          | PREFETCH \<Rightarrow> contention_unlock a (f_vvalid x) v True (f_line x) (LineWrite p (fill_line p s))
          | _ \<Rightarrow> Inr (LineWrite p (fill_line p s))) =
         contention_unlock a (f_vvalid x) v True (f_line x) (filled s a x l' tp up dn)"
proof -
  let ?l = "(lines s (f_line x))\<lparr>cl_tag := TAG (cfg s) a, cl_dirty := False, cl_valid := True,
     cl_ts := currentClockCycle s, cl_used := False, cl_prefetched := (f_type x = PREFETCH)\<rparr>"
  let ?dn = "\<lambda>w. if f_sent x then [] else [(w, systemID s, callback_addr (cfg s) (f_orig x), currentClockCycle s)]"
  consider "f_type x = DATA_READ" | "f_type x = DATA_WRITE" | "f_type x = PREFETCH" using ty by auto
  then show ?thesis
  proof cases
    case 1
    have "filled_ok s a x ?l (?dn False)" by (simp add: filled_ok_def owed_flight_def call_mset_def 1)
    then show ?thesis
      by (rule that [where tp = "total_prefetches s" and up = "unused_prefetches s"])
        (use 1 cb v in \<open>simp_all add: p CacheReadFinish_def ReadDone_eq fill_line_eq LineWrite_def filled_def Let_def\<close>)
  next
    case 2
    let ?l' = "?l\<lparr>cl_dirty := True, cl_valid := True, cl_used := True, cl_ts := currentClockCycle s\<rparr>"
    have ok: "filled_ok s a x ?l' (?dn True)" by (simp add: filled_ok_def owed_flight_def call_mset_def 2)
    have "written p (LineWrite p (fill_line p s)) =
        filled s a x ?l' (total_prefetches s) (unused_prefetches s) (?dn True)"
      using 2 by (intro hs.equality) (simp_all add: p fill_line_eq LineWrite_def filled_def written_def Let_def um_at_put)
    then show ?thesis
      by (intro that [OF ok, of "total_prefetches s" "unused_prefetches s"])
        (use 2 v cb in \<open>simp add: p CacheWriteFinish_eq fill_line_eq LineWrite_def\<close>)
  next
    case 3
    have "filled_ok s a x ?l []" by (simp add: filled_ok_def owed_flight_def call_mset_def 3)
    then show ?thesis
      by (rule that [where tp = "u64 (total_prefetches s + 1)" and up = "u64 (unused_prefetches s + 1)"])
        (use 3 v in \<open>simp_all add: p fill_line_eq LineWrite_def filled_def Let_def\<close>)
  qed
qed

lemma filled_fields [simp]:
  "cfg (filled s a x l' tp up dn) = cfg s" "pending_pages (filled s a x l' tp up dn) = pending_pages s"
  "pending_flash_addr (filled s a x l' tp up dn) = pending_flash_addr s"
  "flash_pending (filled s a x l' tp up dn) = flash_pending s"
  "flash_pending_wait (filled s a x l' tp up dn) = flash_pending_wait s"
  "dram_pending (filled s a x l' tp up dn) = dram_pending s"
  "dram_pending_wait (filled s a x l' tp up dn) = dram_pending_wait s"
  "flash_queue (filled s a x l' tp up dn) = flash_queue s" "trans_queue (filled s a x l' tp up dn) = trans_queue s" "trans_queue_size (filled s a x l' tp up dn) = trans_queue_size s"
  "reads (dram_queue (filled s a x l' tp up dn)) = reads (dram_queue s)"
  "pending_count (filled s a x l' tp up dn) = pending_count s" "set_counter (filled s a x l' tp up dn) = set_counter s"
  "misc (filled s a x l' tp up dn) = misc s" "done_calls (filled s a x l' tp up dn) = done_calls s @ dn"
  by (simp_all add: filled_def misc_def)

lemma filled_lines:
  assumes "filled_ok s a x l' dn"
  shows "cl_lock_count (lines (filled s a x l' tp up dn) m) = cl_lock_count (lines s m)"
    and "cl_locked (lines (filled s a x l' tp up dn) m) = cl_locked (lines s m)"
    and "cl_valid (lines (filled s a x l' tp up dn) (f_line x))"
    and "cl_tag (lines (filled s a x l' tp up dn) (f_line x)) = TAG (cfg s) a"
    and "m \<noteq> f_line x \<Longrightarrow> lines (filled s a x l' tp up dn) m = lines s m"
  using assms by (simp_all add: filled_def filled_ok_def um_at_put)

text \<open>The state in which the page of \<open>a\<close> has arrived, up to the release of the locks.\<close>

definition arrived :: "hs \<Rightarrow> nat \<Rightarrow> flight \<Rightarrow> hs" where
  "arrived s a x = (let k = PAGE_ADDRESS (cfg s) a in
     s\<lparr>flash_pending := um_del k (flash_pending s),
       flash_pending_wait := um_del k (um_put k {} (flash_pending_wait s)),
       pending_pages := um_put k (of_bool (f_vr x)) (pending_pages s)\<rparr>)"

lemma flash_read_eq:
  assumes ok: "cfg_ok (cfg s)" "ReadDone s" "WriteDone s" and rel: "Rel s fl X e"
    and x: "fl a = Some x" "f_miss x" "f_lr x" and k: "k = PAGE_ADDRESS (cfg s) a"
    and fp: "um_get (flash_pending s) k = Some (mkp a x LINE_READ (f_sent x))"
    and fw: "um_get (flash_pending_wait s) k = Some {k}"
  obtains l' tp up dn where "filled_ok s a x l' dn"
    and "FlashReadCallback k s =
      contention_unlock a (f_vvalid x) (vpage (cfg s) a x) True (f_line x) (filled (arrived s a x) a x l' tp up dn)"
proof -
  let ?p = "mkp a x LINE_READ (f_sent x)"
  note w = fl_wfD(1) [OF Rel_wf [OF rel] x(1)]
  have ty: "f_type x \<in> {DATA_READ, DATA_WRITE, PREFETCH}" using w x(2) by (simp add: flight_wf_def)
  have pp: "um_get (pending_pages s) k = Some (1 + of_bool (f_vr x))"
    using pages_okD(1) [OF Rel_pages [OF rel] x(1,2)] x(3) k by simp
  have a: "cfg (arrived s a x) = cfg s" "ReadDone (arrived s a x)" "WriteDone (arrived s a x)" "cache (arrived s a x) = cache s"
    using ok by (simp_all add: arrived_def Let_def)
  have "FlashReadCallback k s = LineReadFinish k ?p (s\<lparr>flash_pending := um_del k (flash_pending s)\<rparr>)"
    using fp k by (simp add: FlashReadCallback_def Let_def)
  also have "\<dots> = (case f_type x of
            DATA_READ \<Rightarrow> CacheReadFinish ?p (LineWrite ?p (fill_line ?p (arrived s a x)))
          | DATA_WRITE \<Rightarrow> CacheWriteFinish ?p (LineWrite ?p (fill_line ?p (arrived s a x)))
          | PREFETCH \<Rightarrow> contention_unlock a (f_vvalid x) (vpage (cfg s) a x) True (f_line x) (LineWrite ?p (fill_line ?p (arrived s a x)))
          | _ \<Rightarrow> Inr (LineWrite ?p (fill_line ?p (arrived s a x))))"
    using fw k pp
    by (cases "f_vr x"; cases "f_type x")
      (simp_all add: LineReadFinish_def um_at_Some Let_def arrived_def contention_decrement_def u64_sub_id
        victim_address_eq [OF cfg_okD(1) [OF ok(1)] w])
  finally have eq: "FlashReadCallback k s = \<dots>" .
  have v: "vpage (cfg s) a x = FLASH_ADDRESS (cfg (arrived s a x)) (f_vtag x) (SET_INDEX (cfg (arrived s a x)) (f_line x))"
    by (simp add: a victim_address_eq [OF cfg_okD(1) [OF ok(1)] w])
  obtain l' tp up dn where "filled_ok (arrived s a x) a x l' dn"
    and "(case p_type ?p of
            DATA_READ \<Rightarrow> CacheReadFinish ?p (LineWrite ?p (fill_line ?p (arrived s a x)))
          | DATA_WRITE \<Rightarrow> CacheWriteFinish ?p (LineWrite ?p (fill_line ?p (arrived s a x)))
          | PREFETCH \<Rightarrow> contention_unlock a (f_vvalid x) (vpage (cfg s) a x) True (f_line x) (LineWrite ?p (fill_line ?p (arrived s a x)))
          | _ \<Rightarrow> Inr (LineWrite ?p (fill_line ?p (arrived s a x)))) =
      contention_unlock a (f_vvalid x) (vpage (cfg s) a x) True (f_line x) (filled (arrived s a x) a x l' tp up dn)"
    by (rule line_read_complete [OF ty a(2,3) refl v, of a])
  with eq a show ?thesis by (intro that [of l' dn tp up]) (simp_all add: filled_ok_def)
qed

lemma arrived_fields [simp]:
  "cfg (arrived s a x) = cfg s" "cache (arrived s a x) = cache s" "set_counter (arrived s a x) = set_counter s"
  "pending_flash_addr (arrived s a x) = pending_flash_addr s"
  "dram_pending (arrived s a x) = dram_pending s" "dram_pending_wait (arrived s a x) = dram_pending_wait s"
  "dram_queue (arrived s a x) = dram_queue s" "flash_queue (arrived s a x) = flash_queue s"
  "trans_queue (arrived s a x) = trans_queue s" "trans_queue_size (arrived s a x) = trans_queue_size s" "pending_count (arrived s a x) = pending_count s"
  "done_calls (arrived s a x) = done_calls s" "misc (arrived s a x) = misc s"
  "um_get (flash_pending (arrived s a x)) = (um_get (flash_pending s))(PAGE_ADDRESS (cfg s) a := None)"
  "um_get (flash_pending_wait (arrived s a x)) = (um_get (flash_pending_wait s))(PAGE_ADDRESS (cfg s) a := None)"
  "um_get (pending_pages (arrived s a x)) = (um_get (pending_pages s))(PAGE_ADDRESS (cfg s) a \<mapsto> of_bool (f_vr x))"
  by (simp_all add: arrived_def Let_def misc_def um_get_del_map um_get_put_map)

text \<open>The new page arrives while the victim is still read from DRAM.\<close>

lemma flash_page_first:
  assumes ok: "cfg_ok (cfg s)" "ReadDone s" "WriteDone s" and rel: "Rel s fl X e"
    and x: "fl a = Some x" "f_miss x" "f_lr x" "f_vr x" and k: "k = PAGE_ADDRESS (cfg s) a" "k \<in> set (fout e)"
    and fp: "um_get (flash_pending s) k = Some (mkp a x LINE_READ (f_sent x))"
    and fw: "um_get (flash_pending_wait s) k = Some {k}" and key: "flash_key (cfg s) a x = Some k"
    and y: "y = x\<lparr>f_lr := False, f_sent := True\<rparr>"
  shows "okR (FlashReadCallback k s) (\<lambda>s'. Rel s' (fl(a \<mapsto> y)) X (e\<lparr>fout := remove1 k (fout e), crit := crit e - {k}\<rparr>) \<and>
    good s fl {#} 0 s' (fl(a \<mapsto> y)))"
proof -
  let ?c = "cfg s" and ?e' = "e\<lparr>fout := remove1 k (fout e), crit := crit e - {k}\<rparr>"
  note wf = cfg_okD(1) [OF ok(1)] and w = fl_wfD [OF Rel_wf [OF rel] x(1)]
  obtain l' tp up dn where fok: "filled_ok s a x l' dn" and eq: "FlashReadCallback k s =
      contention_unlock a (f_vvalid x) (vpage ?c a x) True (f_line x) (filled (arrived s a x) a x l' tp up dn)"
    by (rule flash_read_eq [OF ok rel x(1-3) k(1) fp fw])
  define s' where "s' = filled (arrived s a x) a x l' tp up dn"
  have fok': "filled_ok (arrived s a x) a x l' dn" using fok by (simp add: filled_ok_def)
  note L = filled_lines [OF fok', where tp = tp and up = up, folded s'_def, simplified]
  have res: "FlashReadCallback k s = Inr s'" using x(4) by (simp add: eq s'_def unlock_wait [where n = 1])
  have c: "cfg s' = ?c" and sc: "set_counter s' = set_counter s" by (simp_all add: s'_def)
  have ky: "flash_key ?c a y = None" "dram_key ?c a y = dram_key ?c a x" "victim_key a y = victim_key a x"
    by (simp_all add: key_defs y)
  have flw: "fl_wf ?c (fl(a \<mapsto> y))"
    by (rule fl_wf_phase [OF Rel_wf [OF rel] x(1)]) (use w(1) x in \<open>auto simp: flight_wf_def same_flight_def y\<close>)
  note inj = flash_key_inj [OF Rel_wf [OF rel] x(1) _ _ key]
  have "Rel s' (fl(a \<mapsto> y)) X ?e'"
  proof (rule RelI, unfold c)
    show "fl_wf ?c (fl(a \<mapsto> y))" by (rule flw)
    show "pages_ok ?c (fl(a \<mapsto> y)) (um_get (pending_pages s'))"
      by (rule pages_set_miss [OF Rel_pages [OF rel] flw])
        (use x w(1) pages_okD [OF Rel_pages [OF rel] x(1,2)] in \<open>auto simp: s'_def own_pages_def flight_wf_def y\<close>)
    show "um_has (pending_flash_addr s') j \<longleftrightarrow> j \<in> dom (fl(a \<mapsto> y)) \<union> X" for j
      using Rel_addr [OF rel] x(1) by (auto simp: s'_def)
    show "dom (fl(a \<mapsto> y)) \<inter> X = {}" using Rel_disj [OF rel] x(1) by auto
    show "locks_ok ?c (fl(a \<mapsto> y)) (lines s') (counters s')"
      unfolding sc by (rule locks_lines [OF locks_phase [OF Rel_locks [OF rel] x(1), of y]]) (simp_all add: y L)
    show "tags_ok ?c (fl(a \<mapsto> y)) (lines s')"
      by (rule tags_fill_miss [OF wf Rel_wf [OF rel] Rel_tags [OF rel] x(1-3) y]) (simp_all add: L)
    show "keyed (flash_key ?c) flash_val (fl(a \<mapsto> y)) (um_get (flash_pending s'))"
      using keyed_del [OF Rel_flash [OF rel] x(1) key inj, of "Some y"] by (simp add: s'_def k(1) ky)
    show "keyed (flash_key ?c) (flash_wait_val ?c) (fl(a \<mapsto> y)) (um_get (flash_pending_wait s'))"
      using keyed_del [OF Rel_flash_wait [OF rel] x(1) key inj, of "Some y"] by (simp add: s'_def k(1) ky)
    show "keyed (dram_key ?c) dram_val (fl(a \<mapsto> y)) (um_get (dram_pending s'))"
      using keyed_phase [OF Rel_dram [OF rel] x(1) ky(2)] by (simp add: s'_def dram_val_def y)
    show "keyed victim_key (dram_wait_val ?c) (fl(a \<mapsto> y)) (um_get (dram_pending_wait s'))"
      using keyed_phase [OF Rel_dram_wait [OF rel] x(1) ky(3)] by (simp add: s'_def dram_wait_val_def y)
    show "reads_ok (reads (dram_queue s') @ dout ?e') (dram_exp ?c (fl(a \<mapsto> y)) (um_get (dram_pending_wait s')))"
      using Rel_dreads [OF rel] dram_exp_miss [of fl a "Some y" ?c] x by (simp add: s'_def y)
    show "reads_ok (reads (flash_queue s') @ fout ?e') (flash_keys ?c (fl(a \<mapsto> y)))"
      using reads_ok_answer [OF Rel_freads [OF rel] k(2)] keys_del(1) [of fl a x ?c k "Some y", OF x(1) key inj] by (simp add: s'_def ky)
    show "crit ?e' = crit_keys ?c (fl(a \<mapsto> y))"
      using Rel_crit [OF rel] keys_del(2) [of fl a x ?c k "Some y", OF x(1) key inj] by (simp add: ky)
  qed
  moreover have "good s fl {#} 0 s' (fl(a \<mapsto> y))"
  proof (rule goodI [of _ _ "[]"])
    have "owed_flight ?c y = {#}" by (simp add: owed_flight_def y)
    then show "account s' (fl(a \<mapsto> y)) = account s fl + {#}"
      using owed_phase [OF w(2) x(1), of ?c y] fok
      by (simp add: account_def done_mset_def queue_mset_def filled_ok_def s'_def ac_simps)
  qed (use x(1) in \<open>simp_all add: s'_def prefetches_def size_ok_def balance_def insert_absorb domI\<close>)
  ultimately show ?thesis by (simp add: res)
qed

text \<open>The new page arrives and nothing else is outstanding.\<close>

lemma flash_page_last:
  assumes ok: "cfg_ok (cfg s)" "ReadDone s" "WriteDone s" and rel: "Rel s fl X e"
    and x: "fl a = Some x" "f_miss x" "f_lr x" "\<not> f_vr x" and k: "k = PAGE_ADDRESS (cfg s) a" "k \<in> set (fout e)"
    and fp: "um_get (flash_pending s) k = Some (mkp a x LINE_READ (f_sent x))"
    and fw: "um_get (flash_pending_wait s) k = Some {k}" and key: "flash_key (cfg s) a x = Some k"
  shows "okR (FlashReadCallback k s) (\<lambda>s'. Rel s' (fl(a := None)) X (e\<lparr>fout := remove1 k (fout e), crit := crit e - {k}\<rparr>) \<and>
    good s fl {#} 0 s' (fl(a := None)))"
proof -
  let ?c = "cfg s" and ?e' = "e\<lparr>fout := remove1 k (fout e), crit := crit e - {k}\<rparr>" and ?pa = "PAGE_ADDRESS (cfg s) a"
  note wf = cfg_okD(1) [OF ok(1)] and w = fl_wfD [OF Rel_wf [OF rel] x(1)]
  obtain l' tp up dn where fok: "filled_ok s a x l' dn" and eq: "FlashReadCallback k s =
      contention_unlock a (f_vvalid x) (vpage ?c a x) True (f_line x) (filled (arrived s a x) a x l' tp up dn)"
    by (rule flash_read_eq [OF ok rel x(1-3) k(1) fp fw])
  define s1 where "s1 = filled (arrived s a x) a x l' tp up dn"
  have fok': "filled_ok (arrived s a x) a x l' dn" using fok by (simp add: filled_ok_def)
  note L = filled_lines [OF fok', where tp = tp and up = up, folded s1_def, simplified]
  define s2 where "s2 = s1\<lparr>pending_pages := (if f_vvalid x then um_del (vpage ?c a x) else id) (um_del ?pa (pending_pages s1)),
    pending_flash_addr := um_del a (pending_flash_addr s1)\<rparr>"
  define s' where "s' = (contention_cache_line_unlock (f_line x) s2)\<lparr>check_queue := True, pending_count := pending_count s2 - 1\<rparr>"
  note sd = s'_def s2_def
  have "um_has (pending_flash_addr s1) a" using Rel_addr [OF rel] x(1) by (auto simp: s1_def)
  moreover have "f_vvalid x \<Longrightarrow> vpage ?c a x \<noteq> ?pa" using w(1) x(2) by (simp add: flight_wf_def)
  ultimately have res: "FlashReadCallback k s = Inr s'"
    using x(4) pages_okD(2) [OF Rel_pages [OF rel] x(1,2)]
    by (simp add: eq [folded s1_def] unlock_miss sd um_has_get Let_def) (simp add: s1_def unlock_miss um_has_get Let_def)
  have c: "cfg s' = ?c" "cfg s2 = ?c" and sc: "set_counter s1 = set_counter s" by (simp_all add: sd s1_def)
  define y where "y = x\<lparr>f_lr := False, f_sent := True\<rparr>"
  have al: "a \<notin> X" using Rel_disj [OF rel] x(1) by auto
  note inj = flash_key_inj [OF Rel_wf [OF rel] x(1) _ _ key]
  have kn: "dram_key ?c a x = None" "victim_key a x = None" using x by (simp_all add: key_defs)
  have "Rel s' (fl(a := None)) X ?e'"
  proof (rule RelI, unfold c)
    show "fl_wf ?c (fl(a := None))" by (rule fl_wf_remove [OF Rel_wf [OF rel]])
    show "pages_ok ?c (fl(a := None)) (um_get (pending_pages s'))"
      using pages_release [OF Rel_pages [OF rel] Rel_wf [OF rel] x(1,2), of "pending_pages s1" 0] x(4) by (simp add: sd s1_def)
    show "um_has (pending_flash_addr s') j \<longleftrightarrow> j \<in> dom (fl(a := None)) \<union> X" for j
      using Rel_addr [OF rel] al by (auto simp: sd s1_def um_has_del)
    show "dom (fl(a := None)) \<inter> X = {}" using Rel_disj [OF rel] by auto
    have "locks_ok ?c fl (lines s1) (counters s1)"
      unfolding sc by (rule locks_lines [OF Rel_locks [OF rel]]) (simp_all add: L)
    then show "locks_ok ?c (fl(a := None)) (lines s') (counters s')"
      using unlock_line [of s2 fl a x "f_line x"] wf Rel_wf [OF rel] x(1) c(2) by (simp add: s'_def) (simp add: s2_def)
    have "tags_ok ?c (fl(a \<mapsto> y)) (lines s1)"
      by (rule tags_fill_miss [OF wf Rel_wf [OF rel] Rel_tags [OF rel] x(1-3) y_def]) (simp_all add: L)
    from tags_remove [OF this, of a] have "tags_ok ?c (fl(a := None)) (lines s1)" by simp
    then show "tags_ok ?c (fl(a := None)) (lines s')"
      by (rule tags_cong) (simp_all add: sd)
    show "keyed (flash_key ?c) flash_val (fl(a := None)) (um_get (flash_pending s'))"
      using keyed_del [OF Rel_flash [OF rel] x(1) key inj, of None] by (simp add: sd s1_def k(1))
    show "keyed (flash_key ?c) (flash_wait_val ?c) (fl(a := None)) (um_get (flash_pending_wait s'))"
      using keyed_del [OF Rel_flash_wait [OF rel] x(1) key inj, of None] by (simp add: sd s1_def k(1))
    show "keyed (dram_key ?c) dram_val (fl(a := None)) (um_get (dram_pending s'))"
      using keyed_none [OF Rel_dram [OF rel], of a None] x(1) kn by (simp add: sd s1_def)
    show "keyed victim_key (dram_wait_val ?c) (fl(a := None)) (um_get (dram_pending_wait s'))"
      using keyed_none [OF Rel_dram_wait [OF rel], of a None] x(1) kn by (simp add: sd s1_def)
    show "reads_ok (reads (dram_queue s') @ dout ?e') (dram_exp ?c (fl(a := None)) (um_get (dram_pending_wait s')))"
      using Rel_dreads [OF rel] dram_exp_miss [of fl a None ?c] x by (simp add: sd s1_def)
    show "reads_ok (reads (flash_queue s') @ fout ?e') (flash_keys ?c (fl(a := None)))"
      using reads_ok_answer [OF Rel_freads [OF rel] k(2)] keys_del(1) [of fl a x ?c k None, OF x(1) key inj] by (simp add: sd s1_def)
    show "crit ?e' = crit_keys ?c (fl(a := None))"
      using Rel_crit [OF rel] keys_del(2) [of fl a x ?c k None, OF x(1) key inj] by simp
  qed
  moreover have "good s fl {#} 0 s' (fl(a := None))"
  proof (rule goodI [of _ _ "[]"])
    have "misc s1 = misc s" by (simp add: s1_def)
    then show "misc s' = misc s" by (simp add: misc_def sd contention_cache_line_unlock_def Let_def)
    show "trans_queue s' = prefetches [] @ trans_queue s" by (simp add: sd s1_def prefetches_def)
    show "account s' (fl(a := None)) = account s fl + {#}"
      using owed_remove [OF w(2) x(1), of ?c] fok
      by (simp add: account_def done_mset_def queue_mset_def filled_ok_def sd s1_def ac_simps)
    show "balance s' (fl(a := None)) = balance s fl + 0"
      using dom_remove [OF x(1) w(2)] by (simp add: balance_def sd s1_def)
    show "size_ok s \<Longrightarrow> size_ok s'" by (simp add: size_ok_def sd s1_def)
  qed
  ultimately show ?thesis by (simp add: res)
qed

lemma flash_answer:
  assumes ok: "cfg_ok (cfg s)" "ReadDone s" "WriteDone s" and rel: "Rel s fl X e" and k: "k \<in> set (fout e)"
  shows "okR (FlashReadCallback k s) (\<lambda>s'. \<exists>fl'. settled (cfg s) fl fl' \<and>
    Rel s' fl' X (e\<lparr>fout := remove1 k (fout e), crit := crit e - {k}\<rparr>) \<and> good s fl {#} 0 s' fl')"
proof -
  obtain a x where x: "fl a = Some x" "f_miss x" "f_lr x" and kp: "k = PAGE_ADDRESS (cfg s) a"
    and fp: "um_get (flash_pending s) k = Some (mkp a x LINE_READ (f_sent x))"
    and fw: "um_get (flash_pending_wait s) k = Some {k}"
    and key: "flash_key (cfg s) a x = Some k" by (rule flash_pending_entry [OF ok(1) rel k])
  show ?thesis
  proof (cases "f_vr x")
    case True
    have "settled (cfg s) fl (fl(a \<mapsto> x\<lparr>f_lr := False, f_sent := True\<rparr>))"
      by (rule settled_phase [of fl a x]) (simp_all add: x(1))
    with flash_page_first [OF ok rel x True kp k fp fw key refl] show ?thesis by (auto elim!: okR_mono)
  next
    case False
    from flash_page_last [OF ok rel x False kp k fp fw key] show ?thesis
      by (rule okR_mono) (blast intro: settled_remove)
  qed
qed

end
