(* ===== verification/Hybrid_Process.thy ===== *)
theory Hybrid_Process
  imports Hybrid_Invariant
begin

text \<open>
  The processing of a transaction keeps the relation between the controller and its flights:
  the search of the set, the choice of the victim, hits, misses and prefetches. The one
  step that can go wrong is the scan of the table of single misses, which can run past the
  end of the table.
\<close>

section \<open>Results with one admitted failure\<close>

text \<open>\<open>okE b m P\<close>: \<open>m\<close> returns normally with \<open>P\<close>, or \<open>b\<close> holds and the scan of the one-miss table ran off.\<close>

fun okE :: "bool \<Rightarrow> herr + 'a \<Rightarrow> ('a \<Rightarrow> bool) \<Rightarrow> bool" where
  "okE b (Inl e) P \<longleftrightarrow> b \<and> e = Iterator_Past_End"
| "okE b (Inr x) P \<longleftrightarrow> P x"

lemma okE_okR: "okR m P \<Longrightarrow> okE b m P"
  by (cases m) auto

lemma okR_okE: "okE False m P \<longleftrightarrow> okR m P"
  by (cases m) auto

lemma okE_bind: "okE b (bindR m f) P \<longleftrightarrow> okE b m (\<lambda>x. okE b (f x) P)"
  by (cases m) auto

lemma okE_mono: "okE b m P \<Longrightarrow> (\<And>x. P x \<Longrightarrow> Q x) \<Longrightarrow> okE b m Q"
  by (cases m) auto

section \<open>Issuing prefetches\<close>

text \<open>\<open>pf s s'\<close>: prefetches were put at the front of the queue and the tables of the prefetcher changed.\<close>

definition pf_core :: "hs \<Rightarrow> hs" where
  "pf_core s = s\<lparr>trans_queue := [], trans_queue_size := 0, pending_count := 0, check_queue := False,
     stream_buffers := [], stream_buffer_hits := 0, one_miss_table := [], unique_one_misses := 0,
     unique_stream_buffers := 0\<rparr>"

definition pf :: "hs \<Rightarrow> hs \<Rightarrow> bool" where
  "pf s s' \<longleftrightarrow> pf_core s' = pf_core s \<and>
     (\<exists>as. trans_queue s' = prefetches as @ trans_queue s \<and> pending_count s' = pending_count s + int (length as)) \<and>
     (size_ok s \<longrightarrow> size_ok s')"

lemma pf_refl [simp]: "pf s s"
  by (auto simp: pf_def prefetches_def intro!: exI [of _ "[]"])

lemma pf_trans: "pf s s' \<Longrightarrow> pf s' s'' \<Longrightarrow> pf s s''"
proof -
  assume 1: "pf s s'" and 2: "pf s' s''"
  obtain as bs where "trans_queue s' = prefetches as @ trans_queue s" "pending_count s' = pending_count s + int (length as)"
    "trans_queue s'' = prefetches bs @ trans_queue s'" "pending_count s'' = pending_count s' + int (length bs)"
    using 1 2 by (auto simp: pf_def)
  then have "trans_queue s'' = prefetches (bs @ as) @ trans_queue s"
    "pending_count s'' = pending_count s + int (length (bs @ as))" by (simp_all add: prefetches_def)
  then show "pf s s''" using 1 2 by (auto simp: pf_def)
qed

lemma pf_fields:
  assumes "pf s s'"
  shows "cfg s' = cfg s" "cache s' = cache s" "set_counter s' = set_counter s" "pending_pages s' = pending_pages s"
    and "pending_flash_addr s' = pending_flash_addr s" "flash_pending s' = flash_pending s"
    and "flash_pending_wait s' = flash_pending_wait s" "dram_pending s' = dram_pending s"
    and "dram_pending_wait s' = dram_pending_wait s" "dram_queue s' = dram_queue s" "flash_queue s' = flash_queue s"
    and "done_calls s' = done_calls s" "misc s' = misc s" "prefetch_cheat_map s' = prefetch_cheat_map s"
    and "ReadDone s' = ReadDone s" "WriteDone s' = WriteDone s"
proof -
  have eq: "pf_core s' = pf_core s" using assms by (simp add: pf_def)
  note F = arg_cong [OF eq]
  show "cfg s' = cfg s" using F [of cfg] by (simp add: pf_core_def)
  show "cache s' = cache s" using F [of cache] by (simp add: pf_core_def)
  show "set_counter s' = set_counter s" using F [of set_counter] by (simp add: pf_core_def)
  show "pending_pages s' = pending_pages s" using F [of pending_pages] by (simp add: pf_core_def)
  show "pending_flash_addr s' = pending_flash_addr s" using F [of pending_flash_addr] by (simp add: pf_core_def)
  show "flash_pending s' = flash_pending s" using F [of flash_pending] by (simp add: pf_core_def)
  show "flash_pending_wait s' = flash_pending_wait s" using F [of flash_pending_wait] by (simp add: pf_core_def)
  show "dram_pending s' = dram_pending s" using F [of dram_pending] by (simp add: pf_core_def)
  show "dram_pending_wait s' = dram_pending_wait s" using F [of dram_pending_wait] by (simp add: pf_core_def)
  show "dram_queue s' = dram_queue s" using F [of dram_queue] by (simp add: pf_core_def)
  show "flash_queue s' = flash_queue s" using F [of flash_queue] by (simp add: pf_core_def)
  show "done_calls s' = done_calls s" using F [of done_calls] by (simp add: pf_core_def)
  show "misc s' = misc s" using F [of misc] by (simp add: pf_core_def misc_def)
  show "prefetch_cheat_map s' = prefetch_cheat_map s" using F [of prefetch_cheat_map] by (simp add: pf_core_def)
  show "ReadDone s' = ReadDone s" using F [of ReadDone] by (simp add: pf_core_def)
  show "WriteDone s' = WriteDone s" using F [of WriteDone] by (simp add: pf_core_def)
qed

lemma u64_Suc_add: "u64 (u64 n + 1) = u64 (Suc n)"
  by (simp add: u64_def mod_Suc_eq)

lemma pf_addPrefetch: "pf s (addPrefetch a s)"
proof -
  have "prefetches [a] @ trans_queue s = mkTransaction PREFETCH a # trans_queue s" by (simp add: prefetches_def)
  then show ?thesis
    by (auto simp: pf_def pf_core_def addPrefetch_def push_front_transaction_def size_ok_def u64_Suc_add [simplified]
        intro!: exI [of _ "[a]"])
qed

lemma pf_issue: "pf s (issue_prefetches p n s)"
proof (induction n arbitrary: s)
  case 0
  then show ?case by simp
next
  case (Suc n)
  show ?case
    using Suc [of s] Suc [of "addPrefetch (u64 (p + Suc n * PAGE_SIZE (cfg s))) s"] pf_trans [OF pf_addPrefetch]
    by (simp add: Let_def)
qed

lemma pf_tables:
  "pf s (s\<lparr>stream_buffers := sb, stream_buffer_hits := sh\<rparr>)"
  "pf s (s\<lparr>stream_buffers := sb\<rparr>)" "pf s (s\<lparr>one_miss_table := om\<rparr>)"
  "pf s (s\<lparr>one_miss_table := om, unique_one_misses := u\<rparr>)"
  "pf s (s\<lparr>stream_buffers := sb, unique_stream_buffers := u\<rparr>)"
  by (auto simp: pf_def pf_core_def size_ok_def prefetches_def intro!: exI [of _ "[]"])

lemma pf_stream_hit: "pf s (stream_buffer_hit_handler h s)"
proof -
  define s1 where "s1 = s\<lparr>stream_buffer_hits := u64 (stream_buffer_hits s + 1), stream_buffers := um_del h (stream_buffers s)\<rparr>"
  have 1: "pf s s1" by (auto simp: s1_def pf_def pf_core_def size_ok_def prefetches_def intro!: exI [of _ "[]"])
  have 2: "pf s ((addPrefetch b s1)\<lparr>stream_buffers := sb\<rparr>)" for b sb
    by (rule pf_trans [OF pf_trans [OF 1 pf_addPrefetch] pf_tables(2)])
  show ?thesis using 1 2 by (auto simp: stream_buffer_hit_handler_def Let_def s1_def)
qed

lemma pf_stream_miss: "okE True (stream_buffer_miss_handler h s) (pf s)"
proof -
  have trim: "pf s' (trim_one_miss_table s')" for s' by (simp add: trim_one_miss_table_def pf_tables)
  have new: "pf s' (new_stream_buffer n s')" for n s' by (simp add: new_stream_buffer_def Let_def pf_tables)
  have found: "pf s (trim_one_miss_table (issue_prefetches h n (new_stream_buffer m (s\<lparr>one_miss_table := om\<rparr>))))" for n m om
    by (rule pf_trans [OF pf_trans [OF pf_trans [OF pf_tables(3) new] pf_issue] trim])
  have none: "pf s (trim_one_miss_table (s\<lparr>one_miss_table := om, unique_one_misses := u\<rparr>))" for om u
    by (rule pf_trans [OF pf_tables(4) trim])
  show ?thesis
    using found none by (auto simp: stream_buffer_miss_handler_def Let_def split: scan_result.splits)
qed

lemma Rel_pf: "pf s s' \<Longrightarrow> Rel s' fl X e \<longleftrightarrow> Rel s fl X e"
  by (simp add: Rel_def pf_fields)

lemma prefetch_calls [simp]: "sum_list (map (call_of c) (prefetches as)) = {#}"
  by (induction as) (simp_all add: prefetches_def call_of_def call_mset_def mkTransaction_def)

lemma length_prefetches [simp]: "length (prefetches as) = length as"
  by (simp add: prefetches_def)

lemma good_pf: "pf s s' \<Longrightarrow> good s fl {#} 0 s' fl"
proof -
  assume pf: "pf s s'"
  then obtain as where as: "trans_queue s' = prefetches as @ trans_queue s" "pending_count s' = pending_count s + int (length as)"
    by (auto simp: pf_def)
  have "size_ok s \<Longrightarrow> size_ok s'" using pf by (simp add: pf_def)
  then show ?thesis
    using as pf_fields [OF pf] by (intro goodI [of _ _ as])
      (simp_all add: account_def done_mset_def queue_mset_def balance_def)
qed

section \<open>Searching a set\<close>

lemma alloc_lines: "\<not> um_has m a \<Longrightarrow> um_at new_line (um_put a new_line m) = um_at new_line m"
proof (rule ext)
  show "um_at new_line (um_put a new_line m) j = um_at new_line m j" if "\<not> um_has m a" for j
    using that by (simp add: um_at_put um_has_get um_at_get [of new_line m])
qed

lemma find_line_lines: "um_at new_line (snd (find_line t as m)) = um_at new_line m"
proof (induction t as m rule: find_line.induct)
  case (1 t m)
  then show ?case by simp
next
  case (2 t a rest m)
  show ?case using 2 alloc_lines [of m a] by (auto simp: Let_def)
qed

lemma find_line_some:
  "fst (find_line t as m) = Some l \<Longrightarrow> l \<in> set as \<and> cl_valid (um_at new_line m l) \<and> cl_tag (um_at new_line m l) = t"
proof (induction t as m rule: find_line.induct)
  case (1 t m)
  then show ?case by simp
next
  case (2 t a rest m)
  show ?case using 2 alloc_lines [of m a] by (auto simp: Let_def split: if_splits)
qed

lemma find_line_none:
  "fst (find_line t as m) = None \<Longrightarrow> l \<in> set as \<Longrightarrow> cl_valid (um_at new_line m l) \<Longrightarrow> cl_tag (um_at new_line m l) \<noteq> t"
proof (induction t as m rule: find_line.induct)
  case (1 t m)
  then show ?case by simp
next
  case (2 t a rest m)
  show ?case using 2 alloc_lines [of m a] by (auto simp: Let_def split: if_splits)
qed

section \<open>Choosing a victim\<close>

lemma victim_scan_in: "victim_scan m as v ts i \<in> insert v (set as)"
  by (induction as arbitrary: v ts i) (auto simp: Let_def)

text \<open>Once a line is chosen, the result is an unlocked line with the least time stamp.\<close>

lemma victim_scan_init:
  assumes "\<not> cl_locked (um_at new_line m v)" "ts = cl_ts (um_at new_line m v)"
  shows "\<not> cl_locked (um_at new_line m (victim_scan m as v ts True)) \<and>
    cl_ts (um_at new_line m (victim_scan m as v ts True)) \<le> ts \<and>
    (\<forall>a \<in> set as. \<not> cl_locked (um_at new_line m a) \<longrightarrow>
       cl_ts (um_at new_line m (victim_scan m as v ts True)) \<le> cl_ts (um_at new_line m a))"
  using assms
proof (induction as arbitrary: v ts)
  case Nil
  then show ?case by simp
next
  case (Cons a as)
  show ?case
  proof (cases "cl_ts (um_at new_line m a) < ts \<and> \<not> cl_locked (um_at new_line m a)")
    case True
    then show ?thesis using Cons.IH [of a "cl_ts (um_at new_line m a)"] by (auto simp: Let_def)
  next
    case False
    then show ?thesis using Cons.IH [of v ts] Cons.prems by (auto simp: Let_def)
  qed
qed

lemma select_victim_ok:
  assumes "\<exists>a \<in> set as. \<not> cl_locked (um_at new_line m a)"
  shows "select_victim m as \<in> set as" "\<not> cl_locked (um_at new_line m (select_victim m as))"
    and "a \<in> set as \<Longrightarrow> \<not> cl_locked (um_at new_line m a) \<Longrightarrow>
      cl_ts (um_at new_line m (select_victim m as)) \<le> cl_ts (um_at new_line m a)"
proof -
  have main: "victim_scan m bs v ts False \<in> set bs \<and> \<not> cl_locked (um_at new_line m (victim_scan m bs v ts False)) \<and>
    (\<forall>a \<in> set bs. \<not> cl_locked (um_at new_line m a) \<longrightarrow>
       cl_ts (um_at new_line m (victim_scan m bs v ts False)) \<le> cl_ts (um_at new_line m a))"
    if "\<exists>a \<in> set bs. \<not> cl_locked (um_at new_line m a)" for bs v ts
    using that
  proof (induction bs)
    case Nil
    then show ?case by simp
  next
    case (Cons b bs)
    show ?case
    proof (cases "cl_locked (um_at new_line m b)")
      case True
      then show ?thesis using Cons by (auto simp: Let_def)
    next
      case False
      then show ?thesis
        using victim_scan_init [of m b "cl_ts (um_at new_line m b)" bs] victim_scan_in [of m bs b "cl_ts (um_at new_line m b)" True]
        by (auto simp: Let_def)
    qed
  qed
  note M = main [OF assms]
  show "select_victim m as \<in> set as" "\<not> cl_locked (um_at new_line m (select_victim m as))"
    using M by (simp_all add: select_victim_def)
  show "cl_ts (um_at new_line m (select_victim m as)) \<le> cl_ts (um_at new_line m a)"
    if "a \<in> set as" "\<not> cl_locked (um_at new_line m a)"
    using M that by (simp add: select_victim_def)
qed

section \<open>Hits\<close>

text \<open>The controller is about to process an access to the aligned address \<open>a\<close>.\<close>

definition ready :: "hs \<Rightarrow> flights \<Rightarrow> menv \<Rightarrow> nat \<Rightarrow> bool" where
  "ready s fl e a \<longleftrightarrow> cfg_ok (cfg s) \<and> ReadDone s \<and> WriteDone s \<and> Rel s fl {a} e \<and> clear_of (cfg s) fl a \<and>
     counters s (SET_INDEX (cfg s) a) < SET_SIZE (cfg s) \<and> ALIGN (cfg s) a = a"

lemma readyD:
  assumes "ready s fl e a"
  shows "cfg_ok (cfg s)" "wf_cfg (cfg s)" "Rel s fl {a} e" "clear_of (cfg s) fl a" "ALIGN (cfg s) a = a" "fl a = None"
    and "counters s (SET_INDEX (cfg s) a) < SET_SIZE (cfg s)" "ReadDone s" "WriteDone s" "a < 2 ^ 64"
    and "um_get (pending_pages s) (PAGE_ADDRESS (cfg s) a) = None" "um_has (pending_flash_addr s) a"
proof -
  show 1: "cfg_ok (cfg s)" "Rel s fl {a} e" "clear_of (cfg s) fl a" "ALIGN (cfg s) a = a"
    "counters s (SET_INDEX (cfg s) a) < SET_SIZE (cfg s)" "ReadDone s" "WriteDone s"
    using assms by (simp_all add: ready_def)
  show wf: "wf_cfg (cfg s)" using 1(1) by (rule cfg_okD)
  show "fl a = None" using 1(3) by (auto simp: clear_of_def)
  then show "um_get (pending_pages s) (PAGE_ADDRESS (cfg s) a) = None"
    using pages_ok_clear [OF Rel_pages [OF 1(2)], of a] 1(3) by auto
  show "um_has (pending_flash_addr s) a" using Rel_addr [OF 1(2)] by simp
  show "a < 2 ^ 64" by (rule aligned_u64 [OF wf 1(4)])
qed

lemma ready_pf:
  assumes "ready s fl e a" "pf s s'"
  shows "ready s' fl e a"
  using assms(1) Rel_pf [OF assms(2)] pf_fields [OF assms(2)] by (simp add: ready_def)

definition hit_flight :: "nat \<Rightarrow> nat \<Rightarrow> flight" where
  "hit_flight orig l = \<lparr>f_miss = False, f_orig = orig, f_line = l, f_vtag = 0, f_vvalid = False,
     f_lr = False, f_vr = False, f_sent = False, f_type = DATA_READ\<rparr>"

definition hit_line :: "hs \<Rightarrow> nat \<Rightarrow> nat \<Rightarrow> bool" where
  "hit_line s a l \<longleftrightarrow> l \<in> set_lines (cfg s) (SET_INDEX (cfg s) a) \<and> cl_valid (lines s l) \<and> cl_tag (lines s l) = TAG (cfg s) a"

text \<open>No miss is under way on a line that holds a page which is not locked.\<close>

lemma hit_line_free:
  assumes r: "ready s fl e a" and h: "hit_line s a l" and b: "fl b = Some y" "f_miss y"
  shows "f_line y \<noteq> l"
proof
  assume l: "f_line y = l"
  note D = readyD [OF r] and w = fl_wfD(1) [OF Rel_wf [OF readyD(3) [OF r]] b(1)]
  have set: "SET_INDEX (cfg s) b = SET_INDEX (cfg s) a"
    using set_linesD(1) [OF D(2) flight_wf_line [OF w]] set_linesD(1) [OF D(2)] h l by (metis hit_line_def)
  note ft = tags_okD [OF Rel_tags [OF D(3)] b(1)]
  have clear: "PAGE_ADDRESS (cfg s) a \<notin> own_pages (cfg s) b y" using D(4) b(1) by (simp add: clear_of_def)
  show False
  proof (cases "f_lr y")
    case True
    then have "f_vvalid y" "f_vtag y = TAG (cfg s) a" using ft h b(2) l by (auto simp: flight_tags_def hit_line_def)
    then have "vpage (cfg s) b y = PAGE_ADDRESS (cfg s) a"
      using FLASH_ADDRESS_TAG [OF D(2,10)] by (simp add: vpage_def set)
    then show False using clear own_pages_miss(2) [OF b(2) \<open>f_vvalid y\<close>] by metis
  next
    case False
    then have "TAG (cfg s) b = TAG (cfg s) a" using ft h b(2) l by (auto simp: flight_tags_def hit_line_def)
    then have "PAGE_ADDRESS (cfg s) a = PAGE_ADDRESS (cfg s) b"
      using same_page [OF D(2,10) aligned_u64 [OF D(2) flight_wf_align [OF w]]] set by simp
    then show False using clear own_pages_miss(1) [OF b(2)] by metis
  qed
qed

lemma hit_flight_ok:
  assumes r: "ready s fl e a" and h: "hit_line s a l"
  shows "flight_wf (cfg s) a (hit_flight orig l)" "fl_wf (cfg s) (fl(a \<mapsto> hit_flight orig l))"
    and "locks_ok (cfg s) (fl(a \<mapsto> hit_flight orig l)) (lines (contention_cache_line_lock l s)) (counters (contention_cache_line_lock l s))"
    and "tags_ok (cfg s) (fl(a \<mapsto> hit_flight orig l)) (lines s)"
proof -
  note D = readyD [OF r]
  show w: "flight_wf (cfg s) a (hit_flight orig l)" using D(5) h by (simp add: flight_wf_def hit_flight_def hit_line_def)
  show "fl_wf (cfg s) (fl(a \<mapsto> hit_flight orig l))"
    by (rule fl_wf_add_hit [OF Rel_wf [OF D(3)] D(4) w]) (use hit_line_free [OF r h] in \<open>auto simp: hit_flight_def\<close>)
  show "locks_ok (cfg s) (fl(a \<mapsto> hit_flight orig l)) (lines (contention_cache_line_lock l s)) (counters (contention_cache_line_lock l s))"
    by (rule lock_line [OF D(2) Rel_wf [OF D(3)] Rel_locks [OF D(3)] D(6)]) (use h D(7) in \<open>simp_all add: hit_flight_def hit_line_def\<close>)
  show "tags_ok (cfg s) (fl(a \<mapsto> hit_flight orig l)) (lines s)"
    by (rule tags_set [OF Rel_tags [OF D(3)]]) (use h in \<open>simp add: flight_tags_def hit_flight_def hit_line_def\<close>)
qed

text \<open>The tables but for the locks and data of the lines.\<close>

definition same_tables :: "hs \<Rightarrow> hs \<Rightarrow> bool" where
  "same_tables s s' \<longleftrightarrow> cfg s' = cfg s \<and> pending_pages s' = pending_pages s \<and> pending_flash_addr s' = pending_flash_addr s \<and>
     flash_pending s' = flash_pending s \<and> flash_pending_wait s' = flash_pending_wait s \<and>
     dram_pending s' = dram_pending s \<and> dram_pending_wait s' = dram_pending_wait s \<and>
     reads (dram_queue s') = reads (dram_queue s) \<and> flash_queue s' = flash_queue s \<and>
     (\<forall>l. cl_valid (lines s' l) = cl_valid (lines s l) \<and> cl_tag (lines s' l) = cl_tag (lines s l))"

lemma finish_hit:
  assumes r: "ready s fl e a" and h: "hit_line s a l" and st: "same_tables s s2"
    and locks: "locks_ok (cfg s) (fl(a \<mapsto> hit_flight orig l)) (lines s2) (counters s2)"
  shows "okR (contention_unlock a False v True l s2) (\<lambda>s'. Rel s' fl {} e \<and> misc s' = misc s2 \<and>
     trans_queue s' = trans_queue s2 \<and> trans_queue_size s' = trans_queue_size s2 \<and>
     pending_count s' = pending_count s2 - 1 \<and> done_calls s' = done_calls s2)"
proof -
  note D = readyD [OF r] and S = st [unfolded same_tables_def]
  define s3 where "s3 = s2\<lparr>pending_flash_addr := um_del a (pending_flash_addr s2)\<rparr>"
  let ?s' = "(contention_cache_line_unlock l s3)\<lparr>check_queue := True, pending_count := pending_count s3 - 1\<rparr>"
  have res: "contention_unlock a False v True l s2 = Inr ?s'"
    using D(11,12) S by (simp add: unlock_hit s3_def Let_def)
  have none: "(fl(a \<mapsto> hit_flight orig l))(a := None) = fl" using D(6) by auto
  have "locks_ok (cfg s3) ((fl(a \<mapsto> hit_flight orig l))(a := None)) (lines ?s') (counters ?s')"
    using unlock_line [of s3 "fl(a \<mapsto> hit_flight orig l)" a "hit_flight orig l" l] D(2) S hit_flight_ok(2) [OF r h] locks
    by (simp add: s3_def hit_flight_def)
  then have locks': "locks_ok (cfg s) fl (lines ?s') (counters ?s')" using S none by (simp add: s3_def)
  have tags': "tags_ok (cfg s) fl (lines ?s')"
    by (rule tags_cong [OF Rel_tags [OF D(3)]]) (use S in \<open>simp_all add: s3_def\<close>)
  have addr': "um_has (pending_flash_addr ?s') k \<longleftrightarrow> k \<in> dom fl \<union> {}" for k
    using Rel_addr [OF D(3), of k] D(6) S by (auto simp: s3_def um_has_del)
  have "Rel ?s' fl {} e"
    using D(3) S locks' tags' addr' unfolding Rel_def by (simp add: s3_def)
  then show ?thesis by (simp add: res s3_def misc_def contention_cache_line_unlock_def Let_def)
qed

lemma misc_fields:
  assumes "misc s' = misc s"
  shows "cfg s' = cfg s" "systemID s' = systemID s" "ReadDone s' = ReadDone s" "WriteDone s' = WriteDone s"
    "tlb_base_set s' = tlb_base_set s" "active_transaction s' = active_transaction s"
    "active_transaction_flag s' = active_transaction_flag s" "delay_counter s' = delay_counter s"
    "currentClockCycle s' = currentClockCycle s"
  using assms by (simp_all add: misc_def)

text \<open>A read that hits waits for the DRAM.\<close>

lemma CacheRead_ok:
  assumes r: "ready s fl e a" and h: "hit_line s a l" and pf: "pf (contention_cache_line_lock l s) s2"
  shows "okR (CacheRead orig a l s2) (\<lambda>s'. Rel s' (fl(a \<mapsto> hit_flight orig l)) {} e \<and>
    misc s' = misc s2 \<and> trans_queue s' = trans_queue s2 \<and> trans_queue_size s' = trans_queue_size s2 \<and>
    pending_count s' = pending_count s2 \<and> done_calls s' = done_calls s2)"
proof -
  note D = readyD [OF r] and H = hit_flight_ok [OF r h, of orig] and P = pf_fields [OF pf, simplified]
  let ?c = "cfg s" and ?x = "hit_flight orig l" and ?fl' = "fl(a \<mapsto> hit_flight orig l)"
  define k where "k = data_addr ?c a l"
  have l: "l \<in> set_lines ?c (SET_INDEX ?c a)" using h by (simp add: hit_line_def)
  have dk: "dram_key ?c a ?x = Some k" and hk: "hit_key ?c a ?x = Some k" and fk: "flash_key ?c a ?x = None"
    and vk: "victim_key a ?x = None" by (simp_all add: key_defs hit_flight_def k_def)
  have inj: "dram_key ?c b y \<noteq> Some k" if "fl b = Some y" for b y
    using dram_key_inj [OF D(2) H(2,4), of a ?x b y k] that D(6) dk by (cases "b = a") auto
  have fresh: "um_get (dram_pending s) k = None" by (rule keyed_fresh [OF Rel_dram [OF D(3)] inj])
  have nexp: "k \<notin> dram_exp ?c fl (um_get (dram_pending_wait s))"
  proof -
    have "hit_key ?c b y \<noteq> Some k" if "fl b = Some y" for b y
      using inj [OF that] by (cases "f_miss y") (simp_all add: hit_key_def dram_key_def)
    moreover have "keyed victim_key (dram_wait_val ?c) ?fl' (um_get (dram_pending_wait s))"
      using keyed_none [OF Rel_dram_wait [OF D(3)], of a "Some ?x"] D(6) vk by simp
    from hit_not_awaited(2) [OF D(2) H(2) this, of a ?x k] hk
    have "k \<notin> \<Union> (ran (um_get (dram_pending_wait s)))" by simp
    ultimately show ?thesis by (auto simp: dram_exp_def)
  qed
  define s' where "s' = s2\<lparr>dram_queue := dram_queue s2 @ [mkTransaction DATA_READ k],
    unused_prefetches := (if cl_prefetched (lines s2 l) \<and> \<not> cl_used (lines s2 l)
      then u64_sub (unused_prefetches s2) 1 else unused_prefetches s2),
    cache := um_put l ((lines s2 l)\<lparr>cl_ts := currentClockCycle s2, cl_used := True\<rparr>) (cache s2),
    dram_pending := um_put k (mkp a ?x CACHE_READ False) (dram_pending s2)\<rparr>"
  have res: "CacheRead orig a l s2 = Inr s'"
    using fresh data_addr_eq(2) [OF D(2) l, of a]
    by (simp add: CacheRead_def P um_has_get line_used_eq Let_def assertR_def k_def data_addr_def mkp_def hit_flight_def s'_def)
  have reads1: "reads [mkTransaction DATA_READ k] = [k]" by (simp add: reads_def mkTransaction_def)
  have c: "cfg s' = ?c" by (simp add: s'_def P)
  have "Rel s' ?fl' {} e"
  proof (rule RelI, unfold c)
    show "fl_wf ?c ?fl'" by (rule H(2))
    have "pages_ok ?c ?fl' (um_get (pending_pages s))"
      by (rule pages_add_hit [OF Rel_pages [OF D(3)] D(6)]) (simp add: hit_flight_def)
    then show "pages_ok ?c ?fl' (um_get (pending_pages s'))" by (simp add: s'_def P)
    show "um_has (pending_flash_addr s') j \<longleftrightarrow> j \<in> dom ?fl' \<union> {}" for j
      using Rel_addr [OF D(3), of j] by (auto simp: s'_def P)
    show "dom ?fl' \<inter> {} = {}" by simp
    have sc: "counters s' = counters (contention_cache_line_lock l s)" by (simp add: s'_def P)
    show "locks_ok ?c ?fl' (lines s') (counters s')"
      unfolding sc by (rule locks_lines [OF H(3)]) (simp_all add: s'_def um_at_put P)
    show "tags_ok ?c ?fl' (lines s')" by (rule tags_cong [OF H(4)]) (simp_all add: s'_def um_at_put P)
    show "keyed (flash_key ?c) flash_val ?fl' (um_get (flash_pending s'))"
      using keyed_none [OF Rel_flash [OF D(3)], of a "Some ?x"] D(6) fk by (simp add: s'_def P)
    show "keyed (flash_key ?c) (flash_wait_val ?c) ?fl' (um_get (flash_pending_wait s'))"
      using keyed_none [OF Rel_flash_wait [OF D(3)], of a "Some ?x"] D(6) fk by (simp add: s'_def P)
    have "keyed (dram_key ?c) dram_val ?fl' ((um_get (dram_pending s))(k \<mapsto> mkp a ?x CACHE_READ False))"
      using inj D(6) by (intro keyed_set [OF Rel_dram [OF D(3)] dk]) (auto simp: dram_val_def hit_flight_def)
    then show "keyed (dram_key ?c) dram_val ?fl' (um_get (dram_pending s'))" by (simp add: s'_def P um_get_put_map)
    show "keyed victim_key (dram_wait_val ?c) ?fl' (um_get (dram_pending_wait s'))"
      using keyed_none [OF Rel_dram_wait [OF D(3)], of a "Some ?x"] D(6) vk by (simp add: s'_def P)
    have "reads_ok (reads (dram_queue s') @ dout e) = reads_ok ((reads (dram_queue s) @ dout e) @ [k])"
      by (rule ext, rule reads_ok_mset) (simp add: s'_def P reads1)
    then show "reads_ok (reads (dram_queue s') @ dout e) (dram_exp ?c ?fl' (um_get (dram_pending_wait s')))"
      using reads_ok_add [OF Rel_dreads [OF D(3)], of "[k]"] nexp by (simp add: dram_exp_add_hit [of _ a ?x k fl, OF hk D(6)] s'_def P)
    show "reads_ok (reads (flash_queue s') @ fout e) (flash_keys ?c ?fl')"
      using Rel_freads [OF D(3)] keys_none(1) [of fl a ?c "Some ?x"] D(6) fk by (simp add: s'_def P)
    show "crit e = crit_keys ?c ?fl'"
      using Rel_crit [OF D(3)] keys_none(2) [of fl a ?c "Some ?x"] D(6) fk by simp
  qed
  then show ?thesis by (simp add: res misc_def s'_def)
qed

lemma good_finish:
  assumes "misc s' = misc s2" "trans_queue s' = trans_queue s2" "trans_queue_size s' = trans_queue_size s2"
    and "pending_count s' = pending_count s2 + n + int (card (dom fl')) - int (card (dom fl))"
    and "done_mset s' + owed_fl (cfg s2) fl' = done_mset s2 + owed_fl (cfg s2) fl + d"
  shows "good s2 fl d n s' fl'"
  using assms misc_fields(1) [OF assms(1)]
  by (intro goodI [of _ _ "[]"])
    (simp_all add: prefetches_def size_ok_def account_def queue_mset_def balance_def ac_simps)

lemma process_hit_read:
  assumes r: "ready s fl e a" and h: "hit_line s a l" and pf: "pf (contention_cache_line_lock l s) s2"
  shows "okR (CacheRead orig a l s2) (\<lambda>s'. \<exists>fl'. Rel s' fl' {} e \<and> good s2 fl (call_mset (cfg s) DATA_READ orig) (-1) s' fl')"
proof (rule okR_mono [OF CacheRead_ok [OF r h pf]])
  fix s' assume s': "Rel s' (fl(a \<mapsto> hit_flight orig l)) {} e \<and> misc s' = misc s2 \<and> trans_queue s' = trans_queue s2 \<and>
    trans_queue_size s' = trans_queue_size s2 \<and> pending_count s' = pending_count s2 \<and> done_calls s' = done_calls s2"
  note D = readyD [OF r]
  have fin: "finite (dom fl)" using Rel_wf [OF D(3)] by (simp add: fl_wf_def)
  have c: "cfg s2 = cfg s" using pf_fields(1) [OF pf] by simp
  have "good s2 fl (call_mset (cfg s) DATA_READ orig) (-1) s' (fl(a \<mapsto> hit_flight orig l))"
    using s' owed_add [OF fin, of a "cfg s" "hit_flight orig l"] D(6) fin c
    by (intro good_finish) (simp_all add: done_mset_def owed_flight_def hit_flight_def domIff)
  then show "\<exists>fl'. Rel s' fl' {} e \<and> good s2 fl (call_mset (cfg s) DATA_READ orig) (-1) s' fl'" using s' by blast
qed

lemma same_tables_lock:
  assumes "pf (contention_cache_line_lock l s) s2"
  shows "same_tables s s2"
  using pf_fields [OF assms] by (simp add: same_tables_def)

lemma process_hit_write:
  assumes r: "ready s fl e a" and h: "hit_line s a l" and pf: "pf (contention_cache_line_lock l s) s2"
  shows "okR (CacheWrite orig a l s2) (\<lambda>s'. \<exists>fl'. Rel s' fl' {} e \<and> good s2 fl (call_mset (cfg s) DATA_WRITE orig) (-1) s' fl')"
proof -
  note D = readyD [OF r] and P = pf_fields [OF pf, simplified]
  define p where "p = \<lparr>p_op = VICTIM_READ, p_orig_addr = orig, p_flash_addr = a, p_cache_addr = l, p_victim_tag = 0,
    p_victim_valid = False, p_callback_sent = False, p_type = DATA_WRITE\<rparr>"
  define s3 where "s3 = written p (s2\<lparr>dram_queue := dram_queue s2 @ [mkTransaction DATA_WRITE (data_addr (cfg s) a l)]\<rparr>)"
  have res: "CacheWrite orig a l s2 = contention_unlock a False
      (FLASH_ADDRESS (cfg s) 0 (SET_INDEX (cfg s) l)) True l s3"
    using D(9) P by (simp add: CacheWrite_def CacheWriteFinish_eq p_def s3_def Let_def data_addr_def)
  have rw: "reads [mkTransaction DATA_WRITE b] = []" for b by (simp add: reads_def mkTransaction_def)
  have hv: "cl_valid (lines s l)" using h by (simp add: hit_line_def)
  have st: "same_tables s s3"
    using same_tables_lock [OF pf] hv
    by (simp add: same_tables_def s3_def written_def p_def Let_def um_at_put rw P)
  have sc: "counters s3 = counters (contention_cache_line_lock l s)" by (simp add: s3_def written_def Let_def P)
  have locks: "locks_ok (cfg s) (fl(a \<mapsto> hit_flight orig l)) (lines s3) (counters s3)"
    unfolding sc by (rule locks_lines [OF hit_flight_ok(3) [OF r h]]) (simp_all add: s3_def written_def p_def Let_def um_at_put P)
  show ?thesis
    unfolding res
  proof (rule okR_mono [OF finish_hit [OF r h st locks]])
    fix s' assume s': "Rel s' fl {} e \<and> misc s' = misc s3 \<and> trans_queue s' = trans_queue s3 \<and> trans_queue_size s' = trans_queue_size s3 \<and>
      pending_count s' = pending_count s3 - 1 \<and> done_calls s' = done_calls s3"
    have "good s2 fl (call_mset (cfg s) DATA_WRITE orig) (-1) s' fl"
      using s' P by (intro good_finish)
        (simp_all add: s3_def written_def p_def Let_def misc_def done_mset_def call_mset_def)
    then show "\<exists>fl'. Rel s' fl' {} e \<and> good s2 fl (call_mset (cfg s) DATA_WRITE orig) (-1) s' fl'" using s' by blast
  qed
qed

lemma process_hit_prefetch:
  assumes r: "ready s fl e a" and h: "hit_line s a l" and pf: "pf (contention_cache_line_lock l s) s2"
  shows "okR (contention_unlock a False 0 True l s2) (\<lambda>s'. Rel s' fl {} e \<and> good s2 fl {#} (-1) s' fl)"
proof -
  have sc: "counters s2 = counters (contention_cache_line_lock l s)" "lines s2 = lines (contention_cache_line_lock l s)"
    by (simp_all add: pf_fields [OF pf])
  have locks: "locks_ok (cfg s) (fl(a \<mapsto> hit_flight orig l)) (lines s2) (counters s2)" for orig
    unfolding sc by (rule hit_flight_ok(3) [OF r h])
  show ?thesis
    by (rule okR_mono [OF finish_hit [OF r h same_tables_lock [OF pf] locks]])
      (simp, intro good_finish, simp_all add: done_mset_def)
qed

lemma stat_update [simp]:
  "Rel (s\<lparr>prefetch_hit_nops := n\<rparr>) fl X e = Rel s fl X e"
  "good s0 fl0 d m (s\<lparr>prefetch_hit_nops := n\<rparr>) fl = good s0 fl0 d m s fl"
proof -
  have "misc (s\<lparr>prefetch_hit_nops := n\<rparr>) = misc s" "account (s\<lparr>prefetch_hit_nops := n\<rparr>) fl = account s fl"
    "balance (s\<lparr>prefetch_hit_nops := n\<rparr>) fl = balance s fl" "size_ok (s\<lparr>prefetch_hit_nops := n\<rparr>) = size_ok s"
    by (simp_all add: misc_def account_def done_mset_def queue_mset_def balance_def size_ok_def)
  then show "good s0 fl0 d m (s\<lparr>prefetch_hit_nops := n\<rparr>) fl = good s0 fl0 d m s fl" by (simp add: good_def)
qed (simp add: Rel_def)

lemma process_hit_ok:
  assumes r: "ready s fl e a" and h: "hit_line s a l" and ty: "transactionType tr \<in> {DATA_READ, DATA_WRITE, PREFETCH}"
  shows "okR (process_hit tr a l s) (\<lambda>s'. \<exists>fl'. Rel s' fl' {} e \<and> good s fl (call_of (cfg s) tr) (-1) s' fl')"
proof -
  define s1 where "s1 = contention_cache_line_lock l s"
  define s2 where "s2 = (if ENABLE_STREAM_BUFFER (cfg s) \<and> is_data (transactionType tr)
    then stream_buffer_hit_handler (PAGE_ADDRESS (cfg s) a) s1 else s1)"
  have pf: "pf (contention_cache_line_lock l s) s2" by (simp add: s2_def s1_def pf_stream_hit)
  have "good s fl {#} 0 s1 fl"
    by (rule goodI [of _ _ "[]"]) (simp_all add: s1_def prefetches_def account_def done_mset_def queue_mset_def balance_def size_ok_def)
  from good_trans [OF this good_pf [OF pf [folded s1_def]]] have g: "good s fl {#} 0 s2 fl" by simp
  have G: "good s fl d (-1) s' fl'" if "good s2 fl d (-1) s' fl'" for d s' fl' using good_trans [OF g that] by simp
  consider "transactionType tr = DATA_READ" | "transactionType tr = DATA_WRITE" | "transactionType tr = PREFETCH" using ty by auto
  then show ?thesis
  proof cases
    case 1
    then have eq: "process_hit tr a l s = CacheRead (address tr) a l s2" by (simp add: process_hit_def Let_def s1_def s2_def)
    show ?thesis
      unfolding eq call_of_def 1 by (rule okR_mono [OF process_hit_read [OF r h pf]]) (blast intro: G)
  next
    case 2
    then have eq: "process_hit tr a l s = CacheWrite (address tr) a l s2" by (simp add: process_hit_def Let_def s1_def s2_def)
    show ?thesis
      unfolding eq call_of_def 2 by (rule okR_mono [OF process_hit_write [OF r h pf]]) (blast intro: G)
  next
    case 3
    then have eq: "process_hit tr a l s = bindR (contention_unlock a False 0 True l s2)
        (\<lambda>s'. Inr (s'\<lparr>prefetch_hit_nops := u64 (prefetch_hit_nops s' + 1)\<rparr>))"
      by (simp add: process_hit_def Let_def s1_def s2_def)
    have "call_of (cfg s) tr = {#}" by (simp add: call_of_def call_mset_def 3)
    then show ?thesis
      unfolding eq okR_bind okR.simps by (intro okR_mono [OF process_hit_prefetch [OF r h pf]] exI [of _ fl]) (simp add: G)
  qed
qed

section \<open>Misses\<close>

text \<open>The set does not hold the page of \<open>a\<close>, and \<open>l\<close> is one of its lines that is not locked.\<close>

definition miss_line :: "hs \<Rightarrow> nat \<Rightarrow> nat \<Rightarrow> bool" where
  "miss_line s a l \<longleftrightarrow> absent (cfg s) (lines s) (SET_INDEX (cfg s) a) (TAG (cfg s) a) \<and>
     l \<in> set_lines (cfg s) (SET_INDEX (cfg s) a) \<and> \<not> cl_locked (lines s l)"

definition miss_flight :: "Transaction \<Rightarrow> nat \<Rightarrow> cache_line \<Rightarrow> flight" where
  "miss_flight tr l ln = \<lparr>f_miss = True, f_orig = address tr, f_line = l, f_vtag = cl_tag ln, f_vvalid = cl_valid ln,
     f_lr = True, f_vr = cl_dirty ln, f_sent = False, f_type = transactionType tr\<rparr>"

lemma miss_line_free:
  assumes "ready s fl e a" "miss_line s a l" "fl b = Some y"
  shows "f_line y \<noteq> l"
  using locked_iff [OF Rel_locks [OF readyD(3) [OF assms(1)]], of l] assms(2,3) by (auto simp: miss_line_def)

text \<open>Tag and set of a page, and of the page that a valid line holds.\<close>

lemma FLASH_ADDRESS_eq:
  assumes "wf_cfg c" "s < NUM_SETS c" "t * NUM_SETS c + s < TOTAL_PAGES c"
    and "s' < NUM_SETS c" "t' * NUM_SETS c + s' < TOTAL_PAGES c"
  shows "FLASH_ADDRESS c t s = FLASH_ADDRESS c t' s' \<longleftrightarrow> t = t' \<and> s = s'"
  using split_FLASH_ADDRESS [OF assms(1-3)] split_FLASH_ADDRESS [OF assms(1,4,5)] by metis

lemma FLASH_ADDRESS_page:
  assumes "wf_cfg c" "s < NUM_SETS c" "t * NUM_SETS c + s < TOTAL_PAGES c" "ALIGN c b = b"
  shows "FLASH_ADDRESS c t s = PAGE_ADDRESS c b \<longleftrightarrow> t = TAG c b \<and> s = SET_INDEX c b"
  using split_FLASH_ADDRESS [OF assms(1-3)] FLASH_ADDRESS_TAG [OF assms(1) aligned_u64 [OF assms(1,4)]]
  by (metis TAG_page SET_INDEX_page)

text \<open>The page of a free line is not among the pages that flights use.\<close>

lemma victim_page_free:
  assumes r: "ready s fl e a" and m: "miss_line s a l" and v: "cl_valid (lines s l)" and b: "fl b = Some y"
  shows "FLASH_ADDRESS (cfg s) (cl_tag (lines s l)) (SET_INDEX (cfg s) a) \<noteq> PAGE_ADDRESS (cfg s) b"
    and "FLASH_ADDRESS (cfg s) (cl_tag (lines s l)) (SET_INDEX (cfg s) a) \<notin> own_pages (cfg s) b y"
proof -
  note D = readyD [OF r]
  let ?c = "cfg s" and ?i = "SET_INDEX (cfg s) a" and ?t = "cl_tag (lines s l)"
  note w = fl_wfD(1) [OF Rel_wf [OF D(3)] b] and ft = tags_okD [OF Rel_tags [OF D(3)] b]
  have l: "l \<in> set_lines ?c ?i" and ne: "f_line y \<noteq> l" using m miss_line_free [OF r m b] by (simp_all add: miss_line_def)
  note i = SET_INDEX_less [OF D(2)]
  have lw: "lines_wf ?c (lines s)" using Rel_tags [OF D(3)] by (simp add: tags_ok_def)
  have fits: "?t * NUM_SETS ?c + ?i < TOTAL_PAGES ?c" using lw i l v unfolding lines_wf_def by blast
  have same: "\<not> (cl_valid (lines s (f_line y)) \<and> cl_tag (lines s (f_line y)) = ?t)" if "SET_INDEX ?c b = ?i"
    using lw i [of b] l v flight_wf_line [OF w] that ne unfolding lines_wf_def by metis
  have notab: "\<not> absent ?c (lines s) (SET_INDEX ?c b) ?t" if "SET_INDEX ?c b = ?i"
    using that l v by (auto simp: absent_def)
  show 1: "FLASH_ADDRESS ?c ?t ?i \<noteq> PAGE_ADDRESS ?c b"
    unfolding FLASH_ADDRESS_page [OF D(2) i fits flight_wf_align [OF w]]
    using same notab ft by (auto simp: flight_tags_def split: if_splits)
  have "FLASH_ADDRESS ?c ?t ?i \<noteq> vpage ?c b y" if "f_miss y" "f_vvalid y"
  proof -
    have "f_vtag y * NUM_SETS ?c + SET_INDEX ?c b < TOTAL_PAGES ?c" using w that by (simp add: flight_wf_def)
    then show ?thesis
      unfolding vpage_def FLASH_ADDRESS_eq [OF D(2) i fits i [of b]]
      using FLASH_ADDRESS_eq [OF D(2) i fits i [of b]] same notab ft that by (auto simp: flight_tags_def split: if_splits)
  qed
  then show "FLASH_ADDRESS ?c ?t ?i \<notin> own_pages ?c b y" using 1 by (auto simp: own_pages_def)
qed

lemma miss_page_free:
  assumes r: "ready s fl e a" and m: "miss_line s a l" and b: "fl b = Some y"
  shows "PAGE_ADDRESS (cfg s) a \<noteq> PAGE_ADDRESS (cfg s) b"
proof
  assume eq: "PAGE_ADDRESS (cfg s) a = PAGE_ADDRESS (cfg s) b"
  note D = readyD [OF r]
  note w = fl_wfD(1) [OF Rel_wf [OF D(3)] b] and ft = tags_okD [OF Rel_tags [OF D(3)] b]
  have tag: "TAG (cfg s) a = TAG (cfg s) b" "SET_INDEX (cfg s) a = SET_INDEX (cfg s) b"
    using eq by (metis TAG_page SET_INDEX_page)+
  have "\<not> f_miss y" using D(4) b eq own_pages_miss(1) by (metis clear_of_def)
  then show False using ft m flight_wf_line [OF w] by (auto simp: flight_tags_def miss_line_def absent_def tag)
qed

lemma miss_flight_ok:
  assumes r: "ready s fl e a" and m: "miss_line s a l" and ty: "transactionType tr \<in> {DATA_READ, DATA_WRITE, PREFETCH}"
  defines "x \<equiv> miss_flight tr l (lines s l)"
  shows "flight_wf (cfg s) a x" "fl_wf (cfg s) (fl(a \<mapsto> x))"
    and "locks_ok (cfg s) (fl(a \<mapsto> x)) (lines (contention_cache_line_lock l s)) (counters (contention_cache_line_lock l s))"
    and "tags_ok (cfg s) (fl(a \<mapsto> x)) (lines s)"
proof -
  note D = readyD [OF r]
  let ?c = "cfg s" and ?i = "SET_INDEX (cfg s) a"
  have l: "l \<in> set_lines ?c ?i" and ab: "absent ?c (lines s) ?i (TAG ?c a)" using m by (simp_all add: miss_line_def)
  have lw: "lines_wf ?c (lines s)" using Rel_tags [OF D(3)] by (simp add: tags_ok_def)
  note i = SET_INDEX_less [OF D(2)]
  have fits: "cl_tag (lines s l) * NUM_SETS ?c + ?i < TOTAL_PAGES ?c" if "cl_valid (lines s l)"
    using lw i l that unfolding lines_wf_def by blast
  have "vpage ?c a x \<noteq> PAGE_ADDRESS ?c a" if "cl_valid (lines s l)"
    using FLASH_ADDRESS_page [OF D(2) i fits [OF that] D(5)] ab l that by (auto simp: vpage_def x_def miss_flight_def absent_def)
  then show w: "flight_wf ?c a x" using D(5) l ty fits by (simp add: flight_wf_def x_def miss_flight_def)
  have op: "own_pages ?c a x = insert (PAGE_ADDRESS ?c a) (if cl_valid (lines s l) then {FLASH_ADDRESS ?c (cl_tag (lines s l)) ?i} else {})"
    by (simp add: own_pages_def vpage_def x_def miss_flight_def)
  have "PAGE_ADDRESS ?c b \<notin> own_pages ?c a x \<and> own_pages ?c a x \<inter> own_pages ?c b y = {}" if b: "fl b = Some y" for b y
    using miss_page_free [OF r m b] victim_page_free [OF r m _ b] D(4) b unfolding op clear_of_def by (auto split: if_splits)
  then show "fl_wf ?c (fl(a \<mapsto> x))"
    using miss_line_free [OF r m] by (intro fl_wf_add_miss [OF Rel_wf [OF D(3)] D(4) w]) (auto simp: x_def miss_flight_def)
  show "locks_ok ?c (fl(a \<mapsto> x)) (lines (contention_cache_line_lock l s)) (counters (contention_cache_line_lock l s))"
    by (rule lock_line [OF D(2) Rel_wf [OF D(3)] Rel_locks [OF D(3)] D(6)]) (use l D(7) in \<open>simp_all add: x_def miss_flight_def\<close>)
  show "tags_ok ?c (fl(a \<mapsto> x)) (lines s)"
    by (rule tags_set [OF Rel_tags [OF D(3)]]) (use ab in \<open>simp add: flight_tags_def x_def miss_flight_def\<close>)
qed

text \<open>The tables after the start of a miss.\<close>

definition miss_started :: "hs \<Rightarrow> nat \<Rightarrow> nat \<Rightarrow> flight \<Rightarrow> hs \<Rightarrow> bool" where
  "miss_started s a l x s' \<longleftrightarrow> (let c = cfg s; pa = PAGE_ADDRESS c a in
     cfg s' = c \<and> pending_flash_addr s' = pending_flash_addr s \<and>
     lines s' = lines (contention_cache_line_lock l s) \<and> counters s' = counters (contention_cache_line_lock l s) \<and>
     (\<forall>k. k \<notin> own_pages c a x \<longrightarrow> um_get (pending_pages s') k = um_get (pending_pages s) k) \<and>
     um_get (pending_pages s') pa = Some (1 + of_bool (f_vr x)) \<and>
     (f_vvalid x \<longrightarrow> um_get (pending_pages s') (vpage c a x) = Some 0) \<and>
     um_get (flash_pending s') = (um_get (flash_pending s))(pa \<mapsto> mkp a x LINE_READ False) \<and>
     um_get (flash_pending_wait s') = (um_get (flash_pending_wait s))(pa \<mapsto> {pa}) \<and>
     reads (flash_queue s') = reads (flash_queue s) @ [pa] \<and>
     um_get (dram_pending s') = (if f_vr x then (um_get (dram_pending s))(l \<mapsto> mkp a x VICTIM_READ False) else um_get (dram_pending s)) \<and>
     um_get (dram_pending_wait s') = (if f_vr x then (um_get (dram_pending_wait s))(l \<mapsto> set (dram_bursts c l)) else um_get (dram_pending_wait s)) \<and>
     reads (dram_queue s') = reads (dram_queue s) @ (if f_vr x then dram_bursts c l else []))"

lemma dram_key_free:
  assumes r: "ready s fl e a" and m: "miss_line s a l" and b: "fl b = Some y"
  shows "dram_key (cfg s) b y \<noteq> Some l" "victim_key b y \<noteq> Some l"
proof -
  note D = readyD [OF r]
  have l: "PAGE_ADDRESS (cfg s) l = l" using set_linesD(2) [OF D(2), of l a] m by (simp add: miss_line_def)
  show "dram_key (cfg s) b y \<noteq> Some l"
    using dram_key_page [OF D(2) fl_wfD(1) [OF Rel_wf [OF D(3)] b], of l] miss_line_free [OF r m b] l by auto
  show "victim_key b y \<noteq> Some l" using miss_line_free [OF r m b] by (auto simp: victim_key_def)
qed

lemma Rel_miss:
  assumes r: "ready s fl e a" and m: "miss_line s a l" and ty: "transactionType tr \<in> {DATA_READ, DATA_WRITE, PREFETCH}"
    and x: "x = miss_flight tr l (lines s l)" and st: "miss_started s a l x s'"
  shows "Rel s' (fl(a \<mapsto> x)) {} e"
proof -
  note D = readyD [OF r] and M = miss_flight_ok [OF r m ty, folded x] and S = st [unfolded miss_started_def Let_def]
  let ?c = "cfg s" and ?pa = "PAGE_ADDRESS (cfg s) a" and ?fl' = "fl(a \<mapsto> x)" and ?W = "um_get (dram_pending_wait s)"
  have c: "cfg s' = ?c" using S by blast
  have xm: "f_miss x" "f_lr x" "f_line x = l" "\<not> f_sent x" by (simp_all add: x miss_flight_def)
  have l: "l \<in> set_lines ?c (SET_INDEX ?c a)" using m by (simp add: miss_line_def)
  have fk: "flash_key ?c a x = Some ?pa" and vk: "victim_key a x = (if f_vr x then Some l else None)"
    and dk: "dram_key ?c a x = (if f_vr x then Some l else None)" using xm by (simp_all add: key_defs)
  have fi: "flash_key ?c b y \<noteq> Some ?pa" if "fl b = Some y" for b y
    using miss_page_free [OF r m that] by (auto simp: flash_key_def)
  have wn: "?W l = None" by (rule keyed_fresh [OF Rel_dram_wait [OF D(3)] dram_key_free(2) [OF r m]])
  show ?thesis
  proof (rule RelI, unfold c)
    show "fl_wf ?c ?fl'" by (rule M(2))
    show "pages_ok ?c ?fl' (um_get (pending_pages s'))"
      by (rule pages_set_miss [OF Rel_pages [OF D(3)] M(2) xm(1)]) (use S D(6) xm in auto)
    show "um_has (pending_flash_addr s') j \<longleftrightarrow> j \<in> dom ?fl' \<union> {}" for j using Rel_addr [OF D(3), of j] S by auto
    show "dom ?fl' \<inter> {} = {}" by simp
    show "locks_ok ?c ?fl' (lines s') (counters s')" using M(3) S by simp
    show "tags_ok ?c ?fl' (lines s')" by (rule tags_cong [OF M(4)]) (use S in simp_all)
    show "keyed (flash_key ?c) flash_val ?fl' (um_get (flash_pending s'))"
      using keyed_set [OF Rel_flash [OF D(3)] fk, of "mkp a x LINE_READ False"] fi D(6) S xm by (simp add: flash_val_def)
    show "keyed (flash_key ?c) (flash_wait_val ?c) ?fl' (um_get (flash_pending_wait s'))"
      using keyed_set [OF Rel_flash_wait [OF D(3)] fk, of "{?pa}"] fi D(6) S by (simp add: flash_wait_val_def)
    show "keyed (dram_key ?c) dram_val ?fl' (um_get (dram_pending s'))"
      using keyed_set [OF Rel_dram [OF D(3)], of a x l "mkp a x VICTIM_READ False"] keyed_none [OF Rel_dram [OF D(3)], of a "Some x"]
        dram_key_free(1) [OF r m] D(6) S dk xm by (cases "f_vr x") (simp_all add: dram_val_def)
    show "keyed victim_key (dram_wait_val ?c) ?fl' (um_get (dram_pending_wait s'))"
      using keyed_set [OF Rel_dram_wait [OF D(3)], of a x l "set (dram_bursts ?c l)"] keyed_none [OF Rel_dram_wait [OF D(3)], of a "Some x"]
        dram_key_free(2) [OF r m] D(6) S vk xm dram_bursts_distinct(2) [OF D(2) l] by (cases "f_vr x") (simp_all add: dram_wait_val_def)
    have em: "dram_exp ?c ?fl' W = dram_exp ?c fl W" for W by (rule dram_exp_miss) (use D(6) xm in auto)
    have nb: "dram_exp ?c fl ?W \<inter> set (dram_bursts ?c l) = {}"
      using free_line_not_expected [OF D(2) Rel_wf [OF D(3)] Rel_dram_wait [OF D(3)]] miss_line_free [OF r m]
        dram_bursts_page [OF D(2) l] by (metis disjoint_iff)
    show "reads_ok (reads (dram_queue s') @ dout e) (dram_exp ?c ?fl' (um_get (dram_pending_wait s')))"
    proof (cases "f_vr x")
      case True
      then have "reads_ok (reads (dram_queue s') @ dout e) = reads_ok ((reads (dram_queue s) @ dout e) @ dram_bursts ?c l)"
        by (intro ext reads_ok_mset) (use S in simp)
      then show ?thesis
        using reads_ok_add [OF Rel_dreads [OF D(3)] dram_bursts_distinct(1) [OF D(2) l] nb] S True
        by (simp add: em dram_exp_await [of ?W l, OF wn])
    qed (use Rel_dreads [OF D(3)] S in \<open>simp add: em\<close>)
    have "reads_ok (reads (flash_queue s') @ fout e) = reads_ok ((reads (flash_queue s) @ fout e) @ [?pa])"
      by (intro ext reads_ok_mset) (use S in simp)
    moreover have "flash_keys ?c fl \<inter> {?pa} = {}" using fi by (auto simp: flash_keys_def)
    ultimately show "reads_ok (reads (flash_queue s') @ fout e) (flash_keys ?c ?fl')"
      using reads_ok_add [OF Rel_freads [OF D(3)], of "[?pa]"] keys_add(1) [of fl a ?c x ?pa] D(6) fk xm by simp
    show "crit e = crit_keys ?c ?fl'"
      using Rel_crit [OF D(3)] keys_add(2) [of fl a ?c x ?pa] D(6) fk xm by simp
  qed
qed

text \<open>The page is locked and nothing else has changed in the tables.\<close>

definition page_locked :: "hs \<Rightarrow> nat \<Rightarrow> hs \<Rightarrow> bool" where
  "page_locked s a s' \<longleftrightarrow> cfg s' = cfg s \<and> pending_pages s' = um_put (PAGE_ADDRESS (cfg s) a) 0 (pending_pages s) \<and>
     pending_flash_addr s' = pending_flash_addr s \<and> cache s' = cache s \<and> set_counter s' = set_counter s \<and>
     flash_pending s' = flash_pending s \<and> flash_pending_wait s' = flash_pending_wait s \<and>
     dram_pending s' = dram_pending s \<and> dram_pending_wait s' = dram_pending_wait s \<and>
     dram_queue s' = dram_queue s \<and> flash_queue s' = flash_queue s \<and> done_calls s' = done_calls s \<and> misc s' = misc s"

lemma page_locked_pf:
  assumes "pf (contention_page_lock a s) s'"
  shows "page_locked s a s'"
  using pf_fields [OF assms] by (simp add: page_locked_def contention_page_lock_def misc_def)

lemma page_locked_stats:
  "page_locked s a s' \<Longrightarrow> page_locked s a (s'\<lparr>unused_prefetches := u, unused_prefetch_victims := v\<rparr>)"
  by (simp add: page_locked_def misc_def)

lemma start_miss_ok:
  assumes r: "ready s fl e a" and m: "miss_line s a l" and ty: "transactionType tr \<in> {DATA_READ, DATA_WRITE, PREFETCH}"
    and pl: "page_locked s a s4"
  shows "okR (start_miss tr a l s4) (\<lambda>s'. miss_started s a l (miss_flight tr l (lines s l)) s' \<and> misc s' = misc s4 \<and>
    trans_queue s' = trans_queue s4 \<and> trans_queue_size s' = trans_queue_size s4 \<and>
    pending_count s' = pending_count s4 \<and> done_calls s' = done_calls s4)"
proof -
  note D = readyD [OF r] and P = pl [unfolded page_locked_def]
  let ?c = "cfg s" and ?pa = "PAGE_ADDRESS (cfg s) a" and ?ln = "lines s l"
  let ?vp = "FLASH_ADDRESS ?c (cl_tag ?ln) (SET_INDEX ?c a)" and ?x = "miss_flight tr l (lines s l)"
  define s5 where "s5 = contention_cache_line_lock l (if cl_valid ?ln then contention_victim_lock ?vp s4 else s4)"
  define p where "p = mkp a ?x VICTIM_READ False"
  have p: "p = \<lparr>p_op = VICTIM_READ, p_orig_addr = address tr, p_flash_addr = a, p_cache_addr = l, p_victim_tag = cl_tag ?ln,
      p_victim_valid = cl_valid ?ln, p_callback_sent = False, p_type = transactionType tr\<rparr>"
    by (simp add: p_def mkp_def miss_flight_def)
  have eq: "start_miss tr a l s4 = (if cl_dirty ?ln then VictimRead p (LineRead p s5) else Inr (LineRead p s5))"
    using P by (simp add: start_miss_def Let_def s5_def p)
  have vp: "?vp \<noteq> ?pa" if "cl_valid ?ln"
    using miss_flight_ok(1) [OF r m ty] that by (simp add: flight_wf_def miss_flight_def vpage_def)
  have s5: "cfg s5 = ?c" "pending_flash_addr s5 = pending_flash_addr s" "flash_pending s5 = flash_pending s"
    "flash_pending_wait s5 = flash_pending_wait s" "dram_pending s5 = dram_pending s" "dram_pending_wait s5 = dram_pending_wait s"
    "dram_queue s5 = dram_queue s" "flash_queue s5 = flash_queue s" "done_calls s5 = done_calls s4" "misc s5 = misc s4"
    "trans_queue s5 = trans_queue s4" "trans_queue_size s5 = trans_queue_size s4" "pending_count s5 = pending_count s4"
    "cache s5 = cache (contention_cache_line_lock l s)" "set_counter s5 = set_counter (contention_cache_line_lock l s)"
    using P by (auto simp: s5_def contention_victim_lock_def misc_def contention_cache_line_lock_def Let_def)
  have pg: "um_get (pending_pages s5) = (um_get (pending_pages s))
      (?pa \<mapsto> 0, if cl_valid ?ln then ?vp else ?pa \<mapsto> 0)"
    using P by (auto simp: s5_def contention_victim_lock_def um_get_put_map)
  have pa0: "um_at 0 (pending_pages s5) ?pa = 0" by (simp add: um_at_get pg)
  have fb: "flash_bursts ?c ?pa = [?pa]" by (rule flash_bursts_page [OF D(2) cfg_okD(2) [OF D(1)] D(10)])
  define s6 where "s6 = s5\<lparr>pending_pages := um_put ?pa 1 (pending_pages s5), flash_pending_wait := um_put ?pa {?pa} (flash_pending_wait s),
    flash_queue := flash_queue s @ [mkTransaction DATA_READ ?pa], flash_pending := um_put ?pa (mkp a ?x LINE_READ False) (flash_pending s)\<rparr>"
  have lr: "LineRead p s5 = s6"
    using pa0 fb s5 by (simp add: LineRead_def s6_def contention_increment_def Let_def p_def u64_def)
  have nd: "um_get (dram_pending s) l = None" by (rule keyed_fresh [OF Rel_dram [OF D(3)] dram_key_free(1) [OF r m]])
  define s7 where "s7 = s6\<lparr>pending_pages := um_put ?pa 2 (pending_pages s6), dram_pending_wait := um_put l (set (dram_bursts ?c l)) (dram_pending_wait s),
    dram_queue := dram_queue s @ map (mkTransaction DATA_READ) (dram_bursts ?c l), dram_pending := um_put l p (dram_pending s)\<rparr>"
  have xl: "f_line ?x = l" by (simp add: miss_flight_def)
  have u2: "u64 (1 + 1) = 2" "u64 (Suc (Suc 0)) = 2" by (simp_all add: u64_def)
  have vr: "VictimRead p s6 = Inr s7"
    using nd s5 by (simp add: VictimRead_def s6_def s7_def contention_increment_def Let_def p_def um_has_get um_at_put u2 xl)
  have r1: "reads [mkTransaction DATA_READ b] = [b]" for b by (simp add: reads_def mkTransaction_def)
  have "miss_started s a l ?x (if cl_dirty ?ln then s7 else s6)"
    using s5 vp by (auto simp: miss_started_def Let_def s6_def s7_def um_get_put_map pg r1 p_def own_pages_def vpage_def miss_flight_def)
  moreover have "misc s6 = misc s5" "misc s7 = misc s6" by (simp_all add: s6_def s7_def misc_def)
  moreover have "trans_queue s6 = trans_queue s4" "trans_queue_size s6 = trans_queue_size s4"
    "pending_count s6 = pending_count s4" "done_calls s6 = done_calls s4" using s5 by (simp_all add: s6_def)
  moreover have "trans_queue s7 = trans_queue s6" "trans_queue_size s7 = trans_queue_size s6"
    "pending_count s7 = pending_count s6" "done_calls s7 = done_calls s6" by (simp_all add: s7_def)
  ultimately show ?thesis using s5(10) by (cases "cl_dirty ?ln") (simp_all add: eq lr vr)
qed

text \<open>A cheating prefetch replaces the page of a free line on the spot.\<close>

lemma cheat_fill_ok:
  assumes r: "ready s fl e a" and m: "miss_line s a l" and pl: "page_locked s a s4"
  shows "okR (cheat_fill a l s4) (\<lambda>s'. Rel s' fl {} e \<and> misc s' = misc s4 \<and> trans_queue s' = trans_queue s4 \<and>
    trans_queue_size s' = trans_queue_size s4 \<and> pending_count s' = pending_count s4 - 1 \<and> done_calls s' = done_calls s4)"
proof -
  note D = readyD [OF r] and P = pl [unfolded page_locked_def]
  let ?c = "cfg s" and ?pa = "PAGE_ADDRESS (cfg s) a"
  define ln where "ln = (lines s l)\<lparr>cl_tag := TAG ?c a, cl_dirty := False, cl_valid := True, cl_ts := currentClockCycle s4,
    cl_used := False, cl_prefetched := True\<rparr>"
  define n where "n = u64_sub (um_at 0 (prefetch_cheat_map s4) ?pa) 1"
  define s5 where "s5 = s4\<lparr>prefetch_cheat_map := (if n = 0 then um_del ?pa (prefetch_cheat_map s4)
                    else um_put ?pa n (prefetch_cheat_map s4)),
                 total_prefetches := u64 (total_prefetches s4 + 1), unused_prefetches := u64 (unused_prefetches s4 + 1),
                 prefetch_cheat_count := u64 (prefetch_cheat_count s4 + 1), cache := um_put l ln (cache s)\<rparr>"
  have eq: "cheat_fill a l s4 = contention_unlock a False 0 False 0 s5"
    using P by (simp add: cheat_fill_def Let_def s5_def n_def ln_def)
  let ?s' = "s5\<lparr>pending_pages := um_del ?pa (um_put ?pa 0 (pending_pages s)),
    pending_flash_addr := um_del a (pending_flash_addr s), check_queue := True, pending_count := pending_count s4 - 1\<rparr>"
  have res: "cheat_fill a l s4 = Inr ?s'"
    using P D(12) unlock_miss [of s5 a False 0 False 0] by (simp add: eq s5_def um_get_put)
  have pg: "um_get (um_del ?pa (um_put ?pa 0 (pending_pages s))) = um_get (pending_pages s)"
    using D(11) by (auto simp: um_get_del_map um_get_put_map)
  have addr: "um_has (um_del a (pending_flash_addr s)) k \<longleftrightarrow> k \<in> dom fl \<union> {}" for k
    using Rel_addr [OF D(3), of k] D(6) by (auto simp: um_has_del)
  have locks: "locks_ok ?c fl (um_at new_line (um_put l ln (cache s))) (counters s)"
    by (rule locks_lines [OF Rel_locks [OF D(3)]]) (simp_all add: um_at_put ln_def)
  have tags: "tags_ok ?c fl (um_at new_line (um_put l ln (cache s)))"
    by (rule tags_fill_free [OF D(2) Rel_wf [OF D(3)] Rel_tags [OF D(3)] D(4,5), where l = l])
      (use m miss_line_free [OF r m] in \<open>simp_all add: miss_line_def um_at_put ln_def\<close>)
  have "Rel ?s' fl {} e" using D(3) P pg addr locks tags unfolding Rel_def by (simp add: s5_def)
  then show ?thesis using P by (simp add: res s5_def misc_def)
qed

text \<open>A miss up to the choice between a transfer and a cheating prefetch.\<close>

lemma miss_tail_ok:
  assumes r: "ready s fl e a" and ab: "absent (cfg s) (lines s) (SET_INDEX (cfg s) a) (TAG (cfg s) a)"
    and ty: "transactionType tr \<in> {DATA_READ, DATA_WRITE, PREFETCH}" and pf: "pf (contention_page_lock a s) s3"
    and l: "l = select_victim (cache s3) (set_address_list (cfg s) (SET_INDEX (cfg s) a))"
    and s4: "s4 = s3 \<or> (\<exists>u v. s4 = s3\<lparr>unused_prefetches := u, unused_prefetch_victims := v\<rparr>)"
  shows "okR (start_miss tr a l s4) (\<lambda>s'. \<exists>fl'. Rel s' fl' {} e \<and> good s3 fl (call_of (cfg s) tr) (-1) s' fl')"
    and "transactionType tr = PREFETCH \<Longrightarrow>
      okR (cheat_fill a l s4) (\<lambda>s'. \<exists>fl'. Rel s' fl' {} e \<and> good s3 fl (call_of (cfg s) tr) (-1) s' fl')"
proof -
  note D = readyD [OF r]
  have c: "cache s3 = cache s" "cfg s3 = cfg s" using pf_fields(1,2) [OF pf] by (simp_all add: contention_page_lock_def)
  have "\<exists>k \<in> set (set_address_list (cfg s) (SET_INDEX (cfg s) a)). \<not> cl_locked (um_at new_line (cache s3) k)"
    using unlocked_line_exists [OF D(2) Rel_locks [OF D(3)] Rel_wf [OF D(3)] D(7)] by (simp add: c set_lines_def)
  note V = select_victim_ok [OF this]
  have m: "miss_line s a l" using V ab by (simp add: miss_line_def l set_lines_def c)
  have pl: "page_locked s a s4" using s4 page_locked_pf [OF pf] page_locked_stats by blast
  have s4': "misc s4 = misc s3" "trans_queue s4 = trans_queue s3" "trans_queue_size s4 = trans_queue_size s3"
    "pending_count s4 = pending_count s3" "done_calls s4 = done_calls s3" using s4 by (auto simp: misc_def)
  have fin: "finite (dom fl)" using Rel_wf [OF D(3)] by (simp add: fl_wf_def)
  let ?x = "miss_flight tr l (lines s l)"
  show "okR (start_miss tr a l s4) (\<lambda>s'. \<exists>fl'. Rel s' fl' {} e \<and> good s3 fl (call_of (cfg s) tr) (-1) s' fl')"
  proof (rule okR_mono [OF start_miss_ok [OF r m ty pl]])
    fix s' assume s': "miss_started s a l ?x s' \<and> misc s' = misc s4 \<and> trans_queue s' = trans_queue s4 \<and>
      trans_queue_size s' = trans_queue_size s4 \<and> pending_count s' = pending_count s4 \<and> done_calls s' = done_calls s4"
    then have "Rel s' (fl(a \<mapsto> ?x)) {} e" by (intro Rel_miss [OF r m ty refl]) simp
    moreover have "good s3 fl (call_of (cfg s) tr) (-1) s' (fl(a \<mapsto> ?x))"
      using s' s4' owed_add [OF fin, of a "cfg s" ?x] D(6) fin c
      by (intro good_finish) (simp_all add: done_mset_def owed_flight_def miss_flight_def domIff call_of_def)
    ultimately show "\<exists>fl'. Rel s' fl' {} e \<and> good s3 fl (call_of (cfg s) tr) (-1) s' fl'" by blast
  qed
  assume "transactionType tr = PREFETCH"
  then have call: "call_of (cfg s) tr = {#}" by (simp add: call_of_def call_mset_def)
  show "okR (cheat_fill a l s4) (\<lambda>s'. \<exists>fl'. Rel s' fl' {} e \<and> good s3 fl (call_of (cfg s) tr) (-1) s' fl')"
  proof (rule okR_mono [OF cheat_fill_ok [OF r m pl]], intro exI conjI)
    fix s' assume s': "Rel s' fl {} e \<and> misc s' = misc s4 \<and> trans_queue s' = trans_queue s4 \<and>
      trans_queue_size s' = trans_queue_size s4 \<and> pending_count s' = pending_count s4 - 1 \<and> done_calls s' = done_calls s4"
    then show "Rel s' fl {} e" by blast
    show "good s3 fl (call_of (cfg s) tr) (-1) s' fl"
      using s' s4' by (intro good_finish) (simp_all add: call done_mset_def)
  qed
qed

lemma process_miss_ok:
  assumes r: "ready s fl e a" and ab: "absent (cfg s) (lines s) (SET_INDEX (cfg s) a) (TAG (cfg s) a)"
    and ty: "transactionType tr \<in> {DATA_READ, DATA_WRITE, PREFETCH}"
  shows "okE (ENABLE_STREAM_BUFFER (cfg s)) (process_miss tr a s)
    (\<lambda>s'. \<exists>fl'. Rel s' fl' {} e \<and> good s fl (call_of (cfg s) tr) (-1) s' fl')"
proof -
  let ?c = "cfg s" and ?ty = "transactionType tr"
  define s1 where "s1 = contention_page_lock a s"
  define s2 where "s2 = (if 0 < SEQUENTIAL_PREFETCHING_WINDOW ?c \<and> ?ty \<noteq> PREFETCH then issue_sequential_prefetches a s1 else s1)"
  define m where "m = (if ENABLE_STREAM_BUFFER ?c \<and> ?ty \<noteq> PREFETCH then stream_buffer_miss_handler (PAGE_ADDRESS ?c a) s2 else Inr s2)"
  define tail where "tail s3 = (
      let cache_address = select_victim (cache s3) (set_address_list ?c (SET_INDEX ?c a));
          cur_line = um_at new_line (cache s3) cache_address;
          s4 = (if cl_prefetched cur_line \<and> \<not> cl_used cur_line
                then s3\<lparr>unused_prefetches := u64_sub (unused_prefetches s3) 1,
                        unused_prefetch_victims := u64 (unused_prefetch_victims s3 + 1)\<rparr>
                else s3)
      in if ?ty = PREFETCH \<and> um_has (prefetch_cheat_map s4) (PAGE_ADDRESS ?c a)
         then cheat_fill a cache_address s4 else start_miss tr a cache_address s4)" for s3
  have eq: "process_miss tr a s = bindR m tail"
    using ty by (auto simp: process_miss_def Let_def m_def s2_def s1_def tail_def intro!: arg_cong2 [of _ _ _ _ bindR])
  have "pf s1 s2" by (simp add: s2_def issue_sequential_prefetches_def pf_issue)
  then have m: "okE (ENABLE_STREAM_BUFFER ?c) m (pf s1)"
    using okE_mono [OF pf_stream_miss [of "PAGE_ADDRESS ?c a" s2], of "pf s1"] by (auto simp: m_def intro: pf_trans)
  have g1: "good s fl {#} 0 s1 fl"
    by (rule goodI [of _ _ "[]"])
      (simp_all add: s1_def contention_page_lock_def misc_def prefetches_def account_def done_mset_def queue_mset_def balance_def size_ok_def)
  have "okR (tail s3) (\<lambda>s'. \<exists>fl'. Rel s' fl' {} e \<and> good s fl (call_of ?c tr) (-1) s' fl')" if pf: "pf s1 s3" for s3
  proof -
    have g: "good s fl d (-1) s' fl'" if "good s3 fl d (-1) s' fl'" for d s' fl'
      using good_trans [OF good_trans [OF g1 good_pf [OF pf]] that] by simp
    note T = miss_tail_ok [OF r ab ty pf [unfolded s1_def] refl]
    have imp: "okR q (\<lambda>s'. \<exists>fl'. Rel s' fl' {} e \<and> good s fl (call_of ?c tr) (-1) s' fl')"
      if "okR q (\<lambda>s'. \<exists>fl'. Rel s' fl' {} e \<and> good s3 fl (call_of ?c tr) (-1) s' fl')" for q
      using that by (rule okR_mono) (blast intro: g)
    show ?thesis unfolding tail_def Let_def by (auto intro!: imp T)
  qed
  then show ?thesis unfolding eq okE_bind by (intro okE_mono [OF m] okE_okR)
qed

lemma ProcessTransaction_ok:
  assumes r: "ready s fl e a" and a: "a = ALIGN (cfg s) (address tr)"
    and ty: "transactionType tr \<in> {DATA_READ, DATA_WRITE, PREFETCH}"
  shows "okE (ENABLE_STREAM_BUFFER (cfg s)) (ProcessTransaction tr s)
    (\<lambda>s'. \<exists>fl'. Rel s' fl' {} e \<and> good s fl (call_of (cfg s) tr) (-1) s' fl')"
proof -
  note D = readyD [OF r]
  let ?c = "cfg s"
  obtain hit m where find: "find_line (TAG ?c a) (set_address_list ?c (SET_INDEX ?c a)) (cache s) = (hit, m)" by fastforce
  define s1 where "s1 = s\<lparr>cache := m\<rparr>"
  have ln: "um_at new_line m = lines s"
    using find_line_lines [of "TAG ?c a" "set_address_list ?c (SET_INDEX ?c a)" "cache s"] by (simp add: find)
  have c1: "cfg s1 = ?c" by (simp add: s1_def)
  have r1: "ready s1 fl e a" using r by (simp add: ready_def Rel_def s1_def ln)
  have g1: "good s fl {#} 0 s1 fl"
    by (rule goodI [of _ _ "[]"])
      (simp_all add: s1_def misc_def prefetches_def account_def done_mset_def queue_mset_def balance_def size_ok_def)
  have g: "good s fl d (-1) s' fl'" if "good s1 fl d (-1) s' fl'" for d s' fl' using good_trans [OF g1 that] by simp
  have eq: "ProcessTransaction tr s = (case hit of Some l \<Rightarrow> process_hit tr a l s1 | None \<Rightarrow> process_miss tr a s1)"
    using ty ALIGN_less [OF D(2), of "address tr"] find cfg_okD(3) [OF D(1)] space_u64 [OF D(2)]
    by (auto simp: ProcessTransaction_def Let_def s1_def a not_le split: option.split)
  have imp: "okE b q (\<lambda>s'. \<exists>fl'. Rel s' fl' {} e \<and> good s fl (call_of ?c tr) (-1) s' fl')"
    if "okE b q (\<lambda>s'. \<exists>fl'. Rel s' fl' {} e \<and> good s1 fl (call_of ?c tr) (-1) s' fl')" for b q
    using that by (rule okE_mono) (blast intro: g)
  show ?thesis
  proof (cases hit)
    case (Some l)
    have "hit_line s1 a l"
      using find_line_some [of "TAG ?c a" "set_address_list ?c (SET_INDEX ?c a)" "cache s" l]
      by (simp add: find Some hit_line_def s1_def ln set_lines_def)
    from imp [OF okE_okR [OF process_hit_ok [OF r1 this ty, unfolded c1]]] show ?thesis by (simp add: eq Some)
  next
    case None
    have "absent ?c (lines s1) (SET_INDEX ?c a) (TAG ?c a)"
      using find_line_none [of "TAG ?c a" "set_address_list ?c (SET_INDEX ?c a)" "cache s"]
      by (auto simp: find None absent_def s1_def ln set_lines_def)
    from imp [OF process_miss_ok [OF r1 _ ty, unfolded c1, OF this]] show ?thesis by (simp add: eq None)
  qed
qed

end
