(* ===== verification/Hybrid_System.thy ===== *)
theory Hybrid_System
  imports Hybrid_Process
begin

text \<open>
  The controller as a closed system together with its user and its two memories: the user
  adds reads and writes and issues prefetches through the device interface, and the
  memories accept transactions and answer each read they accepted once, in any order. An
  invariant of all reachable states gives that no assertion of the controller fails, that
  every access is completed exactly once with its own address, and that the locks, the
  counters and the tag store are consistent.
\<close>

section \<open>TLB\<close>

definition tlb_ok :: "hs \<Rightarrow> bool" where
  "tlb_ok s \<longleftrightarrow> TLB_SIZE (cfg s) = 0 \<or>
     um_wf (tlb_base_set s) \<and> length (tlb_base_set s) \<le> TLB_MAX_ENTRIES (cfg s)"

lemma tlb_oldest_in: "tlb_oldest v ts m \<in> insert v (fst ` set m)"
  by (induction v ts m rule: tlb_oldest.induct) auto

lemma tlb_victim_in: "m \<noteq> [] \<Longrightarrow> tlb_victim m \<in> fst ` set m"
proof -
  assume "m \<noteq> []"
  then obtain a ts r where m: "m = (a, ts) # r" by (cases m) auto
  show ?thesis using tlb_oldest_in [of a ts m] by (auto simp: tlb_victim_def m)
qed

definition tlb_core :: "hs \<Rightarrow> hs" where
  "tlb_core s = s\<lparr>tlb_misses := 0, tlb_hits := 0, tlb_base_set := [], delay_counter := 0\<rparr>"

text \<open>The oldest entry makes room, so the table never overflows.\<close>

lemma check_tlb_ok:
  assumes "cfg_ok (cfg s)" "tlb_ok s"
  shows "okR (check_tlb p s) (\<lambda>s'. tlb_ok s' \<and> tlb_core s' = tlb_core s)"
proof -
  let ?c = "cfg s" and ?m = "tlb_base_set s"
  let ?base = "TLB_BASE_ADDRESS ?c p"
  consider "TLB_SIZE ?c = 0" | "TLB_SIZE ?c \<noteq> 0" "um_has ?m ?base" | "TLB_SIZE ?c \<noteq> 0" "\<not> um_has ?m ?base" by blast
  then show ?thesis
  proof cases
    case 1
    then show ?thesis using assms(2) by (simp add: check_tlb_def)
  next
    case 2
    then show ?thesis using assms(2) by (auto simp: check_tlb_def tlb_ok_def Let_def um_size_put tlb_core_def)
  next
    case 3
    define m where "m = (if length ?m = TLB_MAX_ENTRIES ?c then um_del (tlb_victim ?m) ?m else ?m)"
    have pos: "0 < TLB_MAX_ENTRIES ?c"
      using assms(1) 3(1) by (simp add: cfg_ok_def TLB_MAX_ENTRIES_def div_greater_zero_iff BYTES_PER_READ_def)
    have wf: "um_wf ?m" "length ?m \<le> TLB_MAX_ENTRIES ?c" using assms(2) 3(1) by (simp_all add: tlb_ok_def)
    have "um_has ?m (tlb_victim ?m)" if "length ?m = TLB_MAX_ENTRIES ?c"
      using tlb_victim_in [of ?m] that pos by (cases "?m = []") (auto simp: um_has_def map_of_eq_None_iff)
    then have m: "um_wf m" "length m < TLB_MAX_ENTRIES ?c" using wf pos by (auto simp: m_def um_size_del)
    have "check_tlb p s = Inr (s\<lparr>tlb_misses := u64 (tlb_misses s + 1), tlb_base_set := um_put ?base (currentClockCycle s) m,
        delay_counter := u64 (delay_counter s + TLB_MISS_DELAY ?c)\<rparr>)"
      using 3 m(2) by (auto simp: check_tlb_def Let_def m_def)
    then show ?thesis using m um.size_put_bound [OF m] by (simp add: tlb_ok_def tlb_core_def)
  qed
qed

lemma tlb_core_fields:
  assumes "tlb_core s' = tlb_core s"
  shows "cfg s' = cfg s" "cache s' = cache s" "set_counter s' = set_counter s" "pending_pages s' = pending_pages s"
    and "pending_flash_addr s' = pending_flash_addr s" "flash_pending s' = flash_pending s"
    and "flash_pending_wait s' = flash_pending_wait s" "dram_pending s' = dram_pending s"
    and "dram_pending_wait s' = dram_pending_wait s" "dram_queue s' = dram_queue s" "flash_queue s' = flash_queue s"
    and "done_calls s' = done_calls s" "ReadDone s' = ReadDone s" "WriteDone s' = WriteDone s"
    and "trans_queue s' = trans_queue s" "trans_queue_size s' = trans_queue_size s" "pending_count s' = pending_count s"
    and "active_transaction s' = active_transaction s" "active_transaction_flag s' = active_transaction_flag s"
    and "prefetch_cheat_map s' = prefetch_cheat_map s"
proof -
  note F = arg_cong [OF assms]
  show "cfg s' = cfg s" using F [of cfg] by (simp add: tlb_core_def)
  show "cache s' = cache s" using F [of cache] by (simp add: tlb_core_def)
  show "set_counter s' = set_counter s" using F [of set_counter] by (simp add: tlb_core_def)
  show "pending_pages s' = pending_pages s" using F [of pending_pages] by (simp add: tlb_core_def)
  show "pending_flash_addr s' = pending_flash_addr s" using F [of pending_flash_addr] by (simp add: tlb_core_def)
  show "flash_pending s' = flash_pending s" using F [of flash_pending] by (simp add: tlb_core_def)
  show "flash_pending_wait s' = flash_pending_wait s" using F [of flash_pending_wait] by (simp add: tlb_core_def)
  show "dram_pending s' = dram_pending s" using F [of dram_pending] by (simp add: tlb_core_def)
  show "dram_pending_wait s' = dram_pending_wait s" using F [of dram_pending_wait] by (simp add: tlb_core_def)
  show "dram_queue s' = dram_queue s" using F [of dram_queue] by (simp add: tlb_core_def)
  show "flash_queue s' = flash_queue s" using F [of flash_queue] by (simp add: tlb_core_def)
  show "done_calls s' = done_calls s" using F [of done_calls] by (simp add: tlb_core_def)
  show "ReadDone s' = ReadDone s" using F [of ReadDone] by (simp add: tlb_core_def)
  show "WriteDone s' = WriteDone s" using F [of WriteDone] by (simp add: tlb_core_def)
  show "trans_queue s' = trans_queue s" using F [of trans_queue] by (simp add: tlb_core_def)
  show "trans_queue_size s' = trans_queue_size s" using F [of trans_queue_size] by (simp add: tlb_core_def)
  show "pending_count s' = pending_count s" using F [of pending_count] by (simp add: tlb_core_def)
  show "active_transaction s' = active_transaction s" using F [of active_transaction] by (simp add: tlb_core_def)
  show "active_transaction_flag s' = active_transaction_flag s" using F [of active_transaction_flag] by (simp add: tlb_core_def)
  show "prefetch_cheat_map s' = prefetch_cheat_map s" using F [of prefetch_cheat_map] by (simp add: tlb_core_def)
qed

section \<open>The invariant\<close>

definition type_ok :: "Transaction \<Rightarrow> bool" where
  "type_ok tr \<longleftrightarrow> transactionType tr \<in> {DATA_READ, DATA_WRITE, PREFETCH}"

abbreviation active_addr :: "hs \<Rightarrow> nat" where
  "active_addr s \<equiv> ALIGN (cfg s) (address (active_transaction s))"

definition taken :: "hs \<Rightarrow> nat set" where
  "taken s = (if active_transaction_flag s then {active_addr s} else {})"

definition active_ok :: "hs \<Rightarrow> flights \<Rightarrow> bool" where
  "active_ok s fl \<longleftrightarrow> (active_transaction_flag s \<longrightarrow> type_ok (active_transaction s) \<and> clear_of (cfg s) fl (active_addr s) \<and>
     card (set_holders (cfg s) fl (SET_INDEX (cfg s) (active_addr s))) < SET_SIZE (cfg s))"

definition base_ok :: "hs \<Rightarrow> bool" where
  "base_ok s \<longleftrightarrow> cfg_ok (cfg s) \<and> ReadDone s \<and> WriteDone s \<and> tlb_ok s \<and> (\<forall>tr \<in> set (trans_queue s). type_ok tr) \<and> size_ok s"

definition hinv :: "hs \<Rightarrow> flights \<Rightarrow> menv \<Rightarrow> bool" where
  "hinv s fl e \<longleftrightarrow> base_ok s \<and> Rel s fl (taken s) e \<and> active_ok s fl \<and> balance s fl = of_bool (active_transaction_flag s)"

text \<open>All completion calls, made or owed.\<close>

definition ledger :: "hs \<Rightarrow> flights \<Rightarrow> (bool \<times> nat) multiset" where
  "ledger s fl = account s fl + (if active_transaction_flag s then call_of (cfg s) (active_transaction s) else {#})"

lemma hinvD:
  assumes "hinv s fl e"
  shows "base_ok s" "Rel s fl (taken s) e" "active_ok s fl" "balance s fl = of_bool (active_transaction_flag s)"
    "cfg_ok (cfg s)" "wf_cfg (cfg s)" "ReadDone s" "WriteDone s" "tlb_ok s" "size_ok s"
  using assms by (auto simp: hinv_def base_ok_def dest: cfg_okD)

text \<open>A step that makes or ends flights and issues prefetches keeps the rest.\<close>

lemma base_ok_good:
  assumes "base_ok s" "good s fl d n s' fl'"
  shows "base_ok s'"
proof -
  obtain as where as: "trans_queue s' = prefetches as @ trans_queue s" and m: "misc s' = misc s" "size_ok s \<longrightarrow> size_ok s'"
    using assms(2) by (auto simp: good_def)
  have "\<forall>tr \<in> set (prefetches as). type_ok tr" by (auto simp: prefetches_def type_ok_def mkTransaction_def)
  then show ?thesis using assms(1) as m misc_fields [OF m(1)] by (auto simp: base_ok_def tlb_ok_def)
qed

section \<open>The parts of a cycle\<close>

lemma ready_of_inv:
  assumes "hinv s fl e" "active_transaction_flag s"
  shows "ready s fl e (active_addr s)"
proof -
  note I = hinvD [OF assms(1)]
  have "ALIGN (cfg s) (active_addr s) = active_addr s" by (rule ALIGN_idem [OF I(6)])
  moreover have "counters s (SET_INDEX (cfg s) (active_addr s)) < SET_SIZE (cfg s)"
    using I(3) assms(2) locks_okD(3) [OF Rel_locks [OF I(2)]] by (simp add: active_ok_def)
  ultimately show ?thesis using I assms(2) by (simp add: ready_def active_ok_def taken_def)
qed

text \<open>The shape of the steps: normal return with the invariant and an unchanged ledger.\<close>

definition keeps :: "hs \<Rightarrow> flights \<Rightarrow> menv \<Rightarrow> hs \<Rightarrow> bool" where
  "keeps s fl e s' \<longleftrightarrow> cfg s' = cfg s \<and> (\<exists>fl'. hinv s' fl' e \<and> ledger s' fl' = ledger s fl)"

text \<open>The fields that matter to the invariant.\<close>

definition view :: "hs \<Rightarrow> _" where
  "view s = (cfg s, ReadDone s, WriteDone s, tlb_base_set s, trans_queue s, trans_queue_size s, pending_count s,
     done_calls s, active_transaction s, active_transaction_flag s, cache s, set_counter s, pending_pages s,
     pending_flash_addr s, flash_pending s, flash_pending_wait s, dram_pending s, dram_pending_wait s,
     dram_queue s, flash_queue s)"

lemma view_inv:
  assumes "view s' = view s"
  shows "hinv s' fl e = hinv s fl e" "ledger s' fl = ledger s fl"
  using assms
  by (simp_all add: view_def hinv_def base_ok_def tlb_ok_def size_ok_def Rel_def taken_def active_ok_def balance_def
      ledger_def account_def done_mset_def queue_mset_def)

lemma keeps_view: "view s' = view s \<Longrightarrow> hinv s fl e \<Longrightarrow> keeps s fl e s'"
  using view_inv [of s' s fl] by (auto simp: keeps_def view_def intro!: exI [of _ fl])

lemma process_taken:
  assumes hinv: "hinv s fl e" and flag: "active_transaction_flag s"
  shows "okE (ENABLE_STREAM_BUFFER (cfg s)) (ProcessTransaction (active_transaction s) s)
    (\<lambda>s'. keeps s fl e (s'\<lparr>active_transaction_flag := False\<rparr>) \<and> (\<exists>as. trans_queue s' = prefetches as @ trans_queue s))"
proof -
  note I = hinvD [OF hinv]
  have ty: "transactionType (active_transaction s) \<in> {DATA_READ, DATA_WRITE, PREFETCH}"
    using I(3) flag by (simp add: active_ok_def type_ok_def)
  have "keeps s fl e (s'\<lparr>active_transaction_flag := False\<rparr>) \<and> (\<exists>as. trans_queue s' = prefetches as @ trans_queue s)"
    if R: "Rel s' fl' {} e" and g: "good s fl (call_of (cfg s) (active_transaction s)) (-1) s' fl'" for s' fl'
  proof -
    let ?t = "s'\<lparr>active_transaction_flag := False\<rparr>"
    have "base_ok ?t" using base_ok_good [OF I(1) g] by (simp add: base_ok_def tlb_ok_def size_ok_def)
    moreover have "Rel ?t fl' (taken ?t) e" using R by (simp add: Rel_def taken_def)
    moreover have "balance ?t fl' = 0" using g I(4) flag by (simp add: good_def balance_def)
    moreover have "ledger ?t fl' = ledger s fl"
      using g flag by (simp add: ledger_def good_def account_def done_mset_def queue_mset_def)
    ultimately show ?thesis using g good_cfg [OF g] by (auto simp: keeps_def hinv_def active_ok_def good_def intro!: exI [of _ fl'])
  qed
  then show ?thesis
    by (intro okE_mono [OF ProcessTransaction_ok [OF ready_of_inv [OF hinv flag] refl ty]]) blast
qed

lemma process_active_ok:
  assumes hinv: "hinv s fl e"
  shows "okE (ENABLE_STREAM_BUFFER (cfg s)) (process_active s)
    (\<lambda>s'. keeps s fl e s' \<and> (delay_counter s' = 0 \<longrightarrow> \<not> active_transaction_flag s'))"
proof (cases "active_transaction_flag s \<and> delay_counter s = 0")
  case True
  then show ?thesis
    using okE_mono [OF process_taken [OF hinv], of "\<lambda>s'. keeps s fl e (s'\<lparr>active_transaction_flag := False\<rparr>)"]
    by (simp add: process_active_def okE_bind)
next
  case False
  then show ?thesis using hinv by (auto simp: process_active_def keeps_def)
qed

lemma u64_sub_Suc: "u64_sub (u64 (Suc n)) 1 = u64 n"
proof (cases "Suc n mod 2 ^ 64 = 0")
  case True
  then have "n mod 2 ^ 64 = 2 ^ 64 - 1"
    by (metis One_nat_def Suc_eq_plus1 add_diff_cancel_right' mod_Suc nat.simps(3))
  then show ?thesis using True by (simp add: u64_sub_def u64_def)
next
  case False
  then have "Suc n mod 2 ^ 64 = Suc (n mod 2 ^ 64)" by (simp add: mod_Suc split: if_splits)
  then show ?thesis by (simp add: u64_sub_def u64_def)
qed

lemma unlocked_clear:
  assumes "hinv s fl e" "\<not> active_transaction_flag s" "contention_is_unlocked a s"
  shows "clear_of (cfg s) fl a" "card (set_holders (cfg s) fl (SET_INDEX (cfg s) a)) < SET_SIZE (cfg s)"
    "\<not> um_has (pending_flash_addr s) a"
proof -
  note I = hinvD [OF assms(1)]
  have "taken s = {}" using assms(2) by (simp add: taken_def)
  then have rel: "Rel s fl {} e" using I(2) by simp
  have u: "\<not> (um_has (set_counter s) (SET_INDEX (cfg s) a) \<and> counters s (SET_INDEX (cfg s) a) = SET_SIZE (cfg s))"
    "um_get (pending_pages s) (PAGE_ADDRESS (cfg s) a) = None" "\<not> um_has (pending_flash_addr s) a"
    using assms(3) by (auto simp: contention_is_unlocked_def Let_def um_has_get split: if_splits)
  show "\<not> um_has (pending_flash_addr s) a" by (rule u(3))
  then have "a \<notin> dom fl" using Rel_addr [OF rel, of a] by simp
  then show "clear_of (cfg s) fl a" using pages_ok_clear [OF Rel_pages [OF rel]] u(2) by blast
  note L = locks_okD(3,4) [OF Rel_locks [OF rel], of "SET_INDEX (cfg s) a"]
  have "counters s (SET_INDEX (cfg s) a) \<noteq> SET_SIZE (cfg s)"
    using u(1) wf_set_size [OF I(6)] by (cases "um_has (set_counter s) (SET_INDEX (cfg s) a)") (auto simp: um_has_get um_at_get)
  then show "card (set_holders (cfg s) fl (SET_INDEX (cfg s) a)) < SET_SIZE (cfg s)" using L by simp
qed

definition dequeue :: "Transaction list \<Rightarrow> hs \<Rightarrow> hs" where
  "dequeue q s = s\<lparr>trans_queue := q, trans_queue_size := u64_sub (trans_queue_size s) 1\<rparr>"

lemma take_ok:
  assumes hinv: "hinv s fl e" and fl: "\<not> active_transaction_flag s" and q: "trans_queue s = pre @ tr # rest"
    and u: "contention_is_unlocked (ALIGN (cfg s) (address tr)) s"
  shows "okR (start_transaction tr s) (\<lambda>s1. hinv (dequeue (pre @ rest) s1) fl e \<and>
    ledger (dequeue (pre @ rest) s1) fl = ledger s fl \<and> cfg s1 = cfg s \<and> active_transaction s1 = tr \<and> active_transaction_flag s1)"
proof -
  note I = hinvD [OF hinv] and U = unlocked_clear [OF hinv fl u]
  let ?a = "ALIGN (cfg s) (address tr)"
  define s0 where "s0 = (contention_lock ?a s)\<lparr>active_transaction := tr, active_transaction_flag := True,
    delay_counter := CONTROLLER_DELAY (cfg s)\<rparr>"
  have s0: "cfg s0 = cfg s" "tlb_ok s0" using I(9) by (simp_all add: s0_def contention_lock_def tlb_ok_def)
  have ty: "type_ok tr" using I(1) q by (simp add: base_ok_def type_ok_def)
  then have eq: "start_transaction tr s = check_tlb (PAGE_ADDRESS (cfg s) ?a) s0"
    by (auto simp: start_transaction_def Let_def s0_def type_ok_def)
  have tk: "taken s = {}" using fl by (simp add: taken_def)
  have adom: "?a \<notin> dom fl" using U(1) by (simp add: clear_of_def)
  have main: "hinv (dequeue (pre @ rest) s1) fl e \<and> ledger (dequeue (pre @ rest) s1) fl = ledger s fl \<and> cfg s1 = cfg s \<and>
      active_transaction s1 = tr \<and> active_transaction_flag s1"
    if t: "tlb_ok s1" and core: "tlb_core s1 = tlb_core s0" for s1
  proof -
    note F = tlb_core_fields [OF core]
    let ?s' = "dequeue (pre @ rest) s1"
    have F': "cfg s1 = cfg s" "active_transaction s1 = tr" "active_transaction_flag s1" using F by (simp_all add: s0_def contention_lock_def)
    have sz: "size_ok ?s'"
      using I(10) q F u64_sub_Suc [of "length (pre @ rest)"] by (simp add: size_ok_def dequeue_def s0_def contention_lock_def)
    have "base_ok ?s'"
      using I(1) t sz F q by (auto simp: base_ok_def dequeue_def s0_def contention_lock_def tlb_ok_def)
    moreover have "Rel ?s' fl (taken ?s') e"
    proof -
      have "um_has (um_put ?a 0 (pending_flash_addr s)) k \<longleftrightarrow> k \<in> dom fl \<union> {?a}" for k
        using Rel_addr [OF I(2), of k] tk by (auto simp: um_has_put)
      moreover have "dom fl \<inter> {?a} = {}" using adom by simp
      ultimately show ?thesis
        using I(2) tk F F' unfolding Rel_def by (simp add: dequeue_def taken_def s0_def contention_lock_def)
    qed
    moreover have "active_ok ?s' fl" using F' ty U by (simp add: active_ok_def dequeue_def)
    moreover have "balance ?s' fl = of_bool (active_transaction_flag ?s')"
      using I(4) fl F q by (simp add: balance_def dequeue_def s0_def contention_lock_def)
    moreover have "ledger ?s' fl = ledger s fl"
      using fl F F' q by (simp add: ledger_def account_def done_mset_def queue_mset_def dequeue_def s0_def contention_lock_def ac_simps)
    ultimately show ?thesis using F' by (simp add: hinv_def)
  qed
  show ?thesis
    unfolding eq by (rule okR_mono [OF check_tlb_ok]) (use I(5) s0 main in auto)
qed

lemma scan_ok:
  assumes "hinv s fl e" "delay_counter s = 0 \<Longrightarrow> \<not> active_transaction_flag s" "trans_queue s = pre @ rest"
  shows "okE (ENABLE_STREAM_BUFFER (cfg s)) (scan_queue pre rest s) (\<lambda>(sent, s'). keeps s fl e s')"
  using assms
proof (induction rest arbitrary: pre s fl)
  case Nil
  then show ?case by (auto simp: keeps_def)
next
  case (Cons tr rest)
  let ?b = "ENABLE_STREAM_BUFFER (cfg s)" and ?a = "ALIGN (cfg s) (address tr)"
  consider "\<not> (length (pending_pages s) < NUM_SETS (cfg s) \<and> check_queue s \<and> delay_counter s = 0)"
    | "length (pending_pages s) < NUM_SETS (cfg s) \<and> check_queue s \<and> delay_counter s = 0" "\<not> contention_is_unlocked ?a s"
    | "length (pending_pages s) < NUM_SETS (cfg s) \<and> check_queue s \<and> delay_counter s = 0" "contention_is_unlocked ?a s" by blast
  then show ?case
  proof cases
    case 1
    then show ?thesis using Cons.prems(1) by (auto simp: keeps_def)
  next
    case 2
    then show ?thesis using Cons.IH [of s fl "pre @ [tr]"] Cons.prems by simp
  next
    case 3
    then have flag: "\<not> active_transaction_flag s" using Cons.prems(2) by blast
    define tail where "tail s3 = (let s4 = s3\<lparr>active_transaction_flag := False, delay_counter := 0\<rparr>;
        pre' = take (length (trans_queue s4) - length rest) (trans_queue s4) in scan_queue pre' rest s4)" for s3
    define body where "body s2 = (if transactionType tr = PREFETCH \<and>
          um_has (prefetch_cheat_map s2) (PAGE_ADDRESS (cfg s2) (ALIGN (cfg s2) (address tr)))
        then bindR (ProcessTransaction tr s2) (\<lambda>s3. tail s3) else Inr (True, s2))" for s2
    have eq: "scan_queue pre (tr # rest) s = bindR (start_transaction tr s) (\<lambda>s1. body (dequeue (pre @ rest) s1))"
      unfolding scan_queue.simps body_def tail_def [abs_def] dequeue_def Let_def using 3 by simp
    have tail: "okE ?b (tail s3) (\<lambda>(sent, s'). keeps s fl e s')"
      if k: "keeps s fl e (s3\<lparr>active_transaction_flag := False\<rparr>)" and as: "trans_queue s3 = prefetches as @ pre @ rest" for s3 as
    proof -
      let ?s4 = "s3\<lparr>active_transaction_flag := False, delay_counter := 0\<rparr>"
      have v: "view ?s4 = view (s3\<lparr>active_transaction_flag := False\<rparr>)" by (simp add: view_def)
      obtain fl' where fl': "hinv ?s4 fl' e" "ledger ?s4 fl' = ledger s fl" "cfg ?s4 = cfg s"
        using k view_inv [OF v] by (auto simp: keeps_def)
      have "okE (ENABLE_STREAM_BUFFER (cfg ?s4)) (scan_queue (prefetches as @ pre) rest ?s4) (\<lambda>(sent, s'). keeps ?s4 fl' e s')"
        by (rule Cons.IH [OF fl'(1)]) (simp_all add: as)
      then have "okE ?b (scan_queue (prefetches as @ pre) rest ?s4) (\<lambda>(sent, s'). keeps s fl e s')"
        unfolding fl'(3) by (rule okE_mono) (use fl' in \<open>auto simp: keeps_def\<close>)
      then show ?thesis by (simp add: tail_def Let_def as)
    qed
    have body: "okE ?b (body s2) (\<lambda>(sent, s'). keeps s fl e s')"
      if s2: "hinv s2 fl e" "ledger s2 fl = ledger s fl" "cfg s2 = cfg s" "active_transaction s2 = tr" "active_transaction_flag s2"
        "trans_queue s2 = pre @ rest" for s2
    proof -
      have imm: "keeps s fl e s2" using s2 by (auto simp: keeps_def)
      have "keeps s fl e s'" if "keeps s2 fl e s'" for s' using that s2 by (simp add: keeps_def)
      then have "okE ?b (bindR (ProcessTransaction tr s2) tail) (\<lambda>(sent, s'). keeps s fl e s')"
        using process_taken [OF s2(1,5)] s2 tail unfolding okE_bind by (auto elim!: okE_mono)
      then show ?thesis using imm by (simp add: body_def)
    qed
    show ?thesis
      unfolding eq okE_bind
      by (rule okE_okR, rule okR_mono [OF take_ok [OF Cons.prems(1) flag Cons.prems(3) 3(2)]], rule body)
        (simp_all add: dequeue_def)
  qed
qed

lemma check_transactions_ok:
  assumes "hinv s fl e" "delay_counter s = 0 \<Longrightarrow> \<not> active_transaction_flag s"
  shows "okE (ENABLE_STREAM_BUFFER (cfg s)) (check_transactions s) (keeps s fl e)"
proof -
  have cq: "keeps s fl e (s'\<lparr>check_queue := False\<rparr>)" if "keeps s fl e s'" for s'
    using that view_inv [of "s'\<lparr>check_queue := False\<rparr>" s'] by (auto simp: keeps_def view_def)
  have "okE (ENABLE_STREAM_BUFFER (cfg s)) (scan_queue [] (trans_queue s) s)
      (\<lambda>x. okE (ENABLE_STREAM_BUFFER (cfg s)) ((\<lambda>(sent_transaction, s1).
     Inr (if \<not> sent_transaction \<and> delay_counter s1 = 0 then s1\<lparr>check_queue := False\<rparr> else s1)) x) (keeps s fl e))"
    by (rule okE_mono [OF scan_ok [OF assms, of "[]"]]) (auto simp: cq)
  then show ?thesis by (simp only: check_transactions_def okE_bind)
qed

section \<open>The memories\<close>

text \<open>
  What the memories do with the transactions they accept: a read is held until its
  callback. The flash may announce the critical line of a read once before it.
\<close>

definition env_issue :: "bool \<Rightarrow> bool \<Rightarrow> hs \<Rightarrow> menv \<Rightarrow> menv" where
  "env_issue dram_ok flash_ok s e =
     e\<lparr>dout := dout e @ reads (if dram_ok then take 1 (dram_queue s) else []),
       fout := fout e @ reads (if flash_ok then take 1 (flash_queue s) else [])\<rparr>"

fun env_cb :: "mem_cb \<Rightarrow> menv \<Rightarrow> menv option" where
  "env_cb (DRAM_Read_CB a) e = (if a \<in> set (dout e) then Some (e\<lparr>dout := remove1 a (dout e)\<rparr>) else None)"
| "env_cb (DRAM_Write_CB a) e = Some e"
| "env_cb (Flash_Read_CB a) e =
     (if a \<in> set (fout e) then Some (e\<lparr>fout := remove1 a (fout e), crit := crit e - {a}\<rparr>) else None)"
| "env_cb (Flash_Crit_CB a) e =
     (if a \<in> set (fout e) \<and> a \<notin> crit e then Some (e\<lparr>crit := insert a (crit e)\<rparr>) else None)"
| "env_cb (Flash_Write_CB a) e = Some e"

fun env_cbs :: "mem_cb list \<Rightarrow> menv \<Rightarrow> menv option" where
  "env_cbs [] e = Some e"
| "env_cbs (cb # cbs) e = (case env_cb cb e of None \<Rightarrow> None | Some e' \<Rightarrow> env_cbs cbs e')"

lemma env_cbs_append:
  "env_cbs (xs @ ys) e = (case env_cbs xs e of None \<Rightarrow> None | Some e' \<Rightarrow> env_cbs ys e')"
  by (induction xs arbitrary: e) (auto split: option.split)

lemma issue_ok:
  assumes "hinv s fl e"
  shows "hinv (issue_flash fok (issue_dram dok s)) fl (env_issue dok fok s e)"
    and "ledger (issue_flash fok (issue_dram dok s)) fl = ledger s fl"
proof -
  have d: "issue_flash fok (issue_dram dok s) = s\<lparr>dram_queue := (if dok then drop 1 (dram_queue s) else dram_queue s),
      flash_queue := (if fok then drop 1 (flash_queue s) else flash_queue s),
      dram_pending_set := dram_pending_set (issue_dram dok s)\<rparr>"
    by (rule hs.equality) (auto simp: issue_dram_def issue_flash_def split: list.split)
  have split: "mset (reads (drop 1 q) @ out @ reads (take 1 q)) = mset (reads q @ out)" for q out
    using reads_append [of "take 1 q" "drop 1 q"] by (simp add: ac_simps)
  have move: "reads_ok (reads (if ok then drop 1 q else q) @ out @ reads (if ok then take 1 q else [])) f = reads_ok (reads q @ out) f"
    for ok q out f using reads_ok_mset [OF split, of q out f] by (simp add: reads_def [of "[]"])
  note I = hinvD [OF assms]
  have R: "Rel (issue_flash fok (issue_dram dok s)) fl (taken s) (env_issue dok fok s e)"
    using I(2) by (simp add: d Rel_def env_issue_def move del: if_split One_nat_def drop_Suc take_Suc)
  have v: "base_ok (issue_flash fok (issue_dram dok s)) = base_ok s" "taken (issue_flash fok (issue_dram dok s)) = taken s"
    "active_ok (issue_flash fok (issue_dram dok s)) fl = active_ok s fl"
    "balance (issue_flash fok (issue_dram dok s)) fl = balance s fl"
    "active_transaction_flag (issue_flash fok (issue_dram dok s)) = active_transaction_flag s"
    by (simp_all add: d base_ok_def tlb_ok_def size_ok_def taken_def active_ok_def balance_def)
  show "hinv (issue_flash fok (issue_dram dok s)) fl (env_issue dok fok s e)" using I R v by (simp add: hinv_def)
  show "ledger (issue_flash fok (issue_dram dok s)) fl = ledger s fl"
    by (simp add: d ledger_def account_def done_mset_def queue_mset_def)
qed

lemma settled_keeps:
  assumes hinv: "hinv s fl e" and st: "settled (cfg s) fl fl'" and rel: "Rel s' fl' (taken s) e'" and g: "good s fl {#} 0 s' fl'"
  shows "keeps s fl e' s'"
proof -
  note I = hinvD [OF hinv]
  obtain m: "misc s' = misc s" using g by (simp add: good_def)
  note M = misc_fields [OF m]
  have tk: "taken s' = taken s" using M by (simp add: taken_def)
  have fin: "finite (dom fl)" using Rel_wf [OF I(2)] by (simp add: fl_wf_def)
  have "card (set_holders (cfg s) fl' i) \<le> card (set_holders (cfg s) fl i)" for i
    using settled_dom [OF st] holders_finite(2) [OF fin] by (intro card_mono) (auto simp: set_holders_def)
  then have "active_ok s' fl'"
    using I(3) M settled_clear [OF st] by (auto simp: active_ok_def intro: le_less_trans)
  moreover have "balance s' fl' = of_bool (active_transaction_flag s')" using g I(4) M by (simp add: good_def)
  moreover have "ledger s' fl' = ledger s fl" using g M by (simp add: ledger_def good_def)
  ultimately show ?thesis using base_ok_good [OF I(1) g] rel tk M(1) by (auto simp: keeps_def hinv_def)
qed

lemma run_cb_ok:
  assumes hinv: "hinv s fl e" and env: "env_cb cb e = Some e'"
  shows "okR (run_cb cb s) (keeps s fl e')"
proof -
  note I = hinvD [OF hinv]
  show ?thesis
  proof (cases cb)
    case (DRAM_Read_CB a)
    then have a: "a \<in> set (dout e)" "e' = e\<lparr>dout := remove1 a (dout e)\<rparr>" using env by (auto split: if_splits)
    show ?thesis
      using okR_mono [OF DRAM_answer [OF I(5,7,2) a(1)], of "keeps s fl e'"] settled_keeps [OF hinv]
      by (auto simp: DRAM_Read_CB a(2))
  next
    case (Flash_Read_CB a)
    then have a: "a \<in> set (fout e)" "e' = e\<lparr>fout := remove1 a (fout e), crit := crit e - {a}\<rparr>" using env by (auto split: if_splits)
    show ?thesis
      using okR_mono [OF flash_answer [OF I(5,7,8,2) a(1)], of "keeps s fl e'"] settled_keeps [OF hinv]
      by (auto simp: Flash_Read_CB a(2))
  next
    case (Flash_Crit_CB a)
    then have a: "a \<in> set (fout e)" "a \<notin> crit e" "e' = e\<lparr>crit := insert a (crit e)\<rparr>" using env by (auto split: if_splits)
    show ?thesis
      using okR_mono [OF flash_critical [OF I(5,7,8,2) a(1,2)], of "keeps s fl e'"] settled_keeps [OF hinv]
      by (auto simp: Flash_Crit_CB a(3))
  qed (use hinv env keeps_view [of "s\<lparr>dram_pending_set := _\<rparr>" s fl e] keeps_view [of s s fl e] in
      \<open>auto simp: DRAMWriteCallback_def FlashWriteCallback_def view_def intro!: keeps_view\<close>)
qed

lemma keeps_trans: "keeps s fl e s' \<Longrightarrow> (\<And>fl'. hinv s' fl' e \<Longrightarrow> keeps s' fl' e' s'') \<Longrightarrow> keeps s fl e' s''"
  by (fastforce simp: keeps_def)

lemma run_cbs_ok:
  "hinv s fl e \<Longrightarrow> env_cbs cbs e = Some e' \<Longrightarrow> okR (run_cbs cbs s) (keeps s fl e')"
proof (induction cbs arbitrary: s fl e)
  case Nil
  then show ?case by (auto simp: keeps_def)
next
  case (Cons cb cbs)
  obtain e1 where e1: "env_cb cb e = Some e1" "env_cbs cbs e1 = Some e'" using Cons.prems(2) by (auto split: option.splits)
  have "okR (run_cb cb s) (\<lambda>s1. okR (run_cbs cbs s1) (keeps s fl e'))"
  proof (rule okR_mono [OF run_cb_ok [OF Cons.prems(1) e1(1)]])
    fix s1 assume "keeps s fl e1 s1"
    then obtain fl1 where k: "hinv s1 fl1 e1" "ledger s1 fl1 = ledger s fl" "cfg s1 = cfg s" by (auto simp: keeps_def)
    show "okR (run_cbs cbs s1) (keeps s fl e')"
      by (rule okR_mono [OF Cons.IH [OF k(1) e1(2)]]) (use k in \<open>auto simp: keeps_def\<close>)
  qed
  then show ?case by (simp add: okR_bind)
qed

lemma run_cbs_append: "run_cbs (xs @ ys) s = bindR (run_cbs xs s) (run_cbs ys)"
proof (induction xs arbitrary: s)
  case (Cons cb xs)
  then have "run_cbs (xs @ ys) = (\<lambda>s. bindR (run_cbs xs s) (run_cbs ys))" by (rule ext)
  then show ?case by (simp add: bindR_assoc)
qed simp

section \<open>A whole cycle\<close>

definition before_issue :: "hs \<Rightarrow> herr + hs" where
  "before_issue s = bindR (process_active (update_maxima s)) check_transactions"

lemma before_issue_ok:
  assumes "hinv s fl e"
  shows "okE (ENABLE_STREAM_BUFFER (cfg s)) (before_issue s) (keeps s fl e)"
proof -
  have v: "view (update_maxima s) = view s" "cfg (update_maxima s) = cfg s" by (simp_all add: update_maxima_def view_def)
  have hinv: "hinv (update_maxima s) fl e" using assms view_inv [OF v(1)] by simp
  have "okE (ENABLE_STREAM_BUFFER (cfg s)) (process_active (update_maxima s))
      (\<lambda>s1. okE (ENABLE_STREAM_BUFFER (cfg s)) (check_transactions s1) (keeps s fl e))"
  proof (rule okE_mono [OF process_active_ok [OF hinv, unfolded v(2)]])
    fix s1 assume "keeps (update_maxima s) fl e s1 \<and> (delay_counter s1 = 0 \<longrightarrow> \<not> active_transaction_flag s1)"
    then obtain fl1 where k: "hinv s1 fl1 e" "ledger s1 fl1 = ledger s fl" "cfg s1 = cfg s"
      and d: "delay_counter s1 = 0 \<Longrightarrow> \<not> active_transaction_flag s1"
      using view_inv(2) [OF v(1)] v(2) by (auto simp: keeps_def)
    show "okE (ENABLE_STREAM_BUFFER (cfg s)) (check_transactions s1) (keeps s fl e)"
      using okE_mono [OF check_transactions_ok [OF k(1) d], of "keeps s fl e"] k by (auto simp: keeps_def)
  qed
  then show ?thesis by (simp add: before_issue_def okE_bind)
qed

text \<open>The callbacks of a cycle are answers that the memories can give.\<close>

definition legal :: "bool \<Rightarrow> bool \<Rightarrow> mem_cb list \<Rightarrow> mem_cb list \<Rightarrow> hs \<Rightarrow> menv \<Rightarrow> menv option" where
  "legal dok fok dcbs fcbs s e =
     (case before_issue s of Inl _ \<Rightarrow> Some e | Inr s2 \<Rightarrow> env_cbs (dcbs @ fcbs) (env_issue dok fok s2 e))"

lemma update_ok:
  assumes hinv: "hinv s fl e" and legal: "legal dok fok dcbs fcbs s e = Some e'"
  shows "okE (ENABLE_STREAM_BUFFER (cfg s)) (update dok fok dcbs fcbs s) (keeps s fl e')"
proof (cases "before_issue s")
  case (Inl err)
  then show ?thesis
    using before_issue_ok [OF hinv] by (auto simp: before_issue_def update_def okE_bind) (cases "process_active (update_maxima s)"; auto)+
next
  case (Inr s2)
  obtain fl2 where k: "hinv s2 fl2 e" "ledger s2 fl2 = ledger s fl" "cfg s2 = cfg s"
    using before_issue_ok [OF hinv] Inr by (auto simp: keeps_def)
  let ?s3 = "tick_delay (issue_flash fok (issue_dram dok s2))"
  have v: "view ?s3 = view (issue_flash fok (issue_dram dok s2))" by (simp add: tick_delay_def view_def)
  have i3: "hinv ?s3 fl2 (env_issue dok fok s2 e)" "ledger ?s3 fl2 = ledger s fl"
    using issue_ok [OF k(1)] view_inv [OF v] k by simp_all
  have c3: "cfg ?s3 = cfg s" using k by (auto simp: tick_delay_def issue_flash_def issue_dram_def split: list.split)
  have env: "env_cbs (dcbs @ fcbs) (env_issue dok fok s2 e) = Some e'" using legal Inr by (simp add: legal_def)
  have eq: "update dok fok dcbs fcbs s = bindR (run_cbs (dcbs @ fcbs) ?s3) (\<lambda>s4. Inr (step s4))"
    using Inr by (auto simp: before_issue_def update_def bindR_eq_Inr run_cbs_append bindR_assoc)
  have stp: "keeps s fl e' (step s4)" if "keeps ?s3 fl2 (e'::menv) s4" for s4
    using that i3(2) c3 view_inv [of "step s4" s4] by (auto simp: keeps_def view_def step_def)
  have "okR (run_cbs (dcbs @ fcbs) ?s3) (\<lambda>s4. keeps s fl e' (step s4))"
    by (rule okR_mono [OF run_cbs_ok [OF i3(1) env] stp])
  then show ?thesis by (simp add: eq okE_bind okE_okR)
qed

end
