(* ===== verification/Hybrid_Closed.thy ===== *)
theory Hybrid_Closed
  imports Hybrid_System "HOL-Library.Code_Target_Numeral"
begin

text \<open>
  The hybrid memory together with its client and the two memories as one transition
  system: the client submits reads and writes, the device interface issues prefetches, and
  each cycle runs \<open>update\<close> with answers that the memories can give. The invariant of
  \<open>Hybrid_System\<close> holds in every reachable state. From it follow: no assertion of
  \<open>HybridSystem.cpp\<close> fails, every request is answered exactly once, locks and counters are
  those of the transactions in flight, no page is cached twice, and nothing waits for a
  memory that has nothing to answer.
\<close>

section \<open>Requests from outside\<close>

lemma pf_keeps:
  assumes inv: "hinv s fl e" and pf: "pf s s'"
  shows "keeps s fl e s'"
  using settled_keeps [OF inv settled_refl _ good_pf [OF pf]] hinvD(2) [OF inv] Rel_pf [OF pf] by blast

lemma prefetch_range_ok: "hinv s fl e \<Longrightarrow> keeps s fl e (prefetch_range ch b js s)"
proof (induction js arbitrary: s fl)
  case Nil
  then show ?case by (auto simp: keeps_def)
next
  case (Cons j js)
  define p where "p = u64 (b + j * PAGE_SIZE (cfg s))"
  define s1 where "s1 = (if ch then (addPrefetch p s)\<lparr>prefetch_cheat_map := um_put p
    (u64 (um_at 0 (prefetch_cheat_map (addPrefetch p s)) p + 1)) (prefetch_cheat_map (addPrefetch p s))\<rparr> else addPrefetch p s)"
  have "keeps s fl e (addPrefetch p s)" by (rule pf_keeps [OF Cons.prems pf_addPrefetch])
  moreover have "view s1 = view (addPrefetch p s)" by (simp add: s1_def view_def)
  moreover have "cfg s1 = cfg (addPrefetch p s)" by (simp add: s1_def)
  ultimately obtain fl1 where k: "cfg s1 = cfg s" "hinv s1 fl1 e" "ledger s1 fl1 = ledger s fl"
    using view_inv [of s1 "addPrefetch p s"] by (auto simp: keeps_def)
  have "prefetch_range ch b (j # js) s = prefetch_range ch b js s1" by (simp add: Let_def s1_def p_def)
  then show ?case using Cons.IH [OF k(2)] k by (auto simp: keeps_def)
qed

lemma mmio_ok:
  assumes "hinv s fl e" "op \<in> {0, 2, 3, 4}"
  shows "okR (mmio op a s) (keeps s fl e)"
  using assms prefetch_range_ok [OF assms(1)] keeps_view [OF refl assms(1)]
  by (auto simp: mmio_def Let_def)

lemma callback_addr_remap:
  assumes "a < 2 ^ 64" "\<not> (REMAP_MMIO c \<and> THREEPOINTFIVEGB \<le> a \<and> a < FOURGB)"
  shows "callback_addr c (if REMAP_MMIO c \<and> FOURGB \<le> a then u64_sub a HALFGB else a) = a"
proof (cases "REMAP_MMIO c \<and> FOURGB \<le> a")
  case True
  have h: "HALFGB \<le> a" using True by (simp add: HALFGB_def FOURGB_def)
  have s: "u64_sub a HALFGB = a - HALFGB" using h assms(1) by (rule u64_sub_id)
  have b: "THREEPOINTFIVEGB \<le> a - HALFGB" using True by (auto simp: THREEPOINTFIVEGB_def HALFGB_def FOURGB_def)
  show ?thesis using True b h u64_id [OF assms(1)] by (simp add: callback_addr_def s)
next
  case False
  then show ?thesis using assms(2) by (auto simp: callback_addr_def)
qed

abbreviation device_range :: "hs_cfg \<Rightarrow> nat \<Rightarrow> bool" where
  "device_range c a \<equiv> REMAP_MMIO c \<and> THREEPOINTFIVEGB \<le> a \<and> a < FOURGB"

lemma addTransaction_rw_device:
  "device_range (cfg s) a \<Longrightarrow> ReadDone s \<Longrightarrow> WriteDone s \<Longrightarrow>
   addTransaction_rw w a s = Inr (s\<lparr>done_calls := done_calls s @ [(w, systemID s, a, currentClockCycle s)]\<rparr>)"
  by (cases w) (simp_all add: addTransaction_rw_def addTransaction_def mkTransaction_def Let_def)

lemma addTransaction_rw_queue:
  assumes "\<not> device_range (cfg s) a"
  shows "addTransaction_rw w a s = Inr (s\<lparr>pending_count := pending_count s + 1,
    trans_queue := trans_queue s @ [mkTransaction (if w then DATA_WRITE else DATA_READ)
      (if REMAP_MMIO (cfg s) \<and> FOURGB \<le> a then u64_sub a HALFGB else a)],
    trans_queue_size := u64 (trans_queue_size s + 1), check_queue := True\<rparr>)"
proof -
  have m: "address (mkTransaction ty b) = b" "transactionType (mkTransaction ty b) = ty"
    "(mkTransaction ty b)\<lparr>address := b'\<rparr> = mkTransaction ty b'" for ty b b' by (simp_all add: mkTransaction_def)
  show ?thesis unfolding addTransaction_rw_def addTransaction_def Let_def m if_not_P [OF assms] by simp
qed

lemma addTransaction_rw_ok:
  assumes inv: "hinv s fl e" and a: "a < 2 ^ 64"
  shows "okR (addTransaction_rw w a s) (\<lambda>s'. cfg s' = cfg s \<and> hinv s' fl e \<and> ledger s' fl = ledger s fl + {#(w, a)#})"
proof (cases "REMAP_MMIO (cfg s) \<and> THREEPOINTFIVEGB \<le> a \<and> a < FOURGB")
  case True
  note I = hinvD [OF inv]
  have "hinv (s\<lparr>done_calls := d\<rparr>) fl e = hinv s fl e" for d
    by (simp add: hinv_def base_ok_def tlb_ok_def size_ok_def Rel_def taken_def active_ok_def balance_def)
  then show ?thesis
    using addTransaction_rw_device [OF True I(7,8), of w] inv by (simp add: ledger_def account_def done_mset_def queue_mset_def)
next
  case False
  define a' where "a' = (if REMAP_MMIO (cfg s) \<and> FOURGB \<le> a then u64_sub a HALFGB else a)"
  define tr where "tr = mkTransaction (if w then DATA_WRITE else DATA_READ) a'"
  define s' where "s' = s\<lparr>pending_count := pending_count s + 1, trans_queue := trans_queue s @ [tr],
    trans_queue_size := u64 (trans_queue_size s + 1), check_queue := True\<rparr>"
  have eq: "addTransaction_rw w a s = Inr s'"
    using addTransaction_rw_queue [OF False, of w] by (simp only: a'_def s'_def tr_def)
  have call: "call_of (cfg s) tr = {#(w, a)#}"
    using callback_addr_remap [OF a False] by (cases w) (simp_all add: call_of_def call_mset_def tr_def a'_def mkTransaction_def)
  have "base_ok s'"
    using hinvD(1) [OF inv]
    by (auto simp: base_ok_def s'_def tlb_ok_def size_ok_def tr_def type_ok_def mkTransaction_def u64_def mod_Suc_eq)
  moreover have "Rel s' fl (taken s') e = Rel s fl (taken s) e" "active_ok s' fl = active_ok s fl" "balance s' fl = balance s fl"
    "active_transaction_flag s' = active_transaction_flag s"
    by (simp_all add: Rel_def taken_def active_ok_def balance_def s'_def)
  ultimately have "hinv s' fl e" using inv by (simp add: hinv_def)
  moreover have "ledger s' fl = ledger s fl + {#(w, a)#}"
    by (simp add: s'_def ledger_def account_def done_mset_def queue_mset_def call)
  ultimately show ?thesis by (simp add: eq s'_def)
qed

section \<open>The initial state\<close>

lemma prefill_get:
  "um_get (fold (\<lambda>i m. um_put (f i) (g (f i)) m) ks m) a = (if a \<in> f ` set ks then Some (g a) else um_get m a)"
  by (induction ks arbitrary: m) (auto simp: um.get_put)

lemma prefill_at:
  "um_at new_line (prefill_cache c []) l =
     (if l \<in> (\<lambda>i. u64 (i * PAGE_SIZE c)) ` {0..<CACHE_PAGES c} then prefill_line c l else new_line)"
  using prefill_get [of "\<lambda>i. u64 (i * PAGE_SIZE c)" "prefill_line c" "[0..<CACHE_PAGES c]" "[]" l]
  by (simp add: um_at_def um_get_def prefill_cache_def)

lemma prefill_lines:
  assumes "wf_cfg c"
  shows "lines_wf c (um_at new_line (prefill_cache c []))"
proof -
  let ?L = "um_at new_line (prefill_cache c [])"
  have tag: "cl_tag (?L l) = TAG c l" if "cl_valid (?L l)" for l
    using that unfolding prefill_at by (auto simp: prefill_line_def new_line_def split: if_splits)
  show ?thesis unfolding lines_wf_def
  proof (intro allI ballI impI conjI)
    fix i l assume i: "i < NUM_SETS c" and l: "l \<in> set_lines c i" and v: "cl_valid (?L l)"
    note L = set_address_listD [OF assms i l [unfolded set_lines_def]]
    have n: "TAG c l * NUM_SETS c + i = PAGE_NUMBER c l" using TAG_SET_page [of c l] L(1) by simp
    have "PAGE_NUMBER c l < CACHE_PAGES c"
      using L(3) by (simp add: PAGE_NUMBER_def less_mult_imp_div_less)
    then show "cl_tag (?L l) * NUM_SETS c + i < TOTAL_PAGES c"
      using tag [OF v] n wf_cache_pages(2) [OF assms] by simp
    fix m assume m: "m \<in> set_lines c i" and vm: "cl_valid (?L m)" and eq: "cl_tag (?L m) = cl_tag (?L l)"
    note M = set_address_listD [OF assms i m [unfolded set_lines_def]]
    have "PAGE_NUMBER c m = PAGE_NUMBER c l"
      using TAG_SET_page [of c m] n M(1) eq tag [OF v] tag [OF vm] by simp
    then have "PAGE_ADDRESS c m = PAGE_ADDRESS c l" by (simp add: PAGE_ADDRESS_def PAGE_NUMBER_def)
    then show "m = l" using L(2) M(2) by simp
  qed
qed

definition no_reads :: menv where
  "no_reads = \<lparr>dout = [], fout = [], crit = {}\<rparr>"

lemma init_ok:
  assumes "cfg_ok c"
  shows "hinv (init_hs c i True True) Map.empty no_reads" "ledger (init_hs c i True True) Map.empty = {#}"
proof -
  have unlocked: "\<not> cl_locked (um_at new_line (prefill_cache c []) l) \<and> cl_lock_count (um_at new_line (prefill_cache c []) l) = 0" for l
    unfolding prefill_at by (auto simp: prefill_line_def new_line_def)
  have invalid: "lines_wf c (um_at new_line [])" by (simp add: lines_wf_def new_line_def um_at_def)
  have new: "\<not> cl_locked new_line" "cl_lock_count new_line = 0" by (simp_all add: new_line_def)
  have L: "locks_ok c Map.empty (lines (init_hs c i True True)) (counters (init_hs c i True True))"
    using unlocked new by (auto simp: init_hs_def blank_hs_def Let_def locks_ok_def holders_def set_holders_def um_at_def [of _ "[]"])
  have T: "lines_wf c (lines (init_hs c i True True))"
    using prefill_lines [OF cfg_okD(1) [OF assms]] invalid by (simp add: init_hs_def blank_hs_def Let_def)
  let ?s = "init_hs c i True True"
  have f: "cfg ?s = c" "ReadDone ?s" "WriteDone ?s" "tlb_base_set ?s = []" "trans_queue ?s = []" "trans_queue_size ?s = 0"
    "active_transaction_flag ?s = False" "pending_count ?s = 0" "pending_pages ?s = []" "pending_flash_addr ?s = []"
    "flash_pending ?s = []" "flash_pending_wait ?s = []" "dram_pending ?s = []" "dram_pending_wait ?s = []"
    "dram_queue ?s = []" "flash_queue ?s = []" "done_calls ?s = []"
    by (simp_all add: init_hs_def blank_hs_def Let_def)
  have b: "base_ok ?s" using assms by (simp add: base_ok_def f tlb_ok_def size_ok_def u64_def)
  have n: "um_get [] = Map.empty" "um_has [] k = False" for k by (auto simp: um_get_def um_has_def)
  have r: "Rel ?s Map.empty {} no_reads" using L T
    by (simp add: Rel_def n f no_reads_def fl_wf_def pages_ok_def reads_ok_def reads_def dram_exp_def flash_keys_def crit_keys_def)
  show "hinv ?s Map.empty no_reads"
    using b r by (simp add: hinv_def taken_def f active_ok_def balance_def)
  show "ledger ?s Map.empty = {#}"
    by (simp add: ledger_def f account_def done_mset_def queue_mset_def owed_fl_def)
qed

section \<open>The transition system\<close>

text \<open>
  A state of the whole: the hybrid memory, the reads that the memories hold, and the
  requests accepted so far. Synchronisation is left out: \<open>SYNC\<close> loses lock counts, see
  \<open>Hybrid_Sync\<close>.
\<close>

type_synonym sys = "hs \<times> menv \<times> (bool \<times> nat) multiset"

inductive sys_step :: "sys \<Rightarrow> sys \<Rightarrow> bool" where
  submit: "a < 2 ^ 64 \<Longrightarrow> addTransaction_rw w a s = Inr s' \<Longrightarrow> sys_step (s, e, acc) (s', e, add_mset (w, a) acc)"
| device: "op \<in> {0, 2, 3, 4} \<Longrightarrow> mmio op a s = Inr s' \<Longrightarrow> sys_step (s, e, acc) (s', e, acc)"
| cycle: "legal dok fok dcbs fcbs s e = Some e' \<Longrightarrow> update dok fok dcbs fcbs s = Inr s' \<Longrightarrow>
    sys_step (s, e, acc) (s', e', acc)"

definition sys_init :: "hs_cfg \<Rightarrow> sys \<Rightarrow> bool" where
  "sys_init c x \<longleftrightarrow> (\<exists>i. x = (init_hs c i True True, no_reads, {#}))"

definition sys_inv :: "hs_cfg \<Rightarrow> sys \<Rightarrow> bool" where
  "sys_inv c x = (case x of (s, e, acc) \<Rightarrow> cfg s = c \<and> (\<exists>fl. hinv s fl e \<and> ledger s fl = acc))"

lemma sys_inv_init: "cfg_ok c \<Longrightarrow> sys_init c x \<Longrightarrow> sys_inv c x"
proof -
  assume c: "cfg_ok c" and "sys_init c x"
  then obtain i where "x = (init_hs c i True True, no_reads, {#})" by (auto simp: sys_init_def)
  moreover have "cfg (init_hs c i True True) = c" by (simp add: init_hs_def blank_hs_def Let_def)
  ultimately show "sys_inv c x" using init_ok [OF c, of i] by (auto simp: sys_inv_def)
qed

lemma sys_inv_step:
  assumes "sys_inv c x" "sys_step x y"
  shows "sys_inv c y"
proof -
  obtain s e acc fl where x: "x = (s, e, acc)" and c: "cfg s = c" and inv: "hinv s fl e" and acc: "ledger s fl = acc"
    using assms(1) by (auto simp: sys_inv_def)
  from assms(2) show ?thesis
  proof cases
    case (submit a w s1 s' e1 acc1)
    then show ?thesis using addTransaction_rw_ok [OF inv submit(3), of w] x c acc by (auto simp: sys_inv_def)
  next
    case (device op a s1 s' e1 acc1)
    then show ?thesis using mmio_ok [OF inv device(3), of a] x c acc by (auto simp: sys_inv_def keeps_def)
  next
    case (cycle dok fok dcbs fcbs s1 e1 e' s' acc1)
    then have l: "legal dok fok dcbs fcbs s e = Some e'" using x by simp
    show ?thesis using cycle update_ok [OF inv l] x c acc by (auto simp: sys_inv_def keeps_def)
  qed
qed

text \<open>A configuration with which the constructor makes a sound cache.\<close>

interpretation hybrid: safe_system "\<lambda>x. cfg_ok c \<and> sys_init c x" sys_step "sys_inv c" for c
  by unfold_locales (auto intro: sys_inv_init sys_inv_step)

abbreviation run :: "hs_cfg \<Rightarrow> sys \<Rightarrow> bool" where
  "run c \<equiv> reach (\<lambda>x. cfg_ok c \<and> sys_init c x) sys_step"

lemma runE:
  assumes "run c (s, e, acc)"
  obtains fl where "cfg s = c" "hinv s fl e" "ledger s fl = acc"
  using hybrid.reach_inv [OF assms] by (auto simp: sys_inv_def)

section \<open>What the invariant gives\<close>

lemma owed_zero:
  assumes "hinv s fl e" "pending_count s = 0"
  shows "trans_queue s = []" "fl = Map.empty" "\<not> active_transaction_flag s"
proof -
  note I = hinvD [OF assms(1)]
  have fin: "finite (dom fl)" using Rel_wf [OF I(2)] by (simp add: fl_wf_def)
  have z: "- int (length (trans_queue s)) - int (card (dom fl)) = of_bool (active_transaction_flag s)"
    using I(4) assms(2) by (simp add: balance_def)
  then have "int (length (trans_queue s)) = 0" "int (card (dom fl)) = 0" "\<not> active_transaction_flag s"
    by (cases "active_transaction_flag s"; simp)+
  then show "trans_queue s = []" "fl = Map.empty" "\<not> active_transaction_flag s" using fin by auto
qed

text \<open>Every flight waits for a read that a memory holds or is about to be given.\<close>

lemma flight_waits:
  assumes rel: "Rel s fl X e" and fl: "fl a = Some x"
  shows "reads (dram_queue s) @ dout e \<noteq> [] \<or> reads (flash_queue s) @ fout e \<noteq> []"
proof (cases "f_miss x")
  case False
  then have "hit_key (cfg s) a x = Some (data_addr (cfg s) a (f_line x))" by (simp add: hit_key_def)
  then have "data_addr (cfg s) a (f_line x) \<in> set (reads (dram_queue s) @ dout e)"
    using rel fl by (auto simp: Rel_def reads_ok_def dram_exp_def)
  then show ?thesis by auto
next
  case True
  have wf: "f_lr x \<or> f_vr x" using Rel_wf [OF rel] fl True by (auto simp: fl_wf_def flight_wf_def)
  show ?thesis
  proof (cases "f_lr x")
    case lr: True
    then have "PAGE_ADDRESS (cfg s) a \<in> set (reads (flash_queue s) @ fout e)"
      using rel fl True unfolding Rel_def reads_ok_def flash_keys_def flash_key_def by auto
    then show ?thesis by auto
  next
    case False
    then have "victim_key a x = Some (f_line x)" using True wf by (simp add: victim_key_def)
    then obtain w where w: "um_get (dram_pending_wait s) (f_line x) = Some w" "w \<noteq> {}"
      using rel fl unfolding Rel_def keyed_def dram_wait_val_def by metis
    then have "w \<subseteq> set (reads (dram_queue s) @ dout e)"
      using rel by (auto simp: Rel_def reads_ok_def dram_exp_def ran_def)
    then show ?thesis using w by auto
  qed
qed

lemma counter_sum:
  assumes wf: "wf_cfg c" and fl: "fl_wf c fl" and lk: "locks_ok c fl L SC" and i: "i < NUM_SETS c"
  shows "(\<Sum>l \<in> set_lines c i. cl_lock_count (L l)) = SC i"
proof -
  have fin: "finite (dom fl)" using fl by (simp add: fl_wf_def)
  have line: "f_line x \<in> set_lines c (SET_INDEX c a)" if "fl a = Some x" for a x
    using fl that by (auto simp: fl_wf_def flight_wf_def)
  have idx: "SET_INDEX c l = j" if "l \<in> set_lines c j" "j < NUM_SETS c" for l j
    using set_address_listD(1) [OF wf that(2)] that(1) by (simp add: set_lines_def)
  have "SET_INDEX c a = i \<longleftrightarrow> f_line x \<in> set_lines c i" if "fl a = Some x" for a x
    using line [OF that] idx [OF _ i, of "f_line x"] idx [OF line [OF that] SET_INDEX_less [OF wf]] by metis
  then have union: "set_holders c fl i = (\<Union>l \<in> set_lines c i. holders fl l)"
    by (auto simp: set_holders_def holders_def)
  have "SC i = card (\<Union>l \<in> set_lines c i. holders fl l)" using lk union by (simp add: locks_ok_def)
  also have "\<dots> = (\<Sum>l \<in> set_lines c i. card (holders fl l))"
    using fin holders_finite(1) [OF fin]
    by (intro card_UN_disjoint) (auto simp: set_lines_def holders_def)
  also have "\<dots> = (\<Sum>l \<in> set_lines c i. cl_lock_count (L l))" using lk by (simp add: locks_ok_def)
  finally show ?thesis by simp
qed

text \<open>Each entry of the table of flash addresses is a transaction in work.\<close>

lemma count_pending:
  assumes "hinv s fl e"
  shows "pending_count s = int (length (trans_queue s)) + int (card {k. um_has (pending_flash_addr s) k})"
proof -
  note I = hinvD [OF assms]
  have fin: "finite (dom fl)" using Rel_wf [OF I(2)] by (simp add: fl_wf_def)
  have "{k. um_has (pending_flash_addr s) k} = dom fl \<union> taken s" "dom fl \<inter> taken s = {}"
    using I(2) by (auto simp: Rel_def)
  then have "card {k. um_has (pending_flash_addr s) k} = card (dom fl) + card (taken s)"
    using fin by (simp add: card_Un_disjoint taken_def)
  then show ?thesis using I(4) by (cases "active_transaction_flag s") (simp_all add: balance_def taken_def)
qed

text \<open>With nothing outstanding at the memories, nothing is locked and no table has an entry.\<close>

lemma quiet_empty:
  assumes inv: "hinv s fl e"
    and quiet: "reads (dram_queue s) = []" "reads (flash_queue s) = []" "dout e = []" "fout e = []"
  shows "fl = Map.empty"
  using flight_waits [OF hinvD(2) [OF inv]] quiet by (metis append_Nil2 ext not_Some_eq)

section \<open>Executing the system\<close>

datatype action =
    Submit bool nat
  | Device nat nat
  | Cycle bool bool "mem_cb list" "mem_cb list"

fun sys_act :: "action \<Rightarrow> sys \<Rightarrow> sys option" where
  "sys_act (Submit w a) (s, e, acc) =
     (if a < 2 ^ 64 then (case addTransaction_rw w a s of Inl _ \<Rightarrow> None | Inr s' \<Rightarrow> Some (s', e, add_mset (w, a) acc)) else None)"
| "sys_act (Device op a) (s, e, acc) =
     (if op \<in> {0, 2, 3, 4} then (case mmio op a s of Inl _ \<Rightarrow> None | Inr s' \<Rightarrow> Some (s', e, acc)) else None)"
| "sys_act (Cycle dok fok dcbs fcbs) (s, e, acc) =
     (case legal dok fok dcbs fcbs s e of None \<Rightarrow> None | Some e' \<Rightarrow>
       (case update dok fok dcbs fcbs s of Inl _ \<Rightarrow> None | Inr s' \<Rightarrow> Some (s', e', acc)))"

fun sys_exec :: "action list \<Rightarrow> sys \<Rightarrow> sys option" where
  "sys_exec [] x = Some x"
| "sys_exec (act # acts) x = (case sys_act act x of None \<Rightarrow> None | Some y \<Rightarrow> sys_exec acts y)"

lemma sys_act_step: "sys_act act x = Some y \<Longrightarrow> sys_step x y"
  by (cases "(act, x)" rule: sys_act.cases)
    (auto split: if_splits option.splits sum.splits intro: sys_step.intros)

lemma sys_exec_run: "sys_exec acts x = Some y \<Longrightarrow> run c x \<Longrightarrow> run c y"
proof (induction acts arbitrary: x)
  case (Cons act acts)
  then obtain z where "sys_act act x = Some z" "sys_exec acts z = Some y" by (auto split: option.splits)
  then show ?case using Cons.IH reach_step [OF Cons.prems(2) sys_act_step] by blast
qed simp

lemma run_exec:
  assumes "cfg_ok c" "sys_exec acts (init_hs c i True True, no_reads, {#}) = Some y"
  shows "run c y"
proof (rule sys_exec_run [OF assms(2)])
  show "run c (init_hs c i True True, no_reads, {#})" using assms(1) by (intro reach_init) (auto simp: sys_init_def)
qed

text \<open>
  A small memory: eight pages of two bursts, a cache of two sets of two lines. The first
  request falls into the range of the memory-mapped devices and is answered at once; the
  second waits in the queue until the controller takes it.
\<close>

definition small_cfg :: hs_cfg where
  "small_cfg = default_cfg\<lparr>CONTROLLER_DELAY := 1, PAGE_SIZE := 128, SET_SIZE := 2, BURST_SIZE := 64, FLASH_BURST_SIZE := 128,
     TOTAL_PAGES := 8, CACHE_PAGES := 4, ENABLE_STREAM_BUFFER := False, PREFILL_CACHE := False\<rparr>"

lemma small_cfg_ok: "cfg_ok small_cfg"
  by (simp add: cfg_ok_def wf_cfg_def small_cfg_def default_cfg_def)

definition idle :: action where
  "idle = Cycle True True [] []"

definition small_acts :: "action list" where
  "small_acts = [Submit True 3758096384, Submit True 0, idle]"

definition small_end :: sys where
  "small_end = the (sys_exec small_acts (init_hs small_cfg 0 True True, no_reads, {#}))"

lemma small_exec: "sys_exec small_acts (init_hs small_cfg 0 True True, no_reads, {#}) \<noteq> None"
  by code_simp

lemma small_run: "run small_cfg (fst small_end, fst (snd small_end), snd (snd small_end))"
  using run_exec [OF small_cfg_ok, of small_acts 0] small_exec by (auto simp: small_end_def)

lemma small_done: "map (\<lambda>(w, i, a, t). (w, a)) (done_calls (fst small_end)) = [(True, 3758096384)]"
  by code_simp

lemma small_pending: "pending_count (fst small_end) = 1" "trans_queue (fst small_end) = []"
  by code_simp+

end
