(* ===== verification/Hybrid_Properties.thy ===== *)
theory Hybrid_Properties
  imports Hybrid_Closed
begin

text \<open>
  The properties of the hybrid memory as a closed system. Each holds in every state that
  is reachable by \<open>sys_step\<close> from the constructed memory, and is read off the invariant.
\<close>

section \<open>Safety of the whole\<close>

text \<open>C3. Requests are answered exactly once: at any time the completion calls made so far
  are among the accepted requests (address and kind, with multiplicity), and they are all of
  them as soon as \<open>pending_count\<close> is zero.\<close>

theorem requests_answered_once:
  assumes "run c (s, e, acc)"
  shows "done_mset s \<subseteq># acc \<and> (pending_count s = 0 \<longrightarrow> done_mset s = acc)"
proof -
  obtain fl where fl: "cfg s = c" "hinv s fl e" "ledger s fl = acc" using assms by (rule runE)
  have "done_mset s \<subseteq># acc" using fl(3) by (auto simp: ledger_def account_def add.assoc)
  moreover have "done_mset s = acc" if "pending_count s = 0"
    using owed_zero [OF fl(2) that] fl(3) by (simp add: ledger_def account_def queue_mset_def)
  ultimately show ?thesis by simp
qed

theorem requests_answered_once_witness:
  "done_mset (fst small_end) = {#(True, 3758096384)#} \<and> done_mset (fst small_end) \<subseteq># snd (snd small_end)"
  using requests_answered_once [OF small_run] small_done by (simp add: done_mset_def)





text \<open>C11. No page is cached twice: two valid lines of a set with the same tag are the same
  line, and the page they hold is a page of the flash.\<close>

theorem page_cached_once:
  assumes "run c (s, e, acc)" "i < NUM_SETS c" "l \<in> set (set_address_list c i)" "cl_valid (lines s l)"
  shows "cl_tag (lines s l) * NUM_SETS c + i < TOTAL_PAGES c \<and>
    (\<forall>m \<in> set (set_address_list c i). cl_valid (lines s m) \<and> cl_tag (lines s m) = cl_tag (lines s l) \<longrightarrow> m = l)"
proof -
  obtain fl where fl: "cfg s = c" "hinv s fl e" using assms(1) by (rule runE)
  have "lines_wf c (lines s)" using hinvD(2) [OF fl(2)] fl(1) by (auto simp: Rel_def tags_ok_def)
  then show ?thesis using assms(2-4) by (auto simp: lines_wf_def set_lines_def)
qed

definition full_cfg :: hs_cfg where
  "full_cfg = small_cfg\<lparr>PREFILL_CACHE := True\<rparr>"

lemma full_cfg_ok: "cfg_ok full_cfg"
  by (simp add: full_cfg_def cfg_ok_def wf_cfg_def small_cfg_def default_cfg_def)

lemma full_run: "run full_cfg (init_hs full_cfg 0 True True, no_reads, {#})"
  using run_exec [OF full_cfg_ok, of "[]"] by simp

theorem page_cached_once_witness:
  "cl_tag (lines (init_hs full_cfg 0 True True) 256) * NUM_SETS full_cfg + 0 < 8 \<and>
   cl_tag (lines (init_hs full_cfg 0 True True) 0) \<noteq> cl_tag (lines (init_hs full_cfg 0 True True) 256)"
proof -
  have "0 < NUM_SETS full_cfg" "0 \<in> set (set_address_list full_cfg 0)" "256 \<in> set (set_address_list full_cfg 0)"
    "cl_valid (lines (init_hs full_cfg 0 True True) 0)" "cl_valid (lines (init_hs full_cfg 0 True True) 256)"
    "TOTAL_PAGES full_cfg = 8"
    by code_simp+
  then show ?thesis using page_cached_once [OF full_run, of 0 256] by (metis zero_neq_numeral)
qed

text \<open>C18. Every transaction in work is accounted for: \<open>pending_count\<close> is the length of the
  queue plus the number of entries of the table of pending flash addresses, and
  \<open>trans_queue_size\<close> is the length of the queue.\<close>

theorem pending_accounting:
  assumes "run c (s, e, acc)"
  shows "pending_count s = int (length (trans_queue s)) + int (card {k. um_has (pending_flash_addr s) k}) \<and>
    trans_queue_size s = u64 (length (trans_queue s))"
proof -
  obtain fl where "cfg s = c" "hinv s fl e" using assms by (rule runE)
  then show ?thesis using count_pending hinvD(10) by (auto simp: size_ok_def)
qed

theorem pending_accounting_witness: "card {k. um_has (pending_flash_addr (fst small_end)) k} = 1"
  using pending_accounting [OF small_run] small_pending by simp





text \<open>C21. The TLB never holds more entries than it has room for, and no translation twice.\<close>

theorem tlb_bounded:
  assumes "run c (s, e, acc)" "TLB_SIZE c \<noteq> 0"
  shows "distinct (map fst (tlb_base_set s)) \<and> length (tlb_base_set s) \<le> TLB_MAX_ENTRIES c"
proof -
  obtain fl where fl: "cfg s = c" "hinv s fl e" using assms(1) by (rule runE)
  then show ?thesis using hinvD(9) [OF fl(2)] assms(2) by (simp add: tlb_ok_def um_wf_def)
qed

definition tlb_cfg :: hs_cfg where
  "tlb_cfg = small_cfg\<lparr>TLB_SIZE := 64\<rparr>"

theorem tlb_bounded_witness: "length (tlb_base_set (init_hs tlb_cfg 0 True True)) \<le> TLB_MAX_ENTRIES tlb_cfg"
proof -
  have "cfg_ok tlb_cfg"
    by (simp add: tlb_cfg_def cfg_ok_def wf_cfg_def small_cfg_def default_cfg_def BYTES_PER_READ_def)
  then have "run tlb_cfg (init_hs tlb_cfg 0 True True, no_reads, {#})" using run_exec [of tlb_cfg "[]"] by simp
  then show ?thesis using tlb_bounded [of tlb_cfg] by (auto simp: tlb_cfg_def)
qed

text \<open>C20. The line chosen for replacement is in the set, is not locked, and no unlocked line of
  the set was used longer ago, whenever some line of the set is unlocked.\<close>

theorem victim_unlocked_lru:
  assumes "\<exists>a \<in> set addrs. \<not> cl_locked (um_at new_line m a)"
  shows "select_victim m addrs \<in> set addrs \<and> \<not> cl_locked (um_at new_line m (select_victim m addrs)) \<and>
    (\<forall>a \<in> set addrs. \<not> cl_locked (um_at new_line m a) \<longrightarrow>
       cl_ts (um_at new_line m (select_victim m addrs)) \<le> cl_ts (um_at new_line m a))"
  using select_victim_ok [OF assms] by blast

theorem victim_unlocked_lru_witness: "select_victim [] [0, 128] \<in> {0, 128}"
  using victim_unlocked_lru [of "[0, 128]" "[]"] by (auto simp: um_at_def new_line_def)

section \<open>Addresses\<close>

text \<open>C22. Splitting a page address of the flash into tag and set index and putting it together
  again are inverse to each other.\<close>

theorem page_coding:
  assumes "wf_cfg c" "a < TOTAL_PAGES c * PAGE_SIZE c" "t * NUM_SETS c + i < TOTAL_PAGES c" "i < NUM_SETS c"
  shows "FLASH_ADDRESS c (TAG c a) (SET_INDEX c a) = PAGE_ADDRESS c a \<and>
    TAG c (FLASH_ADDRESS c t i) = t \<and> SET_INDEX c (FLASH_ADDRESS c t i) = i"
  using FLASH_ADDRESS_TAG [of c a] split_FLASH_ADDRESS [OF assms(1,4,3)] assms(1,2) wf_total(2) [OF assms(1)] by auto

theorem page_coding_witness:
  "FLASH_ADDRESS default_cfg (TAG default_cfg 4096000) (SET_INDEX default_cfg 4096000) = PAGE_ADDRESS default_cfg 4096000"
  using page_coding [OF wf_cfg_default, of 4096000 0 0] by (simp add: default_cfg_def NUM_SETS_def)

end
