(* ===== verification/Hybrid_Queues.thy ===== *)
theory Hybrid_Queues
  imports Hybrid_Closed
begin

text \<open>
  What the hybrid memory hands to the two memories: the queues to the DRAM and to the flash
  hold plain reads and writes only, whatever the transaction they come from.
\<close>

section \<open>Typed queues\<close>

definition typed :: "Transaction list \<Rightarrow> bool" where
  "typed q \<longleftrightarrow> (\<forall>t \<in> set q. is_data (transactionType t))"

definition queues_typed :: "hs \<Rightarrow> bool" where
  "queues_typed s \<longleftrightarrow> typed (dram_queue s) \<and> typed (flash_queue s)"

lemma typed_simps [simp]:
  "typed []" "typed (t # q) \<longleftrightarrow> is_data (transactionType t) \<and> typed q" "typed (q @ q') \<longleftrightarrow> typed q \<and> typed q'"
  "typed (map (mkTransaction DATA_READ) as)" "typed (map (mkTransaction DATA_WRITE) as)"
  by (auto simp: typed_def is_data_def mkTransaction_def)

section \<open>The operations\<close>

lemma typed_pure [simp]:
  "queues_typed (push_front_transaction ty a s) = queues_typed s" "queues_typed (addPrefetch a s) = queues_typed s"
  "queues_typed (addFlush a s) = queues_typed s" "queues_typed (addSync a s) = queues_typed s"
  "queues_typed (addSyncCounter a b s) = queues_typed s"
  "queues_typed (contention_lock a s) = queues_typed s" "queues_typed (contention_page_lock a s) = queues_typed s"
  "queues_typed (contention_increment a s) = queues_typed s" "queues_typed (contention_decrement a s) = queues_typed s"
  "queues_typed (contention_victim_lock a s) = queues_typed s" "queues_typed (contention_cache_line_lock a s) = queues_typed s"
  "queues_typed (contention_cache_line_unlock a s) = queues_typed s"
  "queues_typed (ReadDoneCallback i a t s) = queues_typed s" "queues_typed (WriteDoneCallback i a t s) = queues_typed s"
  "queues_typed (line_used l s) = queues_typed s" "queues_typed (fill_line p s) = queues_typed s"
  "queues_typed (new_stream_buffer a s) = queues_typed s" "queues_typed (trim_one_miss_table s) = queues_typed s"
  "queues_typed (stream_buffer_hit_handler a s) = queues_typed s"
  "queues_typed (tick_delay s) = queues_typed s" "queues_typed (step s) = queues_typed s" "queues_typed (update_maxima s) = queues_typed s"
  by (simp_all add: queues_typed_def push_front_transaction_def addPrefetch_def addFlush_def addSync_def addSyncCounter_def
      contention_lock_def contention_page_lock_def contention_increment_def contention_decrement_def contention_victim_lock_def
      contention_cache_line_lock_def contention_cache_line_unlock_def ReadDoneCallback_def WriteDoneCallback_def line_used_def
      fill_line_def new_stream_buffer_def trim_one_miss_table_def stream_buffer_hit_handler_def tick_delay_def step_def update_maxima_def Let_def)

lemma typed_prefetches [simp]: "queues_typed (issue_prefetches a n s) = queues_typed s"
  by (induction n arbitrary: s) (simp_all add: Let_def)

lemma typed_range [simp]: "queues_typed (prefetch_range b a is s) = queues_typed s"
proof (induction "is" arbitrary: s)
  case (Cons i "is")
  then show ?case by (simp add: Let_def) (simp add: queues_typed_def addPrefetch_def push_front_transaction_def)
qed simp

lemma typed_unlock: "queues_typed s \<Longrightarrow> partR (contention_unlock a v p b l s) queues_typed"
  by (auto simp: contention_unlock_def contention_victim_unlock_def contention_cache_line_unlock_def assertR_def Let_def queues_typed_def)

lemma typed_moves:
  assumes "queues_typed s"
  shows "partR (VictimRead p s) queues_typed" "queues_typed (VictimWrite p s)" "queues_typed (LineRead p s)" "queues_typed (LineWrite p s)"
  using assms by (auto simp: VictimRead_def VictimWrite_def LineRead_def LineWrite_def contention_increment_def Let_def queues_typed_def)

lemma typed_finish:
  assumes "queues_typed s"
  shows "partR (CacheReadFinish p s) queues_typed" "partR (CacheWriteFinish p s) queues_typed"
proof -
  show "partR (CacheReadFinish p s) queues_typed" using assms by (simp add: CacheReadFinish_def Let_def typed_unlock)
  have "queues_typed (s1\<lparr>cache := m\<rparr>) = queues_typed s1" for s1 m by (simp add: queues_typed_def)
  then show "partR (CacheWriteFinish p s) queues_typed" using assms by (simp add: CacheWriteFinish_def Let_def typed_unlock)
qed

text \<open>Updates of the other fields.\<close>

lemma typed_fields [simp]:
  "queues_typed (s\<lparr>cache := m\<rparr>) = queues_typed s" "queues_typed (s\<lparr>dram_pending := d\<rparr>) = queues_typed s"
  "queues_typed (s\<lparr>flash_pending := f\<rparr>) = queues_typed s" "queues_typed (s\<lparr>dram_pending_set := ds\<rparr>) = queues_typed s"
  "queues_typed (s\<lparr>dram_pending_wait := dw\<rparr>) = queues_typed s" "queues_typed (s\<lparr>flash_pending_wait := fw\<rparr>) = queues_typed s"
  "queues_typed (s\<lparr>check_queue := b\<rparr>) = queues_typed s" "queues_typed (s\<lparr>prefetch_hit_nops := n\<rparr>) = queues_typed s"
  "queues_typed (s\<lparr>one_miss_table := t\<rparr>) = queues_typed s" "queues_typed (s\<lparr>unique_one_misses := n\<rparr>) = queues_typed s"
  "queues_typed (s\<lparr>unused_prefetches := n\<rparr>) = queues_typed s" "queues_typed (s\<lparr>unused_prefetch_victims := n\<rparr>) = queues_typed s"
  "queues_typed (s\<lparr>active_transaction_flag := b\<rparr>) = queues_typed s" "queues_typed (s\<lparr>delay_counter := n\<rparr>) = queues_typed s"
  "queues_typed (s\<lparr>trans_queue := q\<rparr>) = queues_typed s" "queues_typed (s\<lparr>trans_queue_size := n\<rparr>) = queues_typed s"
  "queues_typed (s\<lparr>active_transaction := a\<rparr>) = queues_typed s" "queues_typed (s\<lparr>prefetch_counter := pc\<rparr>) = queues_typed s"
  "queues_typed (s\<lparr>prefetch_access_number := pn\<rparr>) = queues_typed s" "queues_typed (s\<lparr>prefetch_flush_addr := pl\<rparr>) = queues_typed s"
  "queues_typed (s\<lparr>prefetch_new_addr := pl\<rparr>) = queues_typed s" "queues_typed (s\<lparr>total_prefetches := n\<rparr>) = queues_typed s"
  "queues_typed (s\<lparr>prefetch_cheat_map := pm\<rparr>) = queues_typed s" "queues_typed (s\<lparr>prefetch_cheat_count := n\<rparr>) = queues_typed s"
  by (simp_all add: queues_typed_def)

lemma typed_read_finish:
  assumes "queues_typed s"
  shows "partR (VictimReadFinish a p s) queues_typed" "partR (LineReadFinish a p s) queues_typed"
  using assms
  by (auto simp: VictimReadFinish_def LineReadFinish_def Let_def typed_unlock typed_finish typed_moves
      split: TransactionType.split intro!: partR_bind [where Q = queues_typed])

lemma typed_hits:
  assumes "queues_typed s"
  shows "partR (CacheRead o1 a l s) queues_typed" "partR (CacheWrite o1 a l s) queues_typed" "partR (Flush l s) queues_typed"
    "partR (sync a l tr s) queues_typed" "partR (syncAllCounter a s) queues_typed"
proof -
  have q: "queues_typed (s\<lparr>dram_queue := dram_queue s @ [mkTransaction ty k]\<rparr>)" if "ty = DATA_READ \<or> ty = DATA_WRITE" for ty k
    using assms that by (auto simp: queues_typed_def mkTransaction_def is_data_def)
  show "partR (CacheRead o1 a l s) queues_typed" using q assms by (simp add: CacheRead_def Let_def assertR_def)
  show "partR (CacheWrite o1 a l s) queues_typed" using q by (simp add: CacheWrite_def Let_def typed_finish)
  show "partR (Flush l s) queues_typed" using assms by (simp add: Flush_def Let_def typed_unlock)
  show "partR (sync a l tr s) queues_typed" using assms
    by (auto simp: sync_def Let_def typed_moves intro!: partR_bind [where Q = queues_typed])
  show "partR (syncAllCounter a s) queues_typed" using assms by (auto simp: syncAllCounter_def Let_def intro!: typed_unlock)
qed

lemma typed_miss_handler: "queues_typed s \<Longrightarrow> partR (stream_buffer_miss_handler a s) queues_typed"
  by (auto simp: stream_buffer_miss_handler_def Let_def split: scan_result.split)

lemma typed_misses:
  assumes "queues_typed s"
  shows "partR (cheat_fill a l s) queues_typed" "partR (start_miss tr a l s) queues_typed"
  using assms by (auto simp: cheat_fill_def start_miss_def Let_def typed_unlock typed_moves)

lemma typed_process:
  assumes "queues_typed s"
  shows "partR (ProcessTransaction tr s) queues_typed"
proof -
  have hit: "partR (process_hit tr a l s') queues_typed" if "queues_typed s'" for a l s'
    using that by (auto simp: process_hit_def Let_def typed_hits typed_unlock split: TransactionType.split
        intro!: partR_bind [where Q = queues_typed])
  have miss: "partR (process_miss tr a s') queues_typed" if "queues_typed s'" for a s'
    using that by (auto simp: process_miss_def Let_def typed_unlock typed_misses typed_miss_handler issue_sequential_prefetches_def
        intro!: partR_bind [where Q = queues_typed])
  have "queues_typed (perfect_prefetch i s')" if "queues_typed s'" for i s'
    using that by (simp add: perfect_prefetch_def Let_def split: list.split)
  then show ?thesis using assms hit miss typed_hits
    by (auto simp: ProcessTransaction_def Let_def split: prod.split option.split)
qed

section \<open>A cycle\<close>

lemma typed_callbacks:
  assumes "queues_typed s"
  shows "partR (run_cbs cbs s) queues_typed"
  using assms
proof (induction cbs arbitrary: s)
  case (Cons cb cbs)
  have "partR (run_cb cb s) queues_typed" using Cons.prems
    by (cases cb) (auto simp: DRAMReadCallback_def DRAMWriteCallback_def FlashReadCallback_def FlashCriticalLineCallback_def FlashWriteCallback_def
        Let_def typed_read_finish typed_finish split: option.split PendingOperation.split TransactionType.split intro!: partR_bind [where Q = queues_typed])
  then show ?case using Cons.IH by (auto intro!: partR_bind [where Q = queues_typed])
qed simp

lemma typed_start: "queues_typed s \<Longrightarrow> partR (start_transaction tr s) queues_typed"
  by (auto simp: start_transaction_def check_tlb_def Let_def) (auto simp: queues_typed_def contention_lock_def)

lemma typed_scan: "queues_typed s \<Longrightarrow> partR (scan_queue pre rest s) (\<lambda>(b, s'). queues_typed s')"
  by (induction pre rest s rule: scan_queue.induct)
    (auto simp: Let_def intro!: partR_bind [OF typed_start] partR_bind [OF typed_process])

lemma typed_before_issue: "queues_typed s \<Longrightarrow> partR (before_issue s) queues_typed"
  unfolding before_issue_def
  by (rule partR_bind [where Q = queues_typed])
    (auto simp: process_active_def check_transactions_def intro!: partR_bind [OF typed_process] partR_bind [OF typed_scan])

lemma typed_issue: "queues_typed s \<Longrightarrow> queues_typed (issue_flash fok (issue_dram dok s))"
  by (auto simp: issue_dram_def issue_flash_def queues_typed_def split: list.split)

lemma update_parts:
  "update dok fok dcbs fcbs s = bindR (before_issue s) (\<lambda>s2.
     bindR (run_cbs (dcbs @ fcbs) (tick_delay (issue_flash fok (issue_dram dok s2)))) (\<lambda>s4. Inr (step s4)))"
  by (simp add: update_def before_issue_def bindR_assoc run_cbs_append)

lemma typed_update: "queues_typed s \<Longrightarrow> partR (update dok fok dcbs fcbs s) queues_typed"
  unfolding update_parts
  by (rule partR_bind [OF typed_before_issue]) (auto intro!: partR_bind [OF typed_callbacks] typed_issue)

lemma typed_add: "queues_typed s \<Longrightarrow> partR (addTransaction_rw w a s) queues_typed"
  by (auto simp: addTransaction_rw_def addTransaction_def Let_def queues_typed_def split: TransactionType.split)

lemma typed_mmio: "queues_typed s \<Longrightarrow> partR (mmio op a s) queues_typed"
  by (auto simp: mmio_def syncAll_def Let_def)

lemma typed_run:
  assumes "run c x"
  shows "queues_typed (fst x)"
  using assms
proof (induction rule: reach.induct)
  case (reach_init x)
  then show ?case by (auto simp: sys_init_def init_hs_def blank_hs_def Let_def queues_typed_def)
next
  case (reach_step x y)
  then show ?case using typed_add typed_mmio typed_update by (auto elim!: sys_step.cases) (metis partR.simps(2))+
qed

end
