(* ===== verification/Hybrid_Sync.thy ===== *)
theory Hybrid_Sync
  imports Hybrid_Queues
begin

text \<open>
  \<open>SYNC\<close>, which writes a dirty line back. The line is copied before it is locked and the copy
  is stored at the end, which loses the lock from the line but not from the counter of the
  set. Shown: each synchronisation raises the counter of its set for good, and a set whose
  counter has reached the set size this way serves no request any more.
\<close>

section \<open>The lost lock\<close>

lemma um_at_new: "\<not> um_has m k \<Longrightarrow> um_at d m k = d"
  by (simp add: um_has_def um_at_def split: option.split)

lemma lock_counter:
  assumes "counters s (SET_INDEX (cfg s) l) + 1 < 2 ^ 64"
  shows "counters (contention_cache_line_lock l s) (SET_INDEX (cfg s) l) = counters s (SET_INDEX (cfg s) l) + 1"
  using assms um_at_new [of "set_counter s" "SET_INDEX (cfg s) l" 0]
  by (auto simp: contention_cache_line_lock_def Let_def umap_simps u64_id)

lemma sync_effect:
  assumes "sync addr l tr s = Inr s'" "counters s (SET_INDEX (cfg s) l) + 1 < 2 ^ 64"
  shows "counters s' (SET_INDEX (cfg s) l) = counters s (SET_INDEX (cfg s) l) + 1 \<and> lines s' l = (lines s l)\<lparr>cl_dirty := False\<rparr>"
proof -
  obtain p s3 where v: "VictimRead p (contention_cache_line_lock l s) = Inr s3"
    "s' = s3\<lparr>cache := um_put l ((lines s l)\<lparr>cl_dirty := False\<rparr>) (cache s3)\<rparr>"
    using assms(1) by (auto simp: sync_def Let_def assertR_def bindR_eq_Inr split: if_splits)
  then have "set_counter s3 = set_counter (contention_cache_line_lock l s)"
    by (auto simp: VictimRead_def contention_increment_def Let_def split: if_splits)
  then show ?thesis using lock_counter [OF assms(2)] v(2) by (simp add: umap_simps)
qed

section \<open>A blocked set\<close>

definition blocked :: "hs \<Rightarrow> bool" where
  "blocked s \<longleftrightarrow> \<not> active_transaction_flag s \<and> (\<forall>t \<in> set (trans_queue s). \<not> contention_is_unlocked (ALIGN (cfg s) (address t)) s)"

lemma scan_blocked:
  "\<forall>t \<in> set rest. \<not> contention_is_unlocked (ALIGN (cfg s) (address t)) s \<Longrightarrow> scan_queue pre rest s = Inr (False, s)"
  by (induction rest arbitrary: pre) auto

fun idle_cycles :: "nat \<Rightarrow> hs \<Rightarrow> herr + hs" where
  "idle_cycles 0 s = Inr s"
| "idle_cycles (Suc n) s = bindR (update True True [] [] s) (idle_cycles n)"

lemma blocked_same:
  assumes "blocked s" "active_transaction_flag s' = active_transaction_flag s"
    "trans_queue s' = trans_queue s" "cfg s' = cfg s" "set_counter s' = set_counter s" "pending_pages s' = pending_pages s"
    "pending_flash_addr s' = pending_flash_addr s"
  shows "blocked s'"
proof -
  have "contention_is_unlocked a s' = contention_is_unlocked a s" for a using assms by (simp add: contention_is_unlocked_def)
  then show ?thesis using assms by (simp add: blocked_def)
qed

lemma update_blocked:
  assumes "blocked s"
  shows "okR (update True True [] [] s) (\<lambda>s'. blocked s' \<and> trans_queue s' = trans_queue s \<and> done_calls s' = done_calls s)"
proof -
  let ?s = "update_maxima s"
  have b: "blocked ?s" by (rule blocked_same [OF assms]) (simp_all add: update_maxima_def)
  define s2 where "s2 = (if delay_counter ?s = 0 then ?s\<lparr>check_queue := False\<rparr> else ?s)"
  have "process_active ?s = Inr ?s" using b by (simp add: process_active_def blocked_def)
  moreover have "check_transactions ?s = Inr s2" using b scan_blocked [of "trans_queue ?s" ?s "[]"]
    by (simp add: check_transactions_def blocked_def s2_def)
  ultimately have u: "update True True [] [] s = Inr (step (tick_delay (issue_flash True (issue_dram True s2))))" by (simp add: update_def)
  define s3 where "s3 = issue_flash True (issue_dram True s2)"
  have s3: "f s3 = f s2" if "\<And>s q r. f (s\<lparr>dram_queue := q, dram_pending_set := r\<rparr>) = f s" "\<And>s q. f (s\<lparr>flash_queue := q\<rparr>) = f s" for f :: "hs \<Rightarrow> 'z"
    using that by (auto simp: s3_def issue_dram_def issue_flash_def split: list.split)
  have same: "active_transaction_flag s3 = active_transaction_flag s2" "trans_queue s3 = trans_queue s2" "cfg s3 = cfg s2" "set_counter s3 = set_counter s2"
    "pending_pages s3 = pending_pages s2" "pending_flash_addr s3 = pending_flash_addr s2" "done_calls s3 = done_calls s2"
    by (rule s3; simp)+
  have "blocked (step (tick_delay s3))" by (rule blocked_same [OF b]) (simp_all add: same s2_def step_def tick_delay_def)
  moreover have "trans_queue (step (tick_delay s3)) = trans_queue s" "done_calls (step (tick_delay s3)) = done_calls s"
    by (simp_all add: step_def tick_delay_def same) (simp_all add: s2_def update_maxima_def)
  ultimately show ?thesis by (simp add: u s3_def)
qed

lemma idle_blocked:
  "blocked s \<Longrightarrow> okR (idle_cycles n s) (\<lambda>s'. blocked s' \<and> trans_queue s' = trans_queue s \<and> done_calls s' = done_calls s)"
proof (induction n arbitrary: s)
  case (Suc n)
  obtain s1 where s1: "update True True [] [] s = Inr s1" "blocked s1" "trans_queue s1 = trans_queue s" "done_calls s1 = done_calls s"
    using update_blocked [OF Suc.prems] by (auto simp: okR_iff)
  then show ?case using Suc.IH [OF s1(2)] by simp
qed simp

section \<open>A run\<close>

text \<open>
  Actions of the system as before, with the operation \<open>SYNC_ALL\<close> of the device interface in
  addition. The memories answer only what they were asked.
\<close>

definition sync_act :: "action \<Rightarrow> sys \<Rightarrow> sys option" where
  "sync_act act x = (if act = Device 1 0 then (case mmio 1 0 (fst x) of Inl _ \<Rightarrow> None | Inr s \<Rightarrow> Some (s, snd x)) else sys_act act x)"

fun sync_exec :: "action list \<Rightarrow> sys \<Rightarrow> sys option" where
  "sync_exec [] x = Some x"
| "sync_exec (act # acts) x = (case sync_act act x of None \<Rightarrow> None | Some y \<Rightarrow> sync_exec acts y)"

text \<open>The smallest cache: one set with one line, filled with a dirty page by the constructor.\<close>

definition one_cfg :: hs_cfg where
  "one_cfg = default_cfg\<lparr>CONTROLLER_DELAY := 1, PAGE_SIZE := 64, SET_SIZE := 1, BURST_SIZE := 64, FLASH_BURST_SIZE := 64,
     TOTAL_PAGES := 2, CACHE_PAGES := 1, ENABLE_STREAM_BUFFER := False, PREFILL_CACHE := True, PREFILL_CACHE_DIRTY := True\<rparr>"

definition one_init :: hs where
  "one_init = init_hs one_cfg 0 True True"

text \<open>The states of the run: before the line is synchronised, when it is being read, and at the end.\<close>

definition before_sync :: hs where
  "before_sync = one_init\<lparr>currentClockCycle := 2, pending_flash_addr := [(0, 0)], active_transaction := mkTransaction SYNC 0,
     active_transaction_flag := True, pending_count := 1, trans_queue_max := 1\<rparr>"

definition in_sync :: hs where
  "in_sync = before_sync\<lparr>active_transaction_flag := False, pending_pages := [(0, 1)], set_counter := [(0, 2)],
     cache := [(0, new_line\<lparr>cl_valid := True, cl_locked := True, cl_lock_count := 1\<rparr>)], check_queue := False,
     dram_pending := [(0, \<lparr>p_op = VICTIM_READ, p_orig_addr = 0, p_flash_addr = 0, p_cache_addr = 0, p_victim_tag = 0,
        p_victim_valid = False, p_callback_sent = False, p_type = SYNC\<rparr>)],
     dram_pending_wait := [(0, {0})], dram_pending_set := {0}\<rparr>"

definition after_sync :: hs where
  "after_sync = one_init\<lparr>currentClockCycle := 3, active_transaction := mkTransaction SYNC 0, trans_queue_max := 1, set_counter := [(0, 1)],
     cache := [(0, new_line\<lparr>cl_valid := True\<rparr>)], flash_queue := [mkTransaction DATA_WRITE 0]\<rparr>"

lemma sync_starts: "sync_exec [Device 1 0, idle, idle] (one_init, no_reads, {#}) = Some (before_sync, no_reads, {#})"
  by code_simp

lemma sync_reads: "before_issue before_sync = Inr (in_sync\<lparr>dram_queue := [mkTransaction DATA_READ 0], dram_pending_set := {}\<rparr>)"
  by code_simp

lemma sync_ends: "run_cbs [DRAM_Read_CB 0] in_sync = Inr (after_sync\<lparr>currentClockCycle := 2\<rparr>)"
  by code_simp

lemma sync_run:
  "sync_exec [Device 1 0, idle, idle, Cycle True True [DRAM_Read_CB 0] [], Submit False 0] (one_init, no_reads, {#}) =
     Some (after_sync\<lparr>pending_count := 1, trans_queue := [mkTransaction DATA_READ 0], trans_queue_size := 1, check_queue := True\<rparr>, no_reads, {#(False, 0)#})"
proof -
  have append: "sync_exec (xs @ ys) x = (case sync_exec xs x of None \<Rightarrow> None | Some y \<Rightarrow> sync_exec ys y)" for xs ys x
    by (induction xs arbitrary: x) (auto split: option.split)
  let ?r = "mkTransaction DATA_READ 0"
  have q: "flash_queue in_sync = []"
    by (simp add: in_sync_def before_sync_def one_init_def init_hs_def blank_hs_def Let_def one_cfg_def)
  have "issue_flash True (issue_dram True (in_sync\<lparr>dram_queue := [?r], dram_pending_set := {}\<rparr>)) = in_sync"
    by (simp add: issue_dram_def issue_flash_def in_sync_def before_sync_def one_init_def init_hs_def blank_hs_def Let_def one_cfg_def
        mkTransaction_def)
  moreover have "tick_delay in_sync = in_sync"
    by (simp add: tick_delay_def in_sync_def before_sync_def one_init_def init_hs_def blank_hs_def Let_def one_cfg_def)
  ultimately have "update True True [DRAM_Read_CB 0] [] before_sync = Inr after_sync"
    using sync_reads sync_ends by (simp add: update_parts step_def after_sync_def u64_def)
  moreover have "legal True True [DRAM_Read_CB 0] [] before_sync no_reads = Some no_reads"
    using q by (simp add: legal_def sync_reads env_issue_def reads_def mkTransaction_def no_reads_def)
  ultimately have c: "sync_act (Cycle True True [DRAM_Read_CB 0] []) (before_sync, no_reads, {#}) = Some (after_sync, no_reads, {#})"
    by (simp add: sync_act_def)
  have "addTransaction_rw False 0 after_sync =
      Inr (after_sync\<lparr>pending_count := 1, trans_queue := [?r], trans_queue_size := 1, check_queue := True\<rparr>)"
    by (simp add: addTransaction_rw_def addTransaction_def mkTransaction_def after_sync_def one_init_def init_hs_def blank_hs_def Let_def
        one_cfg_def default_cfg_def THREEPOINTFIVEGB_def FOURGB_def u64_def)
  then have s: "sync_act (Submit False 0) (after_sync, no_reads, {#}) =
      Some (after_sync\<lparr>pending_count := 1, trans_queue := [?r], trans_queue_size := 1, check_queue := True\<rparr>, no_reads, {#(False, 0)#})"
    by (simp add: sync_act_def)
  show ?thesis using append [of "[Device 1 0, idle, idle]" "[Cycle True True [DRAM_Read_CB 0] [], Submit False 0]"] sync_starts c s by simp
qed

text \<open>C35. A synchronisation starves its set. In a cache with one line that the constructor filled
  with a dirty page, \<open>SYNC_ALL\<close> runs, the DRAM answers its read, and nothing is outstanding or
  locked any more. Yet the counter of the set keeps the lock that the line lost, so that a read
  which comes then is never taken from the queue, however many cycles pass.\<close>

theorem sync_starves:
  "\<exists>s. sync_exec [Device 1 0, idle, idle, Cycle True True [DRAM_Read_CB 0] [], Submit False 0] (one_init, no_reads, {#}) =
      Some (s, no_reads, {#(False, 0)#}) \<and> dram_queue s = [] \<and> cl_locked (lines s 0) = False \<and> pending_pages s = [] \<and>
    (\<forall>n. \<exists>s'. idle_cycles n s = Inr s' \<and> trans_queue s' = [mkTransaction DATA_READ 0] \<and> done_calls s' = [])"
proof -
  let ?s = "after_sync\<lparr>pending_count := 1, trans_queue := [mkTransaction DATA_READ 0], trans_queue_size := 1, check_queue := True\<rparr>"
  note D = after_sync_def one_init_def init_hs_def blank_hs_def Let_def one_cfg_def
  have "\<not> contention_is_unlocked (ALIGN (cfg ?s) 0) ?s" by code_simp
  then have b: "blocked ?s" by (simp add: blocked_def mkTransaction_def) (simp add: D)
  have f: "dram_queue ?s = []" "pending_pages ?s = []" "done_calls ?s = []" "cache ?s = [(0, new_line\<lparr>cl_valid := True\<rparr>)]"
    by (simp_all add: D)
  have l: "cl_locked (lines ?s 0) = False" unfolding f by (simp add: um_at_def um_get_def new_line_def)
  have "\<exists>s'. idle_cycles n ?s = Inr s' \<and> trans_queue s' = [mkTransaction DATA_READ 0] \<and> done_calls s' = []" for n
    using idle_blocked [OF b, of n] f(3) by (auto simp: okR_iff)
  then show ?thesis using sync_run f(1,2) l by blast
qed

text \<open>C36. Every synchronisation raises the counter of its set by one more than the locks of its
  lines: it leaves the line as it was but for the dirty bit, and counts a lock.\<close>

theorem sync_leaks:
  assumes "sync addr l tr s = Inr s'" "counters s (SET_INDEX (cfg s) l) + 1 < 2 ^ 64"
  shows "counters s' (SET_INDEX (cfg s) l) = counters s (SET_INDEX (cfg s) l) + 1 \<and> lines s' l = (lines s l)\<lparr>cl_dirty := False\<rparr>"
  by (rule sync_effect [OF assms])

theorem sync_leaks_witness: "\<exists>s'. sync 0 0 (mkTransaction SYNC 0) before_sync = Inr s' \<and> counters s' 0 = 1 \<and> cl_lock_count (lines s' 0) = 0"
proof -
  have z: "counters before_sync 0 = 0" "SET_INDEX (cfg before_sync) 0 = 0" "cl_lock_count (lines before_sync 0) = 0"
    and "case sync 0 0 (mkTransaction SYNC 0) before_sync of Inl _ \<Rightarrow> False | Inr _ \<Rightarrow> True" by code_simp+
  then obtain s' where s': "sync 0 0 (mkTransaction SYNC 0) before_sync = Inr s'" by (auto split: sum.splits)
  then show ?thesis using sync_leaks [OF s'] z by simp
qed

end
