(* ===== verification/Hybrid_Host.thy ===== *)
theory Hybrid_Host
  imports Hybrid_Closed
begin

text \<open>
  The edges of the hybrid memory: the tag store saved to a file and restored from it, and the
  completions that a front end polls through the C interface. Shown: what is saved comes back,
  but for the address of one record too many that the restoring loop reads at the end of the
  file; and completions are polled in order, each once.
\<close>

section \<open>Saving and restoring\<close>

text \<open>What a saved line looks like after it is read back.\<close>

definition restored :: "bool \<Rightarrow> cache_line \<Rightarrow> cache_line" where
  "restored clean l = new_line\<lparr>cl_valid := cl_valid l, cl_dirty := (if clean then False else cl_dirty l), cl_tag := cl_tag l,
     cl_data := cl_data l, cl_ts := cl_ts l\<rparr>"

lemma read_saved: "read_record clean g (Some (save_line a l @ xs)) = (a, restored clean l, Some xs)"
  by (auto simp: read_record_def save_line_def bool_num_def restored_def new_line_def)

lemma read_end: "read_record clean g (Some []) = (g, new_line, None)"
  by (simp add: read_record_def new_line_def)

definition records :: "(nat \<times> cache_line) list \<Rightarrow> nat list" where
  "records rs = concat (map (\<lambda>(a, l). save_line a l) rs)"

text \<open>The loop stores every record, and then a blank line at the indeterminate address.\<close>

lemma restore_records:
  "length rs \<le> n \<Longrightarrow> restore_loop (Suc n) clean g (Some (records rs)) m =
     um_put g new_line (fold (\<lambda>(a, l). um_put a (restored clean l)) rs m)"
proof (induction rs arbitrary: n m)
  case Nil
  then show ?case by (cases n) (simp_all add: records_def read_end)
next
  case (Cons r rs)
  obtain a l where r: "r = (a, l)" by fastforce
  obtain k where k: "n = Suc k" "length rs \<le> k" using Cons.prems by (cases n) auto
  have "records (r # rs) = save_line a l @ records rs" by (simp add: records_def r)
  then have "restore_loop (Suc n) clean g (Some (records (r # rs))) m =
      restore_loop (Suc k) clean g (Some (records rs)) (um_put a (restored clean l) m)"
    by (simp add: read_saved k del: restore_loop.simps(2)) (simp add: read_saved k)
  then show ?case using Cons.IH [OF k(2)] by (simp add: r)
qed

lemma records_length: "length rs \<le> length (records rs)"
  by (induction rs) (auto simp: records_def save_line_def)

lemma restore_lines_records:
  "restore_lines clean g (Some (records rs)) m = um_put g new_line (fold (\<lambda>(a, l). um_put a (restored clean l)) rs m)"
  using restore_records [OF records_length] by (simp add: restore_lines_def)

text \<open>The records that are written: the valid lines, page by page.\<close>

definition saved_lines :: "hs \<Rightarrow> (nat \<times> cache_line) list" where
  "saved_lines s = concat (map (\<lambda>i. let a = u64 (i * PAGE_SIZE (cfg s)) in
     case um_get (cache s) a of None \<Rightarrow> [] | Some l \<Rightarrow> if cl_valid l then [(a, l)] else []) [0..<CACHE_PAGES (cfg s)])"

lemma saveCacheTable_records:
  "saveCacheTable s = [PAGE_SIZE (cfg s), SET_SIZE (cfg s), CACHE_PAGES (cfg s), TOTAL_PAGES (cfg s)] @ records (saved_lines s)"
proof -
  have "records (concat xss) = concat (map records xss)" for xss by (induction xss) (auto simp: records_def)
  then show ?thesis
    by (auto simp: saveCacheTable_def saved_lines_def Let_def comp_def records_def intro!: arg_cong [where f = concat] map_cong split: option.split)
qed

lemma restore_saved:
  assumes "cfg s0 = cfg s"
  shows "restoreCacheTable True clean g (Some (saveCacheTable s)) s0 =
    Inr (s0\<lparr>cache := um_put g new_line (fold (\<lambda>(a, l). um_put a (restored clean l)) (saved_lines s)
      (if PREFILL_CACHE (cfg s) then prefill_cache (cfg s) (cache s0) else cache s0))\<rparr>)"
  using assms by (simp add: restoreCacheTable_def saveCacheTable_records restore_lines_records Let_def)

lemma fold_put:
  "distinct (map fst rs) \<Longrightarrow> um_get (fold (\<lambda>(a, l). um_put a (h l)) rs m) k =
     (case map_of rs k of None \<Rightarrow> um_get m k | Some l \<Rightarrow> Some (h l))"
proof (induction rs arbitrary: m)
  case (Cons r rs)
  obtain a l where r: "r = (a, l)" by fastforce
  have "map_of rs a = None" using Cons.prems by (simp add: r map_of_eq_None_iff)
  then show ?case using Cons by (auto simp: r um_get_put split: option.split)
qed simp

lemma saved_lines_filter:
  assumes "wf_cfg (cfg s)"
  shows "saved_lines s = map (\<lambda>a. (a, lines s a)) (filter (\<lambda>a. cl_valid (lines s a)) (map (\<lambda>i. i * PAGE_SIZE (cfg s)) [0..<CACHE_PAGES (cfg s)]))"
proof -
  have small: "i * PAGE_SIZE (cfg s) < 2 ^ 64" if "i < CACHE_PAGES (cfg s)" for i
  proof -
    have "i * PAGE_SIZE (cfg s) \<le> TOTAL_PAGES (cfg s) * PAGE_SIZE (cfg s)" using that assms by (intro mult_le_mono1) (simp add: wf_cfg_def)
    moreover have "TOTAL_PAGES (cfg s) * PAGE_SIZE (cfg s) < 2 ^ 64" using assms by (simp add: wf_cfg_def)
    ultimately show ?thesis by (rule le_less_trans)
  qed
  have main: "concat (map f is) = map (\<lambda>a. (a, lines s a)) (filter (\<lambda>a. cl_valid (lines s a)) (map (\<lambda>i. i * PAGE_SIZE (cfg s)) is))"
    if "set is \<subseteq> {..<CACHE_PAGES (cfg s)}" "f = (\<lambda>i. let a = u64 (i * PAGE_SIZE (cfg s)) in
      case um_get (cache s) a of None \<Rightarrow> [] | Some l \<Rightarrow> if cl_valid l then [(a, l)] else [])" for "is" f
    using that(1)
  proof (induction "is")
    case (Cons i "is")
    then have "u64 (i * PAGE_SIZE (cfg s)) = i * PAGE_SIZE (cfg s)" using small by (simp add: u64_id)
    then show ?case using Cons by (auto simp: that(2) Let_def um_at_get new_line_def split: option.splits)
  qed simp
  have sub: "set [0..<CACHE_PAGES (cfg s)] \<subseteq> {..<CACHE_PAGES (cfg s)}" by auto
  show ?thesis unfolding saved_lines_def by (rule main [OF sub refl])
qed

lemma saved_lines_map:
  assumes "wf_cfg (cfg s)"
  shows "distinct (map fst (saved_lines s))"
    and "map_of (saved_lines s) k = (if cl_valid (lines s k) \<and> (\<exists>i<CACHE_PAGES (cfg s). k = i * PAGE_SIZE (cfg s)) then Some (lines s k) else None)"
proof -
  let ?ks = "filter (\<lambda>a. cl_valid (lines s a)) (map (\<lambda>i. i * PAGE_SIZE (cfg s)) [0..<CACHE_PAGES (cfg s)])"
  have "distinct (map (\<lambda>i. i * PAGE_SIZE (cfg s)) [0..<CACHE_PAGES (cfg s)])"
    using assms by (auto simp: distinct_map wf_cfg_def intro!: inj_onI)
  then show "distinct (map fst (saved_lines s))" unfolding saved_lines_filter [OF assms] by (simp add: comp_def)
  have "map_of (map (\<lambda>a. (a, lines s a)) ?ks) k = ((Some \<circ> lines s) |` set ?ks) k" by (simp only: map_of_map_restrict)
  then show "map_of (saved_lines s) k = (if cl_valid (lines s k) \<and> (\<exists>i<CACHE_PAGES (cfg s). k = i * PAGE_SIZE (cfg s)) then Some (lines s k) else None)"
    unfolding saved_lines_filter [OF assms] by (auto simp: restrict_map_def)
qed

lemma restore_get:
  assumes wf: "wf_cfg (cfg s)" and c: "cfg s0 = cfg s" and i: "i < CACHE_PAGES (cfg s)" and v: "cl_valid (lines s (i * PAGE_SIZE (cfg s)))"
    and r: "restoreCacheTable True clean g (Some (saveCacheTable s)) s0 = Inr s1"
  shows "lines s1 (i * PAGE_SIZE (cfg s)) = (if i * PAGE_SIZE (cfg s) = g then new_line else restored clean (lines s (i * PAGE_SIZE (cfg s))))"
proof -
  have "map_of (saved_lines s) (i * PAGE_SIZE (cfg s)) = Some (lines s (i * PAGE_SIZE (cfg s)))"
    using saved_lines_map(2) [OF wf] i v by auto
  then show ?thesis using r fold_put [OF saved_lines_map(1) [OF wf], of "restored clean"]
    by (auto simp: restore_saved [OF c] um_at_get um_get_put)
qed

section \<open>Polling for results\<close>

text \<open>A queue behind an interface: what comes out is what went in, in order.\<close>

locale fifo =
  fixes contents :: "'q \<Rightarrow> 'a list" and push :: "'a \<Rightarrow> 'q \<Rightarrow> 'q" and pop :: "'q \<Rightarrow> 'a option \<times> 'q" and wf :: "'q \<Rightarrow> bool"
  assumes push_contents: "wf q \<Longrightarrow> contents (push x q) = contents q @ [x]"
    and push_wf: "wf q \<Longrightarrow> wf (push x q)"
    and pop_result: "wf q \<Longrightarrow> fst (pop q) = (case contents q of [] \<Rightarrow> None | x # xs \<Rightarrow> Some x)"
    and pop_contents: "wf q \<Longrightarrow> contents (snd (pop q)) = tl (contents q)"
    and pop_wf: "wf q \<Longrightarrow> wf (snd (pop q))"
begin

lemma fold_push: "wf q \<Longrightarrow> wf (fold push xs q) \<and> contents (fold push xs q) = contents q @ xs"
  by (induction xs arbitrary: q) (simp_all add: push_contents push_wf)

lemma pops: "wf q \<Longrightarrow> wf (((snd \<circ> pop) ^^ n) q) \<and> contents (((snd \<circ> pop) ^^ n) q) = drop n (contents q)"
  by (induction n) (auto simp: pop_contents pop_wf drop_Suc tl_drop)

lemma pushed_popped:
  assumes "wf q" "contents q = []"
  shows "fst (pop (((snd \<circ> pop) ^^ n) (fold push xs q))) = (if n < length xs then Some (xs ! n) else None)"
proof -
  have q: "wf (fold push xs q)" "contents (fold push xs q) = xs" using fold_push [OF assms(1), of xs] assms(2) by simp_all
  then show ?thesis using pop_result [of "((snd \<circ> pop) ^^ n) (fold push xs q)"] pops [OF q(1), of n]
    by (auto simp: Cons_nth_drop_Suc [symmetric] split: list.split)
qed

end

text \<open>A completion: system, address, cycle, and whether it was a write.\<close>

type_synonym completion = "nat \<times> nat \<times> nat \<times> bool"

definition complete :: "completion \<Rightarrow> c_callbacks \<Rightarrow> c_callbacks" where
  "complete x b = (case x of (i, a, cyc, w) \<Rightarrow> if w then write_complete i a cyc b else read_complete i a cyc b)"

definition poll :: "c_callbacks \<Rightarrow> completion option \<times> c_callbacks" where
  "poll b = (case get_next_result b of ((found, x), b') \<Rightarrow> (if found then Some x else None, b'))"

definition results :: "c_callbacks \<Rightarrow> completion list" where
  "results b = zip (done_id b) (zip (done_address b) (zip (done_cycle b) (done_isWrite b)))"

definition lists_match :: "c_callbacks \<Rightarrow> bool" where
  "lists_match b \<longleftrightarrow> length (done_address b) = length (done_id b) \<and> length (done_cycle b) = length (done_id b) \<and>
     length (done_isWrite b) = length (done_id b)"

interpretation polled: fifo results complete poll lists_match
proof
  fix b :: c_callbacks and x :: completion
  assume b: "lists_match b"
  show "results (complete x b) = results b @ [x]" "lists_match (complete x b)"
    using b by (auto simp: results_def complete_def lists_match_def read_complete_def write_complete_def split: prod.split)
  show "fst (poll b) = (case results b of [] \<Rightarrow> None | x # xs \<Rightarrow> Some x)" "results (snd (poll b)) = tl (results b)" "lists_match (snd (poll b))"
    using b by (cases "done_id b"; cases "done_address b"; cases "done_cycle b"; cases "done_isWrite b";
        simp add: results_def poll_def get_next_result_def lists_match_def)+
qed

definition no_results :: c_callbacks where
  "no_results = \<lparr>done_id = [], done_address = [], done_cycle = [], done_isWrite = []\<rparr>"

section \<open>Properties\<close>

text \<open>C37. Saving the tag store and restoring it gives every valid line back, unlocked and with
  nothing of its prefetch marks. The one exception is the address \<open>g\<close> that an uninitialised
  variable holds at the end of the file: a blank line is stored there.\<close>

theorem saved_restored:
  assumes "wf_cfg (cfg s)" "cfg s0 = cfg s" "i < CACHE_PAGES (cfg s)" "cl_valid (lines s (i * PAGE_SIZE (cfg s)))"
  shows "\<exists>s1. restoreCacheTable True clean g (Some (saveCacheTable s)) s0 = Inr s1 \<and>
    lines s1 (i * PAGE_SIZE (cfg s)) = (if i * PAGE_SIZE (cfg s) = g then new_line else restored clean (lines s (i * PAGE_SIZE (cfg s))))"
  using restore_saved [OF assms(2), of clean g] restore_get [OF assms(1-4)] by blast

definition dirty_line :: cache_line where
  "dirty_line = new_line\<lparr>cl_valid := True, cl_dirty := True, cl_tag := 3, cl_ts := 7, cl_locked := True, cl_lock_count := 2\<rparr>"

theorem saved_restored_witness:
  "\<exists>s1. restoreCacheTable True False 0 (Some (saveCacheTable ((init_hs small_cfg 0 True True)\<lparr>cache := [(128, dirty_line)]\<rparr>)))
     (init_hs small_cfg 0 True True) = Inr s1 \<and> lines s1 128 = dirty_line\<lparr>cl_locked := False, cl_lock_count := 0\<rparr>"
proof -
  let ?s = "(init_hs small_cfg 0 True True)\<lparr>cache := [(128, dirty_line)]\<rparr>"
  have c: "cfg (init_hs small_cfg 0 True True) = small_cfg" by (simp add: init_hs_def blank_hs_def Let_def)
  have f: "PAGE_SIZE small_cfg = 128" "CACHE_PAGES small_cfg = 4" "wf_cfg small_cfg" using small_cfg_ok by (simp_all add: small_cfg_def cfg_ok_def)
  have l: "um_at new_line [(128, dirty_line)] 128 = dirty_line" by (simp add: um_at_def)
  have "cl_valid dirty_line" "restored False dirty_line = dirty_line\<lparr>cl_locked := False, cl_lock_count := 0\<rparr>"
    by (simp_all add: dirty_line_def restored_def new_line_def)
  moreover have "\<exists>s1. restoreCacheTable True False 0 (Some (saveCacheTable ?s)) (init_hs small_cfg 0 True True) = Inr s1 \<and>
      lines s1 (1 * PAGE_SIZE (cfg ?s)) = (if 1 * PAGE_SIZE (cfg ?s) = 0 then new_line else restored False (lines ?s (1 * PAGE_SIZE (cfg ?s))))"
    by (rule saved_restored) (simp_all add: c f l \<open>cl_valid dirty_line\<close>)
  ultimately show ?thesis by (simp add: c f l)
qed

text \<open>C38. A front end that polls gets each completion once, in the order in which they came.\<close>

theorem results_in_order:
  "fst (poll (((snd \<circ> poll) ^^ n) (fold complete xs no_results))) = (if n < length xs then Some (xs ! n) else None)"
  by (rule polled.pushed_popped) (simp_all add: lists_match_def results_def no_results_def)

end
