(* ===== verification/Dram_Config.thy ===== *)
theory Dram_Config
  imports Sim_Prelude "HOL-Library.Code_Target_Numeral"
begin

text \<open>
  DRAMSim2: the settings of \<open>SystemConfiguration.h\<close>, the delays derived from them, the
  logarithm that sizes the address fields, and the data that controller, command queue and
  ranks exchange.

  Settings and counters of type \<open>unsigned\<close> are natural numbers; a difference of settings
  wraps around below zero (\<open>u32_sub\<close>). The clock is a natural number: it would wrap around
  after \<open>2 ^ 64\<close> cycles. A vector indexed by rank or bank is a function of the index, and
  the indices are shown to be in range (\<open>Dram_Queue\<close>).
\<close>

section \<open>Settings\<close>

definition u32_sub :: "nat \<Rightarrow> nat \<Rightarrow> nat" where
  "u32_sub a b = (a + 2 ^ 32 - b) mod 2 ^ 32"

lemma u32_sub_id: "b \<le> a \<Longrightarrow> a < 2 ^ 32 \<Longrightarrow> u32_sub a b = a - b"
proof -
  assume "b \<le> a" "a < 2 ^ 32"
  then have "u32_sub a b = (2 ^ 32 + (a - b)) mod 2 ^ 32" by (simp add: u32_sub_def add.commute)
  also have "\<dots> = (a - b) mod 2 ^ 32" by (rule mod_add_self1)
  finally show ?thesis using \<open>a < 2 ^ 32\<close> by simp
qed

datatype AddressMappingScheme = Scheme1 | Scheme2 | Scheme3 | Scheme4 | Scheme5 | Scheme6 | Scheme7

datatype RowBufferPolicy = OpenPage | ClosePage

datatype QueuingStructure = PerRank | PerRankPerBank

datatype SchedulingPolicy = RankThenBankRoundRobin | BankThenRankRoundRobin

text \<open>
  \<open>REFRESH_CYCLES\<close> stands for the integral part of \<open>REFRESH_PERIOD/tCK\<close>, \<open>REFRESH_STAGGER\<close>
  for that of \<open>(REFRESH_PERIOD/tCK)/NUM_RANKS\<close>; both quotients are computed in floating point.
\<close>

record dram_cfg =
  NUM_BANKS :: nat
  NUM_RANKS :: nat
  NUM_CHANS :: nat
  NUM_BANKS_LOG :: nat
  NUM_RANKS_LOG :: nat
  NUM_CHANS_LOG :: nat
  NUM_ROWS_LOG :: nat
  NUM_COLS_LOG :: nat
  NUM_COLS :: nat
  NUM_ROWS :: nat
  DEVICE_WIDTH :: nat
  JEDEC_DATA_BUS_BITS :: nat
  BYTE_OFFSET_WIDTH :: nat
  COL_LOW_BIT_WIDTH :: nat
  REFRESH_CYCLES :: nat
  REFRESH_STAGGER :: nat
  CL :: nat
  AL :: nat
  BL :: nat
  tRAS :: nat
  tRCD :: nat
  tRRD :: nat
  tRC :: nat
  tRP :: nat
  tCCD :: nat
  tRTP :: nat
  tWTR :: nat
  tWR :: nat
  tRTRS :: nat
  tRFC :: nat
  tFAW :: nat
  tCKE :: nat
  tXP :: nat
  tCMD :: nat
  IDD0 :: nat
  IDD2P :: nat
  IDD2N :: nat
  IDD3N :: nat
  IDD4W :: nat
  IDD4R :: nat
  IDD5 :: nat
  NUM_DEVICES :: nat
  TRANS_QUEUE_DEPTH :: nat
  CMD_QUEUE_DEPTH :: nat
  EPOCH_LENGTH :: nat
  TOTAL_ROW_ACCESSES :: nat
  USE_LOW_POWER :: bool
  rowBufferPolicy :: RowBufferPolicy
  schedulingPolicy :: SchedulingPolicy
  addressMappingScheme :: AddressMappingScheme
  queuingStructure :: QueuingStructure

text \<open>The device \<open>DDR3_micron_32M_8B_x8_sg15\<close> with the settings of \<open>system.ini\<close> and two ranks.\<close>

definition ddr3_cfg :: dram_cfg where
  "ddr3_cfg = \<lparr>
     NUM_BANKS = 8, NUM_RANKS = 2, NUM_CHANS = 1, NUM_BANKS_LOG = 3, NUM_RANKS_LOG = 1, NUM_CHANS_LOG = 0,
     NUM_ROWS_LOG = 15, NUM_COLS_LOG = 10, NUM_COLS = 1024, NUM_ROWS = 32768, DEVICE_WIDTH = 8, JEDEC_DATA_BUS_BITS = 64,
     BYTE_OFFSET_WIDTH = 3, COL_LOW_BIT_WIDTH = 3,
     REFRESH_CYCLES = 5200, REFRESH_STAGGER = 2600,
     CL = 10, AL = 0, BL = 8, tRAS = 24, tRCD = 10, tRRD = 4, tRC = 34, tRP = 10, tCCD = 4, tRTP = 5, tWTR = 5,
     tWR = 10, tRTRS = 1, tRFC = 107, tFAW = 20, tCKE = 4, tXP = 4, tCMD = 1,
     IDD0 = 130, IDD2P = 10, IDD2N = 70, IDD3N = 90, IDD4W = 300, IDD4R = 255, IDD5 = 305, NUM_DEVICES = 8,
     TRANS_QUEUE_DEPTH = 32, CMD_QUEUE_DEPTH = 32, EPOCH_LENGTH = 100000, TOTAL_ROW_ACCESSES = 4, USE_LOW_POWER = True,
     rowBufferPolicy = OpenPage, schedulingPolicy = RankThenBankRoundRobin, addressMappingScheme = Scheme2,
     queuingStructure = PerRank\<rparr>"

section \<open>Derived delays\<close>

definition RL :: "dram_cfg \<Rightarrow> nat" where
  "RL c = CL c + AL c"

definition WL :: "dram_cfg \<Rightarrow> nat" where
  "WL c = u32_sub (RL c) 1"

definition READ_TO_PRE_DELAY :: "dram_cfg \<Rightarrow> nat" where
  "READ_TO_PRE_DELAY c = u32_sub (AL c + BL c div 2 + max (tRTP c) (tCCD c)) (tCCD c)"

definition WRITE_TO_PRE_DELAY :: "dram_cfg \<Rightarrow> nat" where
  "WRITE_TO_PRE_DELAY c = WL c + BL c div 2 + tWR c"

definition READ_TO_WRITE_DELAY :: "dram_cfg \<Rightarrow> nat" where
  "READ_TO_WRITE_DELAY c = u32_sub (RL c + BL c div 2 + tRTRS c) (WL c)"

definition READ_AUTOPRE_DELAY :: "dram_cfg \<Rightarrow> nat" where
  "READ_AUTOPRE_DELAY c = AL c + tRTP c + tRP c"

definition WRITE_AUTOPRE_DELAY :: "dram_cfg \<Rightarrow> nat" where
  "WRITE_AUTOPRE_DELAY c = WL c + BL c div 2 + tWR c + tRP c"

definition WRITE_TO_READ_DELAY_B :: "dram_cfg \<Rightarrow> nat" where
  "WRITE_TO_READ_DELAY_B c = WL c + BL c div 2 + tWTR c"

definition WRITE_TO_READ_DELAY_R :: "dram_cfg \<Rightarrow> nat" where
  "WRITE_TO_READ_DELAY_R c = u32_sub (WL c + BL c div 2 + tRTRS c) (RL c)"

section \<open>Logarithm\<close>

text \<open>The loop counts the shifts until the value is zero; a remainder rounds up.\<close>

fun log2_loop :: "nat \<Rightarrow> nat \<Rightarrow> nat" where
  "log2_loop v logbase2 = (if v = 0 then logbase2 else log2_loop (v div 2) (Suc logbase2))"

declare log2_loop.simps [simp del]

definition dramsim_log2 :: "nat \<Rightarrow> nat" where
  "dramsim_log2 orig =
     (let logbase2 = log2_loop (orig div 2) 0
      in if (2 ^ logbase2) mod 2 ^ 32 < orig then Suc logbase2 else logbase2)"

text \<open>The argument is an \<open>unsigned long\<close>, of which the logarithm sees the lower 32 bits.\<close>

definition isPowerOfTwo :: "nat \<Rightarrow> bool" where
  "isPowerOfTwo x \<longleftrightarrow> (2 ^ dramsim_log2 (x mod 2 ^ 32)) mod 2 ^ 64 = x"

lemma log2_loop_ge: "k \<le> log2_loop v k"
proof (induction v arbitrary: k rule: less_induct)
  case (less v)
  show ?case
  proof (cases "v = 0")
    case False
    then show ?thesis using less.IH [of "v div 2" "Suc k"] by (simp add: log2_loop.simps [of v])
  qed (simp add: log2_loop.simps)
qed

lemma log2_loop_spec: "0 < v \<Longrightarrow> 2 ^ log2_loop (v div 2) k \<le> v * 2 ^ k \<and> v * 2 ^ k < 2 * 2 ^ log2_loop (v div 2) k"
proof (induction v arbitrary: k rule: less_induct)
  case (less v)
  show ?case
  proof (cases "v div 2 = 0")
    case True
    then have "v = 1" using less.prems by simp
    then show ?thesis by (simp add: log2_loop.simps [of 0])
  next
    case False
    then have IH: "2 ^ log2_loop (v div 2 div 2) (Suc k) \<le> (v div 2) * 2 ^ Suc k"
      "(v div 2) * 2 ^ Suc k < 2 * 2 ^ log2_loop (v div 2 div 2) (Suc k)"
      using less.IH [of "v div 2" "Suc k"] less.prems by auto
    have eq: "log2_loop (v div 2) k = log2_loop (v div 2 div 2) (Suc k)"
      using False by (simp add: log2_loop.simps [of "v div 2"])
    obtain j where j: "log2_loop (v div 2 div 2) (Suc k) = Suc k + j"
      using log2_loop_ge [of "Suc k" "v div 2 div 2"] le_Suc_ex by blast
    have "2 ^ Suc j \<le> 2 * (v div 2)" "v div 2 < 2 ^ Suc j"
      using IH by (simp_all add: j power_add)
    then have "2 ^ Suc j \<le> v" "v < 2 * 2 ^ Suc j" by linarith+
    then show ?thesis by (simp add: eq j power_add)
  qed
qed

lemma dramsim_log2_spec:
  assumes "0 < v" "v < 2 ^ 32"
  shows "v \<le> 2 ^ dramsim_log2 v" "2 ^ dramsim_log2 v < 2 * v" "dramsim_log2 v \<le> 32"
proof -
  define l where "l = log2_loop (v div 2) 0"
  have l: "2 ^ l \<le> v" "v < 2 * 2 ^ l" using log2_loop_spec [OF assms(1), of 0] by (simp_all add: l_def)
  then have "(2 :: nat) ^ l < 2 ^ 32" using assms(2) by linarith
  then have l32: "l < 32" and m: "(2 :: nat) ^ l mod 2 ^ 32 = 2 ^ l"
    using power_less_imp_less_exp [of "2 :: nat" l 32] by auto
  have e: "dramsim_log2 v = (if 2 ^ l < v then Suc l else l)"
    unfolding dramsim_log2_def Let_def l_def [symmetric] m ..
  show "v \<le> 2 ^ dramsim_log2 v" "2 ^ dramsim_log2 v < 2 * v" "dramsim_log2 v \<le> 32"
    using l l32 assms(1) by (auto simp: e)
qed

lemma isPowerOfTwo_iff:
  assumes "x < 2 ^ 32"
  shows "isPowerOfTwo x \<longleftrightarrow> (\<exists>k. x = 2 ^ k)"
proof (cases "x = 0")
  case True
  have "dramsim_log2 0 = 0" by (simp add: dramsim_log2_def log2_loop.simps)
  then show ?thesis using True by (simp add: isPowerOfTwo_def)
next
  case False
  then have x: "0 < x" by simp
  note S = dramsim_log2_spec [OF x assms]
  have "(2 :: nat) ^ dramsim_log2 x < 2 ^ 64"
    using S(3) by (intro power_strict_increasing) auto
  then have e: "isPowerOfTwo x \<longleftrightarrow> 2 ^ dramsim_log2 x = x"
    using assms by (simp add: isPowerOfTwo_def)
  show ?thesis
  proof
    assume "\<exists>k. x = 2 ^ k"
    then obtain k where k: "x = 2 ^ k" ..
    have "k \<le> dramsim_log2 x" using S(1) k by simp
    moreover have "2 ^ dramsim_log2 x < (2 :: nat) ^ Suc k" using S(2) k by simp
    then have "dramsim_log2 x < Suc k" by (rule power_less_imp_less_exp [rotated]) simp
    ultimately show "isPowerOfTwo x" using e k by simp
  qed (use e in metis)
qed

section \<open>Packets, transactions and bank states\<close>

datatype BusPacketType = READ | READ_P | WRITE | WRITE_P | ACTIVATE | PRECHARGE | REFRESH | DATA

text \<open>The data pointer is left out: the repository builds with \<open>NO_STORAGE\<close>.\<close>

record BusPacket =
  busPacketType :: BusPacketType
  column :: nat
  row :: nat
  bank :: nat
  rank :: nat
  physicalAddress :: nat

definition mkBusPacket :: "BusPacketType \<Rightarrow> nat \<Rightarrow> nat \<Rightarrow> nat \<Rightarrow> nat \<Rightarrow> nat \<Rightarrow> BusPacket" where
  "mkBusPacket packtype physicalAddr col rw r b =
     \<lparr>busPacketType = packtype, column = col, row = rw, bank = b, rank = r, physicalAddress = physicalAddr\<rparr>"

datatype CurrentBankState = Idle | RowActive | Precharging | Refreshing | PowerDown

record BankState =
  currentBankState :: CurrentBankState
  openRowAddress :: nat
  nextRead :: nat
  nextWrite :: nat
  nextActivate :: nat
  nextPrecharge :: nat
  nextPowerUp :: nat
  lastCommand :: BusPacketType
  stateChangeCountdown :: nat

definition newBankState :: BankState where
  "newBankState = \<lparr>currentBankState = Idle, openRowAddress = 0, nextRead = 0, nextWrite = 0, nextActivate = 0,
     nextPrecharge = 0, nextPowerUp = 0, lastCommand = READ, stateChangeCountdown = 0\<rparr>"

text \<open>The transactions of DRAMSim2; the names are marked because the hybrid memory has its own.\<close>

datatype dTransactionType = D_DATA_READ | D_DATA_WRITE | D_RETURN_DATA

record dTransaction =
  dtransactionType :: dTransactionType
  daddress :: nat
  timeAdded :: nat

definition mkdTransaction :: "dTransactionType \<Rightarrow> nat \<Rightarrow> dTransaction" where
  "mkdTransaction ty addr = \<lparr>dtransactionType = ty, daddress = addr, timeAdded = 0\<rparr>"

datatype derr =
    No_Packet_Type            \<comment> \<open>\<open>getBusPacketType\<close>: no packet for this transaction\<close>
  | Queue_Overflow            \<comment> \<open>\<open>enqueue\<close>: more than allowed in command queue\<close>
  | Crazy_Packet              \<comment> \<open>\<open>isIssuable\<close>, controller: packet type that cannot be issued\<close>
  | Not_Data                  \<comment> \<open>controller received a packet that is not data\<close>
  | Data_Bus_Collision
  | Command_Bus_Collision
  | No_Matching_Read          \<comment> \<open>no pending read for returned data\<close>
  | Rank_Not_Allowed BusPacketType \<comment> \<open>rank received a command when not allowed\<close>
  | Power_Down_Not_Idle
  | Power_Up_Not_Down
  | Power_Up_Too_Early
  | Column_Out_Of_Bounds
  | Channels_Not_Power_Of_Two
  | Channel_Out_Of_Range
  | Memory_Not_Power_Of_Two   \<comment> \<open>constructor: please specify a power of 2 memory size\<close>
  | Zero_Channels
  | Division_By_Zero          \<comment> \<open>an integer division by zero traps\<close>
  | No_Ini_File               \<comment> \<open>unable to load ini file\<close>
  | Malformed_Line            \<comment> \<open>settings file: missing equals\<close>
  | Key_Not_Set               \<comment> \<open>settings file: a numeric key is missing\<close>
  | Endless_Loop              \<comment> \<open>a loop over ranks and banks that does not come back to its start\<close>

fun getBusPacketType :: "dram_cfg \<Rightarrow> dTransaction \<Rightarrow> derr + BusPacketType" where
  "getBusPacketType c t = (case dtransactionType t of
       D_DATA_READ \<Rightarrow> (case rowBufferPolicy c of ClosePage \<Rightarrow> Inr READ_P | OpenPage \<Rightarrow> Inr READ)
     | D_DATA_WRITE \<Rightarrow> (case rowBufferPolicy c of ClosePage \<Rightarrow> Inr WRITE_P | OpenPage \<Rightarrow> Inr WRITE)
     | D_RETURN_DATA \<Rightarrow> Inl No_Packet_Type)"

end
