(* ===== verification/Dram_Queue.thy ===== *)
theory Dram_Queue
  imports Dram_Config
begin

text \<open>
  \<open>CommandQueue.cpp\<close>: the queues of commands per rank, or per rank and bank, and the choice
  of the next command under the close-page and the open-page policy. The state table of the
  banks belongs to the controller and is an argument. Shown: the rounds over ranks and banks
  end; only commands that the state table allows are issued; a command leaves the queue
  exactly when it is issued, apart from activations of rows that are open already; a queue
  never overflows when room was checked; at most four activations fall into a window.
\<close>

section \<open>State\<close>

type_synonym bank_table = "nat \<Rightarrow> nat \<Rightarrow> BankState"

record CommandQueue =
  queues :: "nat \<Rightarrow> nat \<Rightarrow> BusPacket list"
  nextBank :: nat
  nextRank :: nat
  nextBankPRE :: nat
  nextRankPRE :: nat
  refreshRank :: nat
  refreshWaiting :: bool
  tFAWCountdown :: "nat \<Rightarrow> nat list"
  rowAccessCounters :: "nat \<Rightarrow> nat \<Rightarrow> nat"
  sendAct :: bool
  cq_clock :: nat

definition newCommandQueue :: CommandQueue where
  "newCommandQueue = \<lparr>queues = (\<lambda>r b. []), nextBank = 0, nextRank = 0, nextBankPRE = 0, nextRankPRE = 0,
     refreshRank = 0, refreshWaiting = False, tFAWCountdown = (\<lambda>r. []), rowAccessCounters = (\<lambda>r b. 0),
     sendAct = True, cq_clock = 0\<rparr>"

definition upd2 :: "nat \<Rightarrow> nat \<Rightarrow> 'a \<Rightarrow> (nat \<Rightarrow> nat \<Rightarrow> 'a) \<Rightarrow> nat \<Rightarrow> nat \<Rightarrow> 'a" where
  "upd2 i j x f = f(i := (f i)(j := x))"

lemma upd2_apply [simp]: "upd2 i j x f k l = (if k = i \<and> l = j then x else f k l)"
  by (simp add: upd2_def)

section \<open>Operations\<close>

text \<open>Which queue of a rank holds the commands of a bank.\<close>

definition queue_index :: "dram_cfg \<Rightarrow> nat \<Rightarrow> nat" where
  "queue_index c b = (case queuingStructure c of PerRankPerBank \<Rightarrow> b | PerRank \<Rightarrow> 0)"

definition getCommandQueue :: "dram_cfg \<Rightarrow> nat \<Rightarrow> nat \<Rightarrow> CommandQueue \<Rightarrow> BusPacket list" where
  "getCommandQueue c r b cq = queues cq r (queue_index c b)"

definition setCommandQueue :: "dram_cfg \<Rightarrow> nat \<Rightarrow> nat \<Rightarrow> BusPacket list \<Rightarrow> CommandQueue \<Rightarrow> CommandQueue" where
  "setCommandQueue c r b q cq = cq\<lparr>queues := upd2 r (queue_index c b) q (queues cq)\<rparr>"

definition enqueue :: "dram_cfg \<Rightarrow> BusPacket \<Rightarrow> CommandQueue \<Rightarrow> derr + CommandQueue" where
  "enqueue c newBusPacket cq =
     (let q = getCommandQueue c (rank newBusPacket) (bank newBusPacket) cq @ [newBusPacket]
      in if CMD_QUEUE_DEPTH c < length q then Inl Queue_Overflow
         else Inr (setCommandQueue c (rank newBusPacket) (bank newBusPacket) q cq))"

definition hasRoomFor :: "dram_cfg \<Rightarrow> nat \<Rightarrow> nat \<Rightarrow> nat \<Rightarrow> CommandQueue \<Rightarrow> bool" where
  "hasRoomFor c numberToEnqueue r b cq \<longleftrightarrow>
     numberToEnqueue \<le> u64_sub (CMD_QUEUE_DEPTH c) (length (getCommandQueue c r b cq))"

definition isIssuable :: "dram_cfg \<Rightarrow> bank_table \<Rightarrow> CommandQueue \<Rightarrow> BusPacket \<Rightarrow> derr + bool" where
  "isIssuable c bs cq p =
     (let s = bs (rank p) (bank p); now = cq_clock cq in
      case busPacketType p of
        REFRESH \<Rightarrow> Inr False
      | ACTIVATE \<Rightarrow> Inr ((currentBankState s = Idle \<or> currentBankState s = Refreshing) \<and> nextActivate s \<le> now \<and>
                        length (tFAWCountdown cq (rank p)) < 4)
      | WRITE \<Rightarrow> Inr (currentBankState s = RowActive \<and> nextWrite s \<le> now \<and> row p = openRowAddress s \<and>
                     rowAccessCounters cq (rank p) (bank p) < TOTAL_ROW_ACCESSES c)
      | WRITE_P \<Rightarrow> Inr (currentBankState s = RowActive \<and> nextWrite s \<le> now \<and> row p = openRowAddress s \<and>
                       rowAccessCounters cq (rank p) (bank p) < TOTAL_ROW_ACCESSES c)
      | READ_P \<Rightarrow> Inr (currentBankState s = RowActive \<and> nextRead s \<le> now \<and> row p = openRowAddress s \<and>
                      rowAccessCounters cq (rank p) (bank p) < TOTAL_ROW_ACCESSES c)
      | READ \<Rightarrow> Inr (currentBankState s = RowActive \<and> nextRead s \<le> now \<and> row p = openRowAddress s \<and>
                    rowAccessCounters cq (rank p) (bank p) < TOTAL_ROW_ACCESSES c)
      | PRECHARGE \<Rightarrow> Inr (currentBankState s = RowActive \<and> nextPrecharge s \<le> now)
      | DATA \<Rightarrow> Inl Crazy_Packet)"

definition isEmpty :: "dram_cfg \<Rightarrow> nat \<Rightarrow> CommandQueue \<Rightarrow> bool" where
  "isEmpty c r cq = (case queuingStructure c of
       PerRank \<Rightarrow> queues cq r 0 = []
     | PerRankPerBank \<Rightarrow> (\<forall>i \<in> set [0..<NUM_BANKS c]. queues cq r i = []))"

definition needRefresh :: "nat \<Rightarrow> CommandQueue \<Rightarrow> CommandQueue" where
  "needRefresh r cq = cq\<lparr>refreshWaiting := True, refreshRank := r\<rparr>"

definition nextRankAndBank :: "dram_cfg \<Rightarrow> nat \<times> nat \<Rightarrow> nat \<times> nat" where
  "nextRankAndBank c = (\<lambda>(r, b).
     case schedulingPolicy c of
       RankThenBankRoundRobin \<Rightarrow>
         (if r + 1 = NUM_RANKS c then (0, if b + 1 = NUM_BANKS c then 0 else b + 1) else (r + 1, b))
     | BankThenRankRoundRobin \<Rightarrow>
         (if b + 1 = NUM_BANKS c then (if r + 1 = NUM_RANKS c then 0 else r + 1, 0) else (r, b + 1)))"

section \<open>Choosing a command\<close>

definition remove_nth :: "nat \<Rightarrow> 'a list \<Rightarrow> 'a list" where
  "remove_nth i xs = take i xs @ drop (Suc i) xs"

text \<open>Sliding window of activations: the counters run down and the first is dropped at zero.\<close>

definition tick_tFAW :: "dram_cfg \<Rightarrow> CommandQueue \<Rightarrow> CommandQueue" where
  "tick_tFAW c cq = cq\<lparr>tFAWCountdown := (\<lambda>i.
     if i < NUM_RANKS c
     then let xs = map (\<lambda>x. u32_sub x 1) (tFAWCountdown cq i)
          in if xs \<noteq> [] \<and> hd xs = 0 then tl xs else xs
     else tFAWCountdown cq i)\<rparr>"

text \<open>The first command of a queue that may be issued and is not to be skipped.\<close>

fun first_issuable :: "(BusPacket \<Rightarrow> derr + bool) \<Rightarrow> (nat \<Rightarrow> bool) \<Rightarrow> BusPacket list \<Rightarrow> nat list \<Rightarrow> derr + nat option" where
  "first_issuable iss skip q [] = Inr None"
| "first_issuable iss skip q (i # js) =
     bindR (iss (q ! i)) (\<lambda>ok. if ok \<and> \<not> skip i then Inr (Some i) else first_issuable iss skip q js)"

subsection \<open>Rounds\<close>

text \<open>
  One step of the round over the queues and the test that ends it. A round is at most as
  long as there are queues; \<open>Endless_Loop\<close> stands for one that does not come back to its
  start, which is shown not to happen.
\<close>

definition advance :: "dram_cfg \<Rightarrow> CommandQueue \<Rightarrow> CommandQueue" where
  "advance c cq = (case queuingStructure c of
       PerRank \<Rightarrow> cq\<lparr>nextRank := (nextRank cq + 1) mod NUM_RANKS c\<rparr>
     | PerRankPerBank \<Rightarrow> (let (r, b) = nextRankAndBank c (nextRank cq, nextBank cq) in cq\<lparr>nextRank := r, nextBank := b\<rparr>))"

definition back_at :: "dram_cfg \<Rightarrow> nat \<Rightarrow> nat \<Rightarrow> CommandQueue \<Rightarrow> bool" where
  "back_at c startingRank startingBank cq = (case queuingStructure c of
       PerRank \<Rightarrow> startingRank = nextRank cq
     | PerRankPerBank \<Rightarrow> startingRank = nextRank cq \<and> startingBank = nextBank cq)"

fun round_robin :: "nat \<Rightarrow> dram_cfg \<Rightarrow> (CommandQueue \<Rightarrow> derr + (BusPacket \<times> CommandQueue) option) \<Rightarrow> nat \<Rightarrow> nat
    \<Rightarrow> CommandQueue \<Rightarrow> derr + BusPacket option \<times> CommandQueue" where
  "round_robin 0 c try_queue startingRank startingBank cq = Inl Endless_Loop"
| "round_robin (Suc n) c try_queue startingRank startingBank cq =
     bindR (try_queue cq) (\<lambda>res. case res of
         Some (p, cq') \<Rightarrow> Inr (Some p, cq')
       | None \<Rightarrow> (let cq' = advance c cq
                 in if back_at c startingRank startingBank cq' then Inr (None, cq')
                    else round_robin n c try_queue startingRank startingBank cq'))"

definition run_round :: "dram_cfg \<Rightarrow> (CommandQueue \<Rightarrow> derr + (BusPacket \<times> CommandQueue) option) \<Rightarrow> CommandQueue
    \<Rightarrow> derr + BusPacket option \<times> CommandQueue" where
  "run_round c try_queue cq = round_robin (NUM_RANKS c * NUM_BANKS c) c try_queue (nextRank cq) (nextBank cq) cq"

subsection \<open>Close page\<close>

definition paired_activate :: "BusPacket list \<Rightarrow> nat \<Rightarrow> bool" where
  "paired_activate q i \<longleftrightarrow> 0 < i \<and> busPacketType (q ! (i - 1)) = ACTIVATE \<and> physicalAddress (q ! (i - 1)) = physicalAddress (q ! i)"

definition close_try :: "dram_cfg \<Rightarrow> bank_table \<Rightarrow> CommandQueue \<Rightarrow> derr + (BusPacket \<times> CommandQueue) option" where
  "close_try c bs cq =
     (let r = nextRank cq; b = nextBank cq; q = getCommandQueue c r b cq in
      if q \<noteq> [] \<and> \<not> (r = refreshRank cq \<and> refreshWaiting cq) then
        (case queuingStructure c of
           PerRank \<Rightarrow>
             bindR (first_issuable (isIssuable c bs cq) (paired_activate q) q [0..<length q]) (\<lambda>res. case res of
                 None \<Rightarrow> Inr None
               | Some i \<Rightarrow> Inr (Some (q ! i, setCommandQueue c r b (remove_nth i q) cq)))
         | PerRankPerBank \<Rightarrow>
             bindR (isIssuable c bs cq (q ! 0)) (\<lambda>ok.
               Inr (if ok then Some (q ! 0, setCommandQueue c r b (tl q) cq) else None)))
      else Inr None)"

text \<open>
  Before a refresh the open bank is served until nothing goes to its row. The result says
  whether a bank is open or too early, and which command was taken.
\<close>

fun close_refresh :: "dram_cfg \<Rightarrow> bank_table \<Rightarrow> CommandQueue \<Rightarrow> nat list \<Rightarrow> derr + bool \<times> (BusPacket \<times> CommandQueue) option" where
  "close_refresh c bs cq [] = Inr (False, None)"
| "close_refresh c bs cq (b # banks) =
     (let r = refreshRank cq; q = getCommandQueue c r b cq in
      if currentBankState (bs r b) = RowActive then
        (case find (\<lambda>j. row (q ! j) = openRowAddress (bs r b) \<and> bank (q ! j) = b) [0..<length q] of
           None \<Rightarrow> Inr (True, None)
         | Some j \<Rightarrow>
             if busPacketType (q ! j) \<noteq> ACTIVATE then
               bindR (isIssuable c bs cq (q ! j)) (\<lambda>ok.
                 Inr (True, if ok then Some (q ! j, setCommandQueue c r b (remove_nth j q) cq) else None))
             else Inr (True, None))
      else if cq_clock cq < nextActivate (bs r b) then Inr (True, None)
      else close_refresh c bs cq banks)"

text \<open>The refresh command; the rank pointer becomes the largest \<open>unsigned\<close>.\<close>

definition send_refresh :: "CommandQueue \<Rightarrow> BusPacket \<times> CommandQueue" where
  "send_refresh cq = (mkBusPacket REFRESH 0 0 0 (refreshRank cq) 0, cq\<lparr>refreshRank := 2 ^ 32 - 1, refreshWaiting := False\<rparr>)"

definition pop_close :: "dram_cfg \<Rightarrow> bank_table \<Rightarrow> CommandQueue \<Rightarrow> derr + BusPacket option \<times> CommandQueue" where
  "pop_close c bs cq =
     bindR (if refreshWaiting cq
            then bindR (close_refresh c bs cq [0..<NUM_BANKS c]) (\<lambda>(found, taken).
              case taken of
                Some x \<Rightarrow> Inr (Some x)
              | None \<Rightarrow> if \<not> found \<and> currentBankState (bs (refreshRank cq) 0) \<noteq> PowerDown
                       then Inr (Some (send_refresh cq)) else Inr None)
            else Inr None) (\<lambda>sent.
       case sent of
         Some (p, cq') \<Rightarrow> Inr (Some p, cq')
       | None \<Rightarrow> run_round c (close_try c bs) cq)"

subsection \<open>Open page\<close>

definition dependency :: "BusPacket list \<Rightarrow> nat \<Rightarrow> bool" where
  "dependency q i \<longleftrightarrow> (\<exists>j \<in> set [0..<i]. busPacketType (q ! j) \<noteq> ACTIVATE \<and> bank (q ! j) = bank (q ! i) \<and> row (q ! j) = row (q ! i))"

text \<open>A column access leaves together with the activation in front of it.\<close>

definition open_take :: "dram_cfg \<Rightarrow> nat \<Rightarrow> nat \<Rightarrow> nat \<Rightarrow> CommandQueue \<Rightarrow> BusPacket \<times> CommandQueue" where
  "open_take c r b i cq =
     (let q = getCommandQueue c r b cq; p = q ! i in
      if 0 < i \<and> busPacketType (q ! (i - 1)) = ACTIVATE
      then (p, setCommandQueue c r b (take (i - 1) q @ drop (i + 1) q)
             (cq\<lparr>rowAccessCounters := upd2 (rank p) (bank p) (rowAccessCounters cq (rank p) (bank p) + 1) (rowAccessCounters cq)\<rparr>))
      else (p, setCommandQueue c r b (remove_nth i q) cq))"

definition open_try :: "dram_cfg \<Rightarrow> bank_table \<Rightarrow> CommandQueue \<Rightarrow> derr + (BusPacket \<times> CommandQueue) option" where
  "open_try c bs cq =
     (let r = nextRank cq; b = nextBank cq; q = getCommandQueue c r b cq in
      if q \<noteq> [] \<and> \<not> (r = refreshRank cq \<and> refreshWaiting cq) then
        bindR (first_issuable (isIssuable c bs cq) (dependency q) q [0..<length q]) (\<lambda>res. case res of
            None \<Rightarrow> Inr None
          | Some i \<Rightarrow> Inr (Some (open_take c r b i cq)))
      else Inr None)"

text \<open>
  Before a refresh the open bank is served or closed. The result says whether the refresh
  can go, and which command was taken.
\<close>

fun open_refresh :: "dram_cfg \<Rightarrow> bank_table \<Rightarrow> CommandQueue \<Rightarrow> nat list \<Rightarrow> derr + bool \<times> (BusPacket \<times> CommandQueue) option" where
  "open_refresh c bs cq [] = Inr (True, None)"
| "open_refresh c bs cq (b # banks) =
     (let r = refreshRank cq; q = getCommandQueue c r b cq;
          close_row = (if nextPrecharge (bs r b) \<le> cq_clock cq
            then Some (mkBusPacket PRECHARGE 0 0 0 r b, cq\<lparr>rowAccessCounters := upd2 r b 0 (rowAccessCounters cq)\<rparr>) else None) in
      if currentBankState (bs r b) = RowActive then
        (case find (\<lambda>j. openRowAddress (bs r b) = row (q ! j) \<and> b = bank (q ! j)) [0..<length q] of
           None \<Rightarrow> Inr (False, close_row)
         | Some j \<Rightarrow>
             if busPacketType (q ! j) \<noteq> ACTIVATE then
               bindR (isIssuable c bs cq (q ! j)) (\<lambda>ok.
                 Inr (False, if ok then Some (q ! j, setCommandQueue c r b (remove_nth j q) cq) else None))
             else Inr (False, close_row))
      else if cq_clock cq < nextActivate (bs r b) then Inr (False, None)
      else open_refresh c bs cq banks)"

text \<open>Nothing to issue: close a row that nothing goes to, or that was used often enough.\<close>

fun pre_round :: "nat \<Rightarrow> dram_cfg \<Rightarrow> bank_table \<Rightarrow> nat \<times> nat \<Rightarrow> CommandQueue \<Rightarrow> derr + BusPacket option \<times> CommandQueue" where
  "pre_round 0 c bs start cq = Inl Endless_Loop"
| "pre_round (Suc n) c bs start cq =
     (let r = nextRankPRE cq; b = nextBankPRE cq; q = getCommandQueue c r b cq;
          found = (\<exists>p \<in> set q. bank p = b \<and> row p = openRowAddress (bs r b)) in
      if currentBankState (bs r b) = RowActive \<and> (\<not> found \<or> rowAccessCounters cq r b = TOTAL_ROW_ACCESSES c) \<and>
         nextPrecharge (bs r b) \<le> cq_clock cq
      then Inr (Some (mkBusPacket PRECHARGE 0 0 0 r b), cq\<lparr>rowAccessCounters := upd2 r b 0 (rowAccessCounters cq)\<rparr>)
      else let (r', b') = nextRankAndBank c (r, b);
               cq' = cq\<lparr>nextRankPRE := r', nextBankPRE := b'\<rparr>
           in if start = (r', b') then Inr (None, cq') else pre_round n c bs start cq')"

definition pop_open :: "dram_cfg \<Rightarrow> bank_table \<Rightarrow> CommandQueue \<Rightarrow> derr + BusPacket option \<times> CommandQueue" where
  "pop_open c bs cq =
     bindR (if refreshWaiting cq
            then bindR (open_refresh c bs cq [0..<NUM_BANKS c]) (\<lambda>(sendREF, taken).
              case taken of
                Some x \<Rightarrow> Inr (Some x)
              | None \<Rightarrow> if sendREF \<and> currentBankState (bs (refreshRank cq) 0) \<noteq> PowerDown
                       then Inr (Some (send_refresh cq)) else Inr None)
            else Inr None) (\<lambda>sent.
       case sent of
         Some (p, cq') \<Rightarrow> Inr (Some p, cq')
       | None \<Rightarrow> bindR (run_round c (open_try c bs) cq) (\<lambda>(res, cq').
           case res of
             Some p \<Rightarrow> Inr (Some p, cq')
           | None \<Rightarrow> pre_round (NUM_RANKS c * NUM_BANKS c) c bs (nextRankPRE cq', nextBankPRE cq') cq'))"

subsection \<open>The next command\<close>

text \<open>After a command was found: move on unless its column access is to follow, and count activations.\<close>

definition after_pop :: "dram_cfg \<Rightarrow> BusPacket \<Rightarrow> CommandQueue \<Rightarrow> CommandQueue" where
  "after_pop c p cq =
     (let cq1 = (if 0 < AL c \<and> sendAct cq then cq\<lparr>sendAct := False\<rparr>
                 else let (r, b) = nextRankAndBank c (nextRank cq, nextBank cq)
                      in cq\<lparr>sendAct := True, nextRank := r, nextBank := b\<rparr>)
      in if busPacketType p = ACTIVATE
         then cq1\<lparr>tFAWCountdown := (tFAWCountdown cq1)(rank p := tFAWCountdown cq1 (rank p) @ [tFAW c])\<rparr>
         else cq1)"

definition pop :: "dram_cfg \<Rightarrow> bank_table \<Rightarrow> CommandQueue \<Rightarrow> derr + BusPacket option \<times> CommandQueue" where
  "pop c bs cq0 =
     (let cq = tick_tFAW c cq0 in
      bindR (case rowBufferPolicy c of ClosePage \<Rightarrow> pop_close c bs cq | OpenPage \<Rightarrow> pop_open c bs cq) (\<lambda>(res, cq').
        case res of
          None \<Rightarrow> Inr (None, cq')
        | Some p \<Rightarrow> Inr (Some p, after_pop c p cq')))"

section \<open>Well-formed queues\<close>

text \<open>The commands that wait in the queues, and those that are issued, under each policy.\<close>

definition cmd_types :: "dram_cfg \<Rightarrow> BusPacketType set" where
  "cmd_types c = (case rowBufferPolicy c of OpenPage \<Rightarrow> {ACTIVATE, READ, WRITE} | ClosePage \<Rightarrow> {ACTIVATE, READ_P, WRITE_P})"

definition issue_types :: "dram_cfg \<Rightarrow> BusPacketType set" where
  "issue_types c = (case rowBufferPolicy c of
       OpenPage \<Rightarrow> {ACTIVATE, READ, WRITE, PRECHARGE, REFRESH} | ClosePage \<Rightarrow> {ACTIVATE, READ_P, WRITE_P, REFRESH})"

lemma cmd_types_issue: "ty \<in> cmd_types c \<Longrightarrow> ty \<in> issue_types c \<and> ty \<noteq> REFRESH \<and> ty \<noteq> PRECHARGE \<and> ty \<noteq> DATA"
  by (auto simp: cmd_types_def issue_types_def split: RowBufferPolicy.splits)

definition packet_ok :: "dram_cfg \<Rightarrow> nat \<Rightarrow> nat \<Rightarrow> BusPacket \<Rightarrow> bool" where
  "packet_ok c r i p \<longleftrightarrow> rank p = r \<and> r < NUM_RANKS c \<and> bank p < NUM_BANKS c \<and> queue_index c (bank p) = i \<and>
     busPacketType p \<in> cmd_types c"

definition queue_cfg :: "dram_cfg \<Rightarrow> bool" where
  "queue_cfg c \<longleftrightarrow> 0 < NUM_RANKS c \<and> 0 < NUM_BANKS c \<and> CMD_QUEUE_DEPTH c < 2 ^ 64"

definition queues_ok :: "dram_cfg \<Rightarrow> (nat \<Rightarrow> nat \<Rightarrow> BusPacket list) \<Rightarrow> bool" where
  "queues_ok c qs \<longleftrightarrow> (\<forall>r i. \<forall>p \<in> set (qs r i). packet_ok c r i p) \<and> (\<forall>r i. length (qs r i) \<le> CMD_QUEUE_DEPTH c)"

definition cq_wf :: "dram_cfg \<Rightarrow> CommandQueue \<Rightarrow> bool" where
  "cq_wf c cq \<longleftrightarrow> queue_cfg c \<and> nextRank cq < NUM_RANKS c \<and> nextBank cq < NUM_BANKS c \<and>
     nextRankPRE cq < NUM_RANKS c \<and> nextBankPRE cq < NUM_BANKS c \<and>
     (refreshWaiting cq \<longrightarrow> refreshRank cq < NUM_RANKS c) \<and> queues_ok c (queues cq)"

lemma cq_wfD:
  assumes "cq_wf c cq"
  shows "queue_cfg c" "nextRank cq < NUM_RANKS c" "nextBank cq < NUM_BANKS c" "nextRankPRE cq < NUM_RANKS c"
    "nextBankPRE cq < NUM_BANKS c" "refreshWaiting cq \<Longrightarrow> refreshRank cq < NUM_RANKS c" "queues_ok c (queues cq)"
    "0 < NUM_RANKS c" "0 < NUM_BANKS c"
  using assms by (auto simp: cq_wf_def queue_cfg_def)

lemma new_queue_wf: "queue_cfg c \<Longrightarrow> cq_wf c newCommandQueue"
  by (simp add: cq_wf_def newCommandQueue_def queues_ok_def queue_cfg_def)

lemma queue_index_less: "queue_cfg c \<Longrightarrow> b < NUM_BANKS c \<Longrightarrow> queue_index c b < NUM_BANKS c"
  by (simp add: queue_index_def queue_cfg_def split: QueuingStructure.split)

lemma queues_ok_sub:
  assumes "queues_ok c qs" "set q \<subseteq> set (qs r i)" "length q \<le> length (qs r i)"
  shows "queues_ok c (upd2 r i q qs)"
proof -
  have "packet_ok c x y p" if "p \<in> set (upd2 r i q qs x y)" for x y p
    using that assms(1,2) by (auto simp: queues_ok_def upd2_def split: if_splits)
  moreover have "length (upd2 r i q qs x y) \<le> CMD_QUEUE_DEPTH c" for x y
    using assms(1,3) by (auto simp: queues_ok_def upd2_def intro: le_trans)
  ultimately show ?thesis by (auto simp: queues_ok_def)
qed

section \<open>Rounds end\<close>

text \<open>The position of a rank and bank in the order of the scheduling policy.\<close>

definition rr_index :: "dram_cfg \<Rightarrow> nat \<times> nat \<Rightarrow> nat" where
  "rr_index c = (\<lambda>(r, b). case schedulingPolicy c of
       RankThenBankRoundRobin \<Rightarrow> b * NUM_RANKS c + r
     | BankThenRankRoundRobin \<Rightarrow> r * NUM_BANKS c + b)"

definition rr_valid :: "dram_cfg \<Rightarrow> nat \<times> nat \<Rightarrow> bool" where
  "rr_valid c = (\<lambda>(r, b). r < NUM_RANKS c \<and> b < NUM_BANKS c)"

lemma mixed_less:
  assumes "r < (R :: nat)" "b < B"
  shows "b * R + r < R * B"
proof -
  have "b * R + r < Suc b * R" using assms(1) by simp
  also have "\<dots> \<le> B * R" using assms(2) by (intro mult_le_mono1) simp
  finally show ?thesis by (simp add: mult.commute)
qed

lemma mixed_inj: "r < (R :: nat) \<Longrightarrow> r' < R \<Longrightarrow> b * R + r = b' * R + r' \<Longrightarrow> b = b' \<and> r = r'"
proof -
  assume r: "r < R" "r' < R" and eq: "b * R + r = b' * R + r'"
  have "(b * R + r) div R = b" "(b' * R + r') div R = b'" using r by auto
  then have "b = b'" using eq by simp
  then show ?thesis using eq by simp
qed

lemma mixed_succ:
  assumes "r < (R :: nat)" "b < B"
  shows "(if r + 1 = R then (if b + 1 = B then 0 else b + 1) * R + 0 else b * R + (r + 1)) = (b * R + r + 1) mod (R * B)"
proof (cases "r + 1 = R")
  case True
  show ?thesis
  proof (cases "b + 1 = B")
    case B: True
    have "b * R + r + 1 = b * R + 1 * R" using True by linarith
    also have "\<dots> = (b + 1) * R" by (rule distrib_right [symmetric])
    finally have "b * R + r + 1 = R * B" unfolding B by (simp only: mult.commute)
    then show ?thesis using True B by simp
  next
    case False
    then have "b + 1 < B" using assms by simp
    then have "(b + 1) * R + 0 < R * B" using mixed_less [of 0 R "b + 1" B] True by simp
    then show ?thesis using True False by (simp add: add.commute add.left_commute)
  qed
next
  case False
  then have "b * R + (r + 1) < R * B" using mixed_less [of "r + 1" R b B] assms by simp
  then show ?thesis using False by simp
qed

interpretation rr_circle: circle "nextRankAndBank c" "rr_index c" "NUM_RANKS c * NUM_BANKS c" "rr_valid c" for c
proof (unfold_locales, goal_cases)
  case (1 x)
  then show ?case
    using mixed_less [of "fst x" "NUM_RANKS c" "snd x" "NUM_BANKS c"] mixed_less [of "snd x" "NUM_BANKS c" "fst x" "NUM_RANKS c"]
    by (auto simp: rr_index_def rr_valid_def mult.commute split: prod.splits SchedulingPolicy.split)
next
  case (2 x y)
  then show ?case
    using mixed_inj [of "fst x" "NUM_RANKS c" "fst y" "snd x" "snd y"] mixed_inj [of "snd x" "NUM_BANKS c" "snd y" "fst x" "fst y"]
    by (auto simp: rr_index_def rr_valid_def split: prod.splits SchedulingPolicy.splits)
next
  case (3 x)
  then show ?case by (auto simp: nextRankAndBank_def rr_valid_def split: prod.splits SchedulingPolicy.split)
next
  case (4 x)
  then have v: "fst x < NUM_RANKS c" "snd x < NUM_BANKS c" by (auto simp: rr_valid_def split: prod.splits)
  show ?case
    using mixed_succ [OF v] mixed_succ [OF v(2,1)]
    by (auto simp: nextRankAndBank_def rr_index_def mult.commute split: prod.splits SchedulingPolicy.split if_splits)
qed

interpretation rank_circle: circle "\<lambda>r. (r + 1) mod NUM_RANKS c" id "NUM_RANKS c" "\<lambda>r. r < NUM_RANKS c" for c
  by unfold_locales auto

section \<open>Taking a command\<close>

definition is_col :: "BusPacket \<Rightarrow> bool" where
  "is_col p \<longleftrightarrow> busPacketType p \<in> {READ, READ_P, WRITE, WRITE_P}"

definition cols :: "BusPacket list \<Rightarrow> BusPacket multiset" where
  "cols q = filter_mset is_col (mset q)"

definition col_of :: "BusPacket \<Rightarrow> BusPacket multiset" where
  "col_of p = (if is_col p then {#p#} else {#})"

definition waiting_cols :: "dram_cfg \<Rightarrow> CommandQueue \<Rightarrow> BusPacket multiset" where
  "waiting_cols c cq = (\<Sum>r<NUM_RANKS c. \<Sum>i<NUM_BANKS c. cols (queues cq r i))"

text \<open>What the state table allows; a refresh needs every bank of the rank closed and rested.\<close>

definition cmd_ok :: "dram_cfg \<Rightarrow> bank_table \<Rightarrow> CommandQueue \<Rightarrow> BusPacket \<Rightarrow> bool" where
  "cmd_ok c bs cq p \<longleftrightarrow> rank p < NUM_RANKS c \<and> bank p < NUM_BANKS c \<and> busPacketType p \<in> issue_types c \<and>
     (if busPacketType p = REFRESH
      then refreshWaiting cq \<and> rank p = refreshRank cq \<and> currentBankState (bs (rank p) 0) \<noteq> PowerDown \<and>
        (\<forall>b<NUM_BANKS c. currentBankState (bs (rank p) b) \<noteq> RowActive \<and> nextActivate (bs (rank p) b) \<le> cq_clock cq)
      else isIssuable c bs cq p = Inr True)"

definition taken :: "dram_cfg \<Rightarrow> CommandQueue \<Rightarrow> BusPacket \<Rightarrow> CommandQueue \<Rightarrow> bool" where
  "taken c cq p cq' \<longleftrightarrow> waiting_cols c cq = waiting_cols c cq' + col_of p \<and> queues_ok c (queues cq') \<and>
     (\<forall>r i. length (queues cq' r i) \<le> length (queues cq r i))"

text \<open>Rounds move the pointers; the window, the clock and the refresh request stay.\<close>

definition kept :: "CommandQueue \<Rightarrow> CommandQueue \<Rightarrow> bool" where
  "kept cq cq' \<longleftrightarrow> tFAWCountdown cq' = tFAWCountdown cq \<and> cq_clock cq' = cq_clock cq \<and> sendAct cq' = sendAct cq"

definition found :: "dram_cfg \<Rightarrow> bank_table \<Rightarrow> CommandQueue \<Rightarrow> BusPacket \<Rightarrow> CommandQueue \<Rightarrow> bool" where
  "found c bs cq p cq' \<longleftrightarrow> cq_wf c cq' \<and> cmd_ok c bs cq p \<and> taken c cq p cq' \<and> kept cq cq' \<and>
     (if busPacketType p = REFRESH then \<not> refreshWaiting cq'
      else refreshWaiting cq' = refreshWaiting cq \<and> refreshRank cq' = refreshRank cq)"

lemma remove_nth_mset: "i < length xs \<Longrightarrow> mset xs = add_mset (xs ! i) (mset (remove_nth i xs))"
  by (metis remove_nth_def id_take_nth_drop mset.simps(2) mset_append union_mset_add_mset_right)

lemma remove_nth_facts:
  assumes "i < length xs"
  shows "set (remove_nth i xs) \<subseteq> set xs" "length (remove_nth i xs) \<le> length xs"
    "cols xs = cols (remove_nth i xs) + col_of (xs ! i)"
  using assms remove_nth_mset [OF assms]
  by (auto simp: remove_nth_def cols_def col_of_def dest: in_set_takeD in_set_dropD)

lemma remove_two_facts:
  assumes "0 < i" "i < length xs" "busPacketType (xs ! (i - 1)) = ACTIVATE"
  shows "set (take (i - 1) xs @ drop (i + 1) xs) \<subseteq> set xs" "length (take (i - 1) xs @ drop (i + 1) xs) \<le> length xs"
    "cols xs = cols (take (i - 1) xs @ drop (i + 1) xs) + col_of (xs ! i)"
proof -
  have "take i xs = take (i - 1) xs @ [xs ! (i - 1)]" using assms by (cases i) (auto simp: take_Suc_conv_app_nth)
  then have "xs = take (i - 1) xs @ [xs ! (i - 1)] @ xs ! i # drop (i + 1) xs"
    using assms(2) by (metis Suc_eq_plus1 append.assoc id_take_nth_drop)
  then have "mset xs = mset (take (i - 1) xs @ [xs ! (i - 1)] @ xs ! i # drop (i + 1) xs)" by (rule arg_cong)
  then have "cols xs = filter_mset is_col (mset (take (i - 1) xs @ [xs ! (i - 1)] @ xs ! i # drop (i + 1) xs))"
    by (simp only: cols_def)
  then show "cols xs = cols (take (i - 1) xs @ drop (i + 1) xs) + col_of (xs ! i)"
    using assms(3) by (simp add: cols_def col_of_def is_col_def)
qed (use assms in \<open>auto dest: in_set_takeD in_set_dropD\<close>)

lemma waiting_cols_upd:
  assumes "r < NUM_RANKS c" "i < NUM_BANKS c" "cols (queues cq r i) = cols q + X" "queues cq' = upd2 r i q (queues cq)"
  shows "waiting_cols c cq = waiting_cols c cq' + X"
proof -
  have in_row: "(\<Sum>i<NUM_BANKS c. cols (queues cq r i)) = (\<Sum>i<NUM_BANKS c. cols (queues cq' r i)) + X"
    using assms sum.remove [of "{..<NUM_BANKS c}" i "\<lambda>i. cols (queues cq r i)"]
      sum.remove [of "{..<NUM_BANKS c}" i "\<lambda>i. cols (queues cq' r i)"] by (simp add: add_ac)
  have other: "(\<Sum>i<NUM_BANKS c. cols (queues cq' s i)) = (\<Sum>i<NUM_BANKS c. cols (queues cq s i))" if "s \<noteq> r" for s
    using that assms(4) by simp
  show ?thesis
    using assms(1) in_row other sum.remove [of "{..<NUM_RANKS c}" r "\<lambda>r. \<Sum>i<NUM_BANKS c. cols (queues cq r i)"]
      sum.remove [of "{..<NUM_RANKS c}" r "\<lambda>r. \<Sum>i<NUM_BANKS c. cols (queues cq' r i)"]
    by (simp add: waiting_cols_def add_ac)
qed

lemma queue_packets:
  assumes "cq_wf c cq" "p \<in> set (getCommandQueue c r b cq)"
  shows "packet_ok c r (queue_index c b) p"
  using assms by (auto simp: cq_wf_def queues_ok_def getCommandQueue_def)

lemma issuable_ok:
  assumes "busPacketType p \<in> cmd_types c"
  shows "okR (isIssuable c bs cq p) (\<lambda>ok. True)"
  using cmd_types_issue [OF assms] by (cases "busPacketType p") (auto simp: isIssuable_def Let_def)

text \<open>A queue with a packet taken out.\<close>

lemma take_found:
  assumes wf: "cq_wf c cq" and r: "r < NUM_RANKS c" "b < NUM_BANKS c" and q: "q = getCommandQueue c r b cq"
    and p: "p \<in> set q" and iss: "isIssuable c bs cq p = Inr True" and sub: "set q' \<subseteq> set q" "length q' \<le> length q"
    and cols: "cols q = cols q' + col_of p"
    and cq1: "queues cq1 = queues cq" "cq_wf c cq1" "kept cq cq1" "refreshWaiting cq1 = refreshWaiting cq"
      "refreshRank cq1 = refreshRank cq"
  shows "found c bs cq p (setCommandQueue c r b q' cq1)"
proof -
  let ?cq' = "setCommandQueue c r b q' cq1"
  have pk: "packet_ok c r (queue_index c b) p" using queue_packets [OF wf] p q by simp
  have ok: "queues_ok c (upd2 r (queue_index c b) q' (queues cq))"
    using queues_ok_sub cq_wfD(7) [OF wf] sub q by (simp add: getCommandQueue_def)
  have w: "waiting_cols c cq = waiting_cols c ?cq' + col_of p"
    using waiting_cols_upd [of r c "queue_index c b" cq q' "col_of p" ?cq'] r queue_index_less [OF cq_wfD(1) [OF wf]] cols q
    by (simp add: setCommandQueue_def getCommandQueue_def cq1)
  have len: "length (queues ?cq' x y) \<le> length (queues cq x y)" for x y
    using sub q by (auto simp: setCommandQueue_def getCommandQueue_def cq1)
  have "cq_wf c ?cq'" using cq1 ok by (simp add: cq_wf_def setCommandQueue_def)
  moreover have "kept cq ?cq'" using cq1 by (simp add: kept_def setCommandQueue_def)
  moreover have ty: "busPacketType p \<in> issue_types c" "busPacketType p \<noteq> REFRESH"
    using pk cmd_types_issue by (auto simp: packet_ok_def)
  moreover have "cmd_ok c bs cq p" using pk iss ty by (auto simp: cmd_ok_def packet_ok_def)
  ultimately show ?thesis using w ok len cq1 by (simp add: found_def taken_def setCommandQueue_def)
qed

lemma first_issuable_ok:
  assumes "\<forall>i \<in> set js. okR (iss (q ! i)) (\<lambda>ok. True)"
  shows "okR (first_issuable iss skip q js) (\<lambda>res. case res of
      None \<Rightarrow> \<forall>i \<in> set js. iss (q ! i) = Inr True \<longrightarrow> skip i
    | Some i \<Rightarrow> i \<in> set js \<and> iss (q ! i) = Inr True \<and> \<not> skip i)"
  using assms
proof (induction js)
  case (Cons i js)
  obtain ok where ok: "iss (q ! i) = Inr ok" using Cons.prems by (cases "iss (q ! i)") auto
  show ?case
  proof (cases "ok \<and> \<not> skip i")
    case False
    have "okR (first_issuable iss skip q js) (\<lambda>res. case res of
      None \<Rightarrow> \<forall>i \<in> set js. iss (q ! i) = Inr True \<longrightarrow> skip i
    | Some i \<Rightarrow> i \<in> set js \<and> iss (q ! i) = Inr True \<and> \<not> skip i)" using Cons by simp
    then obtain res where "first_issuable iss skip q js = Inr res" "case res of
      None \<Rightarrow> \<forall>i \<in> set js. iss (q ! i) = Inr True \<longrightarrow> skip i
    | Some i \<Rightarrow> i \<in> set js \<and> iss (q ! i) = Inr True \<and> \<not> skip i" unfolding okR_iff by blast
    then show ?thesis using False ok by (auto split: option.splits)
  qed (simp add: ok)
qed simp

lemma queue_issuable_ok:
  assumes "cq_wf c cq" "i < length (getCommandQueue c r b cq)"
  shows "okR (isIssuable c bs cq (getCommandQueue c r b cq ! i)) (\<lambda>ok. True)"
  using issuable_ok queue_packets [OF assms(1) nth_mem [OF assms(2)]] by (simp add: packet_ok_def)

lemma queue_first:
  assumes "cq_wf c cq" "q = getCommandQueue c r b cq"
  obtains res where "first_issuable (isIssuable c bs cq) skip q [0..<length q] = Inr res"
    "case res of None \<Rightarrow> \<forall>i<length q. isIssuable c bs cq (q ! i) = Inr True \<longrightarrow> skip i
     | Some i \<Rightarrow> i < length q \<and> isIssuable c bs cq (q ! i) = Inr True \<and> \<not> skip i"
proof -
  have "\<forall>i \<in> set [0..<length q]. okR (isIssuable c bs cq (q ! i)) (\<lambda>ok. True)"
    using queue_issuable_ok [OF assms(1)] assms(2) by auto
  from first_issuable_ok [OF this, of skip] show ?thesis
    by (auto simp: okR_iff intro!: that split: option.splits)
qed

definition try_post :: "dram_cfg \<Rightarrow> bank_table \<Rightarrow> CommandQueue \<Rightarrow> (BusPacket \<times> CommandQueue) option \<Rightarrow> bool" where
  "try_post c bs cq res = (case res of None \<Rightarrow> True | Some (p, cq') \<Rightarrow> found c bs cq p cq')"

lemma kept_refl [simp]: "kept cq cq"
  by (simp add: kept_def)

lemma take_one_found:
  assumes "cq_wf c cq" "r < NUM_RANKS c" "b < NUM_BANKS c" "i < length (getCommandQueue c r b cq)"
    "isIssuable c bs cq (getCommandQueue c r b cq ! i) = Inr True"
  shows "found c bs cq (getCommandQueue c r b cq ! i) (setCommandQueue c r b (remove_nth i (getCommandQueue c r b cq)) cq)"
  by (rule take_found) (use assms remove_nth_facts [OF assms(4)] in auto)

lemma close_try_ok:
  assumes wf: "cq_wf c cq"
  shows "okR (close_try c bs cq) (try_post c bs cq)"
proof (cases "getCommandQueue c (nextRank cq) (nextBank cq) cq \<noteq> [] \<and> \<not> (nextRank cq = refreshRank cq \<and> refreshWaiting cq)")
  case True
  let ?q = "getCommandQueue c (nextRank cq) (nextBank cq) cq"
  note one = take_one_found [OF wf cq_wfD(2,3) [OF wf]]
  show ?thesis
  proof (cases "queuingStructure c")
    case PerRank
    from queue_first [OF wf refl, of bs "paired_activate ?q" "nextRank cq" "nextBank cq"] show ?thesis
    proof cases
      case (1 res)
      then show ?thesis using True PerRank one by (auto simp: close_try_def Let_def try_post_def split: option.splits)
    qed
  next
    case PerRankPerBank
    have q: "0 < length ?q" using True by simp
    obtain ok where "isIssuable c bs cq (?q ! 0) = Inr ok" using queue_issuable_ok [OF wf q] by (auto simp: okR_iff)
    moreover have "tl ?q = remove_nth 0 ?q" by (simp add: remove_nth_def drop_Suc)
    ultimately show ?thesis using True PerRankPerBank one [OF q] by (simp add: close_try_def Let_def try_post_def)
  qed
qed (auto simp: close_try_def Let_def try_post_def)

lemma open_take_found:
  assumes wf: "cq_wf c cq" and "r < NUM_RANKS c" "b < NUM_BANKS c" "i < length (getCommandQueue c r b cq)"
    "isIssuable c bs cq (getCommandQueue c r b cq ! i) = Inr True"
  shows "case open_take c r b i cq of (p, cq') \<Rightarrow> found c bs cq p cq'"
proof (cases "0 < i \<and> busPacketType (getCommandQueue c r b cq ! (i - 1)) = ACTIVATE")
  case True
  let ?q = "getCommandQueue c r b cq" let ?p = "?q ! i"
  let ?cq1 = "cq\<lparr>rowAccessCounters := upd2 (rank ?p) (bank ?p) (rowAccessCounters cq (rank ?p) (bank ?p) + 1) (rowAccessCounters cq)\<rparr>"
  note two = remove_two_facts [of i ?q]
  have "found c bs cq ?p (setCommandQueue c r b (take (i - 1) ?q @ drop (i + 1) ?q) ?cq1)"
    by (rule take_found) (use assms True two in \<open>auto simp: cq_wf_def kept_def\<close>)
  then show ?thesis using True by (simp add: open_take_def Let_def)
next
  case False
  then show ?thesis using take_one_found [OF assms] by (auto simp: open_take_def Let_def)
qed

lemma open_try_ok:
  assumes wf: "cq_wf c cq"
  shows "okR (open_try c bs cq) (try_post c bs cq)"
proof (cases "getCommandQueue c (nextRank cq) (nextBank cq) cq \<noteq> [] \<and> \<not> (nextRank cq = refreshRank cq \<and> refreshWaiting cq)")
  case True
  let ?q = "getCommandQueue c (nextRank cq) (nextBank cq) cq"
  note one = open_take_found [OF wf cq_wfD(2,3) [OF wf]]
  from queue_first [OF wf refl, of bs "dependency ?q" "nextRank cq" "nextBank cq"] show ?thesis
  proof cases
    case (1 res)
    then show ?thesis using True one by (auto simp: open_try_def Let_def try_post_def split: option.splits)
  qed
qed (auto simp: open_try_def Let_def try_post_def)

subsection \<open>Before a refresh\<close>

lemma find_index:
  assumes "find P [0..<n] = Some j"
  shows "j < n" "P j"
  using assms by (auto simp: find_Some_iff)

definition refresh_post :: "dram_cfg \<Rightarrow> bank_table \<Rightarrow> CommandQueue \<Rightarrow> nat list \<Rightarrow> bool \<Rightarrow> (BusPacket \<times> CommandQueue) option \<Rightarrow> bool" where
  "refresh_post c bs cq banks ready res \<longleftrightarrow> try_post c bs cq res \<and>
     (ready \<longrightarrow> res = None \<and>
        (\<forall>b \<in> set banks. currentBankState (bs (refreshRank cq) b) \<noteq> RowActive \<and> nextActivate (bs (refreshRank cq) b) \<le> cq_clock cq))"

lemma close_refresh_ok:
  assumes wf: "cq_wf c cq" and w: "refreshWaiting cq"
  shows "\<forall>b \<in> set banks. b < NUM_BANKS c \<Longrightarrow>
    okR (close_refresh c bs cq banks) (\<lambda>(found_act, res). refresh_post c bs cq banks (\<not> found_act) res)"
proof (induction banks)
  case (Cons b banks)
  let ?r = "refreshRank cq" let ?q = "getCommandQueue c ?r b cq"
  have b: "b < NUM_BANKS c" using Cons.prems by simp
  show ?case
  proof (cases "currentBankState (bs ?r b) = RowActive")
    case True
    show ?thesis
    proof (cases "find (\<lambda>j. row (?q ! j) = openRowAddress (bs ?r b) \<and> bank (?q ! j) = b) [0..<length ?q]")
      case None
      then show ?thesis using True by (simp add: Let_def refresh_post_def try_post_def)
    next
      case (Some j)
      have j: "j < length ?q" using find_index [OF Some] by simp
      obtain ok where "isIssuable c bs cq (?q ! j) = Inr ok" using queue_issuable_ok [OF wf j] by (auto simp: okR_iff)
      then show ?thesis using True Some take_one_found [OF wf cq_wfD(6) [OF wf w] b j, of bs]
        by (simp add: Let_def refresh_post_def try_post_def)
    qed
  next
    case False
    have "okR (close_refresh c bs cq banks) (\<lambda>(found_act, res). refresh_post c bs cq banks (\<not> found_act) res)" using Cons by simp
    then show ?thesis using False by (auto simp: Let_def refresh_post_def try_post_def okR_iff)
  qed
qed (simp add: refresh_post_def try_post_def)

lemma precharge_found:
  assumes wf: "cq_wf c cq" and "rowBufferPolicy c = OpenPage" "r < NUM_RANKS c" "b < NUM_BANKS c" "currentBankState (bs r b) = RowActive"
    "nextPrecharge (bs r b) \<le> cq_clock cq"
  shows "found c bs cq (mkBusPacket PRECHARGE 0 0 0 r b) (cq\<lparr>rowAccessCounters := upd2 r b 0 (rowAccessCounters cq)\<rparr>)"
  using assms by (simp add: found_def cmd_ok_def taken_def kept_def cq_wf_def mkBusPacket_def isIssuable_def waiting_cols_def
      col_of_def is_col_def issue_types_def)

lemma open_refresh_ok:
  assumes wf: "cq_wf c cq" and w: "refreshWaiting cq" and pol: "rowBufferPolicy c = OpenPage"
  shows "\<forall>b \<in> set banks. b < NUM_BANKS c \<Longrightarrow>
    okR (open_refresh c bs cq banks) (\<lambda>(sendREF, res). refresh_post c bs cq banks sendREF res)"
proof (induction banks)
  case (Cons b banks)
  let ?r = "refreshRank cq" let ?q = "getCommandQueue c ?r b cq"
  have b: "b < NUM_BANKS c" using Cons.prems by simp
  note pre = precharge_found [OF wf pol cq_wfD(6) [OF wf w] b, of bs]
  show ?case
  proof (cases "currentBankState (bs ?r b) = RowActive")
    case True
    show ?thesis
    proof (cases "find (\<lambda>j. openRowAddress (bs ?r b) = row (?q ! j) \<and> b = bank (?q ! j)) [0..<length ?q]")
      case None
      then show ?thesis using True pre by (simp add: Let_def refresh_post_def try_post_def)
    next
      case (Some j)
      have j: "j < length ?q" using find_index [OF Some] by simp
      obtain ok where "isIssuable c bs cq (?q ! j) = Inr ok" using queue_issuable_ok [OF wf j] by (auto simp: okR_iff)
      then show ?thesis using True Some take_one_found [OF wf cq_wfD(6) [OF wf w] b j, of bs] pre
        by (simp add: Let_def refresh_post_def try_post_def)
    qed
  next
    case False
    have "okR (open_refresh c bs cq banks) (\<lambda>(sendREF, res). refresh_post c bs cq banks sendREF res)" using Cons by simp
    then show ?thesis using False by (auto simp: Let_def refresh_post_def try_post_def okR_iff)
  qed
qed (simp add: refresh_post_def try_post_def)

lemma send_refresh_found:
  assumes wf: "cq_wf c cq" and "refreshWaiting cq" "refresh_post c bs cq [0..<NUM_BANKS c] True res"
    "currentBankState (bs (refreshRank cq) 0) \<noteq> PowerDown"
  shows "case send_refresh cq of (p, cq') \<Rightarrow> found c bs cq p cq'"
  using assms by (auto simp: send_refresh_def found_def cmd_ok_def taken_def kept_def cq_wf_def mkBusPacket_def waiting_cols_def
      col_of_def is_col_def refresh_post_def queue_cfg_def issue_types_def split: RowBufferPolicy.split)

subsection \<open>Whole rounds\<close>

definition place :: "nat \<times> nat \<Rightarrow> CommandQueue \<Rightarrow> CommandQueue" where
  "place x cq = cq\<lparr>nextRank := fst x, nextBank := snd x\<rparr>"

definition pos :: "CommandQueue \<Rightarrow> nat \<times> nat" where
  "pos cq = (nextRank cq, nextBank cq)"

lemma place_simps [simp]: "place x (place y cq) = place x cq" "pos (place x cq) = x" "place (pos cq) cq = cq"
  by (simp_all add: place_def pos_def)

definition adv_pos :: "dram_cfg \<Rightarrow> nat \<times> nat \<Rightarrow> nat \<times> nat" where
  "adv_pos c x = (case queuingStructure c of PerRank \<Rightarrow> ((fst x + 1) mod NUM_RANKS c, snd x) | PerRankPerBank \<Rightarrow> nextRankAndBank c x)"

definition pos_index :: "dram_cfg \<Rightarrow> nat \<times> nat \<Rightarrow> nat" where
  "pos_index c x = (case queuingStructure c of PerRank \<Rightarrow> fst x | PerRankPerBank \<Rightarrow> rr_index c x)"

definition pos_count :: "dram_cfg \<Rightarrow> nat" where
  "pos_count c = (case queuingStructure c of PerRank \<Rightarrow> NUM_RANKS c | PerRankPerBank \<Rightarrow> NUM_RANKS c * NUM_BANKS c)"

text \<open>With one queue per rank the bank pointer does not move in a round.\<close>

definition pos_valid :: "dram_cfg \<Rightarrow> nat \<Rightarrow> nat \<times> nat \<Rightarrow> bool" where
  "pos_valid c b x \<longleftrightarrow> rr_valid c x \<and> (queuingStructure c = PerRank \<longrightarrow> snd x = b)"

interpretation pos_circle: circle "adv_pos c" "pos_index c" "pos_count c" "pos_valid c b" for c b
proof (unfold_locales, goal_cases)
  case (1 x)
  then show ?case using rr_circle.idx_less [of c x]
    by (cases "queuingStructure c") (auto simp: pos_index_def pos_count_def pos_valid_def rr_valid_def split: prod.splits)
next
  case (2 x y)
  then show ?case using rr_circle.idx_inj [of c x y]
    by (cases "queuingStructure c") (auto simp: pos_index_def pos_valid_def rr_valid_def prod_eq_iff split: prod.splits)
next
  case (3 x)
  then show ?case using rr_circle.valid_succ [of c x]
    by (cases "queuingStructure c") (auto simp: adv_pos_def pos_valid_def rr_valid_def split: prod.splits)
next
  case (4 x)
  then show ?case using rr_circle.idx_succ [of c x]
    by (cases "queuingStructure c") (auto simp: adv_pos_def pos_index_def pos_count_def pos_valid_def)
qed

lemma advance_place: "advance c (place x cq) = place (adv_pos c x) cq"
  by (simp add: advance_def adv_pos_def place_def split: QueuingStructure.split prod.split)

lemma back_at_place: "pos_valid c (snd y) x \<Longrightarrow> back_at c (fst y) (snd y) (place x cq) \<longleftrightarrow> x = y"
  by (auto simp: back_at_def place_def pos_valid_def prod_eq_iff split: QueuingStructure.split)

lemma round_robin_ok:
  assumes try_ok: "\<And>x. rr_valid c x \<Longrightarrow> okR (try_queue (place x cq)) (\<lambda>res. case res of None \<Rightarrow> True | Some (p, cq') \<Rightarrow> Q p cq')"
    and s: "pos_valid c (snd s) s"
  shows "pos_valid c (snd s) x \<Longrightarrow> togo (pos_index c) (pos_count c) s x \<le> n \<Longrightarrow>
    okR (round_robin n c try_queue (fst s) (snd s) (place x cq)) (\<lambda>(res, cq'). case res of
        None \<Rightarrow> (\<exists>y. rr_valid c y \<and> cq' = place y cq) \<and>
          (\<forall>y. pos_valid c (snd s) y \<and> togo (pos_index c) (pos_count c) s y \<le> togo (pos_index c) (pos_count c) s x \<longrightarrow>
             try_queue (place y cq) = Inr None)
      | Some p \<Rightarrow> Q p cq')"
proof (induction n arbitrary: x)
  case 0
  then show ?case using pos_circle.togo_bounds [of c "snd s" x s] by simp
next
  case (Suc n)
  let ?t = "togo (pos_index c) (pos_count c) s"
  have v: "rr_valid c x" using Suc.prems(1) by (simp add: pos_valid_def)
  note nv = pos_circle.valid_succ [OF Suc.prems(1)]
  obtain res where res: "try_queue (place x cq) = Inr res" "case res of None \<Rightarrow> True | Some (p, cq') \<Rightarrow> Q p cq'"
    using try_ok [OF v] by (auto simp: okR_iff)
  show ?case
  proof (cases res)
    case (Some pc)
    then show ?thesis using res by (cases pc) simp
  next
    case None
    show ?thesis
    proof (cases "adv_pos c x = s")
      case True
      have "y = x" if "pos_valid c (snd s) y" "?t y \<le> ?t x" for y
      proof -
        have "?t x = 1" using pos_circle.togo_last [OF Suc.prems(1) s True] .
        then have "?t y = ?t x" using that(2) pos_circle.togo_bounds [OF that(1), of s] by simp
        then show ?thesis using pos_circle.togo_inj [OF that(1) Suc.prems(1) s] by simp
      qed
      then have "try_queue (place y cq) = Inr None" if "pos_valid c (snd s) y" "?t y \<le> ?t x" for y
        using that res None by metis
      moreover have "rr_valid c (adv_pos c x)" using nv by (simp add: pos_valid_def)
      moreover have "\<exists>y. rr_valid c y \<and> place (adv_pos c x) cq = place y cq" using calculation(2) by blast
      ultimately show ?thesis using res None True back_at_place [OF nv, of cq]
        by (simp add: advance_place Let_def)
    next
      case False
      have t: "?t x = Suc (?t (adv_pos c x))" using pos_circle.togo_succ [OF s Suc.prems(1) False] .
      have "y = x \<or> ?t y \<le> ?t (adv_pos c x)" if "pos_valid c (snd s) y" "?t y \<le> ?t x" for y
        using that t pos_circle.togo_inj [OF that(1) Suc.prems(1) s] by fastforce
      then have here: "try_queue (place y cq) = Inr None"
        if "pos_valid c (snd s) y" "?t y \<le> ?t x"
          "\<forall>y. pos_valid c (snd s) y \<and> ?t y \<le> ?t (adv_pos c x) \<longrightarrow> try_queue (place y cq) = Inr None" for y
        using that res(1) None by blast
      have eq: "round_robin (Suc n) c try_queue (fst s) (snd s) (place x cq) =
          round_robin n c try_queue (fst s) (snd s) (place (adv_pos c x) cq)"
        using res None False back_at_place [OF nv, of cq] by (simp add: advance_place)
      have n: "?t (adv_pos c x) \<le> n" using Suc.prems(2) t by simp
      show ?thesis unfolding eq
        by (rule okR_mono [OF Suc.IH [OF nv n]]) (use here in \<open>clarsimp split: option.splits\<close>)
    qed
  qed
qed

lemma run_round_ok:
  assumes try_ok: "\<And>x. rr_valid c x \<Longrightarrow> okR (try_queue (place x cq)) (\<lambda>res. case res of None \<Rightarrow> True | Some (p, cq') \<Rightarrow> Q p cq')"
    and wf: "cq_wf c cq"
  shows "okR (run_round c try_queue cq) (\<lambda>(res, cq'). case res of
        None \<Rightarrow> (\<exists>y. rr_valid c y \<and> cq' = place y cq) \<and>
          (\<forall>y. pos_valid c (nextBank cq) y \<longrightarrow> try_queue (place y cq) = Inr None)
      | Some p \<Rightarrow> Q p cq')"
proof -
  have s: "pos_valid c (snd (pos cq)) (pos cq)" using cq_wfD [OF wf] by (simp add: pos_valid_def rr_valid_def pos_def)
  have "pos_count c \<le> NUM_RANKS c * NUM_BANKS c"
    using cq_wfD(9) [OF wf] by (simp add: pos_count_def split: QueuingStructure.split)
  then have n: "togo (pos_index c) (pos_count c) (pos cq) (pos cq) \<le> NUM_RANKS c * NUM_BANKS c"
    by (simp add: pos_circle.togo_start [OF s])
  have all: "togo (pos_index c) (pos_count c) (pos cq) y \<le> togo (pos_index c) (pos_count c) (pos cq) (pos cq)"
    if "pos_valid c (snd (pos cq)) y" for y
    using pos_circle.togo_bounds [OF that] pos_circle.togo_start [OF s] by simp
  have "okR (round_robin (NUM_RANKS c * NUM_BANKS c) c try_queue (fst (pos cq)) (snd (pos cq)) (place (pos cq) cq))
      (\<lambda>(res, cq'). case res of
        None \<Rightarrow> (\<exists>y. rr_valid c y \<and> cq' = place y cq) \<and>
          (\<forall>y. pos_valid c (snd (pos cq)) y \<and> togo (pos_index c) (pos_count c) (pos cq) y
               \<le> togo (pos_index c) (pos_count c) (pos cq) (pos cq) \<longrightarrow> try_queue (place y cq) = Inr None)
      | Some p \<Rightarrow> Q p cq')"
    by (rule round_robin_ok) (use try_ok s n in auto)
  then have "okR (run_round c try_queue cq) (\<lambda>(res, cq'). case res of
        None \<Rightarrow> (\<exists>y. rr_valid c y \<and> cq' = place y cq) \<and>
          (\<forall>y. pos_valid c (snd (pos cq)) y \<and> togo (pos_index c) (pos_count c) (pos cq) y
               \<le> togo (pos_index c) (pos_count c) (pos cq) (pos cq) \<longrightarrow> try_queue (place y cq) = Inr None)
      | Some p \<Rightarrow> Q p cq')" by (simp add: run_round_def) (simp add: pos_def)
  then show ?thesis
    by (rule okR_mono) (use all in \<open>auto simp: pos_def split: option.splits\<close>)
qed

lemma place_wf: "cq_wf c cq \<Longrightarrow> rr_valid c x \<Longrightarrow> cq_wf c (place x cq)"
  by (auto simp: cq_wf_def place_def rr_valid_def split: prod.splits)

lemma issuable_same:
  assumes "cq_clock cq' = cq_clock cq" "tFAWCountdown cq' = tFAWCountdown cq" "rowAccessCounters cq' = rowAccessCounters cq"
  shows "isIssuable c bs cq' p = isIssuable c bs cq p"
  using assms by (cases "busPacketType p") (simp_all add: isIssuable_def)

lemma issuable_place: "isIssuable c bs (place x cq) p = isIssuable c bs cq p"
  by (rule issuable_same) (simp_all add: place_def)

lemma found_same:
  assumes "cq_clock cq1 = cq_clock cq" "tFAWCountdown cq1 = tFAWCountdown cq" "rowAccessCounters cq1 = rowAccessCounters cq"
    "queues cq1 = queues cq" "refreshRank cq1 = refreshRank cq" "refreshWaiting cq1 = refreshWaiting cq" "sendAct cq1 = sendAct cq"
  shows "found c bs cq1 p cq' \<longleftrightarrow> found c bs cq p cq'"
proof -
  have "cmd_ok c bs cq1 p \<longleftrightarrow> cmd_ok c bs cq p" using issuable_same [of cq1 cq] assms by (simp add: cmd_ok_def)
  then show ?thesis using assms by (simp add: found_def taken_def kept_def waiting_cols_def)
qed

lemma found_place: "found c bs (place x cq) p cq' \<longleftrightarrow> found c bs cq p cq'"
  by (rule found_same) (simp_all add: place_def)

definition pop_post :: "dram_cfg \<Rightarrow> bank_table \<Rightarrow> CommandQueue \<Rightarrow> BusPacket option \<times> CommandQueue \<Rightarrow> bool" where
  "pop_post c bs cq = (\<lambda>(res, cq'). case res of
       None \<Rightarrow> cq_wf c cq' \<and> kept cq cq' \<and> queues cq' = queues cq \<and> refreshWaiting cq' = refreshWaiting cq \<and>
         refreshRank cq' = refreshRank cq
     | Some p \<Rightarrow> found c bs cq p cq')"

lemma post_same:
  assumes "cq_clock cq1 = cq_clock cq" "tFAWCountdown cq1 = tFAWCountdown cq" "rowAccessCounters cq1 = rowAccessCounters cq"
    "queues cq1 = queues cq" "refreshRank cq1 = refreshRank cq" "refreshWaiting cq1 = refreshWaiting cq" "sendAct cq1 = sendAct cq"
  shows "pop_post c bs cq1 = pop_post c bs cq"
  using assms found_same [OF assms] by (auto simp: pop_post_def kept_def fun_eq_iff split: option.splits)

lemma pre_round_ok:
  assumes "rr_valid c s" and pol: "rowBufferPolicy c = OpenPage"
  shows "cq_wf c cq \<Longrightarrow> togo (rr_index c) (NUM_RANKS c * NUM_BANKS c) s (nextRankPRE cq, nextBankPRE cq) \<le> n \<Longrightarrow>
    okR (pre_round n c bs s cq) (pop_post c bs cq)"
proof (induction n arbitrary: cq)
  case 0
  have "rr_valid c (nextRankPRE cq, nextBankPRE cq)" using cq_wfD [OF 0(1)] by (simp add: rr_valid_def)
  from rr_circle.togo_bounds [OF this, of s] 0(2) show ?case by simp
next
  case (Suc n)
  let ?x = "(nextRankPRE cq, nextBankPRE cq)"
  obtain r' b' where nx: "nextRankAndBank c ?x = (r', b')" by fastforce
  have v: "rr_valid c ?x" using cq_wfD [OF Suc.prems(1)] by (simp add: rr_valid_def)
  then have v': "rr_valid c (r', b')" using rr_circle.valid_succ nx by metis
  let ?cq' = "cq\<lparr>nextRankPRE := r', nextBankPRE := b'\<rparr>"
  have wf': "cq_wf c ?cq'" using Suc.prems(1) v' by (simp add: cq_wf_def rr_valid_def)
  have same: "pop_post c bs ?cq' = pop_post c bs cq" by (rule post_same) simp_all
  have rest: "okR (pre_round n c bs s ?cq') (pop_post c bs cq)" if "s \<noteq> (r', b')"
  proof -
    have "togo (rr_index c) (NUM_RANKS c * NUM_BANKS c) s (r', b') \<le> n"
      using rr_circle.togo_succ [OF assms(1) v] that Suc.prems(2) nx by simp
    then show ?thesis using Suc.IH [OF wf'] same by simp
  qed
  have stop: "pop_post c bs cq (None, ?cq')" using wf' by (simp add: pop_post_def kept_def)
  have pre: "found c bs cq (mkBusPacket PRECHARGE 0 0 0 (fst ?x) (snd ?x)) (cq\<lparr>rowAccessCounters := upd2 (fst ?x) (snd ?x) 0 (rowAccessCounters cq)\<rparr>)"
    if "currentBankState (bs (fst ?x) (snd ?x)) = RowActive" "nextPrecharge (bs (fst ?x) (snd ?x)) \<le> cq_clock cq"
    using precharge_found [OF Suc.prems(1) pol] cq_wfD(4,5) [OF Suc.prems(1)] that by simp
  show ?case using rest stop pre nx by (auto simp: Let_def pop_post_def split: prod.splits)
qed

lemma try_place:
  assumes "cq_wf c cq" "\<And>cq. cq_wf c cq \<Longrightarrow> okR (try_queue cq) (try_post c bs cq)" "rr_valid c x"
  shows "okR (try_queue (place x cq)) (\<lambda>res. case res of None \<Rightarrow> True | Some (p, cq') \<Rightarrow> found c bs cq p cq')"
  using assms(2) [OF place_wf [OF assms(1,3)]] by (rule okR_mono) (auto simp: try_post_def found_place split: option.splits)

lemma place_post: "cq_wf c cq \<Longrightarrow> rr_valid c x \<Longrightarrow> pop_post c bs cq (None, place x cq)"
  using place_wf [of c cq x] by (simp add: pop_post_def) (simp add: kept_def place_def)

text \<open>Nothing was found although every queue was tried.\<close>

definition round_empty :: "dram_cfg \<Rightarrow> (CommandQueue \<Rightarrow> derr + (BusPacket \<times> CommandQueue) option) \<Rightarrow> CommandQueue \<Rightarrow> bool" where
  "round_empty c try_queue cq \<longleftrightarrow> (\<forall>y. pos_valid c (nextBank cq) y \<longrightarrow> try_queue (place y cq) = Inr None)"

lemma round_post:
  assumes wf: "cq_wf c cq" and t: "\<And>cq. cq_wf c cq \<Longrightarrow> okR (try_queue cq) (try_post c bs cq)"
  shows "okR (run_round c try_queue cq) (\<lambda>x. pop_post c bs cq x \<and> (fst x = None \<longrightarrow> round_empty c try_queue cq))"
proof -
  have "okR (run_round c try_queue cq) (\<lambda>(res, cq'). case res of
        None \<Rightarrow> (\<exists>y. rr_valid c y \<and> cq' = place y cq) \<and>
          (\<forall>y. pos_valid c (nextBank cq) y \<longrightarrow> try_queue (place y cq) = Inr None)
      | Some p \<Rightarrow> found c bs cq p cq')"
    by (rule run_round_ok) (use try_place [OF wf t] wf in auto)
  then show ?thesis
    by (rule okR_mono) (use place_post [OF wf, of _ bs] in \<open>auto simp: round_empty_def pop_post_def split: option.splits\<close>)
qed

section \<open>The next command\<close>

definition idle_post :: "dram_cfg \<Rightarrow> bank_table \<Rightarrow> CommandQueue \<Rightarrow> bool" where
  "idle_post c bs cq = (case rowBufferPolicy c of
       ClosePage \<Rightarrow> round_empty c (close_try c bs) cq
     | OpenPage \<Rightarrow> round_empty c (open_try c bs) cq)"

definition sent_post :: "dram_cfg \<Rightarrow> bank_table \<Rightarrow> CommandQueue \<Rightarrow> (BusPacket \<times> CommandQueue) option \<Rightarrow> bool" where
  "sent_post c bs cq sent = (case sent of None \<Rightarrow> True | Some (p, cq') \<Rightarrow> found c bs cq p cq')"

lemma refresh_sent:
  assumes "cq_wf c cq" "refreshWaiting cq \<Longrightarrow> okR m (\<lambda>(ready, res). refresh_post c bs cq [0..<NUM_BANKS c] (f ready) res)"
  shows "okR (if refreshWaiting cq
       then bindR m (\<lambda>(ready, taken). case taken of
           Some x \<Rightarrow> Inr (Some x)
         | None \<Rightarrow> if f ready \<and> currentBankState (bs (refreshRank cq) 0) \<noteq> PowerDown
                  then Inr (Some (send_refresh cq)) else Inr None)
       else Inr None) (sent_post c bs cq)"
proof (cases "refreshWaiting cq")
  case True
  obtain ready res where m: "m = Inr (ready, res)" "refresh_post c bs cq [0..<NUM_BANKS c] (f ready) res"
    using assms(2) [OF True] by (auto simp: okR_iff)
  then show ?thesis using True send_refresh_found [OF assms(1) True]
    by (auto simp: sent_post_def refresh_post_def try_post_def split: option.splits prod.splits)
qed (simp add: sent_post_def)

lemma pop_close_ok:
  assumes wf: "cq_wf c cq"
  shows "okR (pop_close c bs cq) (\<lambda>x. pop_post c bs cq x \<and> (fst x = None \<longrightarrow> round_empty c (close_try c bs) cq))"
proof -
  note s = refresh_sent [OF wf, of "close_refresh c bs cq [0..<NUM_BANKS c]" bs Not, OF close_refresh_ok [OF wf]]
  obtain sent where sent: "(if refreshWaiting cq
       then bindR (close_refresh c bs cq [0..<NUM_BANKS c]) (\<lambda>(found, taken). case taken of
           Some x \<Rightarrow> Inr (Some x)
         | None \<Rightarrow> if \<not> found \<and> currentBankState (bs (refreshRank cq) 0) \<noteq> PowerDown
                  then Inr (Some (send_refresh cq)) else Inr None)
       else Inr None) = Inr sent" "sent_post c bs cq sent"
    using s by (auto simp: okR_iff)
  show ?thesis
  proof (cases sent)
    case None
    then show ?thesis using round_post [OF wf close_try_ok] by (simp add: pop_close_def sent(1))
  next
    case (Some x)
    then show ?thesis using sent(2) by (cases x) (simp add: pop_close_def sent(1) sent_post_def pop_post_def)
  qed
qed

lemma pop_open_ok:
  assumes wf: "cq_wf c cq" and pol: "rowBufferPolicy c = OpenPage"
  shows "okR (pop_open c bs cq) (\<lambda>x. pop_post c bs cq x \<and> (fst x = None \<longrightarrow> round_empty c (open_try c bs) cq))"
proof -
  note s = refresh_sent [OF wf, of "open_refresh c bs cq [0..<NUM_BANKS c]" bs "\<lambda>b. b", OF open_refresh_ok [OF wf _ pol]]
  obtain sent where sent: "(if refreshWaiting cq
       then bindR (open_refresh c bs cq [0..<NUM_BANKS c]) (\<lambda>(sendREF, taken). case taken of
           Some x \<Rightarrow> Inr (Some x)
         | None \<Rightarrow> if sendREF \<and> currentBankState (bs (refreshRank cq) 0) \<noteq> PowerDown
                  then Inr (Some (send_refresh cq)) else Inr None)
       else Inr None) = Inr sent" "sent_post c bs cq sent"
    using s by (auto simp: okR_iff)
  have run: "okR (run_round c (open_try c bs) cq) (\<lambda>(res, cq'). case res of
        None \<Rightarrow> (\<exists>y. rr_valid c y \<and> cq' = place y cq) \<and>
          (\<forall>y. pos_valid c (nextBank cq) y \<longrightarrow> open_try c bs (place y cq) = Inr None)
      | Some p \<Rightarrow> found c bs cq p cq')"
    by (rule run_round_ok) (use try_place [OF wf open_try_ok] wf in auto)
  show ?thesis
  proof (cases sent)
    case None
    obtain res cq1 where r: "run_round c (open_try c bs) cq = Inr (res, cq1)" using run by (auto simp: okR_iff)
    show ?thesis
    proof (cases res)
      case none: None
      obtain y where y: "rr_valid c y" "cq1 = place y cq" using run r none by auto
      have wf1: "cq_wf c cq1" using place_wf [OF wf y(1)] y(2) by simp
      have v: "rr_valid c (nextRankPRE cq1, nextBankPRE cq1)" using cq_wfD(4,5) [OF wf1] by (simp add: rr_valid_def)
      have "okR (pre_round (NUM_RANKS c * NUM_BANKS c) c bs (nextRankPRE cq1, nextBankPRE cq1) cq1) (pop_post c bs cq1)"
        by (rule pre_round_ok [OF v pol wf1]) (simp add: rr_circle.togo_start [OF v])
      moreover have "pop_post c bs cq1 = pop_post c bs cq" by (rule post_same) (simp_all add: y(2) place_def)
      moreover have "round_empty c (open_try c bs) cq" using run r none by (simp add: round_empty_def)
      ultimately show ?thesis using None none r by (simp add: pop_open_def sent(1))
    next
      case (Some p)
      then show ?thesis using None r run by (simp add: pop_open_def sent(1) pop_post_def)
    qed
  next
    case (Some x)
    then show ?thesis using sent(2) by (cases x) (simp add: pop_open_def sent(1) sent_post_def pop_post_def)
  qed
qed

lemma tick_wf: "cq_wf c cq \<Longrightarrow> cq_wf c (tick_tFAW c cq)"
  by (simp add: cq_wf_def tick_tFAW_def)

definition popped :: "dram_cfg \<Rightarrow> bank_table \<Rightarrow> CommandQueue \<Rightarrow> BusPacket option \<times> CommandQueue \<Rightarrow> bool" where
  "popped c bs cq = (\<lambda>(res, cq'). cq_wf c cq' \<and> cq_clock cq' = cq_clock cq \<and>
     (case res of
        None \<Rightarrow> queues cq' = queues cq \<and> refreshWaiting cq' = refreshWaiting cq \<and> refreshRank cq' = refreshRank cq \<and>
          tFAWCountdown cq' = tFAWCountdown (tick_tFAW c cq) \<and> idle_post c bs (tick_tFAW c cq)
      | Some p \<Rightarrow> cmd_ok c bs (tick_tFAW c cq) p \<and> waiting_cols c cq = waiting_cols c cq' + col_of p \<and>
          (\<forall>r i. length (queues cq' r i) \<le> length (queues cq r i)) \<and>
          (if busPacketType p = REFRESH then \<not> refreshWaiting cq'
           else refreshWaiting cq' = refreshWaiting cq \<and> refreshRank cq' = refreshRank cq) \<and>
          tFAWCountdown cq' = (if busPacketType p = ACTIVATE
            then (tFAWCountdown (tick_tFAW c cq))(rank p := tFAWCountdown (tick_tFAW c cq) (rank p) @ [tFAW c])
            else tFAWCountdown (tick_tFAW c cq))))"

lemma after_pop_wf: "cq_wf c cq \<Longrightarrow> cq_wf c (after_pop c p cq)"
  using rr_circle.valid_succ [of c "pos cq"]
  by (auto simp: after_pop_def cq_wf_def pos_def rr_valid_def Let_def split: prod.splits)

lemma after_pop_simps [simp]:
  "queues (after_pop c p cq) = queues cq" "refreshWaiting (after_pop c p cq) = refreshWaiting cq"
  "refreshRank (after_pop c p cq) = refreshRank cq" "cq_clock (after_pop c p cq) = cq_clock cq"
  "tFAWCountdown (after_pop c p cq) = (if busPacketType p = ACTIVATE
     then (tFAWCountdown cq)(rank p := tFAWCountdown cq (rank p) @ [tFAW c]) else tFAWCountdown cq)"
  by (auto simp: after_pop_def Let_def split: prod.splits)

lemma pop_ok:
  assumes wf: "cq_wf c cq"
  shows "okR (pop c bs cq) (popped c bs cq)"
proof -
  let ?cq = "tick_tFAW c cq"
  have wf1: "cq_wf c ?cq" using tick_wf [OF wf] .
  have "okR (case rowBufferPolicy c of ClosePage \<Rightarrow> pop_close c bs ?cq | OpenPage \<Rightarrow> pop_open c bs ?cq)
      (\<lambda>x. pop_post c bs ?cq x \<and> (fst x = None \<longrightarrow> idle_post c bs ?cq))"
    using pop_close_ok [OF wf1] pop_open_ok [OF wf1] by (simp add: idle_post_def split: RowBufferPolicy.split)
  then obtain res cq' where r: "(case rowBufferPolicy c of ClosePage \<Rightarrow> pop_close c bs ?cq | OpenPage \<Rightarrow> pop_open c bs ?cq) = Inr (res, cq')"
    "pop_post c bs ?cq (res, cq')" "res = None \<longrightarrow> idle_post c bs ?cq" by (auto simp: okR_iff)
  have frame: "queues ?cq = queues cq" "refreshWaiting ?cq = refreshWaiting cq" "refreshRank ?cq = refreshRank cq"
    "cq_clock ?cq = cq_clock cq" by (simp_all add: tick_tFAW_def)
  show ?thesis
  proof (cases res)
    case None
    then show ?thesis using r frame by (simp add: pop_def Let_def popped_def pop_post_def kept_def)
  next
    case (Some p)
    then have f: "found c bs ?cq p cq'" using r(2) by (simp add: pop_post_def)
    have "cq_wf c (after_pop c p cq')" using f after_pop_wf by (simp add: found_def)
    moreover have "waiting_cols c (after_pop c p cq') = waiting_cols c cq'" "waiting_cols c ?cq = waiting_cols c cq"
      by (simp_all add: waiting_cols_def frame)
    ultimately show ?thesis using r(1) Some f
      by (auto simp: pop_def Let_def popped_def found_def kept_def taken_def frame)
  qed
qed

section \<open>Putting commands in\<close>

lemma enqueue_ok:
  assumes wf: "cq_wf c cq" and p: "packet_ok c (rank p) (queue_index c (bank p)) p"
    and room: "length (getCommandQueue c (rank p) (bank p) cq) < CMD_QUEUE_DEPTH c"
  shows "okR (enqueue c p cq) (\<lambda>cq'. cq_wf c cq' \<and> waiting_cols c cq' = waiting_cols c cq + col_of p \<and>
     cq_clock cq' = cq_clock cq \<and> refreshWaiting cq' = refreshWaiting cq \<and> refreshRank cq' = refreshRank cq \<and>
     tFAWCountdown cq' = tFAWCountdown cq \<and>
     (\<forall>r b. length (getCommandQueue c r b cq') =
        length (getCommandQueue c r b cq) + (if r = rank p \<and> queue_index c b = queue_index c (bank p) then 1 else 0)))"
proof -
  let ?q = "getCommandQueue c (rank p) (bank p) cq" let ?cq = "setCommandQueue c (rank p) (bank p) (?q @ [p]) cq"
  have e: "enqueue c p cq = Inr ?cq" using room by (simp add: enqueue_def Let_def)
  have ok: "queues_ok c (queues ?cq)"
    using cq_wfD(7) [OF wf] p room by (auto simp: queues_ok_def setCommandQueue_def getCommandQueue_def)
  have "rank p < NUM_RANKS c" "queue_index c (bank p) < NUM_BANKS c"
    using p queue_index_less [OF cq_wfD(1) [OF wf]] by (auto simp: packet_ok_def)
  then have "waiting_cols c ?cq = waiting_cols c cq + col_of p"
    by (rule waiting_cols_upd [where q = ?q])
      (auto simp: setCommandQueue_def getCommandQueue_def cols_def col_of_def fun_eq_iff)
  then show ?thesis using ok wf unfolding e
    by (simp add: cq_wf_def) (simp add: setCommandQueue_def getCommandQueue_def)
qed

lemma hasRoomFor_iff:
  assumes "cq_wf c cq"
  shows "hasRoomFor c n r b cq \<longleftrightarrow> length (getCommandQueue c r b cq) + n \<le> CMD_QUEUE_DEPTH c"
proof -
  have "length (getCommandQueue c r b cq) \<le> CMD_QUEUE_DEPTH c" "CMD_QUEUE_DEPTH c < 2 ^ 64"
    using assms by (auto simp: cq_wf_def queues_ok_def queue_cfg_def getCommandQueue_def)
  then show ?thesis by (auto simp: hasRoomFor_def u64_sub_id)
qed

lemma needRefresh_wf: "cq_wf c cq \<Longrightarrow> r < NUM_RANKS c \<Longrightarrow> cq_wf c (needRefresh r cq)"
  by (simp add: needRefresh_def cq_wf_def)

lemma step_clock_wf [simp]: "cq_wf c (cq\<lparr>cq_clock := t\<rparr>) = cq_wf c cq"
  by (simp add: cq_wf_def)

end
