(* ===== verification/Dram_Rank.thy ===== *)
theory Dram_Rank
  imports Dram_Queue
begin

text \<open>
  \<open>Rank.cpp\<close>: a rank checks every command it receives against its own state table, delays
  the data of reads and sends it back. What is shown of it is in \<open>Dram_Line\<close> and \<open>Dram_Safety\<close>:
  no command is refused, and every read it took is sent back once and in order.
\<close>

section \<open>State\<close>

record Rank =
  incomingWriteBank :: nat
  incomingWriteRow :: nat
  incomingWriteColumn :: nat
  isPowerDown :: bool
  r_outgoingDataPacket :: "BusPacket option"
  r_dataCyclesLeft :: nat
  r_refreshWaiting :: bool
  readReturnPacket :: "BusPacket list"
  readReturnCountdown :: "nat list"
  r_bankStates :: "nat \<Rightarrow> BankState"
  r_clock :: nat

text \<open>The write destinations are not initialised before the first write; zero stands for them.\<close>

definition newRank :: Rank where
  "newRank = \<lparr>incomingWriteBank = 0, incomingWriteRow = 0, incomingWriteColumn = 0, isPowerDown = False,
     r_outgoingDataPacket = None, r_dataCyclesLeft = 0, r_refreshWaiting = False, readReturnPacket = [],
     readReturnCountdown = [], r_bankStates = (\<lambda>b. newBankState), r_clock = 0\<rparr>"

section \<open>Commands\<close>

text \<open>The timing that a column access puts on all banks of the rank.\<close>

definition after_read :: "dram_cfg \<Rightarrow> nat \<Rightarrow> (nat \<Rightarrow> BankState) \<Rightarrow> nat \<Rightarrow> BankState" where
  "after_read c now bs = (\<lambda>i. if i < NUM_BANKS c
     then (bs i)\<lparr>nextRead := max (nextRead (bs i)) (now + max (tCCD c) (BL c div 2)),
                 nextWrite := max (nextWrite (bs i)) (now + READ_TO_WRITE_DELAY c)\<rparr>
     else bs i)"

definition after_write :: "dram_cfg \<Rightarrow> nat \<Rightarrow> (nat \<Rightarrow> BankState) \<Rightarrow> nat \<Rightarrow> BankState" where
  "after_write c now bs = (\<lambda>i. if i < NUM_BANKS c
     then (bs i)\<lparr>nextRead := max (nextRead (bs i)) (now + WRITE_TO_READ_DELAY_B c),
                 nextWrite := max (nextWrite (bs i)) (now + max (BL c div 2) (tCCD c))\<rparr>
     else bs i)"

definition access_allowed :: "BankState \<Rightarrow> nat \<Rightarrow> nat \<Rightarrow> BusPacket \<Rightarrow> bool" where
  "access_allowed s now next_access p \<longleftrightarrow> currentBankState s = RowActive \<and> next_access \<le> now \<and> row p = openRowAddress s"

definition return_later :: "dram_cfg \<Rightarrow> BusPacket \<Rightarrow> Rank \<Rightarrow> Rank" where
  "return_later c p rk = rk\<lparr>readReturnPacket := readReturnPacket rk @ [p\<lparr>busPacketType := DATA\<rparr>],
     readReturnCountdown := readReturnCountdown rk @ [RL c]\<rparr>"

definition note_write :: "BusPacket \<Rightarrow> Rank \<Rightarrow> Rank" where
  "note_write p rk = rk\<lparr>incomingWriteBank := bank p, incomingWriteRow := row p, incomingWriteColumn := column p\<rparr>"

definition rank_activate :: "dram_cfg \<Rightarrow> nat \<Rightarrow> BusPacket \<Rightarrow> (nat \<Rightarrow> BankState) \<Rightarrow> nat \<Rightarrow> BankState" where
  "rank_activate c now p bs =
     (let bs1 = bs(bank p := (bs (bank p))\<lparr>currentBankState := RowActive, nextActivate := now + tRC c, openRowAddress := row p,
            nextWrite := now + u32_sub (tRCD c) (AL c), nextRead := now + u32_sub (tRCD c) (AL c), nextPrecharge := now + tRAS c\<rparr>)
      in (\<lambda>i. if i < NUM_BANKS c \<and> i \<noteq> bank p then (bs1 i)\<lparr>nextActivate := max (nextActivate (bs1 i)) (now + tRRD c)\<rparr> else bs1 i))"

definition rank_receiveFromBus :: "dram_cfg \<Rightarrow> BusPacket \<Rightarrow> Rank \<Rightarrow> derr + Rank" where
  "rank_receiveFromBus c p rk =
     (let bs = r_bankStates rk; s = bs (bank p); now = r_clock rk in
      case busPacketType p of
        READ \<Rightarrow>
          if access_allowed s now (nextRead s) p
          then Inr (return_later c p (rk\<lparr>r_bankStates := after_read c now
                 (bs(bank p := s\<lparr>nextPrecharge := max (nextPrecharge s) (now + READ_TO_PRE_DELAY c)\<rparr>))\<rparr>))
          else Inl (Rank_Not_Allowed READ)
      | READ_P \<Rightarrow>
          if access_allowed s now (nextRead s) p
          then Inr (return_later c p (rk\<lparr>r_bankStates := after_read c now
                 (bs(bank p := s\<lparr>currentBankState := Idle, nextActivate := max (nextActivate s) (now + READ_AUTOPRE_DELAY c)\<rparr>))\<rparr>))
          else Inl (Rank_Not_Allowed READ_P)
      | WRITE \<Rightarrow>
          if access_allowed s now (nextWrite s) p
          then Inr (note_write p (rk\<lparr>r_bankStates := after_write c now
                 (bs(bank p := s\<lparr>nextPrecharge := max (nextPrecharge s) (now + WRITE_TO_PRE_DELAY c)\<rparr>))\<rparr>))
          else Inl (Rank_Not_Allowed WRITE)
      | WRITE_P \<Rightarrow>
          if access_allowed s now (nextWrite s) p
          then Inr (note_write p (rk\<lparr>r_bankStates := after_write c now
                 (bs(bank p := s\<lparr>currentBankState := Idle, nextActivate := max (nextActivate s) (now + WRITE_AUTOPRE_DELAY c)\<rparr>))\<rparr>))
          else Inl (Rank_Not_Allowed WRITE_P)
      | ACTIVATE \<Rightarrow>
          if currentBankState s = Idle \<and> nextActivate s \<le> now
          then Inr (rk\<lparr>r_bankStates := rank_activate c now p bs\<rparr>)
          else Inl (Rank_Not_Allowed ACTIVATE)
      | PRECHARGE \<Rightarrow>
          if currentBankState s = RowActive \<and> nextPrecharge s \<le> now
          then Inr (rk\<lparr>r_bankStates := bs(bank p := s\<lparr>currentBankState := Idle, nextActivate := max (nextActivate s) (now + tRP c)\<rparr>)\<rparr>)
          else Inl (Rank_Not_Allowed PRECHARGE)
      | REFRESH \<Rightarrow>
          if \<forall>i \<in> set [0..<NUM_BANKS c]. currentBankState (bs i) = Idle
          then Inr (rk\<lparr>r_refreshWaiting := False,
                 r_bankStates := (\<lambda>i. if i < NUM_BANKS c then (bs i)\<lparr>nextActivate := now + tRFC c\<rparr> else bs i)\<rparr>)
          else Inl (Rank_Not_Allowed REFRESH)
      | DATA \<Rightarrow> Inr rk)"

section \<open>Data of reads\<close>

text \<open>
  One cycle. The second component is the packet that is handed to the controller. A packet
  that is due goes onto the bus whether or not the bus is free.
\<close>

definition rank_bus :: "Rank \<Rightarrow> Rank \<times> BusPacket option" where
  "rank_bus rk = (case r_outgoingDataPacket rk of
       None \<Rightarrow> (rk, None)
     | Some p \<Rightarrow>
         (let left = u32_sub (r_dataCyclesLeft rk) 1; rk1 = rk\<lparr>r_dataCyclesLeft := left\<rparr>
          in if left = 0 then (rk1\<lparr>r_outgoingDataPacket := None\<rparr>, Some p) else (rk1, None)))"

definition rank_return :: "dram_cfg \<Rightarrow> Rank \<Rightarrow> Rank" where
  "rank_return c rk =
     (let cs = map (\<lambda>x. u32_sub x 1) (readReturnCountdown rk); rk1 = rk\<lparr>readReturnCountdown := cs\<rparr>
      in if cs \<noteq> [] \<and> hd cs = 0
         then rk1\<lparr>r_outgoingDataPacket := Some (readReturnPacket rk ! 0), r_dataCyclesLeft := BL c div 2,
                  readReturnPacket := tl (readReturnPacket rk), readReturnCountdown := tl cs\<rparr>
         else rk1)"

definition rank_update :: "dram_cfg \<Rightarrow> Rank \<Rightarrow> Rank \<times> BusPacket option" where
  "rank_update c rk = (let (rk1, out) = rank_bus rk in (rank_return c rk1, out))"

section \<open>Power\<close>

text \<open>The checks stop at the first bank that is not idle; the banks before it are changed by then, which no caller sees.\<close>

definition rank_powerDown :: "dram_cfg \<Rightarrow> Rank \<Rightarrow> derr + Rank" where
  "rank_powerDown c rk =
     (if \<forall>i \<in> set [0..<NUM_BANKS c]. currentBankState (r_bankStates rk i) = Idle
      then Inr (rk\<lparr>r_bankStates := (\<lambda>i. if i < NUM_BANKS c
                 then (r_bankStates rk i)\<lparr>nextPowerUp := r_clock rk + tCKE c, currentBankState := PowerDown\<rparr> else r_bankStates rk i),
               isPowerDown := True\<rparr>)
      else Inl Power_Down_Not_Idle)"

definition rank_powerUp :: "dram_cfg \<Rightarrow> Rank \<Rightarrow> derr + Rank" where
  "rank_powerUp c rk =
     (if \<not> isPowerDown rk then Inl Power_Up_Not_Down
      else if \<forall>i \<in> set [0..<NUM_BANKS c]. nextPowerUp (r_bankStates rk i) \<le> r_clock rk
      then Inr (rk\<lparr>isPowerDown := False, r_bankStates := (\<lambda>i. if i < NUM_BANKS c
                 then (r_bankStates rk i)\<lparr>nextActivate := r_clock rk + tXP c, currentBankState := Idle\<rparr> else r_bankStates rk i)\<rparr>)
      else Inl Power_Up_Too_Early)"

definition rank_step :: "Rank \<Rightarrow> Rank" where
  "rank_step rk = rk\<lparr>r_clock := r_clock rk + 1\<rparr>"

end
