(* ===== verification/Dram_Mapping.thy ===== *)
theory Dram_Mapping
  imports Dram_Config "HOL-Library.Word"
begin

text \<open>
  \<open>AddressMapping.cpp\<close>: a physical address is cut into channel, rank, bank, row and column,
  in one of seven orders. Each field is cut off by shifting the address down, shifting it up
  again and taking the exclusive or, which leaves the low bits. Shown: each field is the low
  bits and fits its width, and for every scheme the fields determine the address of a
  transaction, so that no two transactions of the memory share a place.
\<close>

unbundle bit_operations_syntax

section \<open>Fields\<close>

record mapped =
  m_chan :: nat
  m_rank :: nat
  m_bank :: nat
  m_row :: nat
  m_col :: nat

text \<open>
  One step of the mapping: \<open>tempA\<close> is the address, \<open>tempB\<close> the address with the low bits
  cleared. The field is stored in an \<open>unsigned\<close>, the address goes on without the low bits.
\<close>

definition cut :: "nat \<Rightarrow> 64 word \<Rightarrow> nat \<times> 64 word" where
  "cut width pa =
     (let tempA = pa;
          pa' = drop_bit width pa;
          tempB = push_bit width pa'
      in (unat (ucast (tempA XOR tempB) :: 32 word), pa'))"

definition colHighBitWidth :: "dram_cfg \<Rightarrow> nat" where
  "colHighBitWidth c = u32_sub (NUM_COLS_LOG c) (COL_LOW_BIT_WIDTH c)"

definition addressMapping :: "dram_cfg \<Rightarrow> 64 word \<Rightarrow> mapped" where
  "addressMapping c physicalAddress0 =
     (let pa = drop_bit (COL_LOW_BIT_WIDTH c) (drop_bit (BYTE_OFFSET_WIDTH c) physicalAddress0);
          chw = NUM_CHANS_LOG c; rkw = NUM_RANKS_LOG c; bkw = NUM_BANKS_LOG c; rww = NUM_ROWS_LOG c; clw = colHighBitWidth c
      in case addressMappingScheme c of
        Scheme1 \<Rightarrow>
          (let (b, pa) = cut bkw pa; (cl, pa) = cut clw pa; (rw, pa) = cut rww pa; (rk, pa) = cut rkw pa; (ch, pa) = cut chw pa
           in \<lparr>m_chan = ch, m_rank = rk, m_bank = b, m_row = rw, m_col = cl\<rparr>)
      | Scheme2 \<Rightarrow>
          (let (rk, pa) = cut rkw pa; (b, pa) = cut bkw pa; (cl, pa) = cut clw pa; (rw, pa) = cut rww pa; (ch, pa) = cut chw pa
           in \<lparr>m_chan = ch, m_rank = rk, m_bank = b, m_row = rw, m_col = cl\<rparr>)
      | Scheme3 \<Rightarrow>
          (let (rw, pa) = cut rww pa; (cl, pa) = cut clw pa; (b, pa) = cut bkw pa; (rk, pa) = cut rkw pa; (ch, pa) = cut chw pa
           in \<lparr>m_chan = ch, m_rank = rk, m_bank = b, m_row = rw, m_col = cl\<rparr>)
      | Scheme4 \<Rightarrow>
          (let (cl, pa) = cut clw pa; (rw, pa) = cut rww pa; (b, pa) = cut bkw pa; (rk, pa) = cut rkw pa; (ch, pa) = cut chw pa
           in \<lparr>m_chan = ch, m_rank = rk, m_bank = b, m_row = rw, m_col = cl\<rparr>)
      | Scheme5 \<Rightarrow>
          (let (b, pa) = cut bkw pa; (rk, pa) = cut rkw pa; (cl, pa) = cut clw pa; (rw, pa) = cut rww pa; (ch, pa) = cut chw pa
           in \<lparr>m_chan = ch, m_rank = rk, m_bank = b, m_row = rw, m_col = cl\<rparr>)
      | Scheme6 \<Rightarrow>
          (let (cl, pa) = cut clw pa; (rk, pa) = cut rkw pa; (b, pa) = cut bkw pa; (rw, pa) = cut rww pa; (ch, pa) = cut chw pa
           in \<lparr>m_chan = ch, m_rank = rk, m_bank = b, m_row = rw, m_col = cl\<rparr>)
      | Scheme7 \<Rightarrow>
          (let (ch, pa) = cut chw pa; (b, pa) = cut bkw pa; (rk, pa) = cut rkw pa; (cl, pa) = cut clw pa; (rw, pa) = cut rww pa
           in \<lparr>m_chan = ch, m_rank = rk, m_bank = b, m_row = rw, m_col = cl\<rparr>))"

section \<open>The low bits\<close>

lemma xor_clear_low: "x XOR push_bit n (drop_bit n x) = take_bit n (x :: 64 word)"
  by (rule bit_eqI) (auto simp: bit_simps)

lemma cut_eq:
  assumes "w \<le> 32"
  shows "cut w x = (unat x mod 2 ^ w, drop_bit w x)"
proof -
  have "unat (ucast (take_bit w x) :: 32 word) = take_bit w (unat x)"
    using assms by (simp add: unsigned_ucast_eq unsigned_take_bit_eq min_def)
  then show ?thesis by (simp add: cut_def Let_def xor_clear_low take_bit_eq_mod)
qed

section \<open>Digits\<close>

text \<open>A number as a list of digits of given widths, lowest first.\<close>

fun digits :: "nat list \<Rightarrow> nat \<Rightarrow> nat list" where
  "digits [] n = []"
| "digits (w # ws) n = n mod 2 ^ w # digits ws (n div 2 ^ w)"

fun undigits :: "nat list \<Rightarrow> nat list \<Rightarrow> nat" where
  "undigits (w # ws) (d # ds) = d + 2 ^ w * undigits ws ds"
| "undigits _ _ = 0"

fun digits_ok :: "nat list \<Rightarrow> nat list \<Rightarrow> bool" where
  "digits_ok [] ds \<longleftrightarrow> ds = []"
| "digits_ok (w # ws) ds \<longleftrightarrow> (case ds of [] \<Rightarrow> False | d # ds' \<Rightarrow> d < 2 ^ w \<and> digits_ok ws ds')"

lemma undigits_digits: "undigits ws (digits ws n) = n mod 2 ^ sum_list ws"
proof (induction ws arbitrary: n)
  case (Cons w ws)
  then show ?case by (simp add: power_add mod_mult2_eq)
qed simp

lemma digits_digits_ok: "digits_ok ws (digits ws n)"
  by (induction ws arbitrary: n) auto

lemma digits_undigits: "digits_ok ws ds \<Longrightarrow> digits ws (undigits ws ds) = ds"
  by (induction ws arbitrary: ds) (auto split: list.splits)

lemma undigits_less: "digits_ok ws ds \<Longrightarrow> undigits ws ds < 2 ^ sum_list ws"
proof (induction ws arbitrary: ds)
  case (Cons w ws)
  then obtain d ds' where ds: "ds = d # ds'" "d < 2 ^ w" "digits_ok ws ds'" by (auto split: list.splits)
  have "d + 2 ^ w * undigits ws ds' < 2 ^ w * Suc (undigits ws ds')" using ds(2) by simp
  also have "\<dots> \<le> 2 ^ w * 2 ^ sum_list ws" using Cons.IH [OF ds(3)] by (intro mult_le_mono) auto
  finally show ?case by (simp add: ds(1) power_add)
qed simp

section \<open>The schemes as orders of the fields\<close>

definition widths :: "dram_cfg \<Rightarrow> nat list" where
  "widths c = (let chw = NUM_CHANS_LOG c; rkw = NUM_RANKS_LOG c; bkw = NUM_BANKS_LOG c; rww = NUM_ROWS_LOG c; clw = colHighBitWidth c
     in case addressMappingScheme c of
       Scheme1 \<Rightarrow> [bkw, clw, rww, rkw, chw] | Scheme2 \<Rightarrow> [rkw, bkw, clw, rww, chw]
     | Scheme3 \<Rightarrow> [rww, clw, bkw, rkw, chw] | Scheme4 \<Rightarrow> [clw, rww, bkw, rkw, chw]
     | Scheme5 \<Rightarrow> [bkw, rkw, clw, rww, chw] | Scheme6 \<Rightarrow> [clw, rkw, bkw, rww, chw]
     | Scheme7 \<Rightarrow> [chw, bkw, rkw, clw, rww])"

definition place_fields :: "dram_cfg \<Rightarrow> mapped \<Rightarrow> nat list" where
  "place_fields c m = (let ch = m_chan m; rk = m_rank m; b = m_bank m; rw = m_row m; cl = m_col m
     in case addressMappingScheme c of
       Scheme1 \<Rightarrow> [b, cl, rw, rk, ch] | Scheme2 \<Rightarrow> [rk, b, cl, rw, ch]
     | Scheme3 \<Rightarrow> [rw, cl, b, rk, ch] | Scheme4 \<Rightarrow> [cl, rw, b, rk, ch]
     | Scheme5 \<Rightarrow> [b, rk, cl, rw, ch] | Scheme6 \<Rightarrow> [cl, rk, b, rw, ch]
     | Scheme7 \<Rightarrow> [ch, b, rk, cl, rw])"

lemma place_fields_inj: "place_fields c m = place_fields c m' \<Longrightarrow> m = m'"
  by (cases "addressMappingScheme c") (simp_all add: place_fields_def Let_def)

definition offset_bits :: "dram_cfg \<Rightarrow> nat" where
  "offset_bits c = BYTE_OFFSET_WIDTH c + COL_LOW_BIT_WIDTH c"

text \<open>Widths that fit into the variables of the mapping.\<close>

definition map_cfg :: "dram_cfg \<Rightarrow> bool" where
  "map_cfg c \<longleftrightarrow> NUM_CHANS_LOG c \<le> 32 \<and> NUM_RANKS_LOG c \<le> 32 \<and> NUM_BANKS_LOG c \<le> 32 \<and> NUM_ROWS_LOG c \<le> 32 \<and>
     COL_LOW_BIT_WIDTH c \<le> NUM_COLS_LOG c \<and> NUM_COLS_LOG c \<le> 32 \<and> offset_bits c + sum_list (widths c) \<le> 64"

lemma map_cfg_col: "map_cfg c \<Longrightarrow> colHighBitWidth c = NUM_COLS_LOG c - COL_LOW_BIT_WIDTH c"
  by (simp add: map_cfg_def colHighBitWidth_def u32_sub_id)

lemma fields_mapping:
  assumes "map_cfg c"
  shows "place_fields c (addressMapping c pa) = digits (widths c) (unat pa div 2 ^ offset_bits c)"
proof -
  have w: "NUM_CHANS_LOG c \<le> 32" "NUM_RANKS_LOG c \<le> 32" "NUM_BANKS_LOG c \<le> 32" "NUM_ROWS_LOG c \<le> 32" "colHighBitWidth c \<le> 32"
    using assms map_cfg_col [OF assms] by (auto simp: map_cfg_def)
  have u: "unat (drop_bit n x) = unat x div 2 ^ n" for n and x :: "64 word"
    unfolding unat_drop_bit_eq by (rule drop_bit_eq_div)
  show ?thesis
    by (cases "addressMappingScheme c")
      (simp_all add: place_fields_def widths_def addressMapping_def Let_def cut_eq w u offset_bits_def power_add div_mult2_eq
        del: drop_bit_drop_bit)
qed

section \<open>The mapping as a coding\<close>

definition unmap :: "dram_cfg \<Rightarrow> mapped \<Rightarrow> 64 word" where
  "unmap c m = of_nat (2 ^ offset_bits c * undigits (widths c) (place_fields c m))"

text \<open>Addresses of transactions, and places of the memory.\<close>

definition address_ok :: "dram_cfg \<Rightarrow> 64 word \<Rightarrow> bool" where
  "address_ok c pa \<longleftrightarrow> map_cfg c \<and> 2 ^ offset_bits c dvd unat pa \<and> unat pa < 2 ^ (offset_bits c + sum_list (widths c))"

definition place_ok :: "dram_cfg \<Rightarrow> mapped \<Rightarrow> bool" where
  "place_ok c m \<longleftrightarrow> map_cfg c \<and> digits_ok (widths c) (place_fields c m)"

lemma place_ok_iff:
  "place_ok c m \<longleftrightarrow> map_cfg c \<and> m_chan m < 2 ^ NUM_CHANS_LOG c \<and> m_rank m < 2 ^ NUM_RANKS_LOG c \<and>
     m_bank m < 2 ^ NUM_BANKS_LOG c \<and> m_row m < 2 ^ NUM_ROWS_LOG c \<and> m_col m < 2 ^ colHighBitWidth c"
  by (cases "addressMappingScheme c") (auto simp: place_ok_def widths_def place_fields_def Let_def)

lemma mapping_place: "map_cfg c \<Longrightarrow> place_ok c (addressMapping c pa)"
  by (simp add: place_ok_def fields_mapping digits_digits_ok)

lemma unmap_less:
  assumes "place_ok c m"
  shows "2 ^ offset_bits c * undigits (widths c) (place_fields c m) < 2 ^ (offset_bits c + sum_list (widths c))"
    and "unat (unmap c m) = 2 ^ offset_bits c * undigits (widths c) (place_fields c m)"
proof -
  show lt: "2 ^ offset_bits c * undigits (widths c) (place_fields c m) < 2 ^ (offset_bits c + sum_list (widths c))"
    using undigits_less [of "widths c" "place_fields c m"] assms by (simp add: place_ok_def power_add)
  have "(2 :: nat) ^ (offset_bits c + sum_list (widths c)) \<le> 2 ^ 64"
    using assms by (intro power_increasing) (auto simp: place_ok_def map_cfg_def)
  then show "unat (unmap c m) = 2 ^ offset_bits c * undigits (widths c) (place_fields c m)"
    using lt unfolding unmap_def unat_of_nat by (intro mod_less) simp
qed

interpretation address_map: coding "addressMapping c" "unmap c" "address_ok c" "place_ok c" for c
proof (unfold_locales, goal_cases)
  case (1 pa)
  then show ?case by (simp add: address_ok_def mapping_place)
next
  case (2 pa)
  then have c: "map_cfg c" "2 ^ offset_bits c dvd unat pa" "unat pa < 2 ^ (offset_bits c + sum_list (widths c))"
    by (auto simp: address_ok_def)
  have "unat pa div 2 ^ offset_bits c < 2 ^ sum_list (widths c)"
    using c(3) by (simp add: power_add less_mult_imp_div_less mult.commute)
  then have "2 ^ offset_bits c * undigits (widths c) (place_fields c (addressMapping c pa)) = unat pa"
    using c by (simp add: fields_mapping undigits_digits)
  then show ?case by (simp add: unmap_def)
next
  case (3 m)
  then have "place_fields c (addressMapping c (unmap c m)) = place_fields c m"
    using unmap_less(2) [OF 3] by (simp add: fields_mapping place_ok_def digits_undigits)
  then show ?case by (rule place_fields_inj)
next
  case (4 m)
  then show ?case using unmap_less [OF 4] by (auto simp: address_ok_def place_ok_def)
qed

end
