(* ===== verification/Dram_Controller.thy ===== *)
theory Dram_Controller
  imports Dram_Rank Dram_Mapping
begin

text \<open>
  \<open>MemoryController.cpp\<close>: the controller breaks transactions up into commands, keeps the
  state table of all banks, issues commands and write data, matches returned data with the
  reads that wait for it and puts idle ranks to sleep. Each part of \<open>update\<close> is a definition
  of its own, in the order of the code; the ranks are passed along. The calls of the two
  callbacks are the output.
\<close>

section \<open>State\<close>

record MemoryController =
  transactionQueue :: "dTransaction list"
  bankStates :: bank_table
  commandQueue :: CommandQueue
  refreshCountdown :: "nat \<Rightarrow> nat"
  writeDataToSend :: "BusPacket list"
  writeDataCountdown :: "nat list"
  returnTransaction :: "dTransaction list"
  pendingReadTransactions :: "dTransaction list"
  latencies :: "nat \<Rightarrow> nat"
  powerDown :: "nat \<Rightarrow> bool"
  outgoingCmdPacket :: "BusPacket option"
  cmdCyclesLeft :: nat
  outgoingDataPacket :: "BusPacket option"
  dataCyclesLeft :: nat
  totalTransactions :: nat
  grandTotalBankAccesses :: "nat \<Rightarrow> nat"
  totalReadsPerBank :: "nat \<Rightarrow> nat"
  totalWritesPerBank :: "nat \<Rightarrow> nat"
  totalReadsPerRank :: "nat \<Rightarrow> nat"
  totalWritesPerRank :: "nat \<Rightarrow> nat"
  totalEpochLatency :: "nat \<Rightarrow> nat"
  mc_refreshRank :: nat
  backgroundEnergy :: "nat \<Rightarrow> nat"
  burstEnergy :: "nat \<Rightarrow> nat"
  actpreEnergy :: "nat \<Rightarrow> nat"
  refreshEnergy :: "nat \<Rightarrow> nat"
  mc_clock :: nat

definition newMemoryController :: "dram_cfg \<Rightarrow> MemoryController" where
  "newMemoryController c = \<lparr>transactionQueue = [], bankStates = (\<lambda>r b. newBankState), commandQueue = newCommandQueue,
     refreshCountdown = (\<lambda>i. REFRESH_STAGGER c * (i + 1)), writeDataToSend = [], writeDataCountdown = [],
     returnTransaction = [], pendingReadTransactions = [], latencies = (\<lambda>l. 0), powerDown = (\<lambda>r. False),
     outgoingCmdPacket = None, cmdCyclesLeft = 0, outgoingDataPacket = None, dataCyclesLeft = 0, totalTransactions = 0,
     grandTotalBankAccesses = (\<lambda>i. 0), totalReadsPerBank = (\<lambda>i. 0), totalWritesPerBank = (\<lambda>i. 0),
     totalReadsPerRank = (\<lambda>i. 0), totalWritesPerRank = (\<lambda>i. 0), totalEpochLatency = (\<lambda>i. 0),
     mc_refreshRank = 0, backgroundEnergy = (\<lambda>i. 0), burstEnergy = (\<lambda>i. 0), actpreEnergy = (\<lambda>i. 0),
     refreshEnergy = (\<lambda>i. 0), mc_clock = 0\<rparr>"

datatype dcallback = Read_Returned nat nat | Write_Data_Done nat nat

type_synonym rank_table = "nat \<Rightarrow> Rank"

definition SEQUENTIAL :: "dram_cfg \<Rightarrow> nat \<Rightarrow> nat \<Rightarrow> nat" where
  "SEQUENTIAL c r b = r * NUM_BANKS c + b"

definition add_at :: "nat \<Rightarrow> nat \<Rightarrow> (nat \<Rightarrow> nat) \<Rightarrow> nat \<Rightarrow> nat" where
  "add_at i x f = f(i := u64 (f i + x))"

section \<open>Data from the ranks\<close>

definition mc_receiveFromBus :: "dram_cfg \<Rightarrow> BusPacket \<Rightarrow> MemoryController \<Rightarrow> derr + MemoryController" where
  "mc_receiveFromBus c p mc =
     (if busPacketType p \<noteq> DATA then Inl Not_Data
      else Inr (mc\<lparr>returnTransaction := returnTransaction mc @ [mkdTransaction D_RETURN_DATA (physicalAddress p)],
                   totalReadsPerBank := add_at (SEQUENTIAL c (rank p) (bank p)) 1 (totalReadsPerBank mc)\<rparr>))"

section \<open>Parts of update\<close>

subsection \<open>State changes that are due\<close>

definition tick_state :: "dram_cfg \<Rightarrow> BankState \<Rightarrow> BankState" where
  "tick_state c s =
     (if 0 < stateChangeCountdown s then
        let s1 = s\<lparr>stateChangeCountdown := stateChangeCountdown s - 1\<rparr> in
        if stateChangeCountdown s1 = 0 then
          (case lastCommand s1 of
             WRITE_P \<Rightarrow> s1\<lparr>currentBankState := Precharging, lastCommand := PRECHARGE, stateChangeCountdown := tRP c\<rparr>
           | READ_P \<Rightarrow> s1\<lparr>currentBankState := Precharging, lastCommand := PRECHARGE, stateChangeCountdown := tRP c\<rparr>
           | REFRESH \<Rightarrow> s1\<lparr>currentBankState := Idle\<rparr>
           | PRECHARGE \<Rightarrow> s1\<lparr>currentBankState := Idle\<rparr>
           | _ \<Rightarrow> s1)
        else s1
      else s)"

definition update_bank_states :: "dram_cfg \<Rightarrow> MemoryController \<Rightarrow> MemoryController" where
  "update_bank_states c mc = mc\<lparr>bankStates := (\<lambda>i j. if i < NUM_RANKS c \<and> j < NUM_BANKS c
     then tick_state c (bankStates mc i j) else bankStates mc i j)\<rparr>"

subsection \<open>Packets on the buses\<close>

definition deliver_cmd :: "dram_cfg \<Rightarrow> MemoryController \<times> rank_table \<Rightarrow> derr + MemoryController \<times> rank_table" where
  "deliver_cmd c = (\<lambda>(mc, rks). case outgoingCmdPacket mc of
       None \<Rightarrow> Inr (mc, rks)
     | Some p \<Rightarrow>
         (let left = u32_sub (cmdCyclesLeft mc) 1; mc1 = mc\<lparr>cmdCyclesLeft := left\<rparr> in
          if left = 0
          then bindR (rank_receiveFromBus c p (rks (rank p))) (\<lambda>rk.
                 Inr (mc1\<lparr>outgoingCmdPacket := None\<rparr>, rks(rank p := rk)))
          else Inr (mc1, rks)))"

definition deliver_data :: "dram_cfg \<Rightarrow> MemoryController \<times> rank_table \<Rightarrow> derr + (MemoryController \<times> rank_table) \<times> dcallback list" where
  "deliver_data c = (\<lambda>(mc, rks). case outgoingDataPacket mc of
       None \<Rightarrow> Inr ((mc, rks), [])
     | Some p \<Rightarrow>
         (let left = u32_sub (dataCyclesLeft mc) 1; mc1 = mc\<lparr>dataCyclesLeft := left\<rparr> in
          if left = 0
          then bindR (rank_receiveFromBus c p (rks (rank p))) (\<lambda>rk.
                 Inr ((mc1\<lparr>outgoingDataPacket := None\<rparr>, rks(rank p := rk)), [Write_Data_Done (physicalAddress p) (mc_clock mc)]))
          else Inr ((mc1, rks), [])))"

definition send_write_data :: "dram_cfg \<Rightarrow> MemoryController \<Rightarrow> derr + MemoryController" where
  "send_write_data c mc =
     (if writeDataCountdown mc = [] then Inr mc
      else let cs = map (\<lambda>x. u32_sub x 1) (writeDataCountdown mc); mc1 = mc\<lparr>writeDataCountdown := cs\<rparr> in
        if hd cs = 0 then
          (if outgoingDataPacket mc1 \<noteq> None then Inl Data_Bus_Collision
           else let p = writeDataToSend mc1 ! 0 in
             Inr (mc1\<lparr>outgoingDataPacket := Some p, dataCyclesLeft := BL c div 2,
                      totalTransactions := u64 (totalTransactions mc1 + 1),
                      totalWritesPerBank := add_at (SEQUENTIAL c (rank p) (bank p)) 1 (totalWritesPerBank mc1),
                      writeDataCountdown := tl cs, writeDataToSend := tl (writeDataToSend mc1)\<rparr>))
        else Inr mc1)"

subsection \<open>Refresh requests\<close>

definition request_refresh :: "dram_cfg \<Rightarrow> MemoryController \<times> rank_table \<Rightarrow> MemoryController \<times> rank_table" where
  "request_refresh c = (\<lambda>(mc, rks).
     let r = mc_refreshRank mc; waits = rks(r := (rks r)\<lparr>r_refreshWaiting := True\<rparr>) in
     if refreshCountdown mc r = 0
     then (mc\<lparr>commandQueue := needRefresh r (commandQueue mc), refreshCountdown := (refreshCountdown mc)(r := REFRESH_CYCLES c),
             mc_refreshRank := (if r + 1 = NUM_RANKS c then 0 else r + 1)\<rparr>, waits)
     else if powerDown mc r \<and> refreshCountdown mc r \<le> tXP c then (mc, waits)
     else (mc, rks))"

subsection \<open>Issuing a command\<close>

definition u32 :: "nat \<Rightarrow> nat" where
  "u32 n = n mod 2 ^ 32"

definition read_energy :: "dram_cfg \<Rightarrow> nat" where
  "read_energy c = u32 (u32 (u32_sub (IDD4R c) (IDD3N c) * BL c) div 2 * NUM_DEVICES c)"

definition write_energy :: "dram_cfg \<Rightarrow> nat" where
  "write_energy c = u32 (u32 (u32_sub (IDD4W c) (IDD3N c) * BL c) div 2 * NUM_DEVICES c)"

definition actpre_energy :: "dram_cfg \<Rightarrow> nat" where
  "actpre_energy c = u32 (u32_sub (u32 (IDD0 c * tRC c)) (u32 (IDD3N c * tRAS c + IDD2N c * u32_sub (tRC c) (tRAS c))) * NUM_DEVICES c)"

definition refresh_energy :: "dram_cfg \<Rightarrow> nat" where
  "refresh_energy c = u32 (u32 (u32_sub (IDD5 c) (IDD3N c) * tRFC c) * NUM_DEVICES c)"

text \<open>The delays a column access puts on the other banks, of the same rank and of other ranks.\<close>

definition read_delays :: "dram_cfg \<Rightarrow> nat \<Rightarrow> nat \<Rightarrow> bank_table \<Rightarrow> bank_table" where
  "read_delays c now r bs = (\<lambda>i j. let s = bs i j in
     if i < NUM_RANKS c \<and> j < NUM_BANKS c then
       if i \<noteq> r then
         if currentBankState s = RowActive
         then s\<lparr>nextRead := max (now + BL c div 2 + tRTRS c) (nextRead s), nextWrite := max (now + READ_TO_WRITE_DELAY c) (nextWrite s)\<rparr>
         else s
       else s\<lparr>nextRead := max (now + max (tCCD c) (BL c div 2)) (nextRead s), nextWrite := max (now + READ_TO_WRITE_DELAY c) (nextWrite s)\<rparr>
     else s)"

definition write_delays :: "dram_cfg \<Rightarrow> nat \<Rightarrow> nat \<Rightarrow> bank_table \<Rightarrow> bank_table" where
  "write_delays c now r bs = (\<lambda>i j. let s = bs i j in
     if i < NUM_RANKS c \<and> j < NUM_BANKS c then
       if i \<noteq> r then
         if currentBankState s = RowActive
         then s\<lparr>nextWrite := max (now + BL c div 2 + tRTRS c) (nextWrite s), nextRead := max (now + WRITE_TO_READ_DELAY_R c) (nextRead s)\<rparr>
         else s
       else s\<lparr>nextWrite := max (now + max (BL c div 2) (tCCD c)) (nextWrite s), nextRead := max (now + WRITE_TO_READ_DELAY_B c) (nextRead s)\<rparr>
     else s)"

text \<open>After an access with auto-precharge the bank waits for its activation.\<close>

definition block_bank :: "nat \<Rightarrow> nat \<Rightarrow> bank_table \<Rightarrow> bank_table" where
  "block_bank r b bs = upd2 r b ((bs r b)\<lparr>nextRead := nextActivate (bs r b), nextWrite := nextActivate (bs r b)\<rparr>) bs"

definition activate_states :: "dram_cfg \<Rightarrow> nat \<Rightarrow> BusPacket \<Rightarrow> bank_table \<Rightarrow> bank_table" where
  "activate_states c now p bs =
     (let r = rank p; b = bank p; s = bs r b;
          bs1 = upd2 r b (s\<lparr>currentBankState := RowActive, lastCommand := ACTIVATE, openRowAddress := row p,
                  nextActivate := max (now + tRC c) (nextActivate s), nextPrecharge := max (now + tRAS c) (nextPrecharge s),
                  nextRead := max (now + u32_sub (tRCD c) (AL c)) (nextRead s),
                  nextWrite := max (now + u32_sub (tRCD c) (AL c)) (nextWrite s)\<rparr>) bs
      in (\<lambda>i j. if i = r \<and> j < NUM_BANKS c \<and> j \<noteq> b
           then (bs1 i j)\<lparr>nextActivate := max (now + tRRD c) (nextActivate (bs1 i j))\<rparr> else bs1 i j))"

definition refresh_states :: "dram_cfg \<Rightarrow> nat \<Rightarrow> nat \<Rightarrow> bank_table \<Rightarrow> bank_table" where
  "refresh_states c now r bs = (\<lambda>i j. if i = r \<and> j < NUM_BANKS c
     then (bs i j)\<lparr>nextActivate := now + tRFC c, currentBankState := Refreshing, lastCommand := REFRESH,
                   stateChangeCountdown := tRFC c\<rparr>
     else bs i j)"

definition issue_states :: "dram_cfg \<Rightarrow> nat \<Rightarrow> BusPacket \<Rightarrow> bank_table \<Rightarrow> derr + bank_table" where
  "issue_states c now p bs =
     (let r = rank p; b = bank p; s = bs r b in
      case busPacketType p of
        READ_P \<Rightarrow> Inr (block_bank r b (read_delays c now r (upd2 r b (s\<lparr>
            nextActivate := max (now + READ_AUTOPRE_DELAY c) (nextActivate s), lastCommand := READ_P,
            stateChangeCountdown := READ_TO_PRE_DELAY c\<rparr>) bs)))
      | READ \<Rightarrow> Inr (read_delays c now r (upd2 r b (s\<lparr>
            nextPrecharge := max (now + READ_TO_PRE_DELAY c) (nextPrecharge s), lastCommand := READ\<rparr>) bs))
      | WRITE_P \<Rightarrow> Inr (block_bank r b (write_delays c now r (upd2 r b (s\<lparr>
            nextActivate := max (now + WRITE_AUTOPRE_DELAY c) (nextActivate s), lastCommand := WRITE_P,
            stateChangeCountdown := WRITE_TO_PRE_DELAY c\<rparr>) bs)))
      | WRITE \<Rightarrow> Inr (write_delays c now r (upd2 r b (s\<lparr>
            nextPrecharge := max (now + WRITE_TO_PRE_DELAY c) (nextPrecharge s), lastCommand := WRITE\<rparr>) bs))
      | ACTIVATE \<Rightarrow> Inr (activate_states c now p bs)
      | PRECHARGE \<Rightarrow> Inr (upd2 r b (s\<lparr>currentBankState := Precharging, lastCommand := PRECHARGE,
            stateChangeCountdown := tRP c, nextActivate := max (now + tRP c) (nextActivate s)\<rparr>) bs)
      | REFRESH \<Rightarrow> Inr (refresh_states c now r bs)
      | DATA \<Rightarrow> Inl Crazy_Packet)"

definition add_energy :: "dram_cfg \<Rightarrow> BusPacket \<Rightarrow> MemoryController \<Rightarrow> MemoryController" where
  "add_energy c p mc = (case busPacketType p of
       READ_P \<Rightarrow> mc\<lparr>burstEnergy := add_at (rank p) (read_energy c) (burstEnergy mc)\<rparr>
     | READ \<Rightarrow> mc\<lparr>burstEnergy := add_at (rank p) (read_energy c) (burstEnergy mc)\<rparr>
     | WRITE_P \<Rightarrow> mc\<lparr>burstEnergy := add_at (rank p) (write_energy c) (burstEnergy mc)\<rparr>
     | WRITE \<Rightarrow> mc\<lparr>burstEnergy := add_at (rank p) (write_energy c) (burstEnergy mc)\<rparr>
     | ACTIVATE \<Rightarrow> mc\<lparr>actpreEnergy := add_at (rank p) (actpre_energy c) (actpreEnergy mc)\<rparr>
     | REFRESH \<Rightarrow> mc\<lparr>refreshEnergy := add_at (rank p) (refresh_energy c) (refreshEnergy mc)\<rparr>
     | _ \<Rightarrow> mc)"

definition queue_write_data :: "dram_cfg \<Rightarrow> BusPacket \<Rightarrow> MemoryController \<Rightarrow> MemoryController" where
  "queue_write_data c p mc =
     (if busPacketType p = WRITE \<or> busPacketType p = WRITE_P
      then mc\<lparr>writeDataToSend := writeDataToSend mc @ [mkBusPacket DATA (physicalAddress p) (column p) (row p) (rank p) (bank p)],
              writeDataCountdown := writeDataCountdown mc @ [WL c]\<rparr>
      else mc)"

definition issue_command :: "dram_cfg \<Rightarrow> MemoryController \<Rightarrow> derr + MemoryController" where
  "issue_command c mc =
     bindR (pop c (bankStates mc) (commandQueue mc)) (\<lambda>(res, cq). case res of
         None \<Rightarrow> Inr (mc\<lparr>commandQueue := cq\<rparr>)
       | Some p \<Rightarrow>
           bindR (issue_states c (mc_clock mc) p (bankStates mc)) (\<lambda>bs.
             if outgoingCmdPacket mc \<noteq> None then Inl Command_Bus_Collision
             else Inr ((add_energy c p (queue_write_data c p (mc\<lparr>commandQueue := cq\<rparr>)))
                    \<lparr>bankStates := bs, outgoingCmdPacket := Some p, cmdCyclesLeft := tCMD c\<rparr>)))"

subsection \<open>Scheduling a transaction\<close>

definition place_of :: "dram_cfg \<Rightarrow> dTransaction \<Rightarrow> mapped" where
  "place_of c t = addressMapping c (of_nat (daddress t))"

definition has_room :: "dram_cfg \<Rightarrow> MemoryController \<Rightarrow> dTransaction \<Rightarrow> bool" where
  "has_room c mc t = hasRoomFor c 2 (m_rank (place_of c t)) (m_bank (place_of c t)) (commandQueue mc)"

definition schedule_transaction :: "dram_cfg \<Rightarrow> MemoryController \<Rightarrow> derr + MemoryController" where
  "schedule_transaction c mc =
     (case find (\<lambda>i. has_room c mc (transactionQueue mc ! i)) [0..<length (transactionQueue mc)] of
        None \<Rightarrow> Inr mc
      | Some i \<Rightarrow>
          (let t = transactionQueue mc ! i; m = place_of c t;
               packet = (\<lambda>ty. mkBusPacket ty (daddress t) (m_col m) (m_row m) (m_rank m) (m_bank m)) in
           bindR (getBusPacketType c t) (\<lambda>bpType.
           bindR (enqueue c (packet ACTIVATE) (commandQueue mc)) (\<lambda>cq1.
           bindR (enqueue c (packet bpType) cq1) (\<lambda>cq2.
             Inr (mc\<lparr>transactionQueue := remove_nth i (transactionQueue mc), commandQueue := cq2,
                     pendingReadTransactions := pendingReadTransactions mc @ (if dtransactionType t = D_DATA_READ then [t] else [])\<rparr>))))))"

subsection \<open>Power\<close>

definition all_banks :: "dram_cfg \<Rightarrow> CurrentBankState \<Rightarrow> nat \<Rightarrow> MemoryController \<Rightarrow> bool" where
  "all_banks c st i mc \<longleftrightarrow> (\<forall>j \<in> set [0..<NUM_BANKS c]. currentBankState (bankStates mc i j) = st)"

definition set_banks :: "dram_cfg \<Rightarrow> nat \<Rightarrow> (BankState \<Rightarrow> BankState) \<Rightarrow> MemoryController \<Rightarrow> MemoryController" where
  "set_banks c r f mc = mc\<lparr>bankStates := (\<lambda>i j. if i = r \<and> j < NUM_BANKS c then f (bankStates mc i j) else bankStates mc i j)\<rparr>"

definition power_mode :: "dram_cfg \<Rightarrow> nat \<Rightarrow> MemoryController \<times> rank_table \<Rightarrow> derr + MemoryController \<times> rank_table" where
  "power_mode c i = (\<lambda>(mc, rks).
     if USE_LOW_POWER c then
       if isEmpty c i (commandQueue mc) \<and> \<not> r_refreshWaiting (rks i) then
         if all_banks c Idle i mc
         then bindR (rank_powerDown c (rks i)) (\<lambda>rk.
                Inr (set_banks c i (\<lambda>s. s\<lparr>currentBankState := PowerDown, nextPowerUp := mc_clock mc + tCKE c\<rparr>)
                       (mc\<lparr>powerDown := (powerDown mc)(i := True)\<rparr>), rks(i := rk)))
         else Inr (mc, rks)
       else if nextPowerUp (bankStates mc i 0) \<le> mc_clock mc \<and> powerDown mc i
       then bindR (rank_powerUp c (rks i)) (\<lambda>rk.
              Inr (set_banks c i (\<lambda>s. s\<lparr>currentBankState := Idle, nextActivate := mc_clock mc + tXP c\<rparr>)
                     (mc\<lparr>powerDown := (powerDown mc)(i := False)\<rparr>), rks(i := rk)))
       else Inr (mc, rks)
     else Inr (mc, rks))"

definition background_energy :: "dram_cfg \<Rightarrow> nat \<Rightarrow> MemoryController \<Rightarrow> MemoryController" where
  "background_energy c i mc =
     (let bankOpen = (\<exists>j \<in> set [0..<NUM_BANKS c]. currentBankState (bankStates mc i j) = Refreshing \<or> currentBankState (bankStates mc i j) = RowActive);
          current = (if bankOpen then IDD3N c else if powerDown mc i then IDD2P c else IDD2N c)
      in mc\<lparr>backgroundEnergy := add_at i (u32 (current * NUM_DEVICES c)) (backgroundEnergy mc)\<rparr>)"

fun update_power :: "dram_cfg \<Rightarrow> nat list \<Rightarrow> MemoryController \<times> rank_table \<Rightarrow> derr + MemoryController \<times> rank_table" where
  "update_power c [] st = Inr st"
| "update_power c (i # is) st =
     bindR (power_mode c i st) (\<lambda>(mc, rks). update_power c is (background_energy c i mc, rks))"

subsection \<open>Returning data\<close>

definition insertHistogram :: "dram_cfg \<Rightarrow> nat \<Rightarrow> nat \<Rightarrow> nat \<Rightarrow> MemoryController \<Rightarrow> MemoryController" where
  "insertHistogram c latencyValue r b mc =
     mc\<lparr>totalEpochLatency := add_at (SEQUENTIAL c r b) latencyValue (totalEpochLatency mc),
        latencies := (let l = latencyValue div 10 * 10 in (latencies mc)(l := u32 (latencies mc l + 1)))\<rparr>"

definition return_data :: "dram_cfg \<Rightarrow> MemoryController \<Rightarrow> derr + MemoryController \<times> dcallback list" where
  "return_data c mc = (case returnTransaction mc of
       [] \<Rightarrow> Inr (mc, [])
     | t # ts \<Rightarrow>
         (let mc1 = mc\<lparr>totalTransactions := u64 (totalTransactions mc + 1)\<rparr> in
          case find (\<lambda>i. daddress (pendingReadTransactions mc ! i) = daddress t) [0..<length (pendingReadTransactions mc)] of
            None \<Rightarrow> Inl No_Matching_Read
          | Some i \<Rightarrow>
              (let q = pendingReadTransactions mc ! i; m = place_of c t;
                   mc2 = insertHistogram c (u32 (u64_sub (mc_clock mc) (timeAdded q))) (m_rank m) (m_bank m) mc1
               in Inr (mc2\<lparr>pendingReadTransactions := remove_nth i (pendingReadTransactions mc), returnTransaction := ts\<rparr>,
                       [Read_Returned (daddress q) (mc_clock mc)]))))"

subsection \<open>The whole update\<close>

definition count_refresh :: "dram_cfg \<Rightarrow> MemoryController \<Rightarrow> MemoryController" where
  "count_refresh c mc = mc\<lparr>refreshCountdown := (\<lambda>i. if i < NUM_RANKS c then u32_sub (refreshCountdown mc i) 1 else refreshCountdown mc i),
     commandQueue := (commandQueue mc)\<lparr>cq_clock := cq_clock (commandQueue mc) + 1\<rparr>\<rparr>"

definition mc_update :: "dram_cfg \<Rightarrow> MemoryController \<times> rank_table \<Rightarrow> derr + (MemoryController \<times> rank_table) \<times> dcallback list" where
  "mc_update c = (\<lambda>(mc, rks).
     bindR (deliver_cmd c (update_bank_states c mc, rks)) (\<lambda>st1.
     bindR (deliver_data c st1) (\<lambda>((mc2, rks2), out1).
     bindR (send_write_data c mc2) (\<lambda>mc3.
     (let (mc4, rks4) = request_refresh c (mc3, rks2) in
     bindR (issue_command c mc4) (\<lambda>mc5.
     bindR (schedule_transaction c mc5) (\<lambda>mc6.
     bindR (update_power c [0..<NUM_RANKS c] (mc6, rks4)) (\<lambda>(mc7, rks7).
     bindR (return_data c mc7) (\<lambda>(mc8, out2).
       Inr ((count_refresh c mc8, rks7), out1 @ out2))))))))))"

section \<open>Requests\<close>

definition mc_WillAcceptTransaction :: "dram_cfg \<Rightarrow> MemoryController \<Rightarrow> bool" where
  "mc_WillAcceptTransaction c mc \<longleftrightarrow> length (transactionQueue mc) < TRANS_QUEUE_DEPTH c"

definition mc_addTransaction :: "dram_cfg \<Rightarrow> dTransaction \<Rightarrow> MemoryController \<Rightarrow> bool \<times> MemoryController" where
  "mc_addTransaction c t mc =
     (if mc_WillAcceptTransaction c mc
      then (True, mc\<lparr>transactionQueue := transactionQueue mc @ [t\<lparr>timeAdded := mc_clock mc\<rparr>]\<rparr>)
      else (False, mc))"

definition resetStats :: "dram_cfg \<Rightarrow> MemoryController \<Rightarrow> MemoryController" where
  "resetStats c mc =
     (let n = NUM_RANKS c * NUM_BANKS c;
          per_bank = (\<lambda>f i. if i < n then 0 else f i); per_rank = (\<lambda>f i. if i < NUM_RANKS c then 0 else f i)
      in mc\<lparr>grandTotalBankAccesses := (\<lambda>i. if i < n
              then u64 (grandTotalBankAccesses mc i + u64 (totalReadsPerBank mc i + totalWritesPerBank mc i)) else grandTotalBankAccesses mc i),
            totalReadsPerBank := per_bank (totalReadsPerBank mc), totalWritesPerBank := per_bank (totalWritesPerBank mc),
            totalEpochLatency := per_bank (totalEpochLatency mc),
            burstEnergy := per_rank (burstEnergy mc), actpreEnergy := per_rank (actpreEnergy mc),
            refreshEnergy := per_rank (refreshEnergy mc), backgroundEnergy := per_rank (backgroundEnergy mc),
            totalReadsPerRank := per_rank (totalReadsPerRank mc), totalWritesPerRank := per_rank (totalWritesPerRank mc)\<rparr>)"

end
