(* ===== verification/Dram_Protocol.thy ===== *)
theory Dram_Protocol
  imports Dram_Controller
begin

text \<open>
  Controller and ranks keep separate tables of the bank states; a command reaches the rank a
  cycle after the controller has taken it into account. Shown: the tables agree, so a rank
  is never sent a command, a power-down or a power-up that it refuses.
\<close>

section \<open>The bank states of a rank\<close>

text \<open>The effect of a command on the bank states alone.\<close>

definition rank_command :: "dram_cfg \<Rightarrow> nat \<Rightarrow> BusPacket \<Rightarrow> (nat \<Rightarrow> BankState) \<Rightarrow> derr + (nat \<Rightarrow> BankState)" where
  "rank_command c now p bs = (case rank_receiveFromBus c p (newRank\<lparr>r_bankStates := bs, r_clock := now\<rparr>) of
       Inl e \<Rightarrow> Inl e | Inr rk \<Rightarrow> Inr (r_bankStates rk))"

text \<open>The rest of the effect.\<close>

definition rank_effect :: "dram_cfg \<Rightarrow> BusPacket \<Rightarrow> Rank \<Rightarrow> Rank" where
  "rank_effect c p rk = (case busPacketType p of
       READ \<Rightarrow> return_later c p rk | READ_P \<Rightarrow> return_later c p rk
     | WRITE \<Rightarrow> note_write p rk | WRITE_P \<Rightarrow> note_write p rk
     | REFRESH \<Rightarrow> rk\<lparr>r_refreshWaiting := False\<rparr>
     | _ \<Rightarrow> rk)"

lemma rank_receive_split:
  "rank_receiveFromBus c p rk =
     bindR (rank_command c (r_clock rk) p (r_bankStates rk)) (\<lambda>bs. Inr (rank_effect c p (rk\<lparr>r_bankStates := bs\<rparr>)))"
  by (cases "busPacketType p")
    (auto simp: rank_command_def rank_receiveFromBus_def rank_effect_def newRank_def return_later_def note_write_def Let_def)

section \<open>Agreement\<close>

definition timing_cfg :: "dram_cfg \<Rightarrow> bool" where
  "timing_cfg c \<longleftrightarrow> tCMD c = 1 \<and> 0 < READ_TO_PRE_DELAY c \<and> READ_TO_PRE_DELAY c \<le> READ_AUTOPRE_DELAY c \<and>
     0 < BL c div 2 \<and> BL c div 2 \<le> READ_AUTOPRE_DELAY c \<and> BL c div 2 \<le> u32_sub (tRCD c) (AL c) + 1 \<and> BL c < 2 ^ 32 \<and>
     2 \<le> RL c \<and> RL c < 2 ^ 32"

lemma timing_ddr3: "timing_cfg ddr3_cfg"
  by (simp add: timing_cfg_def ddr3_cfg_def RL_def READ_TO_PRE_DELAY_def READ_AUTOPRE_DELAY_def u32_sub_def)

lemma WL_eq: "timing_cfg c \<Longrightarrow> WL c = RL c - 1 \<and> 0 < WL c \<and> WL c < 2 ^ 32"
  by (auto simp: timing_cfg_def WL_def u32_sub_id)

text \<open>
  A bank of the controller and the same bank of the rank, with no command under way. After an
  access with auto-precharge the controller keeps the row open for a while, and blocks it.
\<close>

definition auto_pre :: "BankState \<Rightarrow> bool" where
  "auto_pre s \<longleftrightarrow> lastCommand s = READ_P \<or> lastCommand s = WRITE_P"

definition agree_bank :: "dram_cfg \<Rightarrow> nat \<Rightarrow> BankState \<Rightarrow> BankState \<Rightarrow> bool" where
  "agree_bank c now s k \<longleftrightarrow> nextActivate k \<le> nextActivate s + 1 \<and>
     (currentBankState k = RowActive \<longrightarrow>
        nextRead k \<le> nextRead s + 1 \<and> nextWrite k \<le> nextWrite s + 1 \<and> nextPrecharge k \<le> nextPrecharge s + 1) \<and>
     (case currentBankState s of
        Idle \<Rightarrow> currentBankState k = Idle \<and> stateChangeCountdown s = 0
      | RowActive \<Rightarrow>
          if auto_pre s
          then currentBankState k = Idle \<and> rowBufferPolicy c = ClosePage \<and> 0 < stateChangeCountdown s \<and>
            now + stateChangeCountdown s \<le> nextRead s \<and> now + stateChangeCountdown s \<le> nextWrite s
          else currentBankState k = RowActive \<and> openRowAddress k = openRowAddress s \<and>
            lastCommand s \<noteq> PRECHARGE \<and> lastCommand s \<noteq> REFRESH
      | Precharging \<Rightarrow> currentBankState k = Idle \<and> lastCommand s = PRECHARGE
      | Refreshing \<Rightarrow> currentBankState k = Idle \<and> lastCommand s = REFRESH
      | PowerDown \<Rightarrow> currentBankState k = PowerDown \<and> nextPowerUp k = nextPowerUp s \<and> stateChangeCountdown s = 0)"

definition agree_banks :: "dram_cfg \<Rightarrow> nat \<Rightarrow> (nat \<Rightarrow> BankState) \<Rightarrow> (nat \<Rightarrow> BankState) \<Rightarrow> bool" where
  "agree_banks c now s k \<longleftrightarrow> (\<forall>b<NUM_BANKS c. agree_bank c now (s b) (k b))"

lemma agree_new: "agree_banks c 0 (\<lambda>b. newBankState) (\<lambda>b. newBankState)"
  by (simp add: agree_banks_def agree_bank_def newBankState_def)

text \<open>A cycle passes.\<close>

lemma agree_tick: "agree_bank c now s k \<Longrightarrow> agree_bank c (now + 1) (tick_state c s) k"
  by (cases "currentBankState s"; cases "lastCommand s")
    (auto simp: agree_bank_def tick_state_def Let_def auto_pre_def split: if_splits)

text \<open>Later times in the table of the controller do no harm.\<close>

definition later :: "BankState \<Rightarrow> BankState \<Rightarrow> bool" where
  "later s s' \<longleftrightarrow> currentBankState s' = currentBankState s \<and> openRowAddress s' = openRowAddress s \<and> lastCommand s' = lastCommand s \<and>
     stateChangeCountdown s' = stateChangeCountdown s \<and> nextPowerUp s' = nextPowerUp s \<and> nextRead s \<le> nextRead s' \<and>
     nextWrite s \<le> nextWrite s' \<and> nextActivate s \<le> nextActivate s' \<and> nextPrecharge s \<le> nextPrecharge s'"

lemma agree_later: "later s s' \<Longrightarrow> agree_bank c now s k \<Longrightarrow> agree_bank c now s' k"
  by (cases "currentBankState s") (auto simp: agree_bank_def auto_pre_def later_def split: if_splits)

lemma agree_banks_later: "(\<And>b. b < NUM_BANKS c \<Longrightarrow> later (s b) (s' b)) \<Longrightarrow> agree_banks c now s k \<Longrightarrow> agree_banks c now s' k"
  unfolding agree_banks_def by (blast intro: agree_later)

section \<open>Issuing\<close>

lemma agree_bank_of:
  assumes "agree_banks c now s k" "b < NUM_BANKS c"
  shows "agree_bank c now (s b) (k b)"
  using assms by (simp add: agree_banks_def)

definition issue_post :: "dram_cfg \<Rightarrow> nat \<Rightarrow> BusPacket \<Rightarrow> bank_table \<Rightarrow> (nat \<Rightarrow> BankState) \<Rightarrow> bank_table \<Rightarrow> bool" where
  "issue_post c now p bs k bs' \<longleftrightarrow>
     okR (rank_command c (now + 1) p k) (agree_banks c now (bs' (rank p))) \<and>
     (\<forall>r k. r < NUM_RANKS c \<longrightarrow> r \<noteq> rank p \<longrightarrow> agree_banks c now (bs r) k \<longrightarrow> agree_banks c now (bs' r) k)"

lemma read_delays_other:
  "r \<noteq> r' \<Longrightarrow> agree_banks c now (bs r) k \<Longrightarrow> agree_banks c now (read_delays c t r' (upd2 r' b s bs) r) k"
  by (erule agree_banks_later [rotated]) (auto simp: later_def read_delays_def Let_def)

lemma write_delays_other:
  "r \<noteq> r' \<Longrightarrow> agree_banks c now (bs r) k \<Longrightarrow> agree_banks c now (write_delays c t r' (upd2 r' b s bs) r) k"
  by (erule agree_banks_later [rotated]) (auto simp: later_def write_delays_def Let_def)

lemma block_bank_other [simp]: "r \<noteq> r' \<Longrightarrow> block_bank r' b bs r = bs r"
  by (simp add: block_bank_def upd2_def)

text \<open>What holds of the accessed bank when a column access is issued.\<close>

lemma access_open:
  assumes "agree_bank c now s k" "currentBankState s = RowActive" "nextRead s \<le> now \<or> nextWrite s \<le> now"
  shows "currentBankState k = RowActive" "openRowAddress k = openRowAddress s" "\<not> auto_pre s"
    "nextRead k \<le> nextRead s + 1" "nextWrite k \<le> nextWrite s + 1" "nextPrecharge k \<le> nextPrecharge s + 1"
  using assms by (auto simp: agree_bank_def split: if_splits)

lemma issue_read:
  assumes ag: "agree_banks c now (bs (rank p)) k" and ok: "cmd_ok c bs cq p" "cq_clock cq = now" and ty: "busPacketType p = READ"
  shows "okR (issue_states c now p bs) (issue_post c now p bs k)"
proof -
  let ?s = "bs (rank p) (bank p)" let ?k = "k (bank p)"
  have b: "rank p < NUM_RANKS c" "bank p < NUM_BANKS c" and s: "currentBankState ?s = RowActive" "nextRead ?s \<le> now" "row p = openRowAddress ?s"
    using ok ty by (auto simp: cmd_ok_def isIssuable_def Let_def)
  note o = access_open [OF agree_bank_of [OF ag b(2)] s(1)]
  have allowed: "access_allowed ?k (now + 1) (nextRead ?k) p" using o s by (simp add: access_allowed_def)
  let ?bs = "read_delays c now (rank p) (upd2 (rank p) (bank p)
     (?s\<lparr>nextPrecharge := max (now + READ_TO_PRE_DELAY c) (nextPrecharge ?s), lastCommand := READ\<rparr>) bs)"
  let ?k' = "after_read c (now + 1) (k(bank p := ?k\<lparr>nextPrecharge := max (nextPrecharge ?k) (now + 1 + READ_TO_PRE_DELAY c)\<rparr>))"
  have "agree_bank c now (?bs (rank p) j) (?k' j)" if j: "j < NUM_BANKS c" for j
  proof (cases "j = bank p")
    case True
    then show ?thesis using b o s agree_bank_of [OF ag j]
      by (auto simp: read_delays_def after_read_def Let_def agree_bank_def auto_pre_def)
  next
    case False
    then show ?thesis using b j agree_bank_of [OF ag j]
      by (cases "currentBankState (bs (rank p) j)") (auto simp: read_delays_def after_read_def Let_def agree_bank_def auto_pre_def split: if_splits)
  qed
  moreover have "rank_command c (now + 1) p k = Inr ?k'" using ty allowed
    by (simp add: rank_command_def rank_receiveFromBus_def Let_def return_later_def)
  ultimately show ?thesis using ty read_delays_other [of _ "rank p" c now bs]
    by (simp add: issue_states_def Let_def issue_post_def agree_banks_def)
qed

lemma issue_write:
  assumes ag: "agree_banks c now (bs (rank p)) k" and ok: "cmd_ok c bs cq p" "cq_clock cq = now" and ty: "busPacketType p = WRITE"
  shows "okR (issue_states c now p bs) (issue_post c now p bs k)"
proof -
  let ?s = "bs (rank p) (bank p)" let ?k = "k (bank p)"
  have b: "rank p < NUM_RANKS c" "bank p < NUM_BANKS c" and s: "currentBankState ?s = RowActive" "nextWrite ?s \<le> now" "row p = openRowAddress ?s"
    using ok ty by (auto simp: cmd_ok_def isIssuable_def Let_def)
  note o = access_open [OF agree_bank_of [OF ag b(2)] s(1)]
  have allowed: "access_allowed ?k (now + 1) (nextWrite ?k) p" using o s by (simp add: access_allowed_def)
  let ?bs = "write_delays c now (rank p) (upd2 (rank p) (bank p)
     (?s\<lparr>nextPrecharge := max (now + WRITE_TO_PRE_DELAY c) (nextPrecharge ?s), lastCommand := WRITE\<rparr>) bs)"
  let ?k' = "after_write c (now + 1) (k(bank p := ?k\<lparr>nextPrecharge := max (nextPrecharge ?k) (now + 1 + WRITE_TO_PRE_DELAY c)\<rparr>))"
  have "agree_bank c now (?bs (rank p) j) (?k' j)" if j: "j < NUM_BANKS c" for j
  proof (cases "j = bank p")
    case True
    then show ?thesis using b o s agree_bank_of [OF ag j]
      by (auto simp: write_delays_def after_write_def Let_def agree_bank_def auto_pre_def)
  next
    case False
    then show ?thesis using b j agree_bank_of [OF ag j]
      by (cases "currentBankState (bs (rank p) j)") (auto simp: write_delays_def after_write_def Let_def agree_bank_def auto_pre_def split: if_splits)
  qed
  moreover have "rank_command c (now + 1) p k = Inr ?k'" using ty allowed
    by (simp add: rank_command_def rank_receiveFromBus_def Let_def note_write_def)
  ultimately show ?thesis using ty write_delays_other [of _ "rank p" c now bs]
    by (simp add: issue_states_def Let_def issue_post_def agree_banks_def)
qed

lemma issue_read_p:
  assumes cfg: "timing_cfg c" and ag: "agree_banks c now (bs (rank p)) k" and ok: "cmd_ok c bs cq p" "cq_clock cq = now"
    and ty: "busPacketType p = READ_P"
  shows "okR (issue_states c now p bs) (issue_post c now p bs k)"
proof -
  let ?s = "bs (rank p) (bank p)" let ?k = "k (bank p)"
  have b: "rank p < NUM_RANKS c" "bank p < NUM_BANKS c" and s: "currentBankState ?s = RowActive" "nextRead ?s \<le> now" "row p = openRowAddress ?s"
    and pol: "rowBufferPolicy c = ClosePage"
    using ok ty by (auto simp: cmd_ok_def isIssuable_def Let_def issue_types_def split: RowBufferPolicy.splits)
  note o = access_open [OF agree_bank_of [OF ag b(2)] s(1)]
  have allowed: "access_allowed ?k (now + 1) (nextRead ?k) p" using o s by (simp add: access_allowed_def)
  let ?bs = "block_bank (rank p) (bank p) (read_delays c now (rank p) (upd2 (rank p) (bank p)
     (?s\<lparr>nextActivate := max (now + READ_AUTOPRE_DELAY c) (nextActivate ?s), lastCommand := READ_P,
         stateChangeCountdown := READ_TO_PRE_DELAY c\<rparr>) bs))"
  let ?k' = "after_read c (now + 1) (k(bank p := ?k\<lparr>currentBankState := Idle,
     nextActivate := max (nextActivate ?k) (now + 1 + READ_AUTOPRE_DELAY c)\<rparr>))"
  have "agree_bank c now (?bs (rank p) j) (?k' j)" if j: "j < NUM_BANKS c" for j
  proof (cases "j = bank p")
    case True
    then show ?thesis using b o s agree_bank_of [OF ag j] cfg pol
      by (auto simp: read_delays_def after_read_def Let_def agree_bank_def auto_pre_def block_bank_def timing_cfg_def)
  next
    case False
    then show ?thesis using b j agree_bank_of [OF ag j]
      by (cases "currentBankState (bs (rank p) j)")
        (auto simp: read_delays_def after_read_def Let_def agree_bank_def auto_pre_def block_bank_def split: if_splits)
  qed
  moreover have "rank_command c (now + 1) p k = Inr ?k'" using ty allowed
    by (simp add: rank_command_def rank_receiveFromBus_def Let_def return_later_def)
  ultimately show ?thesis using ty read_delays_other [of _ "rank p" c now bs]
    by (simp add: issue_states_def Let_def issue_post_def agree_banks_def)
qed

lemma issue_write_p:
  assumes cfg: "timing_cfg c" and ag: "agree_banks c now (bs (rank p)) k" and ok: "cmd_ok c bs cq p" "cq_clock cq = now"
    and ty: "busPacketType p = WRITE_P"
  shows "okR (issue_states c now p bs) (issue_post c now p bs k)"
proof -
  let ?s = "bs (rank p) (bank p)" let ?k = "k (bank p)"
  have b: "rank p < NUM_RANKS c" "bank p < NUM_BANKS c" and s: "currentBankState ?s = RowActive" "nextWrite ?s \<le> now" "row p = openRowAddress ?s"
    and pol: "rowBufferPolicy c = ClosePage"
    using ok ty by (auto simp: cmd_ok_def isIssuable_def Let_def issue_types_def split: RowBufferPolicy.splits)
  note o = access_open [OF agree_bank_of [OF ag b(2)] s(1)]
  have allowed: "access_allowed ?k (now + 1) (nextWrite ?k) p" using o s by (simp add: access_allowed_def)
  have pre: "0 < WRITE_TO_PRE_DELAY c" "WRITE_TO_PRE_DELAY c \<le> WRITE_AUTOPRE_DELAY c"
    using cfg by (auto simp: WRITE_TO_PRE_DELAY_def WRITE_AUTOPRE_DELAY_def timing_cfg_def)
  let ?bs = "block_bank (rank p) (bank p) (write_delays c now (rank p) (upd2 (rank p) (bank p)
     (?s\<lparr>nextActivate := max (now + WRITE_AUTOPRE_DELAY c) (nextActivate ?s), lastCommand := WRITE_P,
         stateChangeCountdown := WRITE_TO_PRE_DELAY c\<rparr>) bs))"
  let ?k' = "after_write c (now + 1) (k(bank p := ?k\<lparr>currentBankState := Idle,
     nextActivate := max (nextActivate ?k) (now + 1 + WRITE_AUTOPRE_DELAY c)\<rparr>))"
  have "agree_bank c now (?bs (rank p) j) (?k' j)" if j: "j < NUM_BANKS c" for j
  proof (cases "j = bank p")
    case True
    then show ?thesis using b o s agree_bank_of [OF ag j] pre pol
      by (auto simp: write_delays_def after_write_def Let_def agree_bank_def auto_pre_def block_bank_def)
  next
    case False
    then show ?thesis using b j agree_bank_of [OF ag j]
      by (cases "currentBankState (bs (rank p) j)")
        (auto simp: write_delays_def after_write_def Let_def agree_bank_def auto_pre_def block_bank_def split: if_splits)
  qed
  moreover have "rank_command c (now + 1) p k = Inr ?k'" using ty allowed
    by (simp add: rank_command_def rank_receiveFromBus_def Let_def note_write_def)
  ultimately show ?thesis using ty write_delays_other [of _ "rank p" c now bs]
    by (simp add: issue_states_def Let_def issue_post_def agree_banks_def)
qed

lemma issue_activate:
  assumes ag: "agree_banks c now (bs (rank p)) k" and ok: "cmd_ok c bs cq p" "cq_clock cq = now" and ty: "busPacketType p = ACTIVATE"
  shows "okR (issue_states c now p bs) (issue_post c now p bs k)"
proof -
  let ?s = "bs (rank p) (bank p)" let ?k = "k (bank p)"
  have b: "bank p < NUM_BANKS c" and s: "currentBankState ?s = Idle \<or> currentBankState ?s = Refreshing" "nextActivate ?s \<le> now"
    using ok ty by (auto simp: cmd_ok_def isIssuable_def Let_def)
  have k: "currentBankState ?k = Idle" "nextActivate ?k \<le> now + 1"
    using agree_bank_of [OF ag b] s by (auto simp: agree_bank_def)
  have "agree_bank c now (activate_states c now p bs (rank p) j) (rank_activate c (now + 1) p k j)" if j: "j < NUM_BANKS c" for j
  proof (cases "j = bank p")
    case True
    then show ?thesis by (simp add: activate_states_def rank_activate_def Let_def agree_bank_def auto_pre_def)
  next
    case False
    then show ?thesis using j agree_bank_of [OF ag j]
      by (cases "currentBankState (bs (rank p) j)")
        (auto simp: activate_states_def rank_activate_def Let_def agree_bank_def auto_pre_def split: if_splits)
  qed
  moreover have "rank_command c (now + 1) p k = Inr (rank_activate c (now + 1) p k)" using ty k
    by (simp add: rank_command_def rank_receiveFromBus_def Let_def)
  moreover have "activate_states c now p bs r = bs r" if "r \<noteq> rank p" for r
    using that by (simp add: activate_states_def Let_def fun_eq_iff)
  ultimately show ?thesis using ty by (simp add: issue_states_def Let_def issue_post_def agree_banks_def)
qed

lemma issue_precharge:
  assumes ag: "agree_banks c now (bs (rank p)) k" and ok: "cmd_ok c bs cq p" "cq_clock cq = now" and ty: "busPacketType p = PRECHARGE"
  shows "okR (issue_states c now p bs) (issue_post c now p bs k)"
proof -
  let ?s = "bs (rank p) (bank p)" let ?k = "k (bank p)"
  have b: "bank p < NUM_BANKS c" and s: "currentBankState ?s = RowActive" "nextPrecharge ?s \<le> now"
    and pol: "rowBufferPolicy c = OpenPage"
    using ok ty by (auto simp: cmd_ok_def isIssuable_def Let_def issue_types_def split: RowBufferPolicy.splits)
  have k: "currentBankState ?k = RowActive" "nextPrecharge ?k \<le> now + 1"
    using agree_bank_of [OF ag b] s pol by (auto simp: agree_bank_def split: if_splits)
  let ?bs = "upd2 (rank p) (bank p) (?s\<lparr>currentBankState := Precharging, lastCommand := PRECHARGE, stateChangeCountdown := tRP c,
     nextActivate := max (now + tRP c) (nextActivate ?s)\<rparr>) bs"
  let ?k' = "k(bank p := ?k\<lparr>currentBankState := Idle, nextActivate := max (nextActivate ?k) (now + 1 + tRP c)\<rparr>)"
  have "agree_bank c now (?bs (rank p) j) (?k' j)" if j: "j < NUM_BANKS c" for j
    using agree_bank_of [OF ag j] by (cases "j = bank p") (auto simp: agree_bank_def)
  moreover have "rank_command c (now + 1) p k = Inr ?k'" using ty k
    by (simp add: rank_command_def rank_receiveFromBus_def Let_def)
  ultimately show ?thesis using ty
    by (simp add: issue_states_def Let_def issue_post_def agree_banks_def)
qed

lemma issue_refresh:
  assumes ag: "agree_banks c now (bs (rank p)) k" and ok: "cmd_ok c bs cq p" "cq_clock cq = now" and ty: "busPacketType p = REFRESH"
    and pd: "\<And>b. b < NUM_BANKS c \<Longrightarrow> currentBankState (bs (rank p) b) = PowerDown \<longleftrightarrow> off"
  shows "okR (issue_states c now p bs) (issue_post c now p bs k)"
proof -
  have s: "currentBankState (bs (rank p) j) \<noteq> RowActive" if "j < NUM_BANKS c" for j
    using ok ty that by (auto simp: cmd_ok_def)
  have "\<not> off" using ok ty pd [of 0] by (auto simp: cmd_ok_def)
  then have k: "currentBankState (k j) = Idle" if "j < NUM_BANKS c" for j
    using agree_bank_of [OF ag that] s [OF that] pd [OF that] by (auto simp: agree_bank_def split: CurrentBankState.splits)
  have "agree_bank c now (refresh_states c now (rank p) bs (rank p) j) ((k j)\<lparr>nextActivate := now + 1 + tRFC c\<rparr>)" if j: "j < NUM_BANKS c" for j
    using k [OF j] j by (simp add: refresh_states_def agree_bank_def)
  moreover have "rank_command c (now + 1) p k = Inr (\<lambda>i. if i < NUM_BANKS c then (k i)\<lparr>nextActivate := now + 1 + tRFC c\<rparr> else k i)"
    using ty k by (simp add: rank_command_def rank_receiveFromBus_def Let_def fun_eq_iff)
  moreover have "refresh_states c now (rank p) bs r = bs r" if "r \<noteq> rank p" for r
    using that by (simp add: refresh_states_def fun_eq_iff)
  ultimately show ?thesis using ty
    by (simp add: issue_states_def Let_def issue_post_def agree_banks_def)
qed

lemma issue_agree:
  assumes "timing_cfg c" "agree_banks c now (bs (rank p)) k" "cmd_ok c bs cq p" "cq_clock cq = now"
    "\<And>b. b < NUM_BANKS c \<Longrightarrow> currentBankState (bs (rank p) b) = PowerDown \<longleftrightarrow> off"
  shows "okR (issue_states c now p bs) (issue_post c now p bs k)"
proof (cases "busPacketType p")
  case DATA
  then show ?thesis using assms(3) by (simp add: cmd_ok_def issue_types_def split: RowBufferPolicy.splits)
next
  case REFRESH
  from issue_refresh [OF assms(2-4) this assms(5)] show ?thesis by simp
qed (intro issue_read [OF assms(2-4)] issue_write [OF assms(2-4)] issue_read_p [OF assms(1-4)] issue_write_p [OF assms(1-4)]
    issue_activate [OF assms(2-4)] issue_precharge [OF assms(2-4)]; assumption)+

lemma delay_states [simp]:
  "currentBankState (read_delays c now r bs i j) = currentBankState (bs i j)"
  "currentBankState (write_delays c now r bs i j) = currentBankState (bs i j)"
  "currentBankState (block_bank r b bs i j) = currentBankState (bs i j)"
  "currentBankState (activate_states c now p bs i j) = (if i = rank p \<and> j = bank p then RowActive else currentBankState (bs i j))"
  "currentBankState (refresh_states c now r bs i j) = (if i = r \<and> j < NUM_BANKS c then Refreshing else currentBankState (bs i j))"
  by (simp_all add: read_delays_def write_delays_def block_bank_def activate_states_def refresh_states_def Let_def)

lemma delay_powerUp [simp]:
  "nextPowerUp (read_delays c now r bs i j) = nextPowerUp (bs i j)" "nextPowerUp (write_delays c now r bs i j) = nextPowerUp (bs i j)"
  "nextPowerUp (block_bank r b bs i j) = nextPowerUp (bs i j)" "nextPowerUp (activate_states c now p bs i j) = nextPowerUp (bs i j)"
  "nextPowerUp (refresh_states c now r bs i j) = nextPowerUp (bs i j)" "nextPowerUp (tick_state c s) = nextPowerUp s"
  by (simp_all add: read_delays_def write_delays_def block_bank_def activate_states_def refresh_states_def Let_def)
    (cases "lastCommand s"; simp add: tick_state_def Let_def)

lemma issue_powerUp: "issue_states c now p bs = Inr bs' \<Longrightarrow> nextPowerUp (bs' r b) = nextPowerUp (bs r b)"
  by (cases "busPacketType p") (auto simp: issue_states_def Let_def)

lemma issue_power:
  assumes "cmd_ok c bs cq p" "issue_states c now p bs = Inr bs'" "r < NUM_RANKS c" "b < NUM_BANKS c"
    "\<And>b. b < NUM_BANKS c \<Longrightarrow> currentBankState (bs (rank p) b) = PowerDown \<longleftrightarrow> off"
  shows "currentBankState (bs' r b) = PowerDown \<longleftrightarrow> currentBankState (bs r b) = PowerDown"
proof (cases "busPacketType p")
  case REFRESH
  have "\<not> off" using assms(1,5) REFRESH by (auto simp: cmd_ok_def)
  then show ?thesis using assms(2,4,5) REFRESH by (auto simp: issue_states_def Let_def split: if_splits)
qed (use assms(1,2) in \<open>auto simp: issue_states_def Let_def cmd_ok_def isIssuable_def split: if_splits\<close>)

section \<open>A rank and its row of the table\<close>

text \<open>
  The row of the controller's table, whether the controller has the rank powered down, the
  rank and the command on its way, which reaches the rank at the next cycle.
\<close>

definition same_wakeup :: "dram_cfg \<Rightarrow> (nat \<Rightarrow> BankState) \<Rightarrow> bool" where
  "same_wakeup c s \<longleftrightarrow> (\<forall>b<NUM_BANKS c. nextPowerUp (s b) = nextPowerUp (s 0))"

lemma same_wakeup_cong: "(\<And>b. nextPowerUp (s' b) = nextPowerUp (s b)) \<Longrightarrow> same_wakeup c s' = same_wakeup c s"
  by (simp add: same_wakeup_def)

definition rank_agrees :: "dram_cfg \<Rightarrow> nat \<Rightarrow> (nat \<Rightarrow> BankState) \<Rightarrow> bool \<Rightarrow> BusPacket option \<Rightarrow> Rank \<Rightarrow> bool" where
  "rank_agrees c now s off cmd rk \<longleftrightarrow>
     (case cmd of
        None \<Rightarrow> agree_banks c now s (r_bankStates rk)
      | Some p \<Rightarrow> \<not> off \<and> okR (rank_command c (now + 1) p (r_bankStates rk)) (agree_banks c now s)) \<and>
     isPowerDown rk = off \<and> (\<forall>b<NUM_BANKS c. currentBankState (s b) = PowerDown \<longleftrightarrow> off) \<and>
     (off \<longrightarrow> same_wakeup c s)"

lemma agree_banks_tick:
  "agree_banks c now s k \<Longrightarrow> agree_banks c (now + 1) (\<lambda>j. if j < NUM_BANKS c then tick_state c (s j) else s j) k"
  using agree_tick by (auto simp: agree_banks_def)

lemma tick_power: "stateChangeCountdown s = 0 \<or> currentBankState s \<noteq> PowerDown \<Longrightarrow>
    currentBankState (tick_state c s) = PowerDown \<longleftrightarrow> currentBankState s = PowerDown"
  by (cases "lastCommand s") (auto simp: tick_state_def Let_def)

lemma agree_power: "agree_bank c now s k \<Longrightarrow> stateChangeCountdown s = 0 \<or> currentBankState s \<noteq> PowerDown"
  by (auto simp: agree_bank_def)

text \<open>The states that are due are changed and the command arrives.\<close>

lemma rank_agrees_tick:
  assumes "rank_agrees c now s off cmd rk" "r_clock rk = now + 1"
  shows "okR (case cmd of None \<Rightarrow> Inr rk | Some p \<Rightarrow> rank_receiveFromBus c p rk) (\<lambda>rk'.
     rank_agrees c (now + 1) (\<lambda>j. if j < NUM_BANKS c then tick_state c (s j) else s j) off None rk' \<and>
     rk' = (case cmd of None \<Rightarrow> rk | Some p \<Rightarrow> rank_effect c p (rk\<lparr>r_bankStates := r_bankStates rk'\<rparr>)))"
proof -
  let ?s = "\<lambda>j. if j < NUM_BANKS c then tick_state c (s j) else s j"
  have power: "\<forall>b<NUM_BANKS c. currentBankState (?s b) = PowerDown \<longleftrightarrow> off" if "agree_banks c now s k" for k
    using assms(1) tick_power agree_power agree_bank_of [OF that] unfolding rank_agrees_def by metis
  have "same_wakeup c ?s = same_wakeup c s" by (rule same_wakeup_cong) simp
  then have naps: "off \<longrightarrow> same_wakeup c ?s" using assms(1) by (simp add: rank_agrees_def)
  show ?thesis
  proof (cases cmd)
    case None
    then have "agree_banks c now s (r_bankStates rk)" using assms(1) by (simp add: rank_agrees_def)
    from power [OF this] agree_banks_tick [OF this] show ?thesis using None assms naps by (simp add: rank_agrees_def)
  next
    case (Some p)
    then obtain k where k: "rank_command c (now + 1) p (r_bankStates rk) = Inr k" "agree_banks c now s k" "\<not> off"
      using assms(1) by (auto simp: rank_agrees_def okR_iff)
    have "isPowerDown (rank_effect c p rk') = isPowerDown rk'" "r_bankStates (rank_effect c p rk') = r_bankStates rk'" for rk'
      by (cases "busPacketType p"; simp add: rank_effect_def return_later_def note_write_def)+
    then show ?thesis using Some k power [OF k(2)] agree_banks_tick [OF k(2)] assms naps
      by (simp add: rank_receive_split rank_agrees_def)
  qed
qed

text \<open>A command is issued.\<close>

lemma rank_agrees_issue:
  assumes cfg: "timing_cfg c" and ok: "cmd_ok c bs cq p" "cq_clock cq = now"
    and ag: "\<And>r. r < NUM_RANKS c \<Longrightarrow> rank_agrees c now (bs r) (off r) None (rks r)"
  shows "okR (issue_states c now p bs) (\<lambda>bs'. \<forall>r<NUM_RANKS c.
     rank_agrees c now (bs' r) (off r) (if r = rank p then Some p else None) (rks r))"
proof -
  have r: "rank p < NUM_RANKS c" "bank p < NUM_BANKS c" using ok by (auto simp: cmd_ok_def)
  have pd: "currentBankState (bs (rank p) b) = PowerDown \<longleftrightarrow> off (rank p)" if "b < NUM_BANKS c" for b
    using ag [OF r(1)] that by (simp add: rank_agrees_def)
  have agp: "agree_banks c now (bs (rank p)) (r_bankStates (rks (rank p)))" using ag [OF r(1)] by (simp add: rank_agrees_def)
  obtain bs' where bs': "issue_states c now p bs = Inr bs'" "issue_post c now p bs (r_bankStates (rks (rank p))) bs'"
    using issue_agree [OF cfg agp ok pd] by (auto simp: okR_iff)
  note power = issue_power [OF ok(1) bs'(1) _ _ pd]
  have on: "\<not> off (rank p)"
  proof
    assume "off (rank p)"
    then have "currentBankState (bs (rank p) b) = PowerDown" if "b < NUM_BANKS c" for b using pd that by simp
    then show False using ok(1) r by (cases "busPacketType p") (auto simp: cmd_ok_def isIssuable_def Let_def)
  qed
  have "rank_agrees c now (bs' r) (off r) (if r = rank p then Some p else None) (rks r)" if "r < NUM_RANKS c" for r
    using bs'(2) ag [OF that] power [OF that] on that same_wakeup_cong [of "bs' r" "bs r"] issue_powerUp [OF bs'(1)] by (auto simp: rank_agrees_def issue_post_def)
  then show ?thesis using bs'(1) by simp
qed

text \<open>Power modes.\<close>

lemma rank_agrees_down:
  assumes ag: "rank_agrees c now s off cmd rk" and idle: "\<And>b. b < NUM_BANKS c \<Longrightarrow> currentBankState (s b) = Idle"
    and free: "cmd = None" and clk: "r_clock rk = now"
  shows "okR (rank_powerDown c rk) (\<lambda>rk'. rank_agrees c now
     (\<lambda>b. if b < NUM_BANKS c then (s b)\<lparr>currentBankState := PowerDown, nextPowerUp := now + tCKE c\<rparr> else s b) True None rk' \<and>
     rk' = rk\<lparr>r_bankStates := r_bankStates rk', isPowerDown := True\<rparr>)"
proof -
  have a: "agree_bank c now (s b) (r_bankStates rk b)" if "b < NUM_BANKS c" for b
    using ag free that by (simp add: rank_agrees_def agree_banks_def)
  have k: "currentBankState (r_bankStates rk b) = Idle \<and> stateChangeCountdown (s b) = 0 \<and>
      nextActivate (r_bankStates rk b) \<le> nextActivate (s b) + 1" if "b < NUM_BANKS c" for b
    using a [OF that] idle [OF that] by (simp add: agree_bank_def)
  show ?thesis using k clk by (auto simp: rank_powerDown_def rank_agrees_def agree_banks_def agree_bank_def same_wakeup_def)
qed

lemma rank_agrees_up:
  assumes ag: "rank_agrees c now s True None rk" and up: "nextPowerUp (s 0) \<le> now"
    and clk: "r_clock rk = now"
  shows "okR (rank_powerUp c rk) (\<lambda>rk'. rank_agrees c now
     (\<lambda>b. if b < NUM_BANKS c then (s b)\<lparr>currentBankState := Idle, nextActivate := now + tXP c\<rparr> else s b) False None rk' \<and>
     rk' = rk\<lparr>r_bankStates := r_bankStates rk', isPowerDown := False\<rparr>)"
proof -
  have a: "agree_bank c now (s b) (r_bankStates rk b)" "currentBankState (s b) = PowerDown" if "b < NUM_BANKS c" for b
    using ag that by (simp_all add: rank_agrees_def agree_banks_def)
  have w: "same_wakeup c s" using ag by (simp add: rank_agrees_def)
  have k: "nextPowerUp (r_bankStates rk b) \<le> now \<and> stateChangeCountdown (s b) = 0" if "b < NUM_BANKS c" for b
  proof -
    have "nextPowerUp (s b) \<le> now" using w that up unfolding same_wakeup_def by metis
    then show ?thesis using a [OF that] by (simp add: agree_bank_def)
  qed
  have "isPowerDown rk" using ag by (simp add: rank_agrees_def)
  then show ?thesis using k clk by (auto simp: rank_powerUp_def rank_agrees_def agree_banks_def agree_bank_def)
qed

end
