(* ===== verification/Dram_Line.thy ===== *)
theory Dram_Line
  imports Dram_Config
begin

text \<open>
  Delay lines: write data of the controller and read data of a rank wait in a list with
  countdowns, and go out onto a bus that a packet holds for a burst. Shown: if packets enter
  a burst apart, the bus is free whenever a packet is due.
\<close>

section \<open>Countdowns a burst apart\<close>

fun spaced :: "nat \<Rightarrow> nat \<Rightarrow> nat list \<Rightarrow> bool" where
  "spaced w lo [] \<longleftrightarrow> True"
| "spaced w lo (x # xs) \<longleftrightarrow> lo \<le> x \<and> x < 2 ^ 32 \<and> spaced w (x + w) xs"

text \<open>\<open>out\<close> is the time the packet on the bus still needs.\<close>

definition line_ok :: "nat \<Rightarrow> nat list \<Rightarrow> nat option \<Rightarrow> bool" where
  "line_ok w cs out \<longleftrightarrow> (case out of None \<Rightarrow> spaced w 1 cs | Some l \<Rightarrow> 0 < l \<and> l < 2 ^ 32 \<and> spaced w l cs)"

text \<open>The time at which the bus is free for good.\<close>

definition line_end :: "nat \<Rightarrow> nat \<Rightarrow> nat list \<Rightarrow> nat option \<Rightarrow> nat" where
  "line_end w now cs out = (if cs \<noteq> [] then now + last cs + w else case out of None \<Rightarrow> 0 | Some l \<Rightarrow> now + l)"

lemma spaced_mono: "spaced w lo cs \<Longrightarrow> lo' \<le> lo \<Longrightarrow> spaced w lo' cs"
  by (cases cs) auto

lemma spaced_last: "spaced w lo cs \<Longrightarrow> cs \<noteq> [] \<Longrightarrow> lo \<le> last cs"
proof (induction cs arbitrary: lo)
  case (Cons x xs)
  then show ?case by (cases xs) (fastforce)+
qed simp

lemma spaced_all: "spaced w lo cs \<Longrightarrow> x \<in> set cs \<Longrightarrow> lo \<le> x \<and> x < 2 ^ 32"
proof (induction cs arbitrary: lo)
  case (Cons y ys)
  then show ?case by fastforce
qed simp

lemma spaced_append:
  "spaced w lo cs \<Longrightarrow> d < 2 ^ 32 \<Longrightarrow> (if cs = [] then lo \<le> d else last cs + w \<le> d) \<Longrightarrow> spaced w lo (cs @ [d])"
  by (induction cs arbitrary: lo) (auto split: if_splits)

lemma spaced_dec: "spaced w lo cs \<Longrightarrow> 0 < lo \<Longrightarrow> spaced w (lo - 1) (map (\<lambda>x. u32_sub x 1) cs)"
proof (induction cs arbitrary: lo)
  case (Cons x xs)
  have "spaced w (x + w - 1) (map (\<lambda>x. u32_sub x 1) xs)" using Cons by simp
  then show ?case using Cons.prems by (auto simp: u32_sub_id)
qed simp

lemma map_dec: "spaced w lo cs \<Longrightarrow> 0 < lo \<Longrightarrow> map (\<lambda>x. u32_sub x 1) cs = map (\<lambda>x. x - 1) cs"
  using spaced_all by (intro map_cong refl) (fastforce simp: u32_sub_id)

section \<open>A cycle of the line\<close>

text \<open>First the bus, then the countdowns.\<close>

definition bus_tick :: "nat option \<Rightarrow> nat option" where
  "bus_tick out = (case out of None \<Rightarrow> None | Some l \<Rightarrow> if u32_sub l 1 = 0 then None else Some (u32_sub l 1))"

definition line_due :: "nat list \<Rightarrow> bool" where
  "line_due cs \<longleftrightarrow> cs \<noteq> [] \<and> hd (map (\<lambda>x. u32_sub x 1) cs) = 0"

definition line_tick :: "nat \<Rightarrow> nat list \<Rightarrow> nat option \<Rightarrow> nat list \<times> nat option" where
  "line_tick w cs out =
     (let cs' = map (\<lambda>x. u32_sub x 1) cs in if line_due cs then (tl cs', Some w) else (cs', bus_tick out))"

lemma due_free:
  assumes "line_ok w cs out" "line_due cs"
  shows "bus_tick out = None"
proof -
  obtain x xs where cs: "cs = x # xs" using assms(2) by (cases cs) (auto simp: line_due_def)
  show ?thesis
  proof (cases out)
    case (Some l)
    then have l: "0 < l" "l \<le> x" "x < 2 ^ 32" using assms(1) cs by (auto simp: line_ok_def)
    then have "x = 1" using assms(2) cs by (simp add: line_due_def u32_sub_id)
    then have "l = 1" using l by simp
    then show ?thesis using Some by (simp add: bus_tick_def u32_sub_id)
  qed (simp add: bus_tick_def)
qed

lemma line_tick_ok:
  assumes ok: "line_ok w cs out" and w: "0 < w" "w < 2 ^ 32" and t: "line_tick w cs out = (cs', out')"
  shows "line_ok w cs' out'" "line_end w (now + 1) cs' out' \<le> line_end w now cs out"
proof -
  define lo where "lo = (case out of None \<Rightarrow> 1 | Some l \<Rightarrow> l)"
  have lo: "0 < lo" "spaced w lo cs" "lo < 2 ^ 32" using ok by (auto simp: lo_def line_ok_def split: option.splits)
  note dec = map_dec [OF lo(2,1)]
  note sp = spaced_dec [OF lo(2,1)]
  show "line_ok w cs' out'"
  proof (cases "line_due cs")
    case True
    then obtain x xs where cs: "cs = x # xs" by (cases cs) (auto simp: line_due_def)
    have "x = 1" using True lo cs by (auto simp: line_due_def u32_sub_id)
    then have "spaced w w (map (\<lambda>x. u32_sub x 1) xs)" using lo(2) cs spaced_dec [of w "1 + w" xs] by simp
    then show ?thesis using t True cs w by (auto simp: line_tick_def line_ok_def)
  next
    case False
    then have eq: "cs' = map (\<lambda>x. u32_sub x 1) cs" "out' = bus_tick out" using t by (auto simp: line_tick_def Let_def)
    have "spaced w 1 cs'" if "cs \<noteq> []"
    proof -
      obtain x xs where cs: "cs = x # xs" using \<open>cs \<noteq> []\<close> by (cases cs) auto
      then have x: "1 < x" "x < 2 ^ 32" using False lo by (auto simp: line_due_def u32_sub_id)
      have "spaced w x cs" using lo(2) cs x by simp
      from spaced_dec [OF this] x have "spaced w (x - 1) cs'" by (simp add: eq)
      then show ?thesis using x by (elim spaced_mono) simp
    qed
    then have one: "spaced w 1 cs'" by (cases cs) (auto simp: eq)
    show ?thesis using ok one sp lo
      by (auto simp: eq line_ok_def bus_tick_def lo_def u32_sub_id split: option.splits)
  qed
  show "line_end w (now + 1) cs' out' \<le> line_end w now cs out"
  proof (cases "cs = []")
    case True
    then show ?thesis using t ok by (auto simp: line_tick_def line_due_def line_end_def bus_tick_def line_ok_def u32_sub_id split: option.splits if_splits)
  next
    case False
    have l: "lo \<le> last cs" "0 < last cs" using spaced_last [OF lo(2) False] lo(1) by auto
    have last: "last (map (\<lambda>x. x - 1) cs) = last cs - 1" using False by (simp add: last_map)
    show ?thesis
    proof (cases "line_due cs")
      case due: True
      then have "cs' = tl (map (\<lambda>x. x - 1) cs)" "out' = Some w"
        using t unfolding line_tick_def dec by (auto simp: Let_def)
      then show ?thesis using l last False by (cases "tl cs = []") (auto simp: line_end_def last_tl map_tl [symmetric] neq_Nil_conv)
    next
      case nd: False
      then have "cs' = map (\<lambda>x. x - 1) cs" using t unfolding line_tick_def dec by (auto simp: Let_def)
      then show ?thesis using l last False by (auto simp: line_end_def)
    qed
  qed
qed

lemma line_push_ok:
  assumes "line_ok w cs out" "line_end w now cs out \<le> now + d" "0 < d" "d < 2 ^ 32"
  shows "line_ok w (cs @ [d]) out" "line_end w now (cs @ [d]) out = now + d + w"
  using assms by (auto simp: line_ok_def line_end_def intro!: spaced_append split: option.splits if_splits)

end
