(* ===== verification/Dram_System.thy ===== *)
theory Dram_System
  imports Dram_Protocol Dram_Line
begin

text \<open>
  \<open>MemorySystem.cpp\<close>: one channel of the memory, that is a controller with its ranks and a
  list of requests the controller had no room for.
\<close>

section \<open>State and operations\<close>

record MemorySystem =
  memoryController :: MemoryController
  ranks :: rank_table
  pendingTransactions :: "dTransaction list"
  ms_clock :: nat

definition newMemorySystem :: "dram_cfg \<Rightarrow> MemorySystem" where
  "newMemorySystem c = \<lparr>memoryController = newMemoryController c, ranks = (\<lambda>r. newRank), pendingTransactions = [], ms_clock = 0\<rparr>"

definition ms_WillAcceptTransaction :: "dram_cfg \<Rightarrow> MemorySystem \<Rightarrow> bool" where
  "ms_WillAcceptTransaction c ms = mc_WillAcceptTransaction c (memoryController ms)"

text \<open>The two ways to add a transaction: the first never refuses.\<close>

definition ms_addTransaction :: "dram_cfg \<Rightarrow> bool \<Rightarrow> nat \<Rightarrow> MemorySystem \<Rightarrow> bool \<times> MemorySystem" where
  "ms_addTransaction c isWrite addr ms =
     (let t = mkdTransaction (if isWrite then D_DATA_WRITE else D_DATA_READ) addr in
      if mc_WillAcceptTransaction c (memoryController ms)
      then (let (ok, mc) = mc_addTransaction c t (memoryController ms) in (ok, ms\<lparr>memoryController := mc\<rparr>))
      else (True, ms\<lparr>pendingTransactions := pendingTransactions ms @ [t]\<rparr>))"

definition ms_addTransaction_ptr :: "dram_cfg \<Rightarrow> dTransaction \<Rightarrow> MemorySystem \<Rightarrow> bool \<times> MemorySystem" where
  "ms_addTransaction_ptr c t ms = (let (ok, mc) = mc_addTransaction c t (memoryController ms) in (ok, ms\<lparr>memoryController := mc\<rparr>))"

fun update_ranks :: "dram_cfg \<Rightarrow> nat list \<Rightarrow> MemoryController \<times> rank_table \<Rightarrow> derr + MemoryController \<times> rank_table" where
  "update_ranks c [] st = Inr st"
| "update_ranks c (i # is) (mc, rks) =
     (let (rk, out) = rank_update c (rks i) in
      bindR (case out of None \<Rightarrow> Inr mc | Some p \<Rightarrow> mc_receiveFromBus c p mc) (\<lambda>mc'.
        update_ranks c is (mc', rks(i := rk))))"

definition take_pending :: "dram_cfg \<Rightarrow> MemoryController \<Rightarrow> dTransaction list \<Rightarrow> MemoryController \<times> dTransaction list" where
  "take_pending c mc pend =
     (if pend \<noteq> [] \<and> mc_WillAcceptTransaction c mc then (snd (mc_addTransaction c (hd pend) mc), tl pend) else (mc, pend))"

definition ms_update :: "dram_cfg \<Rightarrow> MemorySystem \<Rightarrow> derr + MemorySystem \<times> dcallback list" where
  "ms_update c ms =
     bindR (update_ranks c [0..<NUM_RANKS c] (memoryController ms, ranks ms)) (\<lambda>(mc1, rks1).
     (let (mc2, pend) = take_pending c mc1 (pendingTransactions ms) in
     bindR (mc_update c (mc2, rks1)) (\<lambda>((mc3, rks3), out).
       Inr (\<lparr>memoryController = mc3\<lparr>mc_clock := mc_clock mc3 + 1\<rparr>,
             ranks = (\<lambda>i. if i < NUM_RANKS c then rank_step (rks3 i) else rks3 i),
             pendingTransactions = pend, ms_clock = ms_clock ms + 1\<rparr>, out))))"

end
