(* ===== verification/Dram_Timing.thy ===== *)
theory Dram_Timing
  imports Dram_System
begin

text \<open>
  The state table of the controller keeps column accesses a burst apart: accesses of a rank
  because of the delays between them, writes of different ranks because an activation takes
  longer than a burst. So the data buses are free when data is due.
\<close>

section \<open>Times in the table\<close>

definition burst :: "dram_cfg \<Rightarrow> nat" where
  "burst c = BL c div 2"

definition is_read :: "BusPacket \<Rightarrow> bool" where
  "is_read p \<longleftrightarrow> busPacketType p = READ \<or> busPacketType p = READ_P"

definition is_write :: "BusPacket \<Rightarrow> bool" where
  "is_write p \<longleftrightarrow> busPacketType p = WRITE \<or> busPacketType p = WRITE_P"

definition row_open :: "BankState \<Rightarrow> bool" where
  "row_open s \<longleftrightarrow> currentBankState s = RowActive \<and> \<not> auto_pre s"

lemma burst_cfg: "timing_cfg c \<Longrightarrow> 0 < burst c \<and> burst c < 2 ^ 32 \<and> burst c \<le> READ_AUTOPRE_DELAY c \<and>
    burst c \<le> WRITE_AUTOPRE_DELAY c \<and> burst c \<le> u32_sub (tRCD c) (AL c) + 1"
  by (auto simp: timing_cfg_def burst_def WRITE_AUTOPRE_DELAY_def)

lemma issue_nextRead:
  assumes "timing_cfg c" "issue_states c now p bs = Inr bs'"
  shows "min (nextRead (bs r b)) (now + burst c) \<le> nextRead (bs' r b)"
  using assms(2) burst_cfg [OF assms(1)]
  by (cases "busPacketType p")
    (auto simp: issue_states_def Let_def block_bank_def read_delays_def write_delays_def activate_states_def refresh_states_def
      min_def)

lemma issue_read_next:
  assumes "timing_cfg c" "issue_states c now p bs = Inr bs'" "is_read p" "rank p < NUM_RANKS c" "b < NUM_BANKS c"
  shows "now + burst c \<le> nextRead (bs' (rank p) b)"
  using assms(2-) burst_cfg [OF assms(1)]
  by (auto simp: issue_states_def Let_def block_bank_def read_delays_def is_read_def burst_def le_max_iff_disj)

lemma delays_open [simp]:
  "row_open (read_delays c now r bs i j) = row_open (bs i j)" "row_open (write_delays c now r bs i j) = row_open (bs i j)"
  "row_open (block_bank r b bs i j) = row_open (bs i j)"
  by (simp_all add: row_open_def auto_pre_def read_delays_def write_delays_def block_bank_def Let_def)

lemma delays_nextWrite:
  "nextWrite (bs i j) \<le> nextWrite (read_delays c now r bs i j)" "nextWrite (bs i j) \<le> nextWrite (write_delays c now r bs i j)"
  by (simp_all add: read_delays_def write_delays_def Let_def)

lemma write_delays_next:
  "r < NUM_RANKS c \<Longrightarrow> b < NUM_BANKS c \<Longrightarrow> currentBankState (bs r b) = RowActive \<Longrightarrow> now + burst c \<le> nextWrite (write_delays c now i bs r b)"
  by (auto simp: write_delays_def Let_def burst_def le_max_iff_disj)

lemma block_bank_open:
  assumes "row_open (block_bank r' b' bs r b)" "\<not> row_open (bs r' b')"
  shows "block_bank r' b' bs r b = bs r b"
proof -
  have "row_open (bs r b)" using assms(1) by simp
  then have "\<not> (r = r' \<and> b = b')" using assms(2) by auto
  then show ?thesis by (auto simp: block_bank_def)
qed

lemma issue_nextWrite:
  assumes "timing_cfg c" "issue_states c now p bs = Inr bs'" "row_open (bs' r b)" "is_col p \<Longrightarrow> row_open (bs (rank p) (bank p))"
  shows "row_open (bs r b) \<and> nextWrite (bs r b) \<le> nextWrite (bs' r b) \<or> now + burst c \<le> nextWrite (bs' r b) + 1"
proof -
  let ?s = "bs (rank p) (bank p)"
  let ?T = "\<lambda>f. upd2 (rank p) (bank p) (f ?s) bs"
  have keep: "nextWrite (?T f r b) = nextWrite (bs r b)" if "nextWrite (f ?s) = nextWrite ?s" for f
    using that by simp
  have col: "row_open (?T f r b) \<Longrightarrow> row_open (bs r b)" if "is_col p" for f
    using that assms(4) by (simp split: if_splits)
  show ?thesis
  proof (cases "busPacketType p")
    case READ
    let ?f = "\<lambda>s. s\<lparr>nextPrecharge := max (now + READ_TO_PRE_DELAY c) (nextPrecharge s), lastCommand := READ\<rparr>"
    have "bs' = read_delays c now (rank p) (?T ?f)" using assms(2) READ by (simp add: issue_states_def Let_def)
    then show ?thesis using assms(3) keep [of ?f] col [of ?f] READ delays_nextWrite(1) [of "?T ?f" r b c now "rank p"]
      by (simp add: is_col_def)
  next
    case WRITE
    let ?f = "\<lambda>s. s\<lparr>nextPrecharge := max (now + WRITE_TO_PRE_DELAY c) (nextPrecharge s), lastCommand := WRITE\<rparr>"
    have "bs' = write_delays c now (rank p) (?T ?f)" using assms(2) WRITE by (simp add: issue_states_def Let_def)
    then show ?thesis using assms(3) keep [of ?f] col [of ?f] WRITE delays_nextWrite(2) [of "?T ?f" r b c now "rank p"]
      by (simp add: is_col_def)
  next
    case READ_P
    let ?f = "\<lambda>s. s\<lparr>nextActivate := max (now + READ_AUTOPRE_DELAY c) (nextActivate s), lastCommand := READ_P,
        stateChangeCountdown := READ_TO_PRE_DELAY c\<rparr>"
    have bs': "bs' = block_bank (rank p) (bank p) (read_delays c now (rank p) (?T ?f))"
      using assms(2) READ_P by (simp add: issue_states_def Let_def)
    have "\<not> row_open (read_delays c now (rank p) (?T ?f) (rank p) (bank p))"
      unfolding delays_open by (simp add: row_open_def auto_pre_def)
    then have "bs' r b = read_delays c now (rank p) (?T ?f) r b"
      using block_bank_open [of "rank p" "bank p" "read_delays c now (rank p) (?T ?f)" r b] assms(3) unfolding bs' by blast
    then show ?thesis using assms(3) keep [of ?f] col [of ?f] READ_P delays_nextWrite(1) [of "?T ?f" r b c now "rank p"]
      by (simp add: is_col_def)
  next
    case WRITE_P
    let ?f = "\<lambda>s. s\<lparr>nextActivate := max (now + WRITE_AUTOPRE_DELAY c) (nextActivate s), lastCommand := WRITE_P,
        stateChangeCountdown := WRITE_TO_PRE_DELAY c\<rparr>"
    have bs': "bs' = block_bank (rank p) (bank p) (write_delays c now (rank p) (?T ?f))"
      using assms(2) WRITE_P by (simp add: issue_states_def Let_def)
    have "\<not> row_open (write_delays c now (rank p) (?T ?f) (rank p) (bank p))"
      unfolding delays_open by (simp add: row_open_def auto_pre_def)
    then have "bs' r b = write_delays c now (rank p) (?T ?f) r b"
      using block_bank_open [of "rank p" "bank p" "write_delays c now (rank p) (?T ?f)" r b] assms(3) unfolding bs' by blast
    then show ?thesis using assms(3) keep [of ?f] col [of ?f] WRITE_P delays_nextWrite(2) [of "?T ?f" r b c now "rank p"]
      by (simp add: is_col_def)
  next
    case ACTIVATE
    then have "bs' = activate_states c now p bs" using assms(2) by (simp add: issue_states_def Let_def)
    then show ?thesis using assms(3) burst_cfg [OF assms(1)]
      by (auto simp: activate_states_def Let_def row_open_def auto_pre_def split: if_splits)
  next
    case PRECHARGE
    let ?f = "\<lambda>s. s\<lparr>currentBankState := Precharging, lastCommand := PRECHARGE, stateChangeCountdown := tRP c,
        nextActivate := max (now + tRP c) (nextActivate s)\<rparr>"
    have "bs' = ?T ?f" using assms(2) PRECHARGE by (simp add: issue_states_def Let_def)
    then show ?thesis using assms(3) by (auto simp: row_open_def split: if_splits)
  next
    case REFRESH
    then have "bs' = refresh_states c now (rank p) bs" using assms(2) by (simp add: issue_states_def Let_def)
    then show ?thesis using assms(3) by (auto simp: row_open_def refresh_states_def split: if_splits)
  next
    case DATA
    then show ?thesis using assms(2) by (simp add: issue_states_def Let_def)
  qed
qed

lemma issue_write_next:
  assumes "timing_cfg c" "issue_states c now p bs = Inr bs'" "is_write p" "r < NUM_RANKS c" "b < NUM_BANKS c" "row_open (bs' r b)"
  shows "now + burst c \<le> nextWrite (bs' r b)"
proof -
  let ?s = "bs (rank p) (bank p)"
  have "currentBankState (bs' r b) = RowActive" using assms(6) by (simp add: row_open_def)
  then have act: "currentBankState (bs r b) = RowActive"
    using assms(2,3) by (auto simp: issue_states_def Let_def is_write_def split: if_splits)
  show ?thesis
  proof (cases "busPacketType p = WRITE")
    case True
    let ?T = "upd2 (rank p) (bank p) (?s\<lparr>nextPrecharge := max (now + WRITE_TO_PRE_DELAY c) (nextPrecharge ?s), lastCommand := WRITE\<rparr>) bs"
    have "bs' = write_delays c now (rank p) ?T" using assms(2) True by (simp add: issue_states_def Let_def)
    moreover have "currentBankState (?T r b) = RowActive" using act by auto
    ultimately show ?thesis using write_delays_next [OF assms(4,5)] by simp
  next
    case False
    let ?T = "upd2 (rank p) (bank p) (?s\<lparr>nextActivate := max (now + WRITE_AUTOPRE_DELAY c) (nextActivate ?s), lastCommand := WRITE_P,
        stateChangeCountdown := WRITE_TO_PRE_DELAY c\<rparr>) bs"
    have bs': "bs' = block_bank (rank p) (bank p) (write_delays c now (rank p) ?T)"
      using assms(2,3) False by (simp add: issue_states_def Let_def is_write_def)
    have "\<not> row_open (write_delays c now (rank p) ?T (rank p) (bank p))"
      unfolding delays_open by (simp add: row_open_def auto_pre_def)
    then have "bs' r b = write_delays c now (rank p) ?T r b"
      using block_bank_open [of "rank p" "bank p" "write_delays c now (rank p) ?T" r b] assms(6) unfolding bs' by blast
    moreover have "currentBankState (?T r b) = RowActive" using act by auto
    ultimately show ?thesis using write_delays_next [OF assms(4,5)] by simp
  qed
qed

text \<open>The bank of an issued command is neither idle nor asleep.\<close>

lemma issue_busy:
  assumes "cmd_ok c bs cq p" "issue_states c now p bs = Inr bs'"
  shows "currentBankState (bs' (rank p) (bank p)) \<noteq> Idle"
  using assms by (cases "busPacketType p") (auto simp: issue_states_def Let_def cmd_ok_def isIssuable_def)

section \<open>Write data\<close>

definition bus_of :: "BusPacket option \<Rightarrow> nat \<Rightarrow> nat option" where
  "bus_of out left = map_option (\<lambda>p. left) out"

lemma bus_of_simps [simp]: "bus_of None l = None" "bus_of (Some p) l = Some l"
  by (simp_all add: bus_of_def)

definition wline :: "dram_cfg \<Rightarrow> nat \<Rightarrow> bank_table \<Rightarrow> nat list \<Rightarrow> nat option \<Rightarrow> bool" where
  "wline c now bs cs out \<longleftrightarrow> line_ok (burst c) cs out \<and> line_end (burst c) now cs out \<le> now + WL c + burst c \<and>
     (\<forall>r<NUM_RANKS c. \<forall>b<NUM_BANKS c. row_open (bs r b) \<longrightarrow> line_end (burst c) now cs out \<le> nextWrite (bs r b) + WL c)"

lemma row_open_tick: "row_open (tick_state c s) \<Longrightarrow> row_open s \<and> nextWrite (tick_state c s) = nextWrite s"
  by (cases "lastCommand s") (auto simp: row_open_def auto_pre_def tick_state_def Let_def split: if_splits)

text \<open>After the tick the end of the line is at most a burst and the latency of the last cycle away.\<close>

definition wline_mid :: "dram_cfg \<Rightarrow> nat \<Rightarrow> bank_table \<Rightarrow> nat list \<Rightarrow> nat option \<Rightarrow> bool" where
  "wline_mid c now bs cs out \<longleftrightarrow> line_ok (burst c) cs out \<and> line_end (burst c) now cs out + 1 \<le> now + WL c + burst c \<and>
     (\<forall>r<NUM_RANKS c. \<forall>b<NUM_BANKS c. row_open (bs r b) \<longrightarrow> line_end (burst c) now cs out \<le> nextWrite (bs r b) + WL c)"

lemma wline_tick:
  assumes cfg: "timing_cfg c" and w: "wline c now bs cs out" and t: "line_tick (burst c) cs out = (cs', out')"
    and bs': "\<And>r b. r < NUM_RANKS c \<Longrightarrow> b < NUM_BANKS c \<Longrightarrow> row_open (bs' r b) \<Longrightarrow> row_open (bs r b) \<and> nextWrite (bs' r b) = nextWrite (bs r b)"
  shows "wline_mid c (now + 1) bs' cs' out'"
proof -
  have ok: "line_ok (burst c) cs out" using w by (simp add: wline_def)
  have b: "0 < burst c" "burst c < 2 ^ 32" using burst_cfg [OF cfg] by auto
  note T = line_tick_ok(1) [OF ok b t] line_tick_ok(2) [OF ok b t, of now]
  have "line_end (burst c) (now + 1) cs' out' \<le> nextWrite (bs' r b) + WL c"
    if "r < NUM_RANKS c" "b < NUM_BANKS c" "row_open (bs' r b)" for r b
    using bs' [OF that] w that T(2) by (fastforce simp: wline_def)
  then show ?thesis using T w by (auto simp: wline_mid_def wline_def)
qed

lemma wline_issue:
  assumes cfg: "timing_cfg c" and w: "wline_mid c now bs cs out" and ok: "cmd_ok c bs cq p" "cq_clock cq = now"
    and open_rows: "is_col p \<Longrightarrow> row_open (bs (rank p) (bank p))"
    and iss: "issue_states c now p bs = Inr bs'"
  shows "wline c now bs' (if is_write p then cs @ [WL c] else cs) out"
proof (cases "is_write p")
  case True
  have wl: "0 < WL c" "WL c < 2 ^ 32" using WL_eq [OF cfg] by auto
  have p: "rank p < NUM_RANKS c" "bank p < NUM_BANKS c" "nextWrite (bs (rank p) (bank p)) \<le> now"
    using ok True by (auto simp: cmd_ok_def isIssuable_def is_write_def Let_def)
  have e: "line_end (burst c) now cs out \<le> now + WL c"
    using w p open_rows True by (fastforce simp: wline_mid_def is_col_def is_write_def)
  have ok: "line_ok (burst c) cs out" using w by (simp add: wline_mid_def)
  note P = line_push_ok [OF ok e wl]
  have "line_end (burst c) now (cs @ [WL c]) out \<le> nextWrite (bs' r b) + WL c"
    if "r < NUM_RANKS c" "b < NUM_BANKS c" "row_open (bs' r b)" for r b
    using issue_write_next [OF cfg iss True that] P(2) by simp
  then show ?thesis using True P by (simp add: wline_def)
next
  case False
  have "line_end (burst c) now cs out \<le> nextWrite (bs' r b) + WL c"
    if "r < NUM_RANKS c" "b < NUM_BANKS c" "row_open (bs' r b)" for r b
    using issue_nextWrite [OF cfg iss that(3) open_rows]
  proof
    assume "row_open (bs r b) \<and> nextWrite (bs r b) \<le> nextWrite (bs' r b)"
    then show ?thesis using w that by (fastforce simp: wline_mid_def)
  next
    assume "now + burst c \<le> nextWrite (bs' r b) + 1"
    then show ?thesis using w by (simp add: wline_mid_def)
  qed
  then show ?thesis using False w by (auto simp: wline_def wline_mid_def)
qed

lemma wline_mid_weaken: "wline_mid c now bs cs out \<Longrightarrow> wline c now bs cs out"
  by (simp add: wline_mid_def wline_def)

section \<open>Read data\<close>

definition reads_cmd :: "BusPacket option \<Rightarrow> bool" where
  "reads_cmd cmd \<longleftrightarrow> (case cmd of None \<Rightarrow> False | Some p \<Rightarrow> is_read p)"

text \<open>
  The line of a rank at time \<open>lt\<close>, with the command that was issued at \<open>now\<close> still on its way.
\<close>

definition rline_end :: "dram_cfg \<Rightarrow> nat \<Rightarrow> nat \<Rightarrow> BusPacket option \<Rightarrow> nat list \<Rightarrow> nat option \<Rightarrow> nat" where
  "rline_end c lt now cmd cs out = (if reads_cmd cmd then now + 1 + RL c + burst c else line_end (burst c) lt cs out)"

definition rline :: "dram_cfg \<Rightarrow> nat \<Rightarrow> nat \<Rightarrow> (nat \<Rightarrow> BankState) \<Rightarrow> BusPacket option \<Rightarrow> nat list \<Rightarrow> nat option \<Rightarrow> bool" where
  "rline c lt now s cmd cs out \<longleftrightarrow> line_ok (burst c) cs out \<and> (reads_cmd cmd \<longrightarrow> line_end (burst c) lt cs out \<le> now + 1 + RL c) \<and>
     rline_end c lt now cmd cs out \<le> now + 1 + RL c + burst c \<and>
     (\<forall>b<NUM_BANKS c. rline_end c lt now cmd cs out \<le> nextRead (s b) + 1 + RL c)"

lemma rline_tick:
  assumes cfg: "timing_cfg c" and r: "rline c now now s cmd cs out" and t: "line_tick (burst c) cs out = (cs', out')"
  shows "rline c (now + 1) now s cmd cs' out'"
proof -
  have ok: "line_ok (burst c) cs out" using r by (simp add: rline_def)
  have b: "0 < burst c" "burst c < 2 ^ 32" using burst_cfg [OF cfg] by auto
  note T = line_tick_ok(1) [OF ok b t] line_tick_ok(2) [OF ok b t, of now]
  show ?thesis using T r by (fastforce simp: rline_def rline_end_def)
qed

text \<open>The command arrives; a read enters the line.\<close>

lemma rline_deliver:
  assumes cfg: "timing_cfg c" and r: "rline c (now + 1) now s cmd cs out" and s': "\<And>b. b < NUM_BANKS c \<Longrightarrow> nextRead (s' b) = nextRead (s b)"
  shows "rline c (now + 1) (now + 1) s' None (if reads_cmd cmd then cs @ [RL c] else cs) out"
    "rline_end c (now + 1) (now + 1) None (if reads_cmd cmd then cs @ [RL c] else cs) out \<le> now + 1 + RL c + burst c"
proof -
  have rl: "0 < RL c" "RL c < 2 ^ 32" using cfg by (auto simp: timing_cfg_def)
  have ok: "line_ok (burst c) cs out" using r by (simp add: rline_def)
  show "rline_end c (now + 1) (now + 1) None (if reads_cmd cmd then cs @ [RL c] else cs) out \<le> now + 1 + RL c + burst c"
    using r line_push_ok(2) [OF ok _ rl, of "now + 1"] by (auto simp: rline_def rline_end_def reads_cmd_def split: if_splits)
  show "rline c (now + 1) (now + 1) s' None (if reads_cmd cmd then cs @ [RL c] else cs) out"
    using r s' ok line_push_ok [OF ok _ rl, of "now + 1"] by (auto simp: rline_def rline_end_def reads_cmd_def split: if_splits)
qed

lemma rline_issue:
  assumes cfg: "timing_cfg c" and r: "rline c now now (bs i) None cs out" "line_end (burst c) now cs out \<le> now + RL c + burst c"
    and ok: "cmd_ok c bs cq p" "cq_clock cq = now" and iss: "issue_states c now p bs = Inr bs'"
  shows "rline c now now (bs' i) (if i = rank p then Some p else None) cs out"
proof (cases "i = rank p \<and> is_read p")
  case True
  then have p: "rank p < NUM_RANKS c" "bank p < NUM_BANKS c" "nextRead (bs i (bank p)) \<le> now"
    using ok by (auto simp: cmd_ok_def isIssuable_def is_read_def Let_def)
  then have "line_end (burst c) now cs out \<le> now + 1 + RL c" using r(1) by (fastforce simp: rline_def rline_end_def reads_cmd_def)
  then show ?thesis using True r(1) issue_read_next [OF cfg iss _ p(1)]
    by (auto simp: rline_def rline_end_def reads_cmd_def)
next
  case False
  have "line_end (burst c) now cs out \<le> nextRead (bs' i b) + 1 + RL c" if "b < NUM_BANKS c" for b
    using issue_nextRead [OF cfg iss, of i b] r that by (fastforce simp: rline_def rline_end_def reads_cmd_def min_def split: if_splits)
  then show ?thesis using False r by (auto simp: rline_def rline_end_def reads_cmd_def)
qed

end
