(* ===== verification/Dram_Safety.thy ===== *)
theory Dram_Safety
  imports Dram_Timing
begin

text \<open>
  The invariant of a channel and the proof that every part of a cycle keeps it: the tables
  agree, the buses are free in time, every pending read is under way exactly once, and the
  queues are well formed. Hence a cycle never ends in an error.
\<close>

section \<open>The data of a rank\<close>

definition addr_of :: "BusPacket option \<Rightarrow> nat multiset" where
  "addr_of p = (case p of None \<Rightarrow> {#} | Some p \<Rightarrow> {#physicalAddress p#})"

definition rank_reads :: "Rank \<Rightarrow> nat multiset" where
  "rank_reads rk = mset (map physicalAddress (readReturnPacket rk)) + addr_of (r_outgoingDataPacket rk)"

definition rank_bus_of :: "Rank \<Rightarrow> nat option" where
  "rank_bus_of rk = bus_of (r_outgoingDataPacket rk) (r_dataCyclesLeft rk)"

definition rank_data_ok :: "Rank \<Rightarrow> bool" where
  "rank_data_ok rk \<longleftrightarrow> length (readReturnPacket rk) = length (readReturnCountdown rk) \<and>
     (\<forall>p \<in> set (readReturnPacket rk). busPacketType p = DATA) \<and>
     (\<forall>p. r_outgoingDataPacket rk = Some p \<longrightarrow> busPacketType p = DATA)"

definition rank_line :: "dram_cfg \<Rightarrow> nat \<Rightarrow> nat \<Rightarrow> (nat \<Rightarrow> BankState) \<Rightarrow> BusPacket option \<Rightarrow> Rank \<Rightarrow> bool" where
  "rank_line c lt now s cmd rk \<longleftrightarrow> rline c lt now s cmd (readReturnCountdown rk) (rank_bus_of rk) \<and> rank_data_ok rk"

text \<open>What a cycle of a rank leaves alone.\<close>

definition rank_same :: "Rank \<Rightarrow> Rank \<Rightarrow> bool" where
  "rank_same rk rk' \<longleftrightarrow> r_bankStates rk' = r_bankStates rk \<and> isPowerDown rk' = isPowerDown rk \<and> r_clock rk' = r_clock rk \<and>
     r_refreshWaiting rk' = r_refreshWaiting rk"

lemma rank_update_ok:
  assumes cfg: "timing_cfg c" and l: "rank_line c now now s cmd rk" and u: "rank_update c rk = (rk', out)"
  shows "rank_line c (now + 1) now s cmd rk'" "rank_reads rk = rank_reads rk' + addr_of out"
    "\<And>p. out = Some p \<Longrightarrow> busPacketType p = DATA" "rank_same rk rk'"
proof -
  obtain rk1 where rk1: "rank_bus rk = (rk1, out)" "rk' = rank_return c rk1" using u by (auto simp: rank_update_def split: prod.splits)
  have bus: "rank_bus_of rk1 = bus_tick (rank_bus_of rk)" "readReturnCountdown rk1 = readReturnCountdown rk"
    "readReturnPacket rk1 = readReturnPacket rk" "rank_same rk rk1"
    "addr_of (r_outgoingDataPacket rk) = addr_of (r_outgoingDataPacket rk1) + addr_of out"
    using rk1(1) by (cases "r_outgoingDataPacket rk";
        auto simp: rank_bus_def rank_bus_of_def bus_tick_def rank_same_def addr_of_def Let_def split: if_splits)+
  have d: "rank_data_ok rk" "line_ok (burst c) (readReturnCountdown rk) (rank_bus_of rk)"
    using l by (auto simp: rank_line_def rline_def)
  have out: "out = Some p \<Longrightarrow> r_outgoingDataPacket rk = Some p" for p
    using rk1(1) by (auto simp: rank_bus_def Let_def split: option.splits if_splits)
  show "\<And>p. out = Some p \<Longrightarrow> busPacketType p = DATA" using out d(1) by (simp add: rank_data_ok_def)
  have d1: "rank_data_ok rk1" using d(1) rk1(1)
    by (auto simp: rank_bus_def rank_data_ok_def Let_def split: option.splits if_splits)
  have tick: "line_tick (burst c) (readReturnCountdown rk) (rank_bus_of rk) = (readReturnCountdown rk', rank_bus_of rk')"
    using bus by (auto simp: rk1(2) line_tick_def line_due_def rank_return_def rank_bus_of_def burst_def Let_def)
  show "rank_same rk rk'" using bus(4) by (simp add: rk1(2) rank_return_def rank_same_def Let_def)
  have "rank_reads rk1 = rank_reads rk' \<and> rank_data_ok rk'"
  proof (cases "line_due (readReturnCountdown rk1)")
    case True
    have "r_outgoingDataPacket rk1 = None"
      using due_free [OF d(2)] True bus by (simp add: rank_bus_of_def bus_of_def)
    moreover obtain p ps where "readReturnPacket rk1 = p # ps"
      using True d1 by (cases "readReturnPacket rk1") (auto simp: line_due_def rank_data_ok_def)
    ultimately show ?thesis using True d1
      by (auto simp: rk1(2) rank_return_def rank_reads_def line_due_def rank_data_ok_def addr_of_def Let_def)
  next
    case False
    then show ?thesis using d1 by (auto simp: rk1(2) rank_return_def rank_reads_def line_due_def rank_data_ok_def Let_def)
  qed
  then show "rank_reads rk = rank_reads rk' + addr_of out" "rank_line c (now + 1) now s cmd rk'"
    using bus rline_tick [OF cfg _ tick] l by (auto simp: rank_reads_def rank_line_def)
qed

section \<open>The invariant\<close>

definition dram_ok :: "dram_cfg \<Rightarrow> bool" where
  "dram_ok c \<longleftrightarrow> queue_cfg c \<and> timing_cfg c \<and> map_cfg c \<and> NUM_RANKS c = 2 ^ NUM_RANKS_LOG c \<and> NUM_BANKS c = 2 ^ NUM_BANKS_LOG c"

lemma dram_okD: "dram_ok c \<Longrightarrow> queue_cfg c" "dram_ok c \<Longrightarrow> timing_cfg c" "dram_ok c \<Longrightarrow> map_cfg c"
  by (simp_all add: dram_ok_def)

definition cmd_for :: "BusPacket option \<Rightarrow> nat \<Rightarrow> BusPacket option" where
  "cmd_for cmd r = (case cmd of None \<Rightarrow> None | Some p \<Rightarrow> if rank p = r then Some p else None)"

definition cmd_reads :: "BusPacket option \<Rightarrow> nat multiset" where
  "cmd_reads cmd = (case cmd of None \<Rightarrow> {#} | Some p \<Rightarrow> if is_read p then {#physicalAddress p#} else {#})"

definition queue_reads :: "dram_cfg \<Rightarrow> CommandQueue \<Rightarrow> nat multiset" where
  "queue_reads c cq = image_mset physicalAddress (filter_mset is_read (waiting_cols c cq))"

definition queue_writes :: "dram_cfg \<Rightarrow> CommandQueue \<Rightarrow> nat multiset" where
  "queue_writes c cq = image_mset physicalAddress (filter_mset is_write (waiting_cols c cq))"

text \<open>Every read that waits for its data is in the queue, on the way to a rank, in a rank or on the way back.\<close>

definition read_ledger :: "dram_cfg \<Rightarrow> CommandQueue \<Rightarrow> BusPacket option \<Rightarrow> rank_table \<Rightarrow> dTransaction list \<Rightarrow> dTransaction list \<Rightarrow> bool" where
  "read_ledger c cq cmd rks ret pend \<longleftrightarrow> mset (map daddress pend) =
     queue_reads c cq + cmd_reads cmd + (\<Sum>r<NUM_RANKS c. rank_reads (rks r)) + mset (map daddress ret)"

definition is_request :: "dTransaction \<Rightarrow> bool" where
  "is_request t \<longleftrightarrow> dtransactionType t = D_DATA_READ \<or> dtransactionType t = D_DATA_WRITE"

definition data_ok :: "dram_cfg \<Rightarrow> BusPacket \<Rightarrow> bool" where
  "data_ok c p \<longleftrightarrow> busPacketType p = DATA \<and> rank p < NUM_RANKS c"

definition cmd_on_way :: "dram_cfg \<Rightarrow> bank_table \<Rightarrow> BusPacket option \<Rightarrow> nat \<Rightarrow> bool" where
  "cmd_on_way c bs cmd left \<longleftrightarrow> (\<forall>p. cmd = Some p \<longrightarrow> left = 1 \<and> rank p < NUM_RANKS c \<and> bank p < NUM_BANKS c \<and>
     currentBankState (bs (rank p) (bank p)) \<noteq> Idle)"

definition mc_ok :: "dram_cfg \<Rightarrow> MemoryController \<Rightarrow> bool" where
  "mc_ok c mc \<longleftrightarrow> cq_wf c (commandQueue mc) \<and> mc_refreshRank mc < NUM_RANKS c \<and> (\<forall>t \<in> set (transactionQueue mc). is_request t) \<and>
     length (writeDataToSend mc) = length (writeDataCountdown mc) \<and> (\<forall>p \<in> set (writeDataToSend mc). data_ok c p) \<and>
     (\<forall>p. outgoingDataPacket mc = Some p \<longrightarrow> data_ok c p)"

definition agree_all :: "dram_cfg \<Rightarrow> nat \<Rightarrow> bank_table \<Rightarrow> (nat \<Rightarrow> bool) \<Rightarrow> BusPacket option \<Rightarrow> rank_table \<Rightarrow> bool" where
  "agree_all c now bs off cmd rks \<longleftrightarrow> (\<forall>r<NUM_RANKS c. rank_agrees c now (bs r) (off r) (cmd_for cmd r) (rks r))"

definition lines_all :: "dram_cfg \<Rightarrow> nat \<Rightarrow> nat \<Rightarrow> bank_table \<Rightarrow> BusPacket option \<Rightarrow> rank_table \<Rightarrow> bool" where
  "lines_all c lt now bs cmd rks \<longleftrightarrow> (\<forall>r<NUM_RANKS c. rank_line c lt now (bs r) (cmd_for cmd r) (rks r))"

definition mc_bus_of :: "MemoryController \<Rightarrow> nat option" where
  "mc_bus_of mc = bus_of (outgoingDataPacket mc) (dataCyclesLeft mc)"

definition clocks :: "dram_cfg \<Rightarrow> nat \<Rightarrow> MemoryController \<Rightarrow> rank_table \<Rightarrow> bool" where
  "clocks c t mc rks \<longleftrightarrow> mc_clock mc = t \<and> cq_clock (commandQueue mc) = t \<and> (\<forall>r<NUM_RANKS c. r_clock (rks r) = t)"

text \<open>Between two cycles, after the commands of cycle \<open>now\<close>.\<close>

definition core :: "dram_cfg \<Rightarrow> nat \<Rightarrow> nat \<Rightarrow> MemoryController \<Rightarrow> rank_table \<Rightarrow> bool" where
  "core c lt now mc rks \<longleftrightarrow> agree_all c now (bankStates mc) (powerDown mc) (outgoingCmdPacket mc) rks \<and>
     lines_all c lt now (bankStates mc) (outgoingCmdPacket mc) rks \<and>
     wline c now (bankStates mc) (writeDataCountdown mc) (mc_bus_of mc) \<and>
     cmd_on_way c (bankStates mc) (outgoingCmdPacket mc) (cmdCyclesLeft mc) \<and> mc_ok c mc \<and>
     read_ledger c (commandQueue mc) (outgoingCmdPacket mc) rks (returnTransaction mc) (pendingReadTransactions mc)"

text \<open>Within cycle \<open>now\<close>, before a command is issued.\<close>

definition mid :: "dram_cfg \<Rightarrow> nat \<Rightarrow> MemoryController \<Rightarrow> rank_table \<Rightarrow> bool" where
  "mid c now mc rks \<longleftrightarrow> agree_all c now (bankStates mc) (powerDown mc) None rks \<and> lines_all c now now (bankStates mc) None rks \<and>
     (\<forall>r<NUM_RANKS c. line_end (burst c) now (readReturnCountdown (rks r)) (rank_bus_of (rks r)) \<le> now + RL c + burst c) \<and>
     wline_mid c now (bankStates mc) (writeDataCountdown mc) (mc_bus_of mc) \<and> outgoingCmdPacket mc = None \<and> mc_ok c mc \<and>
     read_ledger c (commandQueue mc) None rks (returnTransaction mc) (pendingReadTransactions mc)"

section \<open>What is still owed\<close>

definition reads_of :: "dTransaction list \<Rightarrow> nat multiset" where
  "reads_of ts = mset (map daddress (filter (\<lambda>t. dtransactionType t = D_DATA_READ) ts))"

definition writes_of :: "dTransaction list \<Rightarrow> nat multiset" where
  "writes_of ts = mset (map daddress (filter (\<lambda>t. dtransactionType t = D_DATA_WRITE) ts))"

definition reads_in :: "MemoryController \<Rightarrow> nat multiset" where
  "reads_in mc = reads_of (transactionQueue mc) + mset (map daddress (pendingReadTransactions mc))"

definition writes_in :: "dram_cfg \<Rightarrow> MemoryController \<Rightarrow> nat multiset" where
  "writes_in c mc = writes_of (transactionQueue mc) + queue_writes c (commandQueue mc) +
     mset (map physicalAddress (writeDataToSend mc)) + addr_of (outgoingDataPacket mc)"

fun read_out :: "dcallback \<Rightarrow> nat multiset" where
  "read_out (Read_Returned a t) = {#a#}"
| "read_out (Write_Data_Done a t) = {#}"

fun write_out :: "dcallback \<Rightarrow> nat multiset" where
  "write_out (Read_Returned a t) = {#}"
| "write_out (Write_Data_Done a t) = {#a#}"

definition reads_out :: "dcallback list \<Rightarrow> nat multiset" where
  "reads_out out = sum_list (map read_out out)"

definition writes_out :: "dcallback list \<Rightarrow> nat multiset" where
  "writes_out out = sum_list (map write_out out)"

definition flow :: "dram_cfg \<Rightarrow> MemoryController \<Rightarrow> dcallback list \<Rightarrow> MemoryController \<Rightarrow> bool" where
  "flow c mc out mc' \<longleftrightarrow> reads_in mc = reads_in mc' + reads_out out \<and> writes_in c mc = writes_in c mc' + writes_out out"

lemma flow_trans: "flow c mc out mc' \<Longrightarrow> flow c mc' out' mc'' \<Longrightarrow> flow c mc (out @ out') mc''"
  by (simp add: flow_def reads_out_def writes_out_def add_ac)

lemma flow_same:
  assumes "transactionQueue mc' = transactionQueue mc" "pendingReadTransactions mc' = pendingReadTransactions mc"
    "queue_writes c (commandQueue mc') = queue_writes c (commandQueue mc)" "writeDataToSend mc' = writeDataToSend mc"
    "outgoingDataPacket mc' = outgoingDataPacket mc"
  shows "flow c mc [] mc'"
  using assms by (simp add: flow_def reads_in_def writes_in_def reads_out_def writes_out_def)

section \<open>The ranks\<close>

lemma sum_upd:
  assumes "r < (n :: nat)" "f (g r) = f x + y"
  shows "(\<Sum>i<n. f (g i)) = (\<Sum>i<n. f ((g(r := x)) i)) + (y :: 'b :: comm_monoid_add)"
proof -
  have "(\<Sum>i<n. f (g i)) = f (g r) + (\<Sum>i \<in> {..<n} - {r}. f (g i))" using assms(1) by (intro sum.remove) auto
  moreover have "(\<Sum>i<n. f ((g(r := x)) i)) = f x + (\<Sum>i \<in> {..<n} - {r}. f ((g(r := x)) i))"
    using assms(1) by (subst sum.remove [of _ r]) auto
  moreover have "(\<Sum>i \<in> {..<n} - {r}. f ((g(r := x)) i)) = (\<Sum>i \<in> {..<n} - {r}. f (g i))" by (intro sum.cong) auto
  ultimately show ?thesis using assms(2) by (simp add: add_ac)
qed

definition ranks_post :: "dram_cfg \<Rightarrow> nat \<Rightarrow> nat list \<Rightarrow> MemoryController \<Rightarrow> rank_table \<Rightarrow> MemoryController \<Rightarrow> rank_table \<Rightarrow> bool" where
  "ranks_post c now is mc rks mc' rks' \<longleftrightarrow>
     (\<exists>ret tot. mc' = mc\<lparr>returnTransaction := ret, totalReadsPerBank := tot\<rparr>) \<and>
     (\<forall>r \<in> set is. rank_line c (now + 1) now (bankStates mc r) (cmd_for (outgoingCmdPacket mc) r) (rks' r)) \<and>
     (\<forall>r. r \<notin> set is \<longrightarrow> rks' r = rks r) \<and> (\<forall>r. rank_same (rks r) (rks' r)) \<and>
     (\<Sum>r<NUM_RANKS c. rank_reads (rks r)) + mset (map daddress (returnTransaction mc)) =
     (\<Sum>r<NUM_RANKS c. rank_reads (rks' r)) + mset (map daddress (returnTransaction mc'))"

lemma rank_same_refl [simp]: "rank_same rk rk"
  by (simp add: rank_same_def)

lemma update_ranks_ok:
  assumes cfg: "timing_cfg c"
  shows "distinct is \<Longrightarrow> \<forall>r \<in> set is. r < NUM_RANKS c \<and> rank_line c now now (bankStates mc r) (cmd_for (outgoingCmdPacket mc) r) (rks r) \<Longrightarrow>
    okR (update_ranks c is (mc, rks)) (\<lambda>(mc', rks'). ranks_post c now is mc rks mc' rks')"
proof (induction "is" arbitrary: mc rks)
  case (Cons i "is")
  obtain rk out where u: "rank_update c (rks i) = (rk, out)" by fastforce
  have i: "i < NUM_RANKS c" "i \<notin> set is" and l: "rank_line c now now (bankStates mc i) (cmd_for (outgoingCmdPacket mc) i) (rks i)"
    using Cons.prems by auto
  note R = rank_update_ok [OF cfg l u]
  define mc1 where "mc1 = (case out of None \<Rightarrow> mc | Some p \<Rightarrow>
    mc\<lparr>returnTransaction := returnTransaction mc @ [mkdTransaction D_RETURN_DATA (physicalAddress p)],
       totalReadsPerBank := add_at (SEQUENTIAL c (rank p) (bank p)) 1 (totalReadsPerBank mc)\<rparr>)"
  have mc1: "(case out of None \<Rightarrow> Inr mc | Some p \<Rightarrow> mc_receiveFromBus c p mc) = Inr mc1"
    using R(3) by (auto simp: mc1_def mc_receiveFromBus_def split: option.splits)
  obtain ret tot where f: "mc1 = mc\<lparr>returnTransaction := ret, totalReadsPerBank := tot\<rparr>"
    "mset (map daddress ret) = mset (map daddress (returnTransaction mc)) + addr_of out"
  proof
    show "mc1 = mc\<lparr>returnTransaction := returnTransaction mc1, totalReadsPerBank := totalReadsPerBank mc1\<rparr>"
      by (simp add: mc1_def split: option.splits)
    show "mset (map daddress (returnTransaction mc1)) = mset (map daddress (returnTransaction mc)) + addr_of out"
      by (simp add: mc1_def addr_of_def mkdTransaction_def split: option.splits)
  qed
  define rks1 where "rks1 = rks(i := rk)"
  have "\<forall>r \<in> set is. r < NUM_RANKS c \<and> rank_line c now now (bankStates mc1 r) (cmd_for (outgoingCmdPacket mc1) r) (rks1 r)"
    using Cons.prems i by (auto simp: f(1) rks1_def)
  from Cons.IH [of mc1 rks1] Cons.prems(1) this
  obtain mc' rks' where IH: "update_ranks c is (mc1, rks1) = Inr (mc', rks')" "ranks_post c now is mc1 rks1 mc' rks'"
    by (auto simp: okR_iff)
  have s: "(\<Sum>r<NUM_RANKS c. rank_reads (rks r)) = (\<Sum>r<NUM_RANKS c. rank_reads (rks1 r)) + addr_of out"
    using sum_upd [OF i(1), of rank_reads rks rk "addr_of out"] R(2) by (simp add: rks1_def)
  have same: "rank_same (rks r) (rks' r)" for r
    using IH(2) R(4) unfolding ranks_post_def rks1_def by (cases "r = i") (auto simp: rank_same_def)
  have mc': "\<exists>ret tot. mc' = mc\<lparr>returnTransaction := ret, totalReadsPerBank := tot\<rparr>"
    using IH(2) unfolding ranks_post_def f(1) by auto
  have lines: "rank_line c (now + 1) now (bankStates mc r) (cmd_for (outgoingCmdPacket mc) r) (rks' r)" if "r \<in> set (i # is)" for r
    using IH(2) R(1) i that unfolding ranks_post_def by (auto simp: f(1) rks1_def)
  have total: "(\<Sum>r<NUM_RANKS c. rank_reads (rks r)) + mset (map daddress (returnTransaction mc)) =
     (\<Sum>r<NUM_RANKS c. rank_reads (rks' r)) + mset (map daddress (returnTransaction mc'))"
    using IH(2) s f(2) unfolding ranks_post_def by (simp add: f(1) add_ac)
  have "ranks_post c now (i # is) mc rks mc' rks'"
    using IH(2) same mc' lines total unfolding ranks_post_def by (auto simp: rks1_def)
  then show ?case using u mc1 IH(1) by (simp add: rks1_def)
next
  case Nil
  have "mc = mc\<lparr>returnTransaction := returnTransaction mc, totalReadsPerBank := totalReadsPerBank mc\<rparr>" by simp
  then have "\<exists>ret tot. mc = mc\<lparr>returnTransaction := ret, totalReadsPerBank := tot\<rparr>" by blast
  then show ?case by (simp add: ranks_post_def)
qed

section \<open>Commands arrive\<close>

lemma rank_effect_data:
  "readReturnCountdown (rank_effect c p rk) = (if is_read p then readReturnCountdown rk @ [RL c] else readReturnCountdown rk)"
  "rank_bus_of (rank_effect c p rk) = rank_bus_of rk" "r_clock (rank_effect c p rk) = r_clock rk"
  "rank_reads (rank_effect c p rk) = rank_reads rk + cmd_reads (Some p)"
  "rank_data_ok rk \<Longrightarrow> rank_data_ok (rank_effect c p rk)"
  by (cases "busPacketType p"; auto simp: rank_effect_def return_later_def note_write_def is_read_def rank_bus_of_def rank_reads_def
      cmd_reads_def rank_data_ok_def)+

lemma rank_line_banks [simp]: "rank_line c lt now s cmd (rk\<lparr>r_bankStates := k\<rparr>) = rank_line c lt now s cmd rk"
  by (simp add: rank_line_def rank_bus_of_def rank_data_ok_def)

lemma rank_reads_banks [simp]: "rank_reads (rk\<lparr>r_bankStates := k\<rparr>) = rank_reads rk"
  by (simp add: rank_reads_def)

definition tick_table :: "dram_cfg \<Rightarrow> bank_table \<Rightarrow> bank_table" where
  "tick_table c bs = (\<lambda>i j. if i < NUM_RANKS c \<and> j < NUM_BANKS c then tick_state c (bs i j) else bs i j)"

lemma tick_nextRead [simp]: "nextRead (tick_state c s) = nextRead s" "nextWrite (tick_state c s) = nextWrite s"
  by (cases "lastCommand s"; simp add: tick_state_def Let_def)+

definition line_bound :: "dram_cfg \<Rightarrow> nat \<Rightarrow> Rank \<Rightarrow> bool" where
  "line_bound c now rk \<longleftrightarrow> line_end (burst c) now (readReturnCountdown rk) (rank_bus_of rk) \<le> now + RL c + burst c"

lemma rank_line_deliver:
  assumes cfg: "timing_cfg c" and l: "rank_line c (now + 1) now s cmd rk"
    and s': "\<And>b. b < NUM_BANKS c \<Longrightarrow> nextRead (s' b) = nextRead (s b)"
    and rk': "rk' = (case cmd of None \<Rightarrow> rk | Some p \<Rightarrow> rank_effect c p (rk\<lparr>r_bankStates := k\<rparr>))"
  shows "rank_line c (now + 1) (now + 1) s' None rk'" "line_bound c (now + 1) rk'"
    "rank_reads rk' = rank_reads rk + cmd_reads cmd" "r_clock rk' = r_clock rk"
proof -
  have r: "rline c (now + 1) now s cmd (readReturnCountdown rk) (rank_bus_of rk)" and d: "rank_data_ok rk"
    using l by (auto simp: rank_line_def)
  have d': "rank_data_ok (rk\<lparr>r_bankStates := k\<rparr>)" using d by (simp add: rank_data_ok_def)
  have c: "readReturnCountdown rk' = (if reads_cmd cmd then readReturnCountdown rk @ [RL c] else readReturnCountdown rk)"
    by (cases cmd) (simp_all add: rk' rank_effect_data reads_cmd_def)
  have b: "rank_bus_of rk' = rank_bus_of rk"
    by (cases cmd) (simp_all add: rk' rank_effect_data, simp add: rank_bus_of_def)
  have "rank_data_ok rk'" using d rank_effect_data(5) [OF d'] by (cases cmd) (simp_all add: rk')
  then show "rank_line c (now + 1) (now + 1) s' None rk'"
    using rline_deliver(1) [where s' = s', OF cfg r] s' by (simp add: rank_line_def b c)
  show "line_bound c (now + 1) rk'"
    using rline_deliver(2) [where s' = s', OF cfg r] s' by (simp add: line_bound_def b c rline_end_def reads_cmd_def [of None])
  show "rank_reads rk' = rank_reads rk + cmd_reads cmd"
    by (cases cmd) (simp_all add: rk' rank_effect_data cmd_reads_def)
  show "r_clock rk' = r_clock rk"
    by (cases cmd) (simp_all add: rk' rank_effect_data)
qed

lemma ledger_deliver:
  assumes "read_ledger c cq (Some p) rks ret pend" "rank p < NUM_RANKS c" "rank_reads rk = rank_reads (rks (rank p)) + cmd_reads (Some p)"
  shows "read_ledger c cq None (rks(rank p := rk)) ret pend"
proof -
  have "(\<Sum>r<NUM_RANKS c. rank_reads ((rks(rank p := rk)) r)) = (\<Sum>r<NUM_RANKS c. rank_reads (rks r)) + cmd_reads (Some p)"
    using sum_upd [OF assms(2), of rank_reads "rks(rank p := rk)" "rks (rank p)" "cmd_reads (Some p)"] assms(3) by (simp cong: sum.cong)
  then show ?thesis using assms(1) by (simp add: read_ledger_def cmd_reads_def [of None] add_ac)
qed

definition delivered :: "dram_cfg \<Rightarrow> nat \<Rightarrow> MemoryController \<Rightarrow> MemoryController \<Rightarrow> rank_table \<Rightarrow> bool" where
  "delivered c t mc mc' rks' \<longleftrightarrow>
     (\<exists>left. mc' = mc\<lparr>bankStates := tick_table c (bankStates mc), cmdCyclesLeft := left, outgoingCmdPacket := None\<rparr>) \<and>
     agree_all c t (bankStates mc') (powerDown mc') None rks' \<and> lines_all c t t (bankStates mc') None rks' \<and>
     (\<forall>r<NUM_RANKS c. line_bound c t (rks' r)) \<and> (\<forall>r<NUM_RANKS c. r_clock (rks' r) = t) \<and>
     read_ledger c (commandQueue mc') None rks' (returnTransaction mc') (pendingReadTransactions mc')"

lemma deliver_cmd_ok:
  assumes cfg: "timing_cfg c" and core: "core c (now + 1) now mc rks" and clk: "clocks c (now + 1) mc rks"
  shows "okR (deliver_cmd c (update_bank_states c mc, rks)) (\<lambda>(mc', rks'). delivered c (now + 1) mc mc' rks')"
proof -
  let ?bs = "tick_table c (bankStates mc)" let ?cmd = "outgoingCmdPacket mc"
  have row: "?bs r = (\<lambda>j. if j < NUM_BANKS c then tick_state c (bankStates mc r j) else bankStates mc r j)" if "r < NUM_RANKS c" for r
    using that by (simp add: tick_table_def)
  have step: "okR (case cmd_for ?cmd r of None \<Rightarrow> Inr (rks r) | Some p \<Rightarrow> rank_receiveFromBus c p (rks r)) (\<lambda>rk'.
      rank_agrees c (now + 1) (?bs r) (powerDown mc r) None rk' \<and> rank_line c (now + 1) (now + 1) (?bs r) None rk' \<and>
      line_bound c (now + 1) rk' \<and> rank_reads rk' = rank_reads (rks r) + cmd_reads (cmd_for ?cmd r) \<and> r_clock rk' = now + 1)"
    if r: "r < NUM_RANKS c" for r
  proof -
    have a: "rank_agrees c now (bankStates mc r) (powerDown mc r) (cmd_for ?cmd r) (rks r)"
      and l: "rank_line c (now + 1) now (bankStates mc r) (cmd_for ?cmd r) (rks r)" and k: "r_clock (rks r) = now + 1"
      using core clk r by (auto simp: core_def agree_all_def lines_all_def clocks_def)
    have n: "nextRead (?bs r b) = nextRead (bankStates mc r b)" for b by (simp add: tick_table_def)
    from rank_agrees_tick [OF a k] obtain rk' where
      rk': "(case cmd_for ?cmd r of None \<Rightarrow> Inr (rks r) | Some p \<Rightarrow> rank_receiveFromBus c p (rks r)) = Inr rk'"
        "rank_agrees c (now + 1) (?bs r) (powerDown mc r) None rk'"
        "rk' = (case cmd_for ?cmd r of None \<Rightarrow> rks r | Some p \<Rightarrow> rank_effect c p ((rks r)\<lparr>r_bankStates := r_bankStates rk'\<rparr>))"
      unfolding okR_iff row [OF r] by blast
    show ?thesis using rk'(1,2) rank_line_deliver [OF cfg l n rk'(3)] k by simp
  qed
  show ?thesis
  proof (cases ?cmd)
    case None
    then have "rank_agrees c (now + 1) (?bs r) (powerDown mc r) None (rks r) \<and> rank_line c (now + 1) (now + 1) (?bs r) None (rks r) \<and>
        line_bound c (now + 1) (rks r) \<and> r_clock (rks r) = now + 1" if "r < NUM_RANKS c" for r
      using step [OF that] by (simp add: cmd_for_def)
    moreover have u: "update_bank_states c mc = mc\<lparr>bankStates := ?bs\<rparr>" by (simp add: update_bank_states_def tick_table_def)
    moreover have "\<exists>left. mc\<lparr>bankStates := ?bs\<rparr> = mc\<lparr>bankStates := ?bs, cmdCyclesLeft := left, outgoingCmdPacket := None\<rparr>"
      by (rule exI [of _ "cmdCyclesLeft mc"]) (simp add: None)
    ultimately show ?thesis using None core
      by (simp add: deliver_cmd_def delivered_def agree_all_def lines_all_def cmd_for_def core_def)
  next
    case (Some p)
    have p: "rank p < NUM_RANKS c" "cmdCyclesLeft mc = 1" using core Some by (auto simp: core_def cmd_on_way_def)
    from step [OF p(1)] Some obtain rk where rk: "rank_receiveFromBus c p (rks (rank p)) = Inr rk"
      "rank_agrees c (now + 1) (?bs (rank p)) (powerDown mc (rank p)) None rk" "rank_line c (now + 1) (now + 1) (?bs (rank p)) None rk"
      "line_bound c (now + 1) rk" "rank_reads rk = rank_reads (rks (rank p)) + cmd_reads (Some p)" "r_clock rk = now + 1"
      by (auto simp: cmd_for_def okR_iff)
    have others: "rank_agrees c (now + 1) (?bs r) (powerDown mc r) None (rks r) \<and> rank_line c (now + 1) (now + 1) (?bs r) None (rks r) \<and>
        line_bound c (now + 1) (rks r) \<and> r_clock (rks r) = now + 1" if "r < NUM_RANKS c" "r \<noteq> rank p" for r
      using step [OF that(1)] that(2) Some by (simp add: cmd_for_def)
    have ledger: "read_ledger c (commandQueue mc) None (rks(rank p := rk)) (returnTransaction mc) (pendingReadTransactions mc)"
      using ledger_deliver [of c "commandQueue mc" p rks _ _ rk] p(1) rk(5) core Some by (simp add: core_def)
    have "deliver_cmd c (update_bank_states c mc, rks) =
        Inr (mc\<lparr>bankStates := ?bs, cmdCyclesLeft := 0, outgoingCmdPacket := None\<rparr>, rks(rank p := rk))"
      using Some p(2) rk(1) by (simp add: deliver_cmd_def update_bank_states_def tick_table_def u32_sub_def)
    then show ?thesis using rk others ledger
      by (auto simp: delivered_def agree_all_def lines_all_def cmd_for_def)
  qed
qed

section \<open>Write data goes out\<close>

definition same_but_data :: "MemoryController \<Rightarrow> MemoryController \<Rightarrow> bool" where
  "same_but_data mc mc' \<longleftrightarrow> bankStates mc' = bankStates mc \<and> powerDown mc' = powerDown mc \<and> outgoingCmdPacket mc' = outgoingCmdPacket mc \<and>
     commandQueue mc' = commandQueue mc \<and> returnTransaction mc' = returnTransaction mc \<and>
     pendingReadTransactions mc' = pendingReadTransactions mc \<and> transactionQueue mc' = transactionQueue mc \<and>
     mc_refreshRank mc' = mc_refreshRank mc \<and> mc_clock mc' = mc_clock mc"

definition data_post :: "dram_cfg \<Rightarrow> MemoryController \<Rightarrow> rank_table \<Rightarrow> (MemoryController \<times> rank_table) \<times> dcallback list \<Rightarrow> bool" where
  "data_post c mc rks = (\<lambda>((mc', rks'), out). rks' = rks \<and> same_but_data mc mc' \<and> mc_bus_of mc' = bus_tick (mc_bus_of mc) \<and>
     writeDataCountdown mc' = writeDataCountdown mc \<and> writeDataToSend mc' = writeDataToSend mc \<and>
     mc_ok c mc' \<and> flow c mc out mc')"

lemma deliver_data_ok:
  assumes "mc_ok c mc"
  shows "okR (deliver_data c (mc, rks)) (data_post c mc rks)"
proof (cases "outgoingDataPacket mc")
  case None
  then show ?thesis using assms
    by (simp add: deliver_data_def data_post_def same_but_data_def mc_bus_of_def bus_tick_def flow_same)
next
  case (Some p)
  have "busPacketType p = DATA" using assms Some by (simp add: mc_ok_def data_ok_def)
  then have r: "rank_receiveFromBus c p (rks (rank p)) = Inr (rks (rank p))" by (simp add: rank_receiveFromBus_def Let_def)
  show ?thesis
  proof (cases "u32_sub (dataCyclesLeft mc) 1 = 0")
    case True
    then show ?thesis using Some r assms
      by (simp add: deliver_data_def data_post_def same_but_data_def mc_bus_of_def bus_tick_def mc_ok_def flow_def reads_in_def
          writes_in_def addr_of_def reads_out_def writes_out_def)
  next
    case False
    then show ?thesis using Some assms
      by (simp add: deliver_data_def data_post_def same_but_data_def mc_bus_of_def bus_tick_def mc_ok_def flow_same)
  qed
qed

lemma send_write_data_ok:
  assumes ok: "mc_ok c mc" and line: "line_ok (burst c) (writeDataCountdown mc) out" and bus: "mc_bus_of mc = bus_tick out"
  shows "okR (send_write_data c mc) (\<lambda>mc'. same_but_data mc mc' \<and> mc_ok c mc' \<and> flow c mc [] mc' \<and>
     line_tick (burst c) (writeDataCountdown mc) out = (writeDataCountdown mc', mc_bus_of mc'))"
proof (cases "line_due (writeDataCountdown mc)")
  case True
  have free: "outgoingDataPacket mc = None" using due_free [OF line True] bus by (simp add: mc_bus_of_def bus_of_def)
  obtain x xs where cs: "writeDataCountdown mc = x # xs" using True by (cases "writeDataCountdown mc") (auto simp: line_due_def)
  then obtain p ps where ps: "writeDataToSend mc = p # ps" using ok by (cases "writeDataToSend mc") (auto simp: mc_ok_def)
  show ?thesis using True free cs ps ok
    by (simp add: send_write_data_def line_due_def same_but_data_def mc_ok_def line_tick_def mc_bus_of_def burst_def flow_def
        reads_in_def writes_in_def addr_of_def reads_out_def writes_out_def add_ac)
next
  case False
  then show ?thesis using ok bus
    by (auto simp: send_write_data_def line_due_def same_but_data_def mc_ok_def line_tick_def mc_bus_of_def flow_same)
qed

text \<open>Both parts together are a cycle of the line.\<close>

lemma write_path_ok:
  assumes cfg: "timing_cfg c" and ok: "mc_ok c mc" and w: "wline c now bs (writeDataCountdown mc) (mc_bus_of mc)"
    and bs: "bankStates mc = tick_table c bs"
  shows "okR (deliver_data c (mc, rks)) (\<lambda>((mc2, rks2), out). rks2 = rks \<and> okR (send_write_data c mc2) (\<lambda>mc3.
     same_but_data mc mc3 \<and> mc_ok c mc3 \<and> flow c mc out mc3 \<and>
     wline_mid c (now + 1) (bankStates mc3) (writeDataCountdown mc3) (mc_bus_of mc3)))"
proof -
  obtain mc2 out where d: "deliver_data c (mc, rks) = Inr ((mc2, rks), out)" "data_post c mc rks ((mc2, rks), out)"
    using deliver_data_ok [OF ok, of rks] by (auto simp: okR_iff data_post_def)
  then have l: "line_ok (burst c) (writeDataCountdown mc2) (mc_bus_of mc)" "mc_bus_of mc2 = bus_tick (mc_bus_of mc)" "mc_ok c mc2"
    "writeDataCountdown mc2 = writeDataCountdown mc" using w by (auto simp: data_post_def wline_def)
  obtain mc3 where s: "send_write_data c mc2 = Inr mc3" "same_but_data mc2 mc3" "mc_ok c mc3" "flow c mc2 [] mc3"
    "line_tick (burst c) (writeDataCountdown mc2) (mc_bus_of mc) = (writeDataCountdown mc3, mc_bus_of mc3)"
    using send_write_data_ok [OF l(3,1,2)] by (auto simp: okR_iff)
  have "bankStates mc3 = tick_table c bs" using d(2) s(2) bs by (simp add: data_post_def same_but_data_def)
  then have "row_open (bankStates mc3 r b) \<Longrightarrow> row_open (bs r b) \<and> nextWrite (bankStates mc3 r b) = nextWrite (bs r b)" for r b
    using row_open_tick [of c "bs r b"] by (auto simp: tick_table_def split: if_splits)
  then have "wline_mid c (now + 1) (bankStates mc3) (writeDataCountdown mc3) (mc_bus_of mc3)"
    using wline_tick [OF cfg w s(5) [unfolded l(4)]] by blast
  moreover have "same_but_data mc mc3" using d(2) s(2) by (simp add: data_post_def same_but_data_def)
  moreover have "flow c mc out mc3" using flow_trans [of c mc out mc2 "[]" mc3] d(2) s(4) by (simp add: data_post_def)
  ultimately show ?thesis using d(1) s(1,3) by simp
qed

section \<open>Refresh requests\<close>

lemma rank_agrees_same:
  "r_bankStates rk' = r_bankStates rk \<Longrightarrow> isPowerDown rk' = isPowerDown rk \<Longrightarrow>
   rank_agrees c now s off cmd rk' = rank_agrees c now s off cmd rk"
  by (cases cmd) (simp_all add: rank_agrees_def)

lemma waits_simps [simp]:
  "rank_agrees c now s off cmd (rk\<lparr>r_refreshWaiting := w\<rparr>) = rank_agrees c now s off cmd rk"
  "rank_line c lt now s cmd (rk\<lparr>r_refreshWaiting := w\<rparr>) = rank_line c lt now s cmd rk"
  "rank_bus_of (rk\<lparr>r_refreshWaiting := w\<rparr>) = rank_bus_of rk" "rank_reads (rk\<lparr>r_refreshWaiting := w\<rparr>) = rank_reads rk"
  by (rule rank_agrees_same) (simp_all add: rank_line_def rank_bus_of_def rank_data_ok_def rank_reads_def)

lemma queue_reads_same: "queues cq' = queues cq \<Longrightarrow> queue_reads c cq' = queue_reads c cq"
  "queues cq' = queues cq \<Longrightarrow> queue_writes c cq' = queue_writes c cq"
  by (simp_all add: queue_reads_def queue_writes_def waiting_cols_def)

definition waits_only :: "rank_table \<Rightarrow> rank_table \<Rightarrow> bool" where
  "waits_only rks rks' \<longleftrightarrow> (\<forall>r. \<exists>w. rks' r = (rks r)\<lparr>r_refreshWaiting := w\<rparr>)"

lemma waits_only_refl [simp]: "waits_only rks rks"
  unfolding waits_only_def
proof
  fix r
  show "\<exists>w. rks r = (rks r)\<lparr>r_refreshWaiting := w\<rparr>" by (rule exI [of _ "r_refreshWaiting (rks r)"]) simp
qed

lemma waits_only_all:
  assumes "waits_only rks rks'"
  shows "rank_agrees c now s off cmd (rks' r) = rank_agrees c now s off cmd (rks r)"
    "rank_line c lt now s cmd (rks' r) = rank_line c lt now s cmd (rks r)" "rank_bus_of (rks' r) = rank_bus_of (rks r)"
    "rank_reads (rks' r) = rank_reads (rks r)" "r_clock (rks' r) = r_clock (rks r)"
    "readReturnCountdown (rks' r) = readReturnCountdown (rks r)"
proof -
  obtain w where w: "rks' r = (rks r)\<lparr>r_refreshWaiting := w\<rparr>" using assms unfolding waits_only_def by blast
  show "rank_agrees c now s off cmd (rks' r) = rank_agrees c now s off cmd (rks r)"
    "rank_line c lt now s cmd (rks' r) = rank_line c lt now s cmd (rks r)" "rank_bus_of (rks' r) = rank_bus_of (rks r)"
    "rank_reads (rks' r) = rank_reads (rks r)" "r_clock (rks' r) = r_clock (rks r)"
    "readReturnCountdown (rks' r) = readReturnCountdown (rks r)"
    unfolding w by simp_all
qed

lemma request_refresh_waits:
  assumes "request_refresh c (mc, rks) = (mc', rks')"
  shows "waits_only rks rks'"
proof -
  have "waits_only rks (rks(r := (rks r)\<lparr>r_refreshWaiting := True\<rparr>))" for r
    unfolding waits_only_def
  proof
    fix i
    show "\<exists>w. (rks(r := (rks r)\<lparr>r_refreshWaiting := True\<rparr>)) i = (rks i)\<lparr>r_refreshWaiting := w\<rparr>"
      by (rule exI [of _ "if i = r then True else r_refreshWaiting (rks i)"]) simp
  qed
  then show ?thesis using assms by (auto simp: request_refresh_def Let_def split: if_splits)
qed

lemma request_refresh_ok:
  assumes m: "mid c now mc rks" and clk: "clocks c t mc rks" and r: "request_refresh c (mc, rks) = (mc', rks')"
  shows "mid c now mc' rks'" "clocks c t mc' rks'" "flow c mc [] mc'"
proof -
  note W = waits_only_all [OF request_refresh_waits [OF r]]
  define cq where "cq = commandQueue mc'"
  have mc': "\<exists>rc rr. mc' = mc\<lparr>commandQueue := cq, refreshCountdown := rc, mc_refreshRank := rr\<rparr> \<and> rr < NUM_RANKS c \<and>
      cq_wf c cq \<and> queues cq = queues (commandQueue mc) \<and> cq_clock cq = cq_clock (commandQueue mc)"
  proof (cases "refreshCountdown mc (mc_refreshRank mc) = 0")
    case True
    let ?r = "mc_refreshRank mc"
    have u: "mc' = mc\<lparr>commandQueue := cq, refreshCountdown := (refreshCountdown mc)(?r := REFRESH_CYCLES c),
        mc_refreshRank := if ?r + 1 = NUM_RANKS c then 0 else ?r + 1\<rparr>" "cq = needRefresh ?r (commandQueue mc)"
      using r True by (auto simp: request_refresh_def Let_def cq_def)
    have "?r < NUM_RANKS c" "cq_wf c (commandQueue mc)" using m by (auto simp: mid_def mc_ok_def)
    then have "cq_wf c cq" "(if ?r + 1 = NUM_RANKS c then 0 else ?r + 1) < NUM_RANKS c" "queues cq = queues (commandQueue mc)"
      "cq_clock cq = cq_clock (commandQueue mc)"
      using needRefresh_wf [of c "commandQueue mc" ?r] by (auto simp: u(2)) (auto simp: needRefresh_def)
    with u(1) show ?thesis by blast
  next
    case False
    then have "mc' = mc" using r by (auto simp: request_refresh_def Let_def split: if_splits)
    then have u: "mc' = mc\<lparr>commandQueue := cq, refreshCountdown := refreshCountdown mc, mc_refreshRank := mc_refreshRank mc\<rparr>"
      "cq = commandQueue mc" by (simp_all add: cq_def)
    have "mc_refreshRank mc < NUM_RANKS c" "cq_wf c cq" using m by (auto simp: mid_def mc_ok_def u(2))
    with u show ?thesis by blast
  qed
  then obtain rc rr where e: "mc' = mc\<lparr>commandQueue := cq, refreshCountdown := rc, mc_refreshRank := rr\<rparr>" "rr < NUM_RANKS c"
    "cq_wf c cq" "queues cq = queues (commandQueue mc)" "cq_clock cq = cq_clock (commandQueue mc)" by blast
  note Q = queue_reads_same [OF e(4)]
  show "mid c now mc' rks'" using m e(2,3)
    by (simp add: e(1) mid_def agree_all_def lines_all_def W read_ledger_def Q mc_ok_def mc_bus_of_def)
  show "clocks c t mc' rks'" using clk e(5) by (simp add: e(1) clocks_def W)
  show "flow c mc [] mc'" by (rule flow_same) (simp_all add: e(1) Q)
qed

section \<open>A command is issued\<close>

lemma is_read_col: "is_read p \<Longrightarrow> is_col p" "is_write p \<Longrightarrow> is_col p"
  by (auto simp: is_read_def is_write_def is_col_def)

definition cmd_writes :: "BusPacket \<Rightarrow> nat multiset" where
  "cmd_writes p = (if is_write p then {#physicalAddress p#} else {#})"

lemma queue_reads_move:
  assumes "waiting_cols c cq = waiting_cols c cq' + col_of p"
  shows "queue_reads c cq = queue_reads c cq' + cmd_reads (Some p)" "queue_writes c cq = queue_writes c cq' + cmd_writes p"
  using assms is_read_col [of p] by (auto simp: queue_reads_def queue_writes_def col_of_def cmd_reads_def cmd_writes_def)

lemma col_open:
  assumes "agree_banks c now (bs (rank p)) k" "cmd_ok c bs cq p" "cq_clock cq = now" "is_col p"
  shows "row_open (bs (rank p) (bank p))"
proof -
  let ?s = "bs (rank p) (bank p)"
  have "bank p < NUM_BANKS c" "currentBankState ?s = RowActive" "nextRead ?s \<le> now \<or> nextWrite ?s \<le> now"
    using assms(2-4) by (auto simp: cmd_ok_def isIssuable_def is_col_def Let_def)
  then show ?thesis using access_open(3) [OF agree_bank_of [OF assms(1)]] by (simp add: row_open_def)
qed

lemma energy_simps [simp]:
  "bankStates (add_energy c p mc) = bankStates mc" "powerDown (add_energy c p mc) = powerDown mc"
  "commandQueue (add_energy c p mc) = commandQueue mc" "returnTransaction (add_energy c p mc) = returnTransaction mc"
  "pendingReadTransactions (add_energy c p mc) = pendingReadTransactions mc" "transactionQueue (add_energy c p mc) = transactionQueue mc"
  "mc_refreshRank (add_energy c p mc) = mc_refreshRank mc" "mc_clock (add_energy c p mc) = mc_clock mc"
  "writeDataToSend (add_energy c p mc) = writeDataToSend mc" "writeDataCountdown (add_energy c p mc) = writeDataCountdown mc"
  "outgoingDataPacket (add_energy c p mc) = outgoingDataPacket mc" "dataCyclesLeft (add_energy c p mc) = dataCyclesLeft mc"
  by (cases "busPacketType p"; simp add: add_energy_def)+

lemma queue_write_simps [simp]:
  "bankStates (queue_write_data c p mc) = bankStates mc" "powerDown (queue_write_data c p mc) = powerDown mc"
  "commandQueue (queue_write_data c p mc) = commandQueue mc" "returnTransaction (queue_write_data c p mc) = returnTransaction mc"
  "pendingReadTransactions (queue_write_data c p mc) = pendingReadTransactions mc" "transactionQueue (queue_write_data c p mc) = transactionQueue mc"
  "mc_refreshRank (queue_write_data c p mc) = mc_refreshRank mc" "mc_clock (queue_write_data c p mc) = mc_clock mc"
  "writeDataToSend (queue_write_data c p mc) = writeDataToSend mc @
     (if is_write p then [mkBusPacket DATA (physicalAddress p) (column p) (row p) (rank p) (bank p)] else [])"
  "writeDataCountdown (queue_write_data c p mc) = (if is_write p then writeDataCountdown mc @ [WL c] else writeDataCountdown mc)"
  "outgoingDataPacket (queue_write_data c p mc) = outgoingDataPacket mc" "dataCyclesLeft (queue_write_data c p mc) = dataCyclesLeft mc"
  by (simp_all add: queue_write_data_def is_write_def)

lemma mid_core:
  assumes m: "mid c now mc rks" and q: "cq_wf c cq" "queues cq = queues (commandQueue mc)"
  shows "core c now now (mc\<lparr>commandQueue := cq\<rparr>) rks"
proof -
  have "wline c now (bankStates mc) (writeDataCountdown mc) (mc_bus_of mc)" using m wline_mid_weaken by (simp add: mid_def)
  then show ?thesis using m q(1)
    by (simp add: mid_def core_def cmd_on_way_def mc_ok_def mc_bus_of_def read_ledger_def queue_reads_same [OF q(2)])
qed

lemma issue_command_ok:
  assumes cfg: "timing_cfg c" and m: "mid c now mc rks" and clk: "clocks c now mc rks"
  shows "okR (issue_command c mc) (\<lambda>mc'. core c now now mc' rks \<and> clocks c now mc' rks \<and> flow c mc [] mc')"
proof -
  let ?bs = "bankStates mc" let ?cq = "commandQueue mc"
  have wf: "cq_wf c ?cq" using m by (simp add: mid_def mc_ok_def)
  obtain res cq where pop: "pop c ?bs ?cq = Inr (res, cq)" "popped c ?bs ?cq (res, cq)"
    using pop_ok [OF wf, of ?bs] by (auto simp: okR_iff)
  have clock: "cq_clock cq = now" "cq_clock (tick_tFAW c ?cq) = now" "mc_clock mc = now"
    using pop(2) clk by (auto simp: popped_def clocks_def tick_tFAW_def)
  have wf': "cq_wf c cq" using pop(2) by (simp add: popped_def)
  show ?thesis
  proof (cases res)
    case None
    then have q: "queues cq = queues ?cq" using pop(2) by (simp add: popped_def)
    have "flow c mc [] (mc\<lparr>commandQueue := cq\<rparr>)" by (rule flow_same) (simp_all add: queue_reads_same [OF q])
    then show ?thesis using None pop(1) mid_core [OF m wf' q] clk clock by (simp add: issue_command_def clocks_def)
  next
    case (Some p)
    then have ok: "cmd_ok c ?bs (tick_tFAW c ?cq) p" and cols: "waiting_cols c ?cq = waiting_cols c cq + col_of p"
      using pop(2) by (auto simp: popped_def)
    have p: "rank p < NUM_RANKS c" "bank p < NUM_BANKS c" using ok by (auto simp: cmd_ok_def)
    have ag: "\<And>r. r < NUM_RANKS c \<Longrightarrow> rank_agrees c now (?bs r) (powerDown mc r) None (rks r)"
      using m by (simp add: mid_def agree_all_def cmd_for_def)
    obtain bs' where iss: "issue_states c now p ?bs = Inr bs'"
      "\<forall>r<NUM_RANKS c. rank_agrees c now (bs' r) (powerDown mc r) (if r = rank p then Some p else None) (rks r)"
      using rank_agrees_issue [OF cfg ok clock(2) ag] by (auto simp: okR_iff)
    have for_p: "cmd_for (Some p) r = (if r = rank p then Some p else None)" for r by (simp add: cmd_for_def)
    have op: "is_col p \<Longrightarrow> row_open (?bs (rank p) (bank p))"
      using col_open [OF _ ok clock(2)] ag [OF p(1)] by (auto simp: rank_agrees_def)
    have lines: "rank_line c now now (bs' r) (if r = rank p then Some p else None) (rks r)" if "r < NUM_RANKS c" for r
      using m that rline_issue [OF cfg _ _ ok clock(2) iss(1), of r "readReturnCountdown (rks r)" "rank_bus_of (rks r)"]
      by (simp add: mid_def lines_all_def rank_line_def cmd_for_def)
    have w: "wline c now bs' (if is_write p then writeDataCountdown mc @ [WL c] else writeDataCountdown mc) (mc_bus_of mc)"
      using wline_issue [OF cfg _ ok clock(2) op iss(1)] m by (simp add: mid_def)
    note Q = queue_reads_move [OF cols]
    define mc' where "mc' = (add_energy c p (queue_write_data c p (mc\<lparr>commandQueue := cq\<rparr>)))
        \<lparr>bankStates := bs', outgoingCmdPacket := Some p, cmdCyclesLeft := tCMD c\<rparr>"
    have "issue_command c mc = Inr mc'"
      using pop(1) Some iss(1) m clock by (simp add: issue_command_def mc'_def mid_def)
    moreover have "core c now now mc' rks"
      using iss(2) lines w m p wf' issue_busy [OF ok iss(1)] cfg Q
      by (auto simp: core_def mc'_def agree_all_def lines_all_def for_p mc_bus_of_def cmd_on_way_def timing_cfg_def mc_ok_def mid_def
          data_ok_def mkBusPacket_def read_ledger_def cmd_reads_def [of None] add_ac)
    moreover have "flow c mc [] mc'" using Q
      by (simp add: mc'_def flow_def reads_in_def writes_in_def reads_out_def writes_out_def cmd_writes_def mkBusPacket_def add_ac)
    ultimately show ?thesis using clk clock by (simp add: mc'_def clocks_def)
  qed
qed

section \<open>A transaction is scheduled\<close>

lemma request_packet:
  assumes ok: "dram_ok c" and t: "is_request t" and m: "m = place_of c t"
  obtains ty where "getBusPacketType c t = Inr ty" "ty \<in> cmd_types c"
    "is_read (mkBusPacket ty (daddress t) x y r b) \<longleftrightarrow> dtransactionType t = D_DATA_READ"
    "is_write (mkBusPacket ty (daddress t) x y r b) \<longleftrightarrow> dtransactionType t = D_DATA_WRITE"
    "is_col (mkBusPacket ty (daddress t) x y r b)"
  using t by (cases "rowBufferPolicy c")
    (auto simp: is_request_def cmd_types_def is_read_def is_write_def is_col_def mkBusPacket_def)

lemma place_in_range:
  assumes "dram_ok c"
  shows "m_rank (place_of c t) < NUM_RANKS c" "m_bank (place_of c t) < NUM_BANKS c"
  using mapping_place [OF dram_okD(3) [OF assms], of "of_nat (daddress t)"] assms
  by (auto simp: place_of_def place_ok_iff dram_ok_def)

lemma enqueue_two:
  assumes wf: "cq_wf c cq" and room: "hasRoomFor c 2 (rank p) (bank p) cq"
    and p: "packet_ok c (rank p) (queue_index c (bank p)) p" "packet_ok c (rank q) (queue_index c (bank q)) q"
    and same: "rank q = rank p" "bank q = bank p"
  shows "okR (enqueue c p cq) (\<lambda>cq1. okR (enqueue c q cq1) (\<lambda>cq2. cq_wf c cq2 \<and>
     waiting_cols c cq2 = waiting_cols c cq + col_of p + col_of q \<and> cq_clock cq2 = cq_clock cq))"
proof -
  have len: "length (getCommandQueue c (rank p) (bank p) cq) + 2 \<le> CMD_QUEUE_DEPTH c" using room hasRoomFor_iff [OF wf] by simp
  then obtain cq1 where e1: "enqueue c p cq = Inr cq1" "cq_wf c cq1" "waiting_cols c cq1 = waiting_cols c cq + col_of p"
    "cq_clock cq1 = cq_clock cq"
    "length (getCommandQueue c (rank p) (bank p) cq1) = length (getCommandQueue c (rank p) (bank p) cq) + 1"
    using enqueue_ok [OF wf p(1)] by (auto simp: okR_iff)
  then have "length (getCommandQueue c (rank q) (bank q) cq1) < CMD_QUEUE_DEPTH c" using len same by simp
  from enqueue_ok [OF e1(2) p(2) this] e1 show ?thesis by (auto simp: okR_iff)
qed

lemma reads_of_remove:
  assumes "i < length ts" "is_request (ts ! i)"
  shows "reads_of ts = reads_of (remove_nth i ts) + (if dtransactionType (ts ! i) = D_DATA_READ then {#daddress (ts ! i)#} else {#})"
    "writes_of ts = writes_of (remove_nth i ts) + (if dtransactionType (ts ! i) = D_DATA_WRITE then {#daddress (ts ! i)#} else {#})"
    "\<And>t. t \<in> set (remove_nth i ts) \<Longrightarrow> t \<in> set ts"
proof -
  have m: "mset ts = add_mset (ts ! i) (mset (remove_nth i ts))" using remove_nth_mset [OF assms(1)] .
  have f: "mset (map daddress (filter P xs)) = image_mset daddress (filter_mset P (mset xs))" for P and xs :: "dTransaction list" by simp
  show "reads_of ts = reads_of (remove_nth i ts) + (if dtransactionType (ts ! i) = D_DATA_READ then {#daddress (ts ! i)#} else {#})"
    "writes_of ts = writes_of (remove_nth i ts) + (if dtransactionType (ts ! i) = D_DATA_WRITE then {#daddress (ts ! i)#} else {#})"
    unfolding reads_of_def writes_of_def f m by simp_all
  show "\<And>t. t \<in> set (remove_nth i ts) \<Longrightarrow> t \<in> set ts" using remove_nth_facts(1) assms(1) by (auto simp: remove_nth_def dest: in_set_takeD in_set_dropD)
qed

lemma schedule_ok:
  assumes ok: "dram_ok c" and core: "core c now now mc rks" and clk: "clocks c t mc rks"
  shows "okR (schedule_transaction c mc) (\<lambda>mc'. core c now now mc' rks \<and> clocks c t mc' rks \<and> flow c mc [] mc')"
proof (cases "find (\<lambda>i. has_room c mc (transactionQueue mc ! i)) [0..<length (transactionQueue mc)]")
  case None
  then show ?thesis using core clk flow_same [of mc mc c] by (simp add: schedule_transaction_def)
next
  case (Some i)
  let ?ts = "transactionQueue mc" let ?cq = "commandQueue mc"
  define u where "u = ?ts ! i"
  define m where "m = place_of c u"
  define pk where "pk = (\<lambda>ty. mkBusPacket ty (daddress u) (m_col m) (m_row m) (m_rank m) (m_bank m))"
  have i: "i < length ?ts" "has_room c mc u" using find_index [OF Some] by (auto simp: u_def)
  have req: "is_request u" using core i by (auto simp: core_def mc_ok_def u_def)
  from request_packet [OF ok req m_def, of "m_col m" "m_row m" "m_rank m" "m_bank m"] obtain ty where
    ty: "getBusPacketType c u = Inr ty" "ty \<in> cmd_types c" "is_read (pk ty) \<longleftrightarrow> dtransactionType u = D_DATA_READ"
      "is_write (pk ty) \<longleftrightarrow> dtransactionType u = D_DATA_WRITE" "is_col (pk ty)" unfolding pk_def by blast
  have act: "ACTIVATE \<in> cmd_types c" by (simp add: cmd_types_def split: RowBufferPolicy.split)
  have wf: "cq_wf c ?cq" using core by (simp add: core_def mc_ok_def)
  have pko: "packet_ok c (rank (pk x)) (queue_index c (bank (pk x))) (pk x)" if "x \<in> cmd_types c" for x
    using place_in_range [OF ok, of u] that by (simp add: pk_def packet_ok_def mkBusPacket_def m_def)
  obtain cq1 cq2 where e: "enqueue c (pk ACTIVATE) ?cq = Inr cq1" "enqueue c (pk ty) cq1 = Inr cq2" "cq_wf c cq2"
    "waiting_cols c cq2 = waiting_cols c ?cq + col_of (pk ACTIVATE) + col_of (pk ty)" "cq_clock cq2 = cq_clock ?cq"
    using enqueue_two [OF wf _ pko [OF act] pko [OF ty(2)]] i(2)
    by (auto simp: okR_iff has_room_def pk_def mkBusPacket_def m_def)
  have "col_of (pk ACTIVATE) = {#}" by (simp add: col_of_def is_col_def pk_def mkBusPacket_def)
  then have cols: "waiting_cols c cq2 = waiting_cols c ?cq + col_of (pk ty)" using e(4) by simp
  note Q = queue_reads_move [OF cols]
  define mc' where "mc' = mc\<lparr>transactionQueue := remove_nth i ?ts, commandQueue := cq2,
     pendingReadTransactions := pendingReadTransactions mc @ (if dtransactionType u = D_DATA_READ then [u] else [])\<rparr>"
  have "schedule_transaction c mc = Inr mc'"
    using Some ty(1) e(1,2) by (simp add: schedule_transaction_def Let_def u_def [symmetric] m_def [symmetric] pk_def mc'_def)
  note R = reads_of_remove [OF i(1), folded u_def, OF req]
  have addr: "physicalAddress (pk ty) = daddress u" by (simp add: pk_def mkBusPacket_def)
  have "core c now now mc' rks" using core e(3) Q R(3) ty(3)
    by (auto simp: core_def mc'_def mc_ok_def read_ledger_def mc_bus_of_def cmd_reads_def [of "Some (pk ty)"] addr add_ac)
  moreover have "flow c mc [] mc'" using Q R(1,2) ty(4)
    by (simp add: flow_def reads_in_def writes_in_def reads_out_def writes_out_def mc'_def cmd_writes_def addr add_ac)
  ultimately show ?thesis using \<open>schedule_transaction c mc = Inr mc'\<close> clk e(5) by (simp add: clocks_def mc'_def)
qed

section \<open>Power\<close>

lemma rank_line_power [simp]: "rank_line c lt now s cmd (rk\<lparr>r_bankStates := k, isPowerDown := d\<rparr>) = rank_line c lt now s cmd rk"
  by (simp add: rank_line_def rank_bus_of_def rank_data_ok_def)

lemma rank_reads_power [simp]: "rank_reads (rk\<lparr>r_bankStates := k, isPowerDown := d\<rparr>) = rank_reads rk"
  by (simp add: rank_reads_def)

lemma rank_line_cong: "(\<And>b. b < NUM_BANKS c \<Longrightarrow> nextRead (s' b) = nextRead (s b)) \<Longrightarrow> rank_line c lt now s' cmd rk = rank_line c lt now s cmd rk"
  by (auto simp: rank_line_def rline_def)

text \<open>The rows of one rank are changed, without opening a row, and the rank itself with it.\<close>

lemma core_power:
  assumes core: "core c now now mc rks" and i: "i < NUM_RANKS c" and free: "cmd_for (outgoingCmdPacket mc) i = None"
    and f: "\<And>s. nextRead (f s) = nextRead s" "\<And>s. currentBankState (f s) \<noteq> RowActive"
    and rk: "rk = (rks i)\<lparr>r_bankStates := r_bankStates rk, isPowerDown := off\<rparr>"
    and ag: "rank_agrees c now (\<lambda>b. if b < NUM_BANKS c then f (bankStates mc i b) else bankStates mc i b) off None rk"
  shows "core c now now (set_banks c i f (mc\<lparr>powerDown := (powerDown mc)(i := off)\<rparr>)) (rks(i := rk))"
proof -
  let ?bs = "\<lambda>r j. if r = i \<and> j < NUM_BANKS c then f (bankStates mc r j) else bankStates mc r j"
  have line: "rank_line c now now (?bs r) (cmd_for (outgoingCmdPacket mc) r) ((rks(i := rk)) r)" if "r < NUM_RANKS c" for r
  proof -
    have "rank_line c now now (bankStates mc r) (cmd_for (outgoingCmdPacket mc) r) (rks r)"
      using core that by (simp add: core_def lines_all_def)
    then have "rank_line c now now (?bs r) (cmd_for (outgoingCmdPacket mc) r) (rks r)"
      using rank_line_cong [of c "?bs r" "bankStates mc r"] f(1) by simp
    then show ?thesis by (cases "r = i") (simp_all, subst rk, simp)
  qed
  have reads: "(\<Sum>r<NUM_RANKS c. rank_reads ((rks(i := rk)) r)) = (\<Sum>r<NUM_RANKS c. rank_reads (rks r))"
    by (intro sum.cong refl) (simp, subst rk, simp)
  have agree: "rank_agrees c now (?bs r) (((powerDown mc)(i := off)) r) (cmd_for (outgoingCmdPacket mc) r) ((rks(i := rk)) r)"
    if "r < NUM_RANKS c" for r
    using core that ag free by (cases "r = i") (auto simp: core_def agree_all_def)
  have "\<not> row_open (f s)" for s using f(2) by (simp add: row_open_def)
  then have w: "wline c now ?bs (writeDataCountdown mc) (mc_bus_of mc)"
    using core by (auto simp: core_def wline_def)
  have cmd: "cmd_on_way c ?bs (outgoingCmdPacket mc) (cmdCyclesLeft mc)"
    using core free by (auto simp: core_def cmd_on_way_def cmd_for_def split: if_splits)
  have eq: "set_banks c i f (mc\<lparr>powerDown := (powerDown mc)(i := off)\<rparr>) = mc\<lparr>powerDown := (powerDown mc)(i := off), bankStates := ?bs\<rparr>"
    by (simp add: set_banks_def cong: if_cong)
  show ?thesis unfolding eq core_def agree_all_def lines_all_def read_ledger_def using core line reads agree w cmd
    by (simp add: core_def mc_ok_def read_ledger_def mc_bus_of_def)
qed

lemma power_mode_ok:
  assumes core: "core c now now mc rks" and clk: "clocks c now mc rks" and i: "i < NUM_RANKS c"
  shows "okR (power_mode c i (mc, rks)) (\<lambda>(mc', rks'). core c now now mc' rks' \<and> clocks c now mc' rks' \<and> flow c mc [] mc')"
proof -
  have ag: "rank_agrees c now (bankStates mc i) (powerDown mc i) (cmd_for (outgoingCmdPacket mc) i) (rks i)"
    using core i by (simp add: core_def agree_all_def)
  have k: "r_clock (rks i) = now" "mc_clock mc = now" using clk i by (auto simp: clocks_def)
  have fl: "flow c mc [] (set_banks c i f (mc\<lparr>powerDown := d\<rparr>))" for f d by (rule flow_same) (simp_all add: set_banks_def)
  have cl: "clocks c now (set_banks c i f (mc\<lparr>powerDown := d\<rparr>)) (rks(i := rk))" if "r_clock rk = now" for f d rk
    using clk that by (auto simp: clocks_def set_banks_def)
  have stay: "core c now now mc rks \<and> clocks c now mc rks \<and> flow c mc [] mc" using core clk by (simp add: flow_same)
  show ?thesis
  proof (cases "USE_LOW_POWER c \<and> isEmpty c i (commandQueue mc) \<and> \<not> r_refreshWaiting (rks i) \<and> all_banks c Idle i mc")
    case True
    then have idle: "currentBankState (bankStates mc i b) = Idle" if "b < NUM_BANKS c" for b
      using that by (simp add: all_banks_def)
    have free: "cmd_for (outgoingCmdPacket mc) i = None"
      using core idle by (auto simp: core_def cmd_on_way_def cmd_for_def split: option.splits)
    obtain rk where rk: "rank_powerDown c (rks i) = Inr rk"
      "rank_agrees c now (\<lambda>b. if b < NUM_BANKS c then (bankStates mc i b)\<lparr>currentBankState := PowerDown, nextPowerUp := now + tCKE c\<rparr>
         else bankStates mc i b) True None rk" "rk = (rks i)\<lparr>r_bankStates := r_bankStates rk, isPowerDown := True\<rparr>"
      using rank_agrees_down [OF ag idle free k(1)] by (auto simp: okR_iff)
    have "r_clock rk = now" by (subst rk(3)) (simp add: k)
    then show ?thesis using True rk(1) core_power [OF core i free _ _ rk(3,2)] fl cl k by (simp add: power_mode_def)
  next
    case no_down: False
    show ?thesis
    proof (cases "USE_LOW_POWER c \<and> \<not> (isEmpty c i (commandQueue mc) \<and> \<not> r_refreshWaiting (rks i)) \<and>
        nextPowerUp (bankStates mc i 0) \<le> now \<and> powerDown mc i")
      case True
      then have free: "cmd_for (outgoingCmdPacket mc) i = None" using ag by (auto simp: rank_agrees_def split: option.splits)
      obtain rk where rk: "rank_powerUp c (rks i) = Inr rk"
        "rank_agrees c now (\<lambda>b. if b < NUM_BANKS c then (bankStates mc i b)\<lparr>currentBankState := Idle, nextActivate := now + tXP c\<rparr>
           else bankStates mc i b) False None rk" "rk = (rks i)\<lparr>r_bankStates := r_bankStates rk, isPowerDown := False\<rparr>"
        using rank_agrees_up [of c now "bankStates mc i" "rks i"] ag free True k(1) by (auto simp: okR_iff)
      have "r_clock rk = now" by (subst rk(3)) (simp add: k)
      then show ?thesis using True rk(1) core_power [OF core i free _ _ rk(3,2)] fl cl k by (auto simp: power_mode_def)
    next
      case False
      then show ?thesis using no_down stay k by (auto simp: power_mode_def)
    qed
  qed
qed

lemma background_ok:
  "core c now now (background_energy c i mc) rks = core c now now mc rks"
  "clocks c t (background_energy c i mc) rks = clocks c t mc rks" "flow c mc0 out (background_energy c i mc) = flow c mc0 out mc"
  "flow c (background_energy c i mc) out mc0 = flow c mc out mc0"
  by (simp_all add: background_energy_def Let_def core_def mc_ok_def mc_bus_of_def clocks_def flow_def reads_in_def writes_in_def)

lemma update_power_ok:
  "core c now now mc rks \<Longrightarrow> clocks c now mc rks \<Longrightarrow> \<forall>i \<in> set is. i < NUM_RANKS c \<Longrightarrow>
   okR (update_power c is (mc, rks)) (\<lambda>(mc', rks'). core c now now mc' rks' \<and> clocks c now mc' rks' \<and> flow c mc [] mc')"
proof (induction "is" arbitrary: mc rks)
  case (Cons i "is")
  obtain mc1 rks1 where p: "power_mode c i (mc, rks) = Inr (mc1, rks1)" "core c now now mc1 rks1" "clocks c now mc1 rks1" "flow c mc [] mc1"
    using power_mode_ok [OF Cons.prems(1,2), of i] Cons.prems(3) by (auto simp: okR_iff)
  have "okR (update_power c is (background_energy c i mc1, rks1)) (\<lambda>(mc', rks'). core c now now mc' rks' \<and> clocks c now mc' rks' \<and> flow c mc1 [] mc')"
    using Cons.IH [of "background_energy c i mc1" rks1] p(2,3) Cons.prems(3) by (simp add: background_ok)
  then show ?case using p(1,4) flow_trans [of c mc "[]" mc1 "[]"] by (auto simp: okR_iff)
qed (simp add: flow_same)

section \<open>Data returns\<close>

lemma return_data_ok:
  assumes core: "core c now now mc rks" and clk: "clocks c t mc rks"
  shows "okR (return_data c mc) (\<lambda>(mc', out). core c now now mc' rks \<and> clocks c t mc' rks \<and> flow c mc out mc')"
proof (cases "returnTransaction mc")
  case Nil
  then show ?thesis using core clk by (simp add: return_data_def flow_same)
next
  case (Cons u us)
  let ?pend = "pendingReadTransactions mc"
  let ?P = "\<lambda>i. daddress (?pend ! i) = daddress u"
  have ledger: "mset (map daddress ?pend) =
      queue_reads c (commandQueue mc) + cmd_reads (outgoingCmdPacket mc) + (\<Sum>r<NUM_RANKS c. rank_reads (rks r)) +
      mset (map daddress us) + {#daddress u#}"
    using core Cons by (simp add: core_def read_ledger_def)
  then have "daddress u \<in># mset (map daddress ?pend)" by simp
  then have "daddress u \<in> set (map daddress ?pend)" by (simp only: set_mset_mset)
  then obtain j where "j < length ?pend" "?P j" by (auto simp: in_set_conv_nth)
  then have "find ?P [0..<length ?pend] \<noteq> None" by (auto simp: find_None_iff)
  then obtain i where i: "find ?P [0..<length ?pend] = Some i" by blast
  then have il: "i < length ?pend" "?P i" using find_index by auto
  have rm: "mset (map daddress ?pend) = mset (map daddress (remove_nth i ?pend)) + {#daddress u#}"
    using remove_nth_mset [OF il(1)] il(2) by (metis add_mset_add_single image_mset_add_mset mset_map)
  define l where "l = u32 (u64_sub (mc_clock mc) (timeAdded (?pend ! i)))"
  define mc' where "mc' = (insertHistogram c l (m_rank (place_of c u)) (m_bank (place_of c u))
      (mc\<lparr>totalTransactions := u64 (totalTransactions mc + 1)\<rparr>))\<lparr>pendingReadTransactions := remove_nth i ?pend, returnTransaction := us\<rparr>"
  have "return_data c mc = Inr (mc', [Read_Returned (daddress (?pend ! i)) (mc_clock mc)])"
    using Cons i by (simp add: return_data_def mc'_def l_def Let_def)
  moreover have "core c now now mc' rks" using core ledger rm
    by (simp add: core_def mc'_def insertHistogram_def mc_ok_def mc_bus_of_def read_ledger_def)
  moreover have "flow c mc [Read_Returned (daddress (?pend ! i)) (mc_clock mc)] mc'" using rm il(2)
    by (simp add: flow_def reads_in_def writes_in_def reads_out_def writes_out_def mc'_def insertHistogram_def)
  ultimately show ?thesis using clk by (simp add: mc'_def insertHistogram_def clocks_def)
qed

section \<open>A cycle\<close>

lemma core_clock [simp]: "core c lt now (mc\<lparr>mc_clock := t\<rparr>) rks = core c lt now mc rks"
  by (simp add: core_def mc_ok_def mc_bus_of_def)

lemma count_refresh_ok:
  assumes "core c now now mc rks"
  shows "core c now now (count_refresh c mc) rks" "flow c mc [] (count_refresh c mc)"
    "cq_clock (commandQueue (count_refresh c mc)) = cq_clock (commandQueue mc) + 1" "mc_clock (count_refresh c mc) = mc_clock mc"
  using assms queue_reads_same [of "(commandQueue mc)\<lparr>cq_clock := cq_clock (commandQueue mc) + 1\<rparr>" "commandQueue mc" c]
  by (simp_all add: count_refresh_def core_def mc_ok_def mc_bus_of_def read_ledger_def flow_same)

text \<open>The second half of \<open>update\<close>: from the refresh request on.\<close>

lemma second_half_ok:
  assumes ok: "dram_ok c" and m: "mid c t mc rks" and clk: "clocks c t mc rks"
    and r: "request_refresh c (mc, rks) = (mc4, rks4)"
  shows "okR (issue_command c mc4) (\<lambda>mc5. okR (schedule_transaction c mc5) (\<lambda>mc6.
     okR (update_power c [0..<NUM_RANKS c] (mc6, rks4)) (\<lambda>(mc7, rks7). okR (return_data c mc7) (\<lambda>(mc8, out).
       core c t t mc8 rks7 \<and> clocks c t mc8 rks7 \<and> flow c mc out mc8))))"
proof -
  note R = request_refresh_ok [OF m clk r]
  obtain mc5 where s5: "issue_command c mc4 = Inr mc5" "core c t t mc5 rks4" "clocks c t mc5 rks4" "flow c mc4 [] mc5"
    using issue_command_ok [OF dram_okD(2) [OF ok] R(1,2)] by (auto simp: okR_iff)
  obtain mc6 where s6: "schedule_transaction c mc5 = Inr mc6" "core c t t mc6 rks4" "clocks c t mc6 rks4" "flow c mc5 [] mc6"
    using schedule_ok [OF ok s5(2,3)] by (auto simp: okR_iff)
  obtain mc7 rks7 where s7: "update_power c [0..<NUM_RANKS c] (mc6, rks4) = Inr (mc7, rks7)" "core c t t mc7 rks7" "clocks c t mc7 rks7"
    "flow c mc6 [] mc7"
    using update_power_ok [OF s6(2,3), of "[0..<NUM_RANKS c]"] by (auto simp: okR_iff)
  obtain mc8 out where s8: "return_data c mc7 = Inr (mc8, out)" "core c t t mc8 rks7" "clocks c t mc8 rks7" "flow c mc7 out mc8"
    using return_data_ok [OF s7(2,3)] by (auto simp: okR_iff)
  have "flow c mc ([] @ [] @ [] @ [] @ out) mc8" using R(3) s5(4) s6(4) s7(4) s8(4) by (intro flow_trans) auto
  then show ?thesis using s5(1) s6(1) s7(1) s8 by simp
qed

text \<open>Before \<open>update\<close>: a controller that has not run yet, or one between two cycles whose ranks were updated.\<close>

definition fresh :: "dram_cfg \<Rightarrow> MemoryController \<Rightarrow> rank_table \<Rightarrow> bool" where
  "fresh c mc rks \<longleftrightarrow> (\<exists>ts. mc = (newMemoryController c)\<lparr>transactionQueue := ts\<rparr> \<and> (\<forall>t \<in> set ts. is_request t)) \<and> rks = (\<lambda>r. newRank)"

definition mc_ready :: "dram_cfg \<Rightarrow> nat \<Rightarrow> MemoryController \<Rightarrow> rank_table \<Rightarrow> bool" where
  "mc_ready c t mc rks \<longleftrightarrow> (case t of 0 \<Rightarrow> fresh c mc rks | Suc now \<Rightarrow> core c (now + 1) now mc rks)"

definition half_post :: "dram_cfg \<Rightarrow> nat \<Rightarrow> MemoryController \<Rightarrow> MemoryController \<times> rank_table \<Rightarrow> bool" where
  "half_post c t mc st1 \<longleftrightarrow> okR (deliver_data c st1) (\<lambda>((mc2, rks2), out). okR (send_write_data c mc2) (\<lambda>mc3.
     mid c t mc3 rks2 \<and> clocks c t mc3 rks2 \<and> flow c mc out mc3))"

lemma new_state_tick: "tick_table c (\<lambda>r b. newBankState) = (\<lambda>r b. newBankState)"
  by (simp add: tick_table_def tick_state_def newBankState_def fun_eq_iff)

lemma fresh_mid:
  assumes ok: "dram_ok c" and f: "fresh c mc rks"
  shows "mid c 0 mc rks"
proof -
  have "queue_cfg c" using ok by (simp add: dram_ok_def)
  moreover have "waiting_cols c newCommandQueue = {#}" by (simp add: waiting_cols_def newCommandQueue_def cols_def)
  moreover have "\<not> row_open newBankState" by (simp add: row_open_def newBankState_def)
  moreover have "rank_agrees c 0 (\<lambda>b. newBankState) False None newRank"
    using agree_new [of c] by (simp add: rank_agrees_def newRank_def) (simp add: newBankState_def)
  moreover have "rank_line c 0 0 (\<lambda>b. newBankState) None newRank"
    by (simp add: rank_line_def rank_data_ok_def newRank_def rline_def line_ok_def rank_bus_of_def rline_end_def reads_cmd_def line_end_def)
  moreover have "rank_reads newRank = {#}" by (simp add: rank_reads_def newRank_def addr_of_def)
  moreover have "0 < WL c + burst c" using burst_cfg [OF dram_okD(2) [OF ok]] by simp
  ultimately show ?thesis using f new_queue_wf [of c]
    by (auto simp: fresh_def mid_def newMemoryController_def agree_all_def lines_all_def cmd_for_def wline_mid_def line_ok_def line_end_def
        mc_bus_of_def mc_ok_def read_ledger_def queue_reads_def cmd_reads_def queue_cfg_def rank_bus_of_def newRank_def)
qed

lemma first_half_ok:
  assumes ok: "dram_ok c" and r: "mc_ready c t mc rks" and clk: "clocks c t mc rks"
  shows "okR (deliver_cmd c (update_bank_states c mc, rks)) (half_post c t mc)"
proof (cases t)
  case 0
  then have f: "fresh c mc rks" using r by (simp add: mc_ready_def)
  then obtain ts where mc: "mc = (newMemoryController c)\<lparr>transactionQueue := ts\<rparr>" by (auto simp: fresh_def)
  have bs: "bankStates mc = (\<lambda>r b. newBankState)" by (simp add: mc newMemoryController_def)
  have "update_bank_states c mc = mc\<lparr>bankStates := tick_table c (bankStates mc)\<rparr>"
    unfolding update_bank_states_def tick_table_def by simp
  then have "update_bank_states c mc = mc" unfolding bs new_state_tick using bs by simp
  then show ?thesis using fresh_mid [OF ok f] clk 0
    by (simp add: deliver_cmd_def half_post_def mc newMemoryController_def deliver_data_def send_write_data_def flow_same)
next
  case (Suc now)
  then have core: "core c (now + 1) now mc rks" and clk1: "clocks c (now + 1) mc rks" using r clk by (simp_all add: mc_ready_def)
  note cfg = dram_okD(2) [OF ok]
  obtain mc1 rks1 where d: "deliver_cmd c (update_bank_states c mc, rks) = Inr (mc1, rks1)" "delivered c (now + 1) mc mc1 rks1"
    using deliver_cmd_ok [OF cfg core clk1] by (auto simp: okR_iff)
  then obtain left where mc1: "mc1 = mc\<lparr>bankStates := tick_table c (bankStates mc), cmdCyclesLeft := left, outgoingCmdPacket := None\<rparr>"
    by (auto simp: delivered_def)
  have w: "wline c now (bankStates mc) (writeDataCountdown mc1) (mc_bus_of mc1)" and ok1: "mc_ok c mc1"
    using core by (simp_all add: mc1 core_def mc_bus_of_def mc_ok_def)
  have fl: "flow c mc [] mc1" by (rule flow_same) (simp_all add: mc1)
  have bs: "bankStates mc1 = tick_table c (bankStates mc)" by (simp add: mc1)
  obtain mc2 out mc3 where s: "deliver_data c (mc1, rks1) = Inr ((mc2, rks1), out)" "send_write_data c mc2 = Inr mc3"
    "same_but_data mc1 mc3" "mc_ok c mc3" "flow c mc1 out mc3"
    "wline_mid c (now + 1) (bankStates mc3) (writeDataCountdown mc3) (mc_bus_of mc3)"
    using write_path_ok [OF cfg ok1 w bs, of rks1] by (auto simp: okR_iff)
  have "mid c (now + 1) mc3 rks1" using d(2) s(3,4,6)
    by (simp add: mid_def delivered_def same_but_data_def line_bound_def mc1)
  moreover have "clocks c (now + 1) mc3 rks1" using clk1 d(2) s(3) by (simp add: clocks_def delivered_def same_but_data_def mc1)
  moreover have "flow c mc out mc3" using flow_trans [OF fl s(5)] by simp
  ultimately show ?thesis using d(1) s(1,2) Suc by (simp add: half_post_def)
qed

lemma mc_update_ok:
  assumes ok: "dram_ok c" and r: "mc_ready c t mc rks" and clk: "clocks c t mc rks"
  shows "okR (mc_update c (mc, rks)) (\<lambda>((mc', rks'), out). core c t t mc' rks' \<and> flow c mc out mc' \<and>
     mc_clock mc' = t \<and> cq_clock (commandQueue mc') = t + 1 \<and> (\<forall>r<NUM_RANKS c. r_clock (rks' r) = t))"
proof -
  obtain st1 where s1: "deliver_cmd c (update_bank_states c mc, rks) = Inr st1" "half_post c t mc st1"
    using first_half_ok [OF assms] by (auto simp: okR_iff)
  then obtain mc2 rks2 out1 mc3 where s2: "deliver_data c st1 = Inr ((mc2, rks2), out1)" "send_write_data c mc2 = Inr mc3"
    "mid c t mc3 rks2" "clocks c t mc3 rks2" "flow c mc out1 mc3"
    by (auto simp: half_post_def okR_iff)
  obtain mc4 rks4 where r4: "request_refresh c (mc3, rks2) = (mc4, rks4)" by fastforce
  obtain mc5 mc6 mc7 rks7 mc8 out2 where s: "issue_command c mc4 = Inr mc5" "schedule_transaction c mc5 = Inr mc6"
    "update_power c [0..<NUM_RANKS c] (mc6, rks4) = Inr (mc7, rks7)" "return_data c mc7 = Inr (mc8, out2)"
    "core c t t mc8 rks7" "clocks c t mc8 rks7" "flow c mc3 out2 mc8"
    using second_half_ok [OF ok s2(3,4) r4] by (auto simp: okR_iff)
  note C = count_refresh_ok [OF s(5)]
  have "flow c mc (out1 @ out2) (count_refresh c mc8)"
    using flow_trans [OF flow_trans [OF s2(5) s(7)] C(2)] by simp
  moreover have "mc_update c (mc, rks) = Inr ((count_refresh c mc8, rks7), out1 @ out2)"
    using s1(1) s2(1,2) r4 s(1-4) by (simp add: mc_update_def)
  ultimately show ?thesis using C s(6) by (simp add: clocks_def)
qed

end
