(* ===== verification/Dram_Channel.thy ===== *)
theory Dram_Channel
  imports Dram_Safety
begin

text \<open>
  A channel of DRAMSim2 in use: requests come in at any time and \<open>update\<close> is called cycle by
  cycle. Shown: \<open>update\<close> never reports an error, and every read and every write that was
  accepted is answered exactly once or still owed.
\<close>

section \<open>What a channel keeps\<close>

definition ms_inv :: "dram_cfg \<Rightarrow> MemorySystem \<Rightarrow> bool" where
  "ms_inv c ms \<longleftrightarrow> (\<forall>t \<in> set (pendingTransactions ms). is_request t) \<and>
     clocks c (ms_clock ms) (memoryController ms) (ranks ms) \<and>
     (case ms_clock ms of 0 \<Rightarrow> fresh c (memoryController ms) (ranks ms)
      | Suc now \<Rightarrow> core c now now (memoryController ms) (ranks ms))"

definition owed_reads :: "MemorySystem \<Rightarrow> nat multiset" where
  "owed_reads ms = reads_of (pendingTransactions ms) + reads_in (memoryController ms)"

definition owed_writes :: "dram_cfg \<Rightarrow> MemorySystem \<Rightarrow> nat multiset" where
  "owed_writes c ms = writes_of (pendingTransactions ms) + writes_in c (memoryController ms)"

lemma ms_inv_new: "ms_inv c (newMemorySystem c)"
  by (auto simp: ms_inv_def newMemorySystem_def fresh_def clocks_def newMemoryController_def newCommandQueue_def newRank_def)

lemma owed_new: "owed_reads (newMemorySystem c) = {#}" "owed_writes c (newMemorySystem c) = {#}"
  by (simp_all add: owed_reads_def owed_writes_def newMemorySystem_def newMemoryController_def newCommandQueue_def reads_of_def
      writes_of_def reads_in_def writes_in_def queue_writes_def waiting_cols_def cols_def addr_of_def)

section \<open>Requests\<close>

text \<open>A new transaction changes the transaction queue only.\<close>

lemma core_queue:
  assumes "core c lt now mc rks" "\<forall>t \<in> set ts. is_request t"
  shows "core c lt now (mc\<lparr>transactionQueue := ts\<rparr>) rks"
  using assms by (simp add: core_def mc_ok_def mc_bus_of_def)

lemma fresh_queue:
  assumes "fresh c mc rks" "\<forall>t \<in> set ts. is_request t"
  shows "fresh c (mc\<lparr>transactionQueue := ts\<rparr>) rks"
  using assms unfolding fresh_def by auto

lemma core_requests: "core c lt now mc rks \<Longrightarrow> t \<in> set (transactionQueue mc) \<Longrightarrow> is_request t"
  by (simp add: core_def mc_ok_def)

lemma fresh_requests: "fresh c mc rks \<Longrightarrow> t \<in> set (transactionQueue mc) \<Longrightarrow> is_request t"
  by (auto simp: fresh_def)

lemma is_request_time [simp]: "is_request (t\<lparr>timeAdded := n\<rparr>) = is_request t"
  by (simp add: is_request_def)

lemma reads_of_append [simp]: "reads_of (ts @ us) = reads_of ts + reads_of us" "writes_of (ts @ us) = writes_of ts + writes_of us"
  by (simp_all add: reads_of_def writes_of_def)

lemma reads_of_time [simp]: "reads_of [t\<lparr>timeAdded := n\<rparr>] = reads_of [t]" "writes_of [t\<lparr>timeAdded := n\<rparr>] = writes_of [t]"
  by (simp_all add: reads_of_def writes_of_def)

lemma ms_add_ok:
  assumes inv: "ms_inv c ms" and add: "ms_addTransaction c isWrite a ms = (ok, ms')"
  shows "ok" "ms_inv c ms'" "owed_reads ms' = owed_reads ms + (if isWrite then {#} else {#a#})"
    "owed_writes c ms' = owed_writes c ms + (if isWrite then {#a#} else {#})"
proof -
  define t where "t = mkdTransaction (if isWrite then D_DATA_WRITE else D_DATA_READ) a"
  have t: "is_request t" "reads_of [t] = (if isWrite then {#} else {#a#})" "writes_of [t] = (if isWrite then {#a#} else {#})"
    by (simp_all add: t_def mkdTransaction_def is_request_def reads_of_def writes_of_def)
  let ?mc = "memoryController ms"
  let ?ts = "transactionQueue ?mc @ [t\<lparr>timeAdded := mc_clock ?mc\<rparr>]"
  have e: "ok \<and> (ms' = ms\<lparr>memoryController := ?mc\<lparr>transactionQueue := ?ts\<rparr>\<rparr> \<or> ms' = ms\<lparr>pendingTransactions := pendingTransactions ms @ [t]\<rparr>)"
    using add by (auto simp: ms_addTransaction_def mc_addTransaction_def Let_def t_def split: if_splits)
  then show ok by blast
  have "clocks c k (?mc\<lparr>transactionQueue := ?ts\<rparr>) (ranks ms) = clocks c k ?mc (ranks ms)" for k
    by (simp add: clocks_def)
  moreover have "case ms_clock ms of 0 \<Rightarrow> fresh c (?mc\<lparr>transactionQueue := ?ts\<rparr>) (ranks ms) | Suc now \<Rightarrow> core c now now (?mc\<lparr>transactionQueue := ?ts\<rparr>) (ranks ms)"
    using inv t(1) core_requests [of c _ _ ?mc "ranks ms"] fresh_requests [of c ?mc "ranks ms"]
    by (auto simp: ms_inv_def split: nat.splits intro!: core_queue fresh_queue)
  ultimately show "ms_inv c ms'" using e inv t(1) by (auto simp: ms_inv_def split: nat.splits)
  show "owed_reads ms' = owed_reads ms + (if isWrite then {#} else {#a#})"
    "owed_writes c ms' = owed_writes c ms + (if isWrite then {#a#} else {#})"
    using e t(2,3) by (auto simp: owed_reads_def owed_writes_def reads_in_def writes_in_def)
qed

section \<open>A cycle\<close>

lemma core_ranks:
  assumes core: "core c now now mc rks" and p: "ranks_post c now [0..<NUM_RANKS c] mc rks mc' rks'"
  shows "core c (now + 1) now mc' rks'" "flow c mc [] mc'" "clocks c t mc rks \<Longrightarrow> clocks c t mc' rks'"
proof -
  obtain ret tot where mc': "mc' = mc\<lparr>returnTransaction := ret, totalReadsPerBank := tot\<rparr>" using p by (auto simp: ranks_post_def)
  have same: "rank_same (rks r) (rks' r)" for r using p by (simp add: ranks_post_def)
  have "rank_agrees c now s off cmd (rks' r) = rank_agrees c now s off cmd (rks r)" for s off cmd r
    using same [of r] by (intro rank_agrees_same) (simp_all add: rank_same_def)
  then have "agree_all c now (bankStates mc) (powerDown mc) (outgoingCmdPacket mc) rks'"
    using core by (simp add: core_def agree_all_def)
  moreover have "lines_all c (now + 1) now (bankStates mc) (outgoingCmdPacket mc) rks'"
    using core p by (auto simp: core_def lines_all_def ranks_post_def line_end_def)
  moreover have "read_ledger c (commandQueue mc) (outgoingCmdPacket mc) rks' ret (pendingReadTransactions mc)"
    using core p by (simp add: core_def read_ledger_def ranks_post_def mc' ac_simps)
  ultimately show "core c (now + 1) now mc' rks'" using core by (simp add: mc' core_def mc_ok_def mc_bus_of_def)
  show "flow c mc [] mc'" by (rule flow_same) (simp_all add: mc')
  show "clocks c t mc rks \<Longrightarrow> clocks c t mc' rks'" using same by (simp add: clocks_def mc' rank_same_def)
qed

lemma ms_first_ok:
  assumes ok: "dram_ok c" and inv: "ms_inv c ms"
  shows "okR (update_ranks c [0..<NUM_RANKS c] (memoryController ms, ranks ms)) (\<lambda>(mc, rks).
     mc_ready c (ms_clock ms) mc rks \<and> clocks c (ms_clock ms) mc rks \<and> flow c (memoryController ms) [] mc)"
proof (cases "ms_clock ms")
  case 0
  then obtain ts where f: "memoryController ms = (newMemoryController c)\<lparr>transactionQueue := ts\<rparr>" "ranks ms = (\<lambda>r. newRank)"
    using inv by (auto simp: ms_inv_def fresh_def)
  have u: "rank_update c newRank = (newRank, None)"
    by (simp add: rank_update_def rank_bus_def rank_return_def newRank_def)
  have "update_ranks c rs (mc, \<lambda>r. newRank) = Inr (mc, \<lambda>r. newRank)" for rs mc
    by (induction rs) (simp_all add: u fun_upd_def)
  then show ?thesis using inv 0 f by (simp add: mc_ready_def ms_inv_def flow_same)
next
  case (Suc now)
  then have core: "core c now now (memoryController ms) (ranks ms)" using inv by (simp add: ms_inv_def)
  have "okR (update_ranks c [0..<NUM_RANKS c] (memoryController ms, ranks ms))
      (\<lambda>(mc', rks'). ranks_post c now [0..<NUM_RANKS c] (memoryController ms) (ranks ms) mc' rks')"
    by (rule update_ranks_ok [OF dram_okD(2) [OF ok]]) (use core in \<open>auto simp: core_def lines_all_def\<close>)
  then show ?thesis using core_ranks [OF core] inv Suc by (auto simp: okR_iff mc_ready_def ms_inv_def)
qed

lemma take_pending_ok:
  assumes "mc_ready c t mc rks" "\<forall>u \<in> set pend. is_request u" "take_pending c mc pend = (mc', pend')"
  shows "mc_ready c t mc' rks" "\<forall>u \<in> set pend'. is_request u" "clocks c t mc' rks = clocks c t mc rks"
    "reads_of pend + reads_in mc = reads_of pend' + reads_in mc'" "writes_of pend + writes_in c mc = writes_of pend' + writes_in c mc'"
proof -
  have "mc_ready c t (mc\<lparr>transactionQueue := transactionQueue mc @ [u\<lparr>timeAdded := n\<rparr>]\<rparr>) rks" if "is_request u" for u n
    using assms(1) that core_requests [of c _ _ mc rks] fresh_requests [of c mc rks]
    by (auto simp: mc_ready_def split: nat.splits intro!: core_queue fresh_queue)
  then show "mc_ready c t mc' rks" "\<forall>u \<in> set pend'. is_request u" "clocks c t mc' rks = clocks c t mc rks"
    using assms by (cases pend; auto simp: take_pending_def mc_addTransaction_def clocks_def split: if_splits)+
  have one: "reads_of (u # us) = reads_of us + reads_of [u\<lparr>timeAdded := n\<rparr>]" "writes_of (u # us) = writes_of us + writes_of [u\<lparr>timeAdded := n\<rparr>]" for u us n
    by (simp_all add: reads_of_def writes_of_def)
  have "reads_of pend + reads_in mc = reads_of pend' + reads_in mc' \<and> writes_of pend + writes_in c mc = writes_of pend' + writes_in c mc'"
  proof (cases "pend \<noteq> [] \<and> mc_WillAcceptTransaction c mc")
    case True
    then obtain u us where pend: "pend = u # us" by (cases pend) auto
    have "mc' = mc\<lparr>transactionQueue := transactionQueue mc @ [u\<lparr>timeAdded := mc_clock mc\<rparr>]\<rparr>" "pend' = us"
      using assms(3) True by (simp_all add: take_pending_def mc_addTransaction_def pend)
    then show ?thesis
      unfolding pend one [of u us "mc_clock mc"] by (simp_all add: reads_in_def writes_in_def add_ac del: reads_of_time)
  qed (use assms(3) in \<open>auto simp: take_pending_def\<close>)
  then show "reads_of pend + reads_in mc = reads_of pend' + reads_in mc'" "writes_of pend + writes_in c mc = writes_of pend' + writes_in c mc'"
    by blast+
qed

lemma core_step:
  assumes "core c now now mc rks"
  shows "core c now now mc (\<lambda>i. if i < NUM_RANKS c then rank_step (rks i) else rks i)"
proof -
  have "rank_agrees c now s off cmd (rank_step rk) = rank_agrees c now s off cmd rk" for s off cmd rk
    by (rule rank_agrees_same) (simp_all add: rank_step_def)
  moreover have "rank_line c now now s cmd (rank_step rk) = rank_line c now now s cmd rk" "rank_reads (rank_step rk) = rank_reads rk" for s cmd rk
    by (simp_all add: rank_line_def rank_step_def rank_bus_of_def rank_data_ok_def rank_reads_def)
  ultimately show ?thesis using assms by (simp add: core_def agree_all_def lines_all_def read_ledger_def)
qed

definition cycle_post :: "dram_cfg \<Rightarrow> MemorySystem \<Rightarrow> MemorySystem \<Rightarrow> dcallback list \<Rightarrow> bool" where
  "cycle_post c ms ms' out \<longleftrightarrow> ms_inv c ms' \<and> ms_clock ms' = ms_clock ms + 1 \<and>
     owed_reads ms = owed_reads ms' + reads_out out \<and> owed_writes c ms = owed_writes c ms' + writes_out out"

lemma ms_update_ok:
  assumes ok: "dram_ok c" and inv: "ms_inv c ms"
  shows "okR (ms_update c ms) (\<lambda>(ms', out). cycle_post c ms ms' out)"
proof -
  let ?t = "ms_clock ms"
  obtain mc1 rks1 where s1: "update_ranks c [0..<NUM_RANKS c] (memoryController ms, ranks ms) = Inr (mc1, rks1)"
    "mc_ready c ?t mc1 rks1" "clocks c ?t mc1 rks1" "flow c (memoryController ms) [] mc1"
    using ms_first_ok [OF assms] by (auto simp: okR_iff)
  obtain mc2 pend where tp: "take_pending c mc1 (pendingTransactions ms) = (mc2, pend)" by fastforce
  have req: "\<forall>u \<in> set (pendingTransactions ms). is_request u" using inv by (simp add: ms_inv_def)
  note T = take_pending_ok [OF s1(2) req tp]
  obtain mc3 rks3 out where s3: "mc_update c (mc2, rks1) = Inr ((mc3, rks3), out)" "core c ?t ?t mc3 rks3" "flow c mc2 out mc3"
    "mc_clock mc3 = ?t" "cq_clock (commandQueue mc3) = ?t + 1" "\<forall>r<NUM_RANKS c. r_clock (rks3 r) = ?t"
    using mc_update_ok [OF ok T(1)] T(3) s1(3) by (auto simp: okR_iff)
  define ms' where "ms' = \<lparr>memoryController = mc3\<lparr>mc_clock := mc_clock mc3 + 1\<rparr>,
    ranks = (\<lambda>i. if i < NUM_RANKS c then rank_step (rks3 i) else rks3 i), pendingTransactions = pend, ms_clock = ?t + 1\<rparr>"
  have "ms_update c ms = Inr (ms', out)" using s1(1) tp s3(1) by (simp add: ms_update_def ms'_def)
  moreover have "ms_inv c ms'" using s3 core_step [OF s3(2)] T(2)
    by (simp add: ms_inv_def ms'_def clocks_def rank_step_def)
  moreover have "owed_reads ms = owed_reads ms' + reads_out out" "owed_writes c ms = owed_writes c ms' + writes_out out"
    using s1(4) T(4,5) s3(3) by (simp_all add: owed_reads_def owed_writes_def ms'_def flow_def reads_out_def writes_out_def reads_in_def writes_in_def add_ac)
  ultimately show ?thesis by (simp add: cycle_post_def ms'_def)
qed

section \<open>Runs\<close>

text \<open>
  A channel after any sequence of requests and cycles, with the addresses of the reads and
  the writes that were submitted, and the callbacks made so far.
\<close>

inductive channel_run :: "dram_cfg \<Rightarrow> MemorySystem \<Rightarrow> nat multiset \<Rightarrow> nat multiset \<Rightarrow> dcallback list \<Rightarrow> bool" for c where
  start: "channel_run c (newMemorySystem c) {#} {#} []"
| submit: "channel_run c ms rs ws out \<Longrightarrow> ms_addTransaction c isWrite a ms = (ok, ms') \<Longrightarrow>
     channel_run c ms' (if isWrite then rs else rs + {#a#}) (if isWrite then ws + {#a#} else ws) out"
| tick: "channel_run c ms rs ws out \<Longrightarrow> ms_update c ms = Inr (ms', out') \<Longrightarrow> channel_run c ms' rs ws (out @ out')"

lemma out_append [simp]: "reads_out (xs @ ys) = reads_out xs + reads_out ys" "writes_out (xs @ ys) = writes_out xs + writes_out ys"
  by (simp_all add: reads_out_def writes_out_def)

lemma channel_run_ok:
  assumes "channel_run c ms rs ws out" "dram_ok c"
  shows "ms_inv c ms \<and> rs = owed_reads ms + reads_out out \<and> ws = owed_writes c ms + writes_out out"
  using assms
proof (induction rule: channel_run.induct)
  case start
  show ?case by (simp add: ms_inv_new owed_new reads_out_def writes_out_def)
next
  case (submit ms rs ws out isWrite a ok ms')
  then show ?case using ms_add_ok [of c ms isWrite a ok ms'] by (auto simp: add_ac)
next
  case (tick ms rs ws out ms' out')
  then show ?case using ms_update_ok [of c ms] by (auto simp: cycle_post_def add_ac)
qed

lemma channel_submit:
  "channel_run c ms rs ws out \<Longrightarrow> channel_run c (snd (ms_addTransaction c isWrite a ms))
     (if isWrite then rs else rs + {#a#}) (if isWrite then ws + {#a#} else ws) out"
  using submit [of c ms rs ws out isWrite a "fst (ms_addTransaction c isWrite a ms)"] by simp

text \<open>The same as a function, for a given sequence.\<close>

datatype channel_act = Submit bool nat | Tick

fun channel_exec :: "dram_cfg \<Rightarrow> channel_act list \<Rightarrow> MemorySystem \<times> dcallback list \<Rightarrow> derr + MemorySystem \<times> dcallback list" where
  "channel_exec c [] s = Inr s"
| "channel_exec c (Submit w a # acts) (ms, out) = channel_exec c acts (snd (ms_addTransaction c w a ms), out)"
| "channel_exec c (Tick # acts) (ms, out) = bindR (ms_update c ms) (\<lambda>(ms', out'). channel_exec c acts (ms', out @ out'))"

lemma channel_exec_run:
  assumes "channel_run c ms rs ws out" "channel_exec c acts (ms, out) = Inr (ms', out')"
  shows "\<exists>rs' ws'. channel_run c ms' rs' ws' out'"
  using assms
proof (induction acts arbitrary: ms rs ws out)
  case (Cons x acts)
  show ?case
  proof (cases x)
    case (Submit w a)
    obtain ok ms1 where a: "ms_addTransaction c w a ms = (ok, ms1)" by fastforce
    show ?thesis using Cons.IH [OF submit [OF Cons.prems(1) a]] Cons.prems(2) a Submit by simp
  next
    case Tick
    then obtain ms1 out1 where u: "ms_update c ms = Inr (ms1, out1)" "channel_exec c acts (ms1, out @ out1) = Inr (ms', out')"
      using Cons.prems(2) by (auto simp: bindR_eq_Inr)
    show ?thesis using Cons.IH [OF tick [OF Cons.prems(1) u(1)] u(2)] .
  qed
qed auto

end
