(* ===== verification/Dram_Clock.thy ===== *)
theory Dram_Clock
  imports Sim_Prelude
begin

text \<open>
  \<open>ClockDomain.cpp\<close>: the processor calls \<open>update\<close> once per processor cycle, and the memory is
  updated as often as the ratio of the two clocks says. Shown: the loop ends, and after \<open>n\<close>
  calls the memory has been updated exactly \<open>n * clock1 / clock2\<close> times, rounded up, with no
  drift over time.
\<close>

section \<open>The crosser\<close>

record ClockDomainCrosser =
  clock1 :: nat
  clock2 :: nat
  counter1 :: nat
  counter2 :: nat

definition newCrosser :: "nat \<Rightarrow> nat \<Rightarrow> ClockDomainCrosser" where
  "newCrosser c1 c2 = \<lparr>clock1 = c1, clock2 = c2, counter1 = 0, counter2 = 0\<rparr>"

text \<open>
  The callback changes a state and may fail. The loop may run forever, when \<open>clock2\<close> is zero
  or a counter wraps around; its value is then \<open>None\<close>.
\<close>

partial_function (option) cross_loop :: "('s \<Rightarrow> 'e + 's) \<Rightarrow> ClockDomainCrosser \<Rightarrow> 's \<Rightarrow> ('e + ClockDomainCrosser \<times> 's) option" where
  "cross_loop callback x s =
     (if counter2 x < counter1 x
      then (case callback s of
              Inl e \<Rightarrow> Some (Inl e)
            | Inr s' \<Rightarrow> cross_loop callback (x\<lparr>counter2 := u64 (counter2 x + clock2 x)\<rparr>) s')
      else Some (Inr (x, s)))"

declare cross_loop.simps [code]

definition cross_update :: "('s \<Rightarrow> 'e + 's) \<Rightarrow> ClockDomainCrosser \<Rightarrow> 's \<Rightarrow> ('e + ClockDomainCrosser \<times> 's) option" where
  "cross_update callback x s =
     (if clock1 x = clock2 x
      then Some (case callback s of Inl e \<Rightarrow> Inl e | Inr s' \<Rightarrow> Inr (x, s'))
      else map_option (\<lambda>res. bindR res (\<lambda>(x', s').
             Inr (if counter1 x' = counter2 x' then x'\<lparr>counter1 := 0, counter2 := 0\<rparr> else x', s')))
           (cross_loop callback (x\<lparr>counter1 := u64 (counter1 x + clock1 x)\<rparr>) s))"

section \<open>The loop\<close>

text \<open>The callback, made a number of times.\<close>

fun repeatR :: "nat \<Rightarrow> ('s \<Rightarrow> 'e + 's) \<Rightarrow> 's \<Rightarrow> 'e + 's" where
  "repeatR 0 f s = Inr s"
| "repeatR (Suc n) f s = bindR (f s) (repeatR n f)"

definition cdiv :: "nat \<Rightarrow> nat \<Rightarrow> nat" where
  "cdiv a b = (a + b - 1) div b"

lemma cdiv_0 [simp]: "cdiv 0 b = 0"
  by (cases b) (simp_all add: cdiv_def)

lemma cdiv_step: "0 < b \<Longrightarrow> 0 < a \<Longrightarrow> cdiv a b = Suc (cdiv (a - b) b)"
proof (cases "b \<le> a")
  case True
  assume "0 < b" "0 < a"
  then have "a + b - 1 = b + (a - b + b - 1)" using True by simp
  then show ?thesis unfolding cdiv_def using \<open>0 < b\<close> by (metis div_add_self1 Suc_eq_plus1 not_gr_zero)
next
  case False
  assume "0 < b" "0 < a"
  then have "cdiv a b = 1" using False by (simp add: cdiv_def div_nat_eqI)
  then show ?thesis using False by simp
qed

lemma cdiv_le_iff: "0 < b \<Longrightarrow> cdiv a b \<le> k \<longleftrightarrow> a \<le> k * b"
proof -
  assume b: "0 < b"
  have "cdiv a b \<le> k \<longleftrightarrow> a + b - 1 < Suc k * b" unfolding cdiv_def less_Suc_eq_le [symmetric] by (rule div_less_iff_less_mult [OF b])
  then show ?thesis using b by auto
qed

lemma cdiv_add_mult: "0 < b \<Longrightarrow> cdiv (a + k * b) b = cdiv a b + k"
proof -
  assume b: "0 < b"
  have "a + k * b + b - 1 = (a + b - 1) + k * b" using b by simp
  then have "cdiv (a + k * b) b = ((a + b - 1) + k * b) div b" unfolding cdiv_def by (rule arg_cong)
  also have "\<dots> = cdiv a b + k" unfolding cdiv_def using b by (subst div_mult_self1) auto
  finally show ?thesis .
qed

text \<open>From below, the loop makes as many callbacks as there are steps missing.\<close>

lemma cross_loop_times:
  assumes "0 < clock2 x" "counter2 x + cdiv (counter1 x - counter2 x) (clock2 x) * clock2 x < 2 ^ 64"
  shows "cross_loop f x s = Some (bindR (repeatR (cdiv (counter1 x - counter2 x) (clock2 x)) f s)
    (\<lambda>s'. Inr (x\<lparr>counter2 := counter2 x + cdiv (counter1 x - counter2 x) (clock2 x) * clock2 x\<rparr>, s')))"
  using assms
proof (induction "cdiv (counter1 x - counter2 x) (clock2 x)" arbitrary: x s)
  case 0
  then have "counter1 x \<le> counter2 x" using cdiv_le_iff [of "clock2 x" "counter1 x - counter2 x" 0] by simp
  then show ?case using 0(1) [symmetric] by (simp add: cross_loop.simps [of f x])
next
  case (Suc n)
  let ?d = "counter1 x - counter2 x"
  have lt: "counter2 x < counter1 x"
  proof (rule ccontr)
    assume "\<not> ?thesis"
    then show False using Suc.hyps(2) by simp
  qed
  then have n: "n = cdiv (?d - clock2 x) (clock2 x)" using cdiv_step [OF Suc.prems(1), of ?d] Suc.hyps(2) by simp
  have small: "counter2 x + clock2 x < 2 ^ 64" using Suc.prems(2) Suc.hyps(2) [symmetric] by simp
  define y where "y = x\<lparr>counter2 := u64 (counter2 x + clock2 x)\<rparr>"
  have y: "counter2 y = counter2 x + clock2 x" "counter1 y = counter1 x" "clock2 y = clock2 x" "counter1 y - counter2 y = ?d - clock2 x"
    using small by (simp_all add: y_def u64_id)
  have "cross_loop f y s' = Some (bindR (repeatR n f s') (\<lambda>s'. Inr (y\<lparr>counter2 := counter2 y + n * clock2 y\<rparr>, s')))" for s'
    using Suc.hyps(1) [of y s'] n y Suc.prems Suc.hyps(2) [symmetric] by (simp add: add.assoc)
  moreover have "y\<lparr>counter2 := counter2 y + n * clock2 y\<rparr> = x\<lparr>counter2 := counter2 x + Suc n * clock2 x\<rparr>"
    unfolding y(1,3) by (simp add: y_def add.assoc)
  ultimately show ?case unfolding cross_loop.simps [of f x] Suc.hyps(2) [symmetric] using lt
    by (cases "f s") (simp_all add: y_def [symmetric])
qed

section \<open>No drift\<close>

text \<open>
  The state after \<open>n\<close> calls. The counters return to zero every \<open>clock2 / gcd\<close> calls; in between
  they are the elapsed time of the two clocks.
\<close>

definition beat :: "nat \<Rightarrow> nat \<Rightarrow> nat" where
  "beat c1 c2 = c2 div gcd c1 c2"

definition clock_at :: "nat \<Rightarrow> nat \<Rightarrow> nat \<Rightarrow> ClockDomainCrosser" where
  "clock_at c1 c2 n = (let a = (if c1 = c2 then 0 else (n mod beat c1 c2) * c1) in
     \<lparr>clock1 = c1, clock2 = c2, counter1 = a, counter2 = cdiv a c2 * c2\<rparr>)"

definition calls :: "nat \<Rightarrow> nat \<Rightarrow> nat \<Rightarrow> nat" where
  "calls c1 c2 n = cdiv (n * c1) c2"

lemma beat_pos: "0 < c2 \<Longrightarrow> 0 < beat c1 c2"
  by (simp add: beat_def div_greater_zero_iff gcd_le2_nat)

lemma beat_mult: "beat c1 c2 * c1 = lcm c1 c2"
  unfolding beat_def lcm_nat_def by (metis dvd_div_mult gcd_dvd2 mult.commute)

lemma beat_dvd:
  assumes "0 < c2"
  shows "c2 dvd n * c1 \<longleftrightarrow> beat c1 c2 dvd n"
proof
  assume "c2 dvd n * c1"
  then have "lcm c1 c2 dvd n * c1" by simp
  then have "beat c1 c2 * c1 dvd n * c1" by (simp add: beat_mult)
  moreover have "beat 0 c2 = 1" using assms by (simp add: beat_def)
  ultimately show "beat c1 c2 dvd n" by (cases "c1 = 0") auto
next
  assume "beat c1 c2 dvd n"
  then have "beat c1 c2 * c1 dvd n * c1" by (rule mult_dvd_mono) simp
  then show "c2 dvd n * c1" unfolding beat_mult by (rule dvd_trans [OF dvd_lcm2])
qed

lemma cdiv_dvd: "0 < b \<Longrightarrow> cdiv a b * b = a \<longleftrightarrow> b dvd a"
proof
  assume b: "0 < b" and "b dvd a"
  then obtain k where "a = 0 + k * b" by (auto simp: mult.commute)
  then show "cdiv a b * b = a" using cdiv_add_mult [OF b, of 0 k] by simp
qed (metis dvd_triv_right)

lemma cdiv_mono: "0 < b \<Longrightarrow> a \<le> a' \<Longrightarrow> cdiv a b \<le> cdiv a' b"
  by (simp add: cdiv_def div_le_mono)

lemma cdiv_ge: "0 < b \<Longrightarrow> a \<le> cdiv a b * b"
  using cdiv_le_iff [of b a "cdiv a b"] by simp

lemma cdiv_rest:
  assumes b: "0 < b" and "a \<le> a'"
  shows "cdiv (a' - cdiv a b * b) b = cdiv a' b - cdiv a b"
proof (cases "cdiv a b * b \<le> a'")
  case True
  then have "a' = (a' - cdiv a b * b) + cdiv a b * b" by simp
  then have "cdiv a' b = cdiv (a' - cdiv a b * b) b + cdiv a b" using cdiv_add_mult [OF b] by metis
  then show ?thesis by simp
next
  case False
  then have "cdiv a' b \<le> cdiv a b" using cdiv_le_iff [OF b] by simp
  then show ?thesis using False by simp
qed

lemma counter_step:
  assumes "c1 \<noteq> c2" "0 < c2"
  shows "(Suc n mod beat c1 c2) * c1 = (if Suc (n mod beat c1 c2) = beat c1 c2 then 0 else (n mod beat c1 c2) * c1 + c1)"
  using mod_Suc [of n "beat c1 c2"] by simp

lemma calls_step:
  assumes "0 < c2"
  shows "calls c1 c2 (Suc n) - calls c1 c2 n = cdiv (n mod beat c1 c2 * c1 + c1) c2 - cdiv (n mod beat c1 c2 * c1) c2"
proof -
  let ?q = "beat c1 c2"
  obtain k where k: "?q * c1 = k * c2" using beat_mult [of c1 c2] by (metis dvd_lcm2 dvdE mult.commute)
  define m where "m = n div ?q * k"
  have "n * c1 = (n div ?q * ?q + n mod ?q) * c1" by (simp only: div_mult_mod_eq)
  also have "\<dots> = n mod ?q * c1 + m * c2" unfolding add_mult_distrib m_def mult.assoc k by simp
  finally have e: "n * c1 = n mod ?q * c1 + m * c2" .
  then have e': "Suc n * c1 = (n mod ?q * c1 + c1) + m * c2" by simp
  show ?thesis unfolding calls_def e e' cdiv_add_mult [OF assms] by simp
qed

text \<open>One call, from the state after \<open>n\<close> calls.\<close>

lemma cross_update_at:
  assumes c2: "0 < c2" and fits: "lcm c1 c2 < 2 ^ 64"
  shows "cross_update f (clock_at c1 c2 n) s =
    Some (bindR (repeatR (calls c1 c2 (Suc n) - calls c1 c2 n) f s) (\<lambda>s'. Inr (clock_at c1 c2 (Suc n), s')))"
proof (cases "c1 = c2")
  case True
  then have "calls c1 c2 (Suc n) - calls c1 c2 n = 1" using cdiv_add_mult [OF c2, of 0 n] cdiv_add_mult [OF c2, of 0 "Suc n"] by (simp add: calls_def)
  then show ?thesis using True by (cases "f s") (simp_all add: cross_update_def clock_at_def)
next
  case False
  let ?q = "beat c1 c2"
  define a where "a = n mod ?q * c1"
  define k where "k = cdiv (a + c1) c2 - cdiv a c2"
  have calls: "calls c1 c2 (Suc n) - calls c1 c2 n = k" using calls_step [OF c2, of c1 n] by (simp add: a_def k_def)
  have "Suc (n mod ?q) \<le> ?q" using beat_pos [OF c2, of c1] by (simp add: Suc_le_eq)
  then have "a + c1 \<le> ?q * c1" unfolding a_def by (metis add.commute mult_Suc mult_le_mono1)
  then have le: "a + c1 \<le> lcm c1 c2" by (simp add: beat_mult)
  then have "cdiv (a + c1) c2 * c2 \<le> cdiv (lcm c1 c2) c2 * c2" using cdiv_mono [OF c2] by simp
  also have "\<dots> = lcm c1 c2" using cdiv_dvd [OF c2] by simp
  finally have fits': "cdiv (a + c1) c2 * c2 < 2 ^ 64" "a + c1 < 2 ^ 64" using le fits by simp_all
  have mono: "cdiv a c2 \<le> cdiv (a + c1) c2" using cdiv_mono [OF c2] by simp
  define x where "x = (clock_at c1 c2 n)\<lparr>counter1 := u64 (counter1 (clock_at c1 c2 n) + clock1 (clock_at c1 c2 n))\<rparr>"
  have x: "x = \<lparr>clock1 = c1, clock2 = c2, counter1 = a + c1, counter2 = cdiv a c2 * c2\<rparr>"
    using False fits'(2) by (simp add: x_def clock_at_def a_def Let_def u64_id)
  have rest: "cdiv (counter1 x - counter2 x) (clock2 x) = k" using cdiv_rest [OF c2, of a "a + c1"] by (simp add: x k_def)
  have sum: "cdiv a c2 * c2 + k * c2 = cdiv (a + c1) c2 * c2" using mono by (simp add: k_def add_mult_distrib [symmetric])
  have "cross_loop f x s = Some (bindR (repeatR k f s) (\<lambda>s'. Inr (x\<lparr>counter2 := cdiv (a + c1) c2 * c2\<rparr>, s')))"
    using cross_loop_times [of x f s] c2 fits' rest sum by (simp add: x)
  moreover have "(let y = x\<lparr>counter2 := cdiv (a + c1) c2 * c2\<rparr> in if counter1 y = counter2 y then y\<lparr>counter1 := 0, counter2 := 0\<rparr> else y) = clock_at c1 c2 (Suc n)"
  proof (cases "Suc (n mod ?q) = ?q")
    case True
    then have "a + c1 = ?q * c1" unfolding a_def by (metis add.commute mult_Suc)
    then have "cdiv (a + c1) c2 * c2 = a + c1" using cdiv_dvd [OF c2] by (simp add: beat_mult)
    moreover have z: "Suc n mod ?q * c1 = 0" using True counter_step [OF False c2, of n] by simp
    ultimately show ?thesis unfolding clock_at_def z using False by (simp add: x)
  next
    case ne: False
    have "Suc (n mod ?q) < ?q" using ne beat_pos [OF c2, of c1] by (simp add: Suc_lessI)
    then have "\<not> ?q dvd Suc (n mod ?q)" by (meson nat_dvd_not_less zero_less_Suc)
    then have "\<not> c2 dvd a + c1" using beat_dvd [OF c2, of "Suc (n mod ?q)" c1] by (simp add: a_def add.commute)
    then have "a + c1 \<noteq> cdiv (a + c1) c2 * c2" using cdiv_dvd [OF c2] by metis
    then show ?thesis using ne counter_step [OF False c2, of n] False by (simp add: x clock_at_def Let_def a_def)
  qed
  moreover have "clock1 (clock_at c1 c2 n) \<noteq> clock2 (clock_at c1 c2 n)" using False by (simp add: clock_at_def Let_def)
  ultimately show ?thesis unfolding calls cross_update_def x_def [symmetric]
    by (cases "repeatR k f s") (simp_all add: Let_def)
qed

lemma clock_at_new: "clock_at c1 c2 0 = newCrosser c1 c2"
  by (simp add: clock_at_def newCrosser_def Let_def)

text \<open>A number of calls, one after the other.\<close>

fun cross_run :: "nat \<Rightarrow> ('s \<Rightarrow> 'e + 's) \<Rightarrow> ClockDomainCrosser \<Rightarrow> 's \<Rightarrow> ('e + ClockDomainCrosser \<times> 's) option" where
  "cross_run 0 f x s = Some (Inr (x, s))"
| "cross_run (Suc n) f x s = (case cross_update f x s of
       None \<Rightarrow> None
     | Some (Inl e) \<Rightarrow> Some (Inl e)
     | Some (Inr (x', s')) \<Rightarrow> cross_run n f x' s')"

lemma repeatR_add: "repeatR (m + n) f s = bindR (repeatR m f s) (repeatR n f)"
proof (induction m arbitrary: s)
  case (Suc m)
  then show ?case by (cases "f s") simp_all
qed simp

lemma calls_mono: "0 < c2 \<Longrightarrow> m \<le> n \<Longrightarrow> calls c1 c2 m \<le> calls c1 c2 n"
  by (simp add: calls_def cdiv_mono)

lemma cross_run_at:
  assumes "0 < c2" "lcm c1 c2 < 2 ^ 64"
  shows "cross_run n f (clock_at c1 c2 m) s =
    Some (bindR (repeatR (calls c1 c2 (m + n) - calls c1 c2 m) f s) (\<lambda>s'. Inr (clock_at c1 c2 (m + n), s')))"
proof (induction n arbitrary: m s)
  case (Suc n)
  let ?k = "calls c1 c2 (Suc m) - calls c1 c2 m" and ?l = "calls c1 c2 (Suc m + n) - calls c1 c2 (Suc m)"
  have "calls c1 c2 (m + Suc n) - calls c1 c2 m = ?k + ?l"
    using calls_mono [OF assms(1), of m "Suc m"] calls_mono [OF assms(1), of "Suc m" "Suc m + n"] by simp
  then have "repeatR (calls c1 c2 (m + Suc n) - calls c1 c2 m) f s = bindR (repeatR ?k f s) (repeatR ?l f)" by (simp add: repeatR_add)
  then show ?case using Suc.IH [of "Suc m"] cross_update_at [OF assms, of f m s]
    by (cases "repeatR ?k f s") simp_all
qed simp

lemma calls_bounds:
  assumes "0 < c2"
  shows "n * c1 \<le> calls c1 c2 n * c2" "calls c1 c2 n * c2 < n * c1 + c2"
proof -
  show "n * c1 \<le> calls c1 c2 n * c2" unfolding calls_def by (rule cdiv_ge [OF assms])
  have "calls c1 c2 n * c2 \<le> n * c1 + c2 - 1" unfolding calls_def cdiv_def by (rule div_times_less_eq_dividend)
  then show "calls c1 c2 n * c2 < n * c1 + c2" using assms by simp
qed

end
