(* ===== verification/Dram_Multi.thy ===== *)
theory Dram_Multi
  imports Dram_Channel Dram_Clock
begin

text \<open>
  \<open>MultiChannelMemorySystem.cpp\<close>: the memory as its users see it. It sizes the ranks from the
  memory asked for, spreads the requests over the channels, and updates the channels at the
  rate of the memory clock. Shown: no update fails, each request goes to the channel of its
  address and is answered once.
\<close>

section \<open>Construction\<close>

text \<open>
  The constructor of \<open>MemorySystem\<close> derives the number of ranks from the size of the memory and
  of a rank, both in megabytes. A rank of less than a megabyte has size zero, which traps.
\<close>

definition megsOfStoragePerRank :: "dram_cfg \<Rightarrow> nat" where
  "megsOfStoragePerRank c =
     NUM_ROWS c * (NUM_COLS c * DEVICE_WIDTH c mod 2 ^ 32) * NUM_BANKS c * (JEDEC_DATA_BUS_BITS c div DEVICE_WIDTH c) div 8 div 2 ^ 20"

definition size_ranks :: "nat \<Rightarrow> dram_cfg \<Rightarrow> derr + dram_cfg" where
  "size_ranks megsOfMemory c =
     (if DEVICE_WIDTH c = 0 then Inl Division_By_Zero
      else let per_rank = megsOfStoragePerRank c in
        bindR (if megsOfMemory = 0 then Inr c
               else if per_rank = 0 then Inl Division_By_Zero
               else let n = megsOfMemory div per_rank
                    in Inr (c\<lparr>NUM_RANKS := (if n = 0 then 1 else n), NUM_RANKS_LOG := dramsim_log2 n\<rparr>)) (\<lambda>c'.
          Inr (c'\<lparr>NUM_DEVICES := JEDEC_DATA_BUS_BITS c div DEVICE_WIDTH c\<rparr>)))"

record MultiChannelMemorySystem =
  channels :: "MemorySystem list"
  read_times :: nat
  write_times :: nat
  clockDomainCrosser :: ClockDomainCrosser
  mm_clock :: nat

text \<open>The settings are read before; every channel sizes the ranks anew, with the same result.\<close>

fun size_channels :: "nat \<Rightarrow> nat \<Rightarrow> dram_cfg \<Rightarrow> derr + dram_cfg" where
  "size_channels 0 megs c = Inr c"
| "size_channels (Suc n) megs c = bindR (size_ranks megs c) (size_channels n megs)"

definition newMultiChannel :: "dram_cfg \<Rightarrow> nat \<Rightarrow> derr + dram_cfg \<times> MultiChannelMemorySystem" where
  "newMultiChannel c megsOfMemory =
     (if \<not> isPowerOfTwo megsOfMemory then Inl Memory_Not_Power_Of_Two
      else if NUM_CHANS c = 0 then Inl Zero_Channels
      else bindR (size_channels (NUM_CHANS c) (megsOfMemory div NUM_CHANS c) c) (\<lambda>c'.
        Inr (c', \<lparr>channels = replicate (NUM_CHANS c) (newMemorySystem c'), read_times = 0, write_times = 0,
                  clockDomainCrosser = newCrosser 1 1, mm_clock = 0\<rparr>)))"

text \<open>\<open>dramsimClkFreqHz\<close>, the memory clock, is computed in floating point from \<open>tCK\<close> and is an argument.\<close>

definition setCPUClockSpeed :: "nat \<Rightarrow> nat \<Rightarrow> MultiChannelMemorySystem \<Rightarrow> MultiChannelMemorySystem" where
  "setCPUClockSpeed dramsimClkFreqHz cpuClkFreqHz m = m\<lparr>clockDomainCrosser := (clockDomainCrosser m)\<lparr>clock1 := dramsimClkFreqHz,
     clock2 := (if cpuClkFreqHz = 0 then dramsimClkFreqHz else cpuClkFreqHz)\<rparr>\<rparr>"

section \<open>Requests\<close>

definition findChannelNumber :: "dram_cfg \<Rightarrow> nat \<Rightarrow> derr + nat" where
  "findChannelNumber c addr =
     (if NUM_CHANS c = 1 then Inr 0
      else if \<not> isPowerOfTwo (NUM_CHANS c) then Inl Channels_Not_Power_Of_Two
      else let channelNumber = m_chan (addressMapping c (of_nat addr))
           in if NUM_CHANS c \<le> channelNumber then Inl Channel_Out_Of_Range else Inr channelNumber)"

definition multi_addTransaction :: "dram_cfg \<Rightarrow> bool \<Rightarrow> nat \<Rightarrow> MultiChannelMemorySystem \<Rightarrow> derr + bool \<times> MultiChannelMemorySystem" where
  "multi_addTransaction c isWrite addr m =
     (let m1 = (if \<not> isWrite then m\<lparr>read_times := u64 (read_times m + 1)\<rparr> else m\<lparr>write_times := u64 (write_times m + 1)\<rparr>) in
      bindR (findChannelNumber c addr) (\<lambda>ch.
        let (ok, ms) = ms_addTransaction c isWrite addr (channels m1 ! ch)
        in Inr (ok, m1\<lparr>channels := (channels m1)[ch := ms]\<rparr>)))"

definition count_type :: "dTransaction \<Rightarrow> MultiChannelMemorySystem \<Rightarrow> MultiChannelMemorySystem" where
  "count_type t m = (case dtransactionType t of
       D_DATA_READ \<Rightarrow> m\<lparr>read_times := u64 (read_times m + 1)\<rparr>
     | D_DATA_WRITE \<Rightarrow> m\<lparr>write_times := u64 (write_times m + 1)\<rparr>
     | D_RETURN_DATA \<Rightarrow> m)"

definition multi_addTransaction_ptr :: "dram_cfg \<Rightarrow> dTransaction \<Rightarrow> MultiChannelMemorySystem \<Rightarrow> derr + bool \<times> MultiChannelMemorySystem" where
  "multi_addTransaction_ptr c t m =
     (let m1 = count_type t m in
      bindR (findChannelNumber c (daddress t)) (\<lambda>ch.
        let (ok, ms) = ms_addTransaction_ptr c t (channels m1 ! ch)
        in Inr (ok, m1\<lparr>channels := (channels m1)[ch := ms]\<rparr>)))"

text \<open>A transaction passed by reference is copied and passed on, and counted in both places.\<close>

definition multi_addTransaction_ref :: "dram_cfg \<Rightarrow> dTransaction \<Rightarrow> MultiChannelMemorySystem \<Rightarrow> derr + bool \<times> MultiChannelMemorySystem" where
  "multi_addTransaction_ref c t m = multi_addTransaction_ptr c t (count_type t m)"

definition willAcceptTransaction_addr :: "dram_cfg \<Rightarrow> nat \<Rightarrow> MultiChannelMemorySystem \<Rightarrow> bool" where
  "willAcceptTransaction_addr c addr m = ms_WillAcceptTransaction c (channels m ! m_chan (addressMapping c (of_nat addr)))"

definition willAcceptTransaction :: "dram_cfg \<Rightarrow> MultiChannelMemorySystem \<Rightarrow> bool" where
  "willAcceptTransaction c m \<longleftrightarrow> (\<forall>i \<in> set [0..<NUM_CHANS c]. ms_WillAcceptTransaction c (channels m ! i))"

section \<open>Updates\<close>

text \<open>
  The figures that \<open>printStats\<close> prints are computed in floating point and left out; what it
  leaves behind are the statistics set back.
\<close>

definition printStats :: "dram_cfg \<Rightarrow> MemorySystem \<Rightarrow> MemorySystem" where
  "printStats c ms = ms\<lparr>memoryController := resetStats c (memoryController ms)\<rparr>"

fun update_channels :: "dram_cfg \<Rightarrow> nat list \<Rightarrow> MemorySystem list \<Rightarrow> derr + MemorySystem list \<times> (nat \<times> dcallback) list" where
  "update_channels c [] chans = Inr (chans, [])"
| "update_channels c (i # is) chans =
     bindR (ms_update c (chans ! i)) (\<lambda>(ms, out).
     bindR (update_channels c is (chans[i := ms])) (\<lambda>(chans', out').
       Inr (chans', map (Pair i) out @ out')))"

text \<open>The callbacks carry the number of the channel and are collected in the second component.\<close>

definition actual_update :: "dram_cfg \<Rightarrow> MultiChannelMemorySystem \<times> (nat \<times> dcallback) list
    \<Rightarrow> derr + MultiChannelMemorySystem \<times> (nat \<times> dcallback) list" where
  "actual_update c = (\<lambda>(m, out).
     if EPOCH_LENGTH c = 0 then Inl Division_By_Zero
     else let m1 = (if mm_clock m mod EPOCH_LENGTH c = 0 then m\<lparr>channels := map (printStats c) (channels m)\<rparr> else m) in
       bindR (update_channels c [0..<NUM_CHANS c] (channels m1)) (\<lambda>(chans, out').
         Inr (m1\<lparr>channels := chans, mm_clock := mm_clock m1 + 1\<rparr>, out @ out')))"

definition multi_update :: "dram_cfg \<Rightarrow> MultiChannelMemorySystem \<Rightarrow> (derr + MultiChannelMemorySystem \<times> (nat \<times> dcallback) list) option" where
  "multi_update c m = map_option (\<lambda>res. bindR res (\<lambda>(x, m', out). Inr (m'\<lparr>clockDomainCrosser := x\<rparr>, out)))
     (cross_update (actual_update c) (clockDomainCrosser m) (m, []))"

section \<open>What the memory keeps\<close>

definition multi_cfg :: "dram_cfg \<Rightarrow> bool" where
  "multi_cfg c \<longleftrightarrow> dram_ok c \<and> NUM_CHANS c = 2 ^ NUM_CHANS_LOG c \<and> NUM_CHANS c < 2 ^ 32 \<and> 0 < EPOCH_LENGTH c"

definition chan_of :: "dram_cfg \<Rightarrow> nat \<Rightarrow> nat" where
  "chan_of c a = (if NUM_CHANS c = 1 then 0 else m_chan (addressMapping c (of_nat a)))"

lemma findChannel_ok:
  assumes "multi_cfg c"
  shows "findChannelNumber c a = Inr (chan_of c a)" "chan_of c a < NUM_CHANS c"
proof -
  have m: "map_cfg c" and n: "NUM_CHANS c = 2 ^ NUM_CHANS_LOG c" and lt: "NUM_CHANS c < 2 ^ 32"
    using assms by (auto simp: multi_cfg_def dram_ok_def)
  have in_range: "m_chan (addressMapping c (of_nat a)) < NUM_CHANS c" using mapping_place [OF m] n by (simp add: place_ok_iff)
  then show "chan_of c a < NUM_CHANS c" using n by (simp add: chan_of_def)
  have "isPowerOfTwo (NUM_CHANS c)" using isPowerOfTwo_iff [OF lt] n by blast
  then show "findChannelNumber c a = Inr (chan_of c a)" using in_range by (auto simp: findChannelNumber_def chan_of_def Let_def)
qed

text \<open>The requests a channel was given, and the callbacks it made.\<close>

type_synonym request = "bool \<times> nat"

definition asked_reads :: "dram_cfg \<Rightarrow> nat \<Rightarrow> request list \<Rightarrow> nat multiset" where
  "asked_reads c i asked = mset (map snd (filter (\<lambda>(w, a). \<not> w \<and> chan_of c a = i) asked))"

definition asked_writes :: "dram_cfg \<Rightarrow> nat \<Rightarrow> request list \<Rightarrow> nat multiset" where
  "asked_writes c i asked = mset (map snd (filter (\<lambda>(w, a). w \<and> chan_of c a = i) asked))"

definition outs_of :: "nat \<Rightarrow> (nat \<times> dcallback) list \<Rightarrow> dcallback list" where
  "outs_of i out = map snd (filter (\<lambda>x. fst x = i) out)"

lemma outs_of_append [simp]: "outs_of i (xs @ ys) = outs_of i xs @ outs_of i ys" "outs_of i [] = []"
  by (simp_all add: outs_of_def)

lemma outs_of_pair [simp]: "outs_of i (map (Pair j) xs) = (if i = j then xs else [])"
  by (induction xs) (auto simp: outs_of_def)

definition chan_ok :: "dram_cfg \<Rightarrow> nat \<Rightarrow> request list \<Rightarrow> dcallback list \<Rightarrow> nat \<Rightarrow> MemorySystem \<Rightarrow> bool" where
  "chan_ok c t asked outs i ms \<longleftrightarrow> ms_inv c ms \<and> ms_clock ms = t \<and>
     asked_reads c i asked = reads_out outs + owed_reads ms \<and> asked_writes c i asked = writes_out outs + owed_writes c ms"

definition chans_ok :: "dram_cfg \<Rightarrow> nat \<Rightarrow> request list \<Rightarrow> (nat \<times> dcallback) list \<Rightarrow> MemorySystem list \<Rightarrow> bool" where
  "chans_ok c t asked out chans \<longleftrightarrow> length chans = NUM_CHANS c \<and> (\<forall>i<NUM_CHANS c. chan_ok c t asked (outs_of i out) i (chans ! i)) \<and>
     (\<forall>i. NUM_CHANS c \<le> i \<longrightarrow> outs_of i out = [])"

subsection \<open>Statistics\<close>

lemma resetStats_new: "resetStats c ((newMemoryController c)\<lparr>transactionQueue := ts\<rparr>) = (newMemoryController c)\<lparr>transactionQueue := ts\<rparr>"
  by (simp add: resetStats_def newMemoryController_def Let_def if_distrib [of u64] u64_id cong: if_cong)

lemma resetStats_core: "core c lt now (resetStats c mc) rks = core c lt now mc rks"
  by (simp add: resetStats_def Let_def core_def mc_ok_def mc_bus_of_def)

lemma printStats_ok:
  assumes "chan_ok c t asked outs i ms"
  shows "chan_ok c t asked outs i (printStats c ms)"
proof -
  have same: "transactionQueue (resetStats c mc) = transactionQueue mc" "pendingReadTransactions (resetStats c mc) = pendingReadTransactions mc"
    "commandQueue (resetStats c mc) = commandQueue mc" "writeDataToSend (resetStats c mc) = writeDataToSend mc"
    "outgoingDataPacket (resetStats c mc) = outgoingDataPacket mc" "mc_clock (resetStats c mc) = mc_clock mc" for mc
    by (simp_all add: resetStats_def Let_def)
  have "fresh c mc rks \<Longrightarrow> fresh c (resetStats c mc) rks" for mc rks by (auto simp: fresh_def resetStats_new)
  then have "ms_inv c (printStats c ms)" using assms
    by (auto simp: chan_ok_def ms_inv_def printStats_def clocks_def same resetStats_core split: nat.splits)
  then show ?thesis using assms by (simp add: chan_ok_def printStats_def owed_reads_def owed_writes_def reads_in_def writes_in_def same)
qed

subsection \<open>Updates\<close>

definition updated :: "dram_cfg \<Rightarrow> nat list \<Rightarrow> MemorySystem list \<Rightarrow> MemorySystem list \<times> (nat \<times> dcallback) list \<Rightarrow> bool" where
  "updated c is chans = (\<lambda>(chans', out). length chans' = length chans \<and>
     (\<forall>i \<in> set is. cycle_post c (chans ! i) (chans' ! i) (outs_of i out)) \<and>
     (\<forall>i. i \<notin> set is \<longrightarrow> chans' ! i = chans ! i \<and> outs_of i out = []))"

lemma update_channels_ok:
  assumes ok: "dram_ok c"
  shows "distinct is \<Longrightarrow> \<forall>i \<in> set is. i < length chans \<and> ms_inv c (chans ! i) \<Longrightarrow> okR (update_channels c is chans) (updated c is chans)"
proof (induction "is" arbitrary: chans)
  case (Cons i "is")
  obtain ms out where u: "ms_update c (chans ! i) = Inr (ms, out)" "cycle_post c (chans ! i) ms out"
    using ms_update_ok [OF ok, of "chans ! i"] Cons.prems(2) by (auto simp: okR_iff)
  have i: "i \<notin> set is" "i < length chans" "distinct is" using Cons.prems by auto
  have "\<forall>j \<in> set is. j < length (chans[i := ms]) \<and> ms_inv c (chans[i := ms] ! j)"
    using Cons.prems i by (auto simp: nth_list_update)
  then obtain chans' out' where r: "update_channels c is (chans[i := ms]) = Inr (chans', out')" "updated c is (chans[i := ms]) (chans', out')"
    using Cons.IH [OF i(3), of "chans[i := ms]"] by (auto simp: okR_iff)
  have "updated c (i # is) chans (chans', map (Pair i) out @ out')"
    using r(2) u(2) i by (auto simp: updated_def nth_list_update)
  then show ?case using u(1) r(1) by simp
qed (simp add: updated_def)

definition upd_inv :: "dram_cfg \<Rightarrow> request list \<Rightarrow> (nat \<times> dcallback) list \<Rightarrow> nat \<Rightarrow> MultiChannelMemorySystem \<times> (nat \<times> dcallback) list \<Rightarrow> bool" where
  "upd_inv c asked out0 t = (\<lambda>(m, out). chans_ok c t asked (out0 @ out) (channels m) \<and> mm_clock m = t)"

lemma actual_update_ok:
  assumes cfg: "multi_cfg c" and inv: "upd_inv c asked out0 t s"
  shows "okR (actual_update c s) (upd_inv c asked out0 (Suc t))"
proof -
  obtain m out where s: "s = (m, out)" by fastforce
  have ok: "dram_ok c" "EPOCH_LENGTH c \<noteq> 0" using cfg by (auto simp: multi_cfg_def)
  define m1 where "m1 = (if mm_clock m mod EPOCH_LENGTH c = 0 then m\<lparr>channels := map (printStats c) (channels m)\<rparr> else m)"
  have m: "chans_ok c t asked (out0 @ out) (channels m)" "mm_clock m = t" using inv by (simp_all add: s upd_inv_def)
  have c1: "chans_ok c t asked (out0 @ out) (channels m1)"
    using m printStats_ok by (auto simp: m1_def chans_ok_def)
  have "\<forall>i \<in> set [0..<NUM_CHANS c]. i < length (channels m1) \<and> ms_inv c (channels m1 ! i)"
    using c1 by (auto simp: chans_ok_def chan_ok_def)
  then obtain chans out' where u: "update_channels c [0..<NUM_CHANS c] (channels m1) = Inr (chans, out')"
    "updated c [0..<NUM_CHANS c] (channels m1) (chans, out')"
    using update_channels_ok [OF ok(1), of "[0..<NUM_CHANS c]" "channels m1"] by (auto simp: okR_iff)
  have "chans_ok c (Suc t) asked (out0 @ out @ out') chans"
    using c1 u(2) by (auto simp: chans_ok_def chan_ok_def updated_def cycle_post_def add_ac)
  moreover have "mm_clock m1 = t" using m(2) by (simp add: m1_def)
  ultimately show ?thesis using u(1) ok(2) by (simp add: s actual_update_def m1_def [symmetric] upd_inv_def)
qed

lemma repeatR_ok:
  assumes "\<And>t s. I t s \<Longrightarrow> okR (f s) (I (Suc t))"
  shows "I t s \<Longrightarrow> okR (repeatR k f s) (I (t + k))"
proof (induction k arbitrary: t s)
  case (Suc k)
  obtain s' where s': "f s = Inr s'" "I (Suc t) s'" using assms [OF Suc.prems] by (auto simp: okR_iff)
  show ?case using Suc.IH [OF s'(2)] s'(1) by simp
qed simp

section \<open>Runs\<close>

definition multi_start :: "dram_cfg \<Rightarrow> nat \<Rightarrow> nat \<Rightarrow> MultiChannelMemorySystem" where
  "multi_start c c1 c2 = \<lparr>channels = replicate (NUM_CHANS c) (newMemorySystem c), read_times = 0, write_times = 0,
     clockDomainCrosser = newCrosser c1 c2, mm_clock = 0\<rparr>"

text \<open>The memory after a number of updates and requests, with clocks of the given rates.\<close>

inductive multi_run :: "dram_cfg \<Rightarrow> nat \<Rightarrow> nat \<Rightarrow> MultiChannelMemorySystem \<Rightarrow> nat \<Rightarrow> request list \<Rightarrow> (nat \<times> dcallback) list \<Rightarrow> bool" for c c1 c2 where
  multi_run_start: "multi_run c c1 c2 (multi_start c c1 c2) 0 [] []"
| multi_run_submit: "multi_run c c1 c2 m n asked out \<Longrightarrow> multi_addTransaction c w a m = Inr (ok, m') \<Longrightarrow>
     multi_run c c1 c2 m' n (asked @ [(w, a)]) out"
| multi_run_update: "multi_run c c1 c2 m n asked out \<Longrightarrow> multi_update c m = Some (Inr (m', out')) \<Longrightarrow>
     multi_run c c1 c2 m' (Suc n) asked (out @ out')"

definition multi_inv :: "dram_cfg \<Rightarrow> nat \<Rightarrow> nat \<Rightarrow> MultiChannelMemorySystem \<Rightarrow> nat \<Rightarrow> request list \<Rightarrow> (nat \<times> dcallback) list \<Rightarrow> bool" where
  "multi_inv c c1 c2 m n asked out \<longleftrightarrow> chans_ok c (calls c1 c2 n) asked out (channels m) \<and> mm_clock m = calls c1 c2 n \<and>
     clockDomainCrosser m = clock_at c1 c2 n"

lemma multi_update_ok:
  assumes cfg: "multi_cfg c" "0 < c2" "lcm c1 c2 < 2 ^ 64" and inv: "multi_inv c c1 c2 m n asked out"
  shows "\<exists>m' out'. multi_update c m = Some (Inr (m', out')) \<and> multi_inv c c1 c2 m' (Suc n) asked (out @ out')"
proof -
  let ?k = "calls c1 c2 (Suc n) - calls c1 c2 n"
  have "upd_inv c asked out (calls c1 c2 n) (m, [])" using inv by (simp add: multi_inv_def upd_inv_def)
  then have "okR (repeatR ?k (actual_update c) (m, [])) (upd_inv c asked out (calls c1 c2 n + ?k))"
    using actual_update_ok [OF cfg(1)] by (intro repeatR_ok) blast
  then obtain m' out' where r: "repeatR ?k (actual_update c) (m, []) = Inr (m', out')"
    "upd_inv c asked out (calls c1 c2 n + ?k) (m', out')" by (auto simp: okR_iff)
  have "calls c1 c2 n + ?k = calls c1 c2 (Suc n)" using calls_mono [OF cfg(2), of n "Suc n" c1] by simp
  then have "multi_inv c c1 c2 (m'\<lparr>clockDomainCrosser := clock_at c1 c2 (Suc n)\<rparr>) (Suc n) asked (out @ out')"
    using r(2) by (simp add: multi_inv_def upd_inv_def)
  moreover have "multi_update c m = Some (Inr (m'\<lparr>clockDomainCrosser := clock_at c1 c2 (Suc n)\<rparr>, out'))"
    using inv cross_update_at [OF cfg(2,3), of "actual_update c" n "(m, [])"] r(1) by (simp add: multi_update_def multi_inv_def)
  ultimately show ?thesis by blast
qed

lemma multi_add_ok:
  assumes cfg: "multi_cfg c" and inv: "multi_inv c c1 c2 m n asked out"
  shows "\<exists>m'. multi_addTransaction c w a m = Inr (True, m') \<and> multi_inv c c1 c2 m' n (asked @ [(w, a)]) out"
proof -
  let ?i = "chan_of c a"
  obtain ok ms where t: "ms_addTransaction c w a (channels m ! ?i) = (ok, ms)" by fastforce
  define m1 where "m1 = (if \<not> w then m\<lparr>read_times := u64 (read_times m + 1)\<rparr> else m\<lparr>write_times := u64 (write_times m + 1)\<rparr>)"
  have i: "?i < NUM_CHANS c" using findChannel_ok(2) [OF cfg] .
  have same: "channels m1 = channels m" "mm_clock m1 = mm_clock m" "clockDomainCrosser m1 = clockDomainCrosser m" by (auto simp: m1_def)
  have ch: "chans_ok c (calls c1 c2 n) asked out (channels m)" using inv by (simp add: multi_inv_def)
  then have "ms_inv c (channels m ! ?i)" using i by (simp add: chans_ok_def chan_ok_def)
  note A = ms_add_ok [OF this t]
  have clk: "ms_clock ms = ms_clock (channels m ! ?i)"
    using t by (auto simp: ms_addTransaction_def mc_addTransaction_def Let_def split: if_splits)
  have more: "asked_reads c j (asked @ [(w, a)]) = asked_reads c j asked + (if \<not> w \<and> ?i = j then {#a#} else {#})"
    "asked_writes c j (asked @ [(w, a)]) = asked_writes c j asked + (if w \<and> ?i = j then {#a#} else {#})" for j
    by (auto simp: asked_reads_def asked_writes_def)
  have "chans_ok c (calls c1 c2 n) (asked @ [(w, a)]) out ((channels m)[?i := ms])"
    using ch A clk i unfolding chans_ok_def by (auto simp: chan_ok_def more nth_list_update)
  then have "multi_inv c c1 c2 (m1\<lparr>channels := (channels m)[?i := ms]\<rparr>) n (asked @ [(w, a)]) out"
    using inv same by (simp add: multi_inv_def)
  moreover have "multi_addTransaction c w a m = Inr (True, m1\<lparr>channels := (channels m)[?i := ms]\<rparr>)"
    using t A(1) findChannel_ok(1) [OF cfg, of a] by (simp add: multi_addTransaction_def m1_def [symmetric] same)
  ultimately show ?thesis by blast
qed

lemma multi_run_inv:
  assumes run: "multi_run c c1 c2 m n asked out" and cfg: "multi_cfg c" "0 < c2" "lcm c1 c2 < 2 ^ 64"
  shows "multi_inv c c1 c2 m n asked out"
  using run
proof induction
  case multi_run_start
  show ?case by (simp add: multi_inv_def multi_start_def chans_ok_def chan_ok_def ms_inv_new owed_new calls_def clock_at_new
        asked_reads_def asked_writes_def reads_out_def writes_out_def) (simp add: newMemorySystem_def)
next
  case (multi_run_submit m n asked out w a ok m')
  then show ?case using multi_add_ok [OF cfg(1) multi_run_submit.IH, of w a] by auto
next
  case (multi_run_update m n asked out m' out')
  then show ?case using multi_update_ok [OF cfg multi_run_update.IH] by auto
qed

section \<open>The constructor\<close>

text \<open>
  Settings of a device and a system that fit together, apart from the number of ranks. The
  bound on the widths leaves room for the ranks of any memory size.
\<close>

definition device_ok :: "dram_cfg \<Rightarrow> bool" where
  "device_ok c \<longleftrightarrow> timing_cfg c \<and> CMD_QUEUE_DEPTH c < 2 ^ 64 \<and> 0 < EPOCH_LENGTH c \<and> DEVICE_WIDTH c \<noteq> 0 \<and>
     NUM_BANKS c = 2 ^ NUM_BANKS_LOG c \<and> NUM_CHANS c = 2 ^ NUM_CHANS_LOG c \<and> NUM_CHANS c < 2 ^ 32 \<and>
     (\<exists>k. megsOfStoragePerRank c = 2 ^ k) \<and> COL_LOW_BIT_WIDTH c \<le> NUM_COLS_LOG c \<and> NUM_COLS_LOG c \<le> 32 \<and>
     offset_bits c + NUM_CHANS_LOG c + NUM_BANKS_LOG c + NUM_ROWS_LOG c + (NUM_COLS_LOG c - COL_LOW_BIT_WIDTH c) \<le> 32"

lemma widths_sum: "sum_list (widths c) = NUM_CHANS_LOG c + NUM_RANKS_LOG c + NUM_BANKS_LOG c + NUM_ROWS_LOG c + colHighBitWidth c"
  by (cases "addressMappingScheme c") (simp_all add: widths_def Let_def)

definition with_ranks :: "nat \<Rightarrow> nat \<Rightarrow> dram_cfg \<Rightarrow> dram_cfg" where
  "with_ranks n l c = c\<lparr>NUM_RANKS := n, NUM_RANKS_LOG := l, NUM_DEVICES := JEDEC_DATA_BUS_BITS c div DEVICE_WIDTH c\<rparr>"

lemma with_ranks_simps [simp]:
  "NUM_RANKS (with_ranks n l c) = n" "NUM_RANKS_LOG (with_ranks n l c) = l" "with_ranks n l (with_ranks n' l' c) = with_ranks n l c"
  "NUM_CHANS (with_ranks n l c) = NUM_CHANS c" "DEVICE_WIDTH (with_ranks n l c) = DEVICE_WIDTH c"
  "megsOfStoragePerRank (with_ranks n l c) = megsOfStoragePerRank c"
  by (simp_all add: with_ranks_def megsOfStoragePerRank_def)

lemma multi_cfg_ranks:
  assumes d: "device_ok c" and n: "n = 2 ^ l" "l \<le> 32"
  shows "multi_cfg (with_ranks n l c)"
proof -
  let ?c = "with_ranks n l c"
  have "timing_cfg ?c" using d
    by (simp add: device_ok_def timing_cfg_def with_ranks_def READ_TO_PRE_DELAY_def READ_AUTOPRE_DELAY_def RL_def)
  moreover have "queue_cfg ?c" using d n by (simp add: device_ok_def queue_cfg_def with_ranks_def)
  moreover have "colHighBitWidth ?c = NUM_COLS_LOG c - COL_LOW_BIT_WIDTH c"
    using d by (simp add: device_ok_def colHighBitWidth_def with_ranks_def u32_sub_id)
  then have "map_cfg ?c" using d n(2) by (simp add: map_cfg_def widths_sum) (auto simp: device_ok_def with_ranks_def offset_bits_def)
  ultimately show ?thesis using d n by (simp add: multi_cfg_def dram_ok_def device_ok_def with_ranks_def)
qed

lemma pow2_div: "(2 :: nat) ^ a div 2 ^ b = (if b \<le> a then 2 ^ (a - b) else 0)"
  by (simp add: power_diff [symmetric] div_eq_0_iff)

lemma log2_pow2: "l < 32 \<Longrightarrow> dramsim_log2 (2 ^ l) = l"
proof -
  assume l: "l < 32"
  have lt: "(2 :: nat) ^ l < 2 ^ 32" using l by (intro power_strict_increasing) auto
  note S = dramsim_log2_spec [of "2 ^ l"]
  have "l \<le> dramsim_log2 (2 ^ l)" using S(1) lt by simp
  moreover have "2 ^ dramsim_log2 (2 ^ l) < (2 :: nat) ^ Suc l" using S(2) lt by simp
  then have "dramsim_log2 (2 ^ l) < Suc l" by (rule power_less_imp_less_exp [rotated]) simp
  ultimately show ?thesis by simp
qed

text \<open>The number of ranks is a power of two again.\<close>

lemma size_ranks_ok:
  assumes d: "device_ok c" and megs: "megs = 2 ^ a" "a < 32" and k: "megsOfStoragePerRank c = 2 ^ k"
  shows "size_ranks megs c = Inr (with_ranks (2 ^ (a - k)) (a - k) c)"
proof -
  have "DEVICE_WIDTH c \<noteq> 0" "megs \<noteq> 0" using d megs by (simp_all add: device_ok_def)
  moreover have "dramsim_log2 0 = 0" by (simp add: dramsim_log2_def log2_loop.simps)
  ultimately show ?thesis using megs k log2_pow2 [of "a - k"]
    by (auto simp: size_ranks_def Let_def pow2_div with_ranks_def)
qed

lemma device_ok_ranks: "device_ok c \<Longrightarrow> device_ok (with_ranks n l c)"
  unfolding device_ok_def with_ranks_simps
  by (auto simp: with_ranks_def timing_cfg_def READ_TO_PRE_DELAY_def READ_AUTOPRE_DELAY_def RL_def offset_bits_def)

lemma size_channels_ok:
  assumes megs: "megs = 2 ^ a" "a < 32" and k: "megsOfStoragePerRank c = 2 ^ k" and d: "device_ok c"
  shows "size_channels (Suc n) megs c = Inr (with_ranks (2 ^ (a - k)) (a - k) c)"
proof (induction n)
  case 0
  then show ?case using size_ranks_ok [OF d megs k] by simp
next
  case (Suc n)
  let ?c = "with_ranks (2 ^ (a - k)) (a - k) c"
  have again: "size_ranks megs ?c = Inr ?c" using size_ranks_ok [OF device_ok_ranks [OF d] megs] k by simp
  have "size_channels m megs ?c = Inr ?c" for m by (induction m) (simp_all add: again)
  then show ?case using size_ranks_ok [OF d megs k] by simp
qed

lemma newMultiChannel_ok:
  assumes d: "device_ok c" and megs: "megs = 2 ^ a" "a < 32" "NUM_CHANS c \<le> megs"
  shows "\<exists>l. newMultiChannel c megs = Inr (with_ranks (2 ^ l) l c, multi_start (with_ranks (2 ^ l) l c) 1 1) \<and>
    multi_cfg (with_ranks (2 ^ l) l c)"
proof -
  obtain k where k: "megsOfStoragePerRank c = 2 ^ k" using d by (auto simp: device_ok_def)
  have ch: "NUM_CHANS c = 2 ^ NUM_CHANS_LOG c" using d by (simp add: device_ok_def)
  have le: "NUM_CHANS_LOG c \<le> a" using megs ch by simp
  define b where "b = a - NUM_CHANS_LOG c"
  have div: "megs div NUM_CHANS c = 2 ^ b" using megs ch le by (simp add: pow2_div b_def)
  have "(2 :: nat) ^ a < 2 ^ 32" using megs(2) by (intro power_strict_increasing) auto
  then have "isPowerOfTwo megs" using isPowerOfTwo_iff [of megs] megs(1) by blast
  moreover obtain n where n: "NUM_CHANS c = Suc n" using ch gr0_implies_Suc [of "NUM_CHANS c"] by auto
  moreover have "b < 32" using megs(2) by (simp add: b_def)
  then have "size_channels (Suc n) (2 ^ b) c = Inr (with_ranks (2 ^ (b - k)) (b - k) c)" using size_channels_ok [OF refl _ k d] by blast
  ultimately have "newMultiChannel c megs = Inr (with_ranks (2 ^ (b - k)) (b - k) c, multi_start (with_ranks (2 ^ (b - k)) (b - k) c) 1 1)"
    using div by (simp add: newMultiChannel_def multi_start_def)
  moreover have "multi_cfg (with_ranks (2 ^ (b - k)) (b - k) c)" using \<open>b < 32\<close> by (intro multi_cfg_ranks [OF d]) auto
  ultimately show ?thesis by blast
qed

end
