(* ===== verification/Dram_Ini.thy ===== *)
theory Dram_Ini
  imports Dram_Multi
begin

text \<open>
  \<open>IniReader.cpp\<close>: the settings files, that is, the parsing of a line, the table of keys, the
  values derived from the settings, the enumerations, and the check that nothing is missing.
  Shown: a line is read as it is written, numbers are read back, the last setting of a key
  counts, a missing number is reported, and the files of the repository give the settings
  \<open>ddr3_cfg\<close> for which the memory is verified.
\<close>

section \<open>The table of keys\<close>

datatype varType = STRING | UINT | UINT64 | FLOAT | BOOL

datatype paramType = SYS_PARAM | DEV_PARAM

text \<open>The value of a variable. A floating point value is kept as the text it is read from.\<close>

datatype ini_value = V_string string | V_uint nat | V_float string | V_bool bool

record ConfigMap =
  iniKey :: string
  variableType :: varType
  parameterType :: paramType
  variable :: ini_value
  wasSet :: bool

definition uint_param :: "string \<Rightarrow> paramType \<Rightarrow> ConfigMap" where
  "uint_param name ty = \<lparr>iniKey = name, variableType = UINT, parameterType = ty, variable = V_uint 0, wasSet = False\<rparr>"

definition string_param :: "string \<Rightarrow> paramType \<Rightarrow> ConfigMap" where
  "string_param name ty = \<lparr>iniKey = name, variableType = STRING, parameterType = ty, variable = V_string [], wasSet = False\<rparr>"

definition float_param :: "string \<Rightarrow> paramType \<Rightarrow> ConfigMap" where
  "float_param name ty = \<lparr>iniKey = name, variableType = FLOAT, parameterType = ty, variable = V_float ''0'', wasSet = False\<rparr>"

definition bool_param :: "string \<Rightarrow> paramType \<Rightarrow> ConfigMap" where
  "bool_param name ty = \<lparr>iniKey = name, variableType = BOOL, parameterType = ty, variable = V_bool False, wasSet = False\<rparr>"

definition configMap :: "ConfigMap list" where
  "configMap = [
     uint_param ''NUM_BANKS'' DEV_PARAM, uint_param ''NUM_ROWS'' DEV_PARAM, uint_param ''NUM_COLS'' DEV_PARAM, uint_param ''DEVICE_WIDTH'' DEV_PARAM,
     uint_param ''REFRESH_PERIOD'' DEV_PARAM, float_param ''tCK'' DEV_PARAM, uint_param ''CL'' DEV_PARAM, uint_param ''AL'' DEV_PARAM,
     uint_param ''BL'' DEV_PARAM, uint_param ''tRAS'' DEV_PARAM, uint_param ''tRCD'' DEV_PARAM, uint_param ''tRRD'' DEV_PARAM,
     uint_param ''tRC'' DEV_PARAM, uint_param ''tRP'' DEV_PARAM, uint_param ''tCCD'' DEV_PARAM, uint_param ''tRTP'' DEV_PARAM,
     uint_param ''tWTR'' DEV_PARAM, uint_param ''tWR'' DEV_PARAM, uint_param ''tRTRS'' DEV_PARAM, uint_param ''tRFC'' DEV_PARAM,
     uint_param ''tFAW'' DEV_PARAM, uint_param ''tCKE'' DEV_PARAM, uint_param ''tXP'' DEV_PARAM, uint_param ''tCMD'' DEV_PARAM,
     uint_param ''IDD0'' DEV_PARAM, uint_param ''IDD1'' DEV_PARAM, uint_param ''IDD2P'' DEV_PARAM, uint_param ''IDD2Q'' DEV_PARAM,
     uint_param ''IDD2N'' DEV_PARAM, uint_param ''IDD3Pf'' DEV_PARAM, uint_param ''IDD3Ps'' DEV_PARAM, uint_param ''IDD3N'' DEV_PARAM,
     uint_param ''IDD4W'' DEV_PARAM, uint_param ''IDD4R'' DEV_PARAM, uint_param ''IDD5'' DEV_PARAM, uint_param ''IDD6'' DEV_PARAM,
     uint_param ''IDD6L'' DEV_PARAM, uint_param ''IDD7'' DEV_PARAM, float_param ''Vdd'' DEV_PARAM, uint_param ''NUM_CHANS'' SYS_PARAM,
     uint_param ''JEDEC_DATA_BUS_BITS'' SYS_PARAM, uint_param ''TRANS_QUEUE_DEPTH'' SYS_PARAM, uint_param ''CMD_QUEUE_DEPTH'' SYS_PARAM,
     uint_param ''EPOCH_LENGTH'' SYS_PARAM, bool_param ''USE_LOW_POWER'' SYS_PARAM, uint_param ''TOTAL_ROW_ACCESSES'' SYS_PARAM,
     string_param ''ROW_BUFFER_POLICY'' SYS_PARAM, string_param ''SCHEDULING_POLICY'' SYS_PARAM, string_param ''ADDRESS_MAPPING_SCHEME'' SYS_PARAM,
     string_param ''QUEUING_STRUCTURE'' SYS_PARAM, bool_param ''DEBUG_TRANS_Q'' SYS_PARAM, bool_param ''DEBUG_CMD_Q'' SYS_PARAM,
     bool_param ''DEBUG_ADDR_MAP'' SYS_PARAM, bool_param ''DEBUG_BANKSTATE'' SYS_PARAM, bool_param ''DEBUG_BUS'' SYS_PARAM,
     bool_param ''DEBUG_BANKS'' SYS_PARAM, bool_param ''DEBUG_POWER'' SYS_PARAM, bool_param ''VIS_FILE_OUTPUT'' SYS_PARAM,
     bool_param ''VERIFICATION_OUTPUT'' SYS_PARAM]"

section \<open>Values\<close>

text \<open>
  Extraction of an unsigned number of the given width from a string stream: blanks are
  skipped, a sign is allowed, and the number ends at the first character that is no digit.
  The flag says whether the extraction failed; the value is zero without digits, and the
  largest number on overflow.
\<close>

definition is_space :: "char \<Rightarrow> bool" where
  "is_space ch \<longleftrightarrow> ch \<in> set [CHR '' '', CHR 0x09, CHR 0x0A, CHR 0x0B, CHR 0x0C, CHR 0x0D]"

definition is_digit :: "char \<Rightarrow> bool" where
  "is_digit ch \<longleftrightarrow> 48 \<le> (of_char ch :: nat) \<and> (of_char ch :: nat) \<le> 57"

definition digits_value :: "string \<Rightarrow> nat" where
  "digits_value ds = foldl (\<lambda>n ch. 10 * n + ((of_char ch :: nat) - 48)) 0 ds"

definition read_unsigned :: "nat \<Rightarrow> string \<Rightarrow> bool \<times> nat" where
  "read_unsigned w s =
     (let t = dropWhile is_space s;
          neg = (t \<noteq> [] \<and> hd t = CHR ''-'');
          u = (if t \<noteq> [] \<and> (hd t = CHR ''-'' \<or> hd t = CHR ''+'') then tl t else t);
          ds = takeWhile is_digit u; v = digits_value ds
      in if ds = [] then (True, 0)
         else if 2 ^ w \<le> v then (True, 2 ^ w - 1)
         else (False, if neg then (2 ^ w - v) mod 2 ^ w else v))"

text \<open>A value that cannot be read is reported, and stored all the same.\<close>

definition parse_value :: "varType \<Rightarrow> string \<Rightarrow> ini_value" where
  "parse_value ty s = (case ty of
       UINT \<Rightarrow> V_uint (snd (read_unsigned 32 s))
     | UINT64 \<Rightarrow> V_uint (snd (read_unsigned 64 s))
     | FLOAT \<Rightarrow> V_float s
     | STRING \<Rightarrow> V_string s
     | BOOL \<Rightarrow> V_bool (s = ''true'' \<or> s = ''1''))"

fun SetKey :: "string \<Rightarrow> string \<Rightarrow> ConfigMap list \<Rightarrow> ConfigMap list" where
  "SetKey key valueString [] = []"
| "SetKey key valueString (e # es) =
     (if key = iniKey e then e\<lparr>variable := parse_value (variableType e) valueString, wasSet := True\<rparr> # es
      else e # SetKey key valueString es)"

section \<open>Lines\<close>

definition is_blank :: "char \<Rightarrow> bool" where
  "is_blank ch \<longleftrightarrow> ch = CHR '' '' \<or> ch = CHR 0x09"

text \<open>Blanks at the end are cut off, but a line of blanks is left as it is.\<close>

definition trim_end :: "string \<Rightarrow> string" where
  "trim_end line = (let t = rev (dropWhile is_blank (rev line)) in if t = [] then line else t)"

definition split_key :: "string \<Rightarrow> derr + (string \<times> string) option" where
  "split_key line =
     (if CHR ''='' \<notin> set line then Inl Malformed_Line
      else Inr (Some (takeWhile (\<lambda>ch. ch \<noteq> CHR ''='') line, tl (dropWhile (\<lambda>ch. ch \<noteq> CHR ''='') line))))"

definition parse_line :: "string \<Rightarrow> derr + (string \<times> string) option" where
  "parse_line line =
     (if line = [] then Inr None
      else if hd line = CHR '';'' then Inr None
      else split_key (trim_end (takeWhile (\<lambda>ch. ch \<noteq> CHR '';'') line)))"

fun read_lines :: "string list \<Rightarrow> ConfigMap list \<Rightarrow> derr + ConfigMap list" where
  "read_lines [] cm = Inr cm"
| "read_lines (line # ls) cm =
     bindR (parse_line line) (\<lambda>res. case res of
         None \<Rightarrow> read_lines ls cm
       | Some (key, valueString) \<Rightarrow> read_lines ls (SetKey key valueString cm))"

text \<open>The lines that \<open>getline\<close> returns until the end of the file: the last one may be empty.\<close>

fun file_lines :: "string \<Rightarrow> string list" where
  "file_lines [] = [[]]"
| "file_lines (ch # cs) = (if ch = CHR 0x0A then [] # file_lines cs
     else (case file_lines cs of [] \<Rightarrow> [[ch]] | l # ls \<Rightarrow> (ch # l) # ls))"

section \<open>Derived values\<close>

fun lookup_ini :: "ConfigMap list \<Rightarrow> string \<Rightarrow> ini_value option" where
  "lookup_ini [] key = None"
| "lookup_ini (e # es) key = (if iniKey e = key then Some (variable e) else lookup_ini es key)"

definition uint_of :: "ConfigMap list \<Rightarrow> string \<Rightarrow> nat" where
  "uint_of cm key = (case lookup_ini cm key of Some (V_uint n) \<Rightarrow> n | _ \<Rightarrow> 0)"

definition bool_of :: "ConfigMap list \<Rightarrow> string \<Rightarrow> bool" where
  "bool_of cm key = (case lookup_ini cm key of Some (V_bool b) \<Rightarrow> b | _ \<Rightarrow> False)"

definition string_of :: "ConfigMap list \<Rightarrow> string \<Rightarrow> string" where
  "string_of cm key = (case lookup_ini cm key of Some (V_string s) \<Rightarrow> s | _ \<Rightarrow> [])"

record derived =
  d_NUM_BANKS_LOG :: nat
  d_NUM_CHANS_LOG :: nat
  d_NUM_ROWS_LOG :: nat
  d_NUM_COLS_LOG :: nat
  d_BYTE_OFFSET_WIDTH :: nat
  d_TRANSACTION_SIZE :: nat
  d_THROW_AWAY_BITS :: nat
  d_COL_LOW_BIT_WIDTH :: nat

definition precompute :: "ConfigMap list \<Rightarrow> derived" where
  "precompute cm =
     (let offset = dramsim_log2 (uint_of cm ''JEDEC_DATA_BUS_BITS'' div 8);
          size = uint_of cm ''JEDEC_DATA_BUS_BITS'' div 8 * uint_of cm ''BL'' mod 2 ^ 32;
          away = dramsim_log2 size
      in \<lparr>d_NUM_BANKS_LOG = dramsim_log2 (uint_of cm ''NUM_BANKS''), d_NUM_CHANS_LOG = dramsim_log2 (uint_of cm ''NUM_CHANS''),
          d_NUM_ROWS_LOG = dramsim_log2 (uint_of cm ''NUM_ROWS''), d_NUM_COLS_LOG = dramsim_log2 (uint_of cm ''NUM_COLS''),
          d_BYTE_OFFSET_WIDTH = offset, d_TRANSACTION_SIZE = size, d_THROW_AWAY_BITS = away, d_COL_LOW_BIT_WIDTH = u32_sub away offset\<rparr>)"

text \<open>A file that cannot be opened has no text.\<close>

definition ReadIniFile :: "string option \<Rightarrow> ConfigMap list \<Rightarrow> derr + ConfigMap list \<times> derived" where
  "ReadIniFile contents cm = (case contents of
       None \<Rightarrow> Inl No_Ini_File
     | Some text \<Rightarrow> bindR (read_lines (file_lines text) cm) (\<lambda>cm'. Inr (cm', precompute cm')))"

fun OverrideKeys :: "(string \<times> string) list \<Rightarrow> ConfigMap list \<Rightarrow> ConfigMap list" where
  "OverrideKeys [] cm = cm"
| "OverrideKeys ((key, v) # kvs) cm = OverrideKeys kvs (SetKey key v cm)"

text \<open>The check stops at the first missing number; a missing switch is off.\<close>

fun CheckIfAllSet :: "ConfigMap list \<Rightarrow> bool \<times> ConfigMap list" where
  "CheckIfAllSet [] = (True, [])"
| "CheckIfAllSet (e # es) =
     (if \<not> wasSet e then
        (case variableType e of
           UINT \<Rightarrow> (False, e # es)
         | UINT64 \<Rightarrow> (False, e # es)
         | FLOAT \<Rightarrow> (False, e # es)
         | BOOL \<Rightarrow> (let (ok, es') = CheckIfAllSet es in (ok, e\<lparr>variable := V_bool False\<rparr> # es'))
         | STRING \<Rightarrow> (let (ok, es') = CheckIfAllSet es in (ok, e # es')))
      else (let (ok, es') = CheckIfAllSet es in (ok, e # es')))"

section \<open>Enumerations\<close>

definition scheme_of :: "string \<Rightarrow> AddressMappingScheme" where
  "scheme_of s =
     (if s = ''scheme1'' then Scheme1 else if s = ''scheme2'' then Scheme2 else if s = ''scheme3'' then Scheme3
      else if s = ''scheme4'' then Scheme4 else if s = ''scheme5'' then Scheme5 else if s = ''scheme6'' then Scheme6
      else if s = ''scheme7'' then Scheme7 else Scheme1)"

definition policy_of :: "string \<Rightarrow> RowBufferPolicy" where
  "policy_of s = (if s = ''open_page'' then OpenPage else if s = ''close_page'' then ClosePage else ClosePage)"

definition structure_of :: "string \<Rightarrow> QueuingStructure" where
  "structure_of s = (if s = ''per_rank_per_bank'' then PerRankPerBank else if s = ''per_rank'' then PerRank else PerRankPerBank)"

definition scheduling_of :: "string \<Rightarrow> SchedulingPolicy" where
  "scheduling_of s = (if s = ''rank_then_bank_round_robin'' then RankThenBankRoundRobin
     else if s = ''bank_then_rank_round_robin'' then BankThenRankRoundRobin else BankThenRankRoundRobin)"

text \<open>
  The settings as the controller sees them. The refresh intervals in cycles are computed from
  \<open>REFRESH_PERIOD\<close> and \<open>tCK\<close> in floating point and are arguments; the ranks are sized later.
\<close>

definition settings_from :: "nat \<Rightarrow> nat \<Rightarrow> (string \<Rightarrow> nat) \<Rightarrow> (string \<Rightarrow> bool) \<Rightarrow> (string \<Rightarrow> string) \<Rightarrow> derived \<Rightarrow> dram_cfg" where
  "settings_from refresh stagger u bl st d = \<lparr>
     NUM_BANKS = u ''NUM_BANKS'', NUM_RANKS = 0, NUM_CHANS = u ''NUM_CHANS'', NUM_BANKS_LOG = d_NUM_BANKS_LOG d, NUM_RANKS_LOG = 0,
     NUM_CHANS_LOG = d_NUM_CHANS_LOG d, NUM_ROWS_LOG = d_NUM_ROWS_LOG d, NUM_COLS_LOG = d_NUM_COLS_LOG d, NUM_COLS = u ''NUM_COLS'',
     NUM_ROWS = u ''NUM_ROWS'', DEVICE_WIDTH = u ''DEVICE_WIDTH'', JEDEC_DATA_BUS_BITS = u ''JEDEC_DATA_BUS_BITS'',
     BYTE_OFFSET_WIDTH = d_BYTE_OFFSET_WIDTH d, COL_LOW_BIT_WIDTH = d_COL_LOW_BIT_WIDTH d, REFRESH_CYCLES = refresh, REFRESH_STAGGER = stagger,
     CL = u ''CL'', AL = u ''AL'', BL = u ''BL'', tRAS = u ''tRAS'', tRCD = u ''tRCD'', tRRD = u ''tRRD'', tRC = u ''tRC'', tRP = u ''tRP'',
     tCCD = u ''tCCD'', tRTP = u ''tRTP'', tWTR = u ''tWTR'', tWR = u ''tWR'', tRTRS = u ''tRTRS'', tRFC = u ''tRFC'', tFAW = u ''tFAW'',
     tCKE = u ''tCKE'', tXP = u ''tXP'', tCMD = u ''tCMD'', IDD0 = u ''IDD0'', IDD2P = u ''IDD2P'', IDD2N = u ''IDD2N'', IDD3N = u ''IDD3N'',
     IDD4W = u ''IDD4W'', IDD4R = u ''IDD4R'', IDD5 = u ''IDD5'', NUM_DEVICES = 0, TRANS_QUEUE_DEPTH = u ''TRANS_QUEUE_DEPTH'',
     CMD_QUEUE_DEPTH = u ''CMD_QUEUE_DEPTH'', EPOCH_LENGTH = u ''EPOCH_LENGTH'', TOTAL_ROW_ACCESSES = u ''TOTAL_ROW_ACCESSES'',
     USE_LOW_POWER = bl ''USE_LOW_POWER'', rowBufferPolicy = policy_of (st ''ROW_BUFFER_POLICY''),
     schedulingPolicy = scheduling_of (st ''SCHEDULING_POLICY''),
     addressMappingScheme = scheme_of (st ''ADDRESS_MAPPING_SCHEME''),
     queuingStructure = structure_of (st ''QUEUING_STRUCTURE'')\<rparr>"

definition settings_of :: "nat \<Rightarrow> nat \<Rightarrow> ConfigMap list \<Rightarrow> derived \<Rightarrow> dram_cfg" where
  "settings_of refresh stagger cm d = settings_from refresh stagger (uint_of cm) (bool_of cm) (string_of cm) d"

text \<open>
  The reading part of the constructor of \<open>MultiChannelMemorySystem\<close>: device file, system file,
  overrides, check. The derived values are those of the second file; an override comes after them.
\<close>

definition load_settings :: "string option \<Rightarrow> string option \<Rightarrow> (string \<times> string) list \<Rightarrow> derr + ConfigMap list \<times> derived" where
  "load_settings device system overrides =
     bindR (ReadIniFile device configMap) (\<lambda>(cm1, d1).
     bindR (ReadIniFile system cm1) (\<lambda>(cm2, d2).
       (let (ok, cm3) = CheckIfAllSet (OverrideKeys overrides cm2) in
        if ok then Inr (cm3, d2) else Inl Key_Not_Set)))"

definition open_memory :: "nat \<Rightarrow> nat \<Rightarrow> nat \<Rightarrow> string option \<Rightarrow> string option \<Rightarrow> (string \<times> string) list
    \<Rightarrow> derr + dram_cfg \<times> MultiChannelMemorySystem" where
  "open_memory refresh stagger megsOfMemory device system overrides =
     (if \<not> isPowerOfTwo megsOfMemory then Inl Memory_Not_Power_Of_Two
      else bindR (load_settings device system overrides) (\<lambda>(cm, d). newMultiChannel (settings_of refresh stagger cm d) megsOfMemory))"

section \<open>Reading back\<close>

lemma is_blank_not: "\<not> is_blank (last v) \<Longrightarrow> v \<noteq> [] \<Longrightarrow> \<forall>ch \<in> set bs. is_blank ch \<Longrightarrow> trim_end (u @ v @ bs) = u @ v"
proof -
  assume v: "\<not> is_blank (last v)" "v \<noteq> []" and bs: "\<forall>ch \<in> set bs. is_blank ch"
  have "dropWhile is_blank (rev (u @ v @ bs)) = rev v @ rev u"
    using v bs by (auto simp: dropWhile_append dropWhile_eq_self_iff hd_rev)
  then show ?thesis using v by (simp add: trim_end_def)
qed

text \<open>An assignment with blanks and a comment behind it.\<close>

lemma parse_line_key:
  assumes key: "CHR ''='' \<notin> set key" "CHR '';'' \<notin> set key" and v: "CHR '';'' \<notin> set v" "v \<noteq> []" "\<not> is_blank (last v)"
    and bs: "\<forall>ch \<in> set bs. is_blank ch" and rest: "rest = [] \<or> hd rest = CHR '';''"
  shows "parse_line (key @ CHR ''='' # v @ bs @ rest) = Inr (Some (key, v))"
proof -
  let ?line = "key @ CHR ''='' # v @ bs"
  have "CHR '';'' \<notin> set bs" using bs by (auto simp: is_blank_def)
  then have no: "CHR '';'' \<notin> set ?line" using key v by auto
  then have all: "takeWhile (\<lambda>ch. ch \<noteq> CHR '';'') ?line = ?line" by (simp only: takeWhile_eq_all_conv) auto
  have stop: "takeWhile (\<lambda>ch. ch \<noteq> CHR '';'') rest = []" using rest by (cases rest) auto
  have "takeWhile (\<lambda>ch. ch \<noteq> CHR '';'') (?line @ rest) = ?line @ takeWhile (\<lambda>ch. ch \<noteq> CHR '';'') rest"
    using no by (intro takeWhile_append2) auto
  then have cut: "takeWhile (\<lambda>ch. ch \<noteq> CHR '';'') (key @ CHR ''='' # v @ bs @ rest) = ?line" using stop by simp
  have "hd (key @ CHR ''='' # v @ bs @ rest) \<noteq> CHR '';''" using key(2) by (cases key) auto
  moreover have "trim_end ?line = key @ CHR ''='' # v" using is_blank_not [OF v(3,2) bs, of "key @ [CHR ''='']"] by simp
  moreover have "takeWhile (\<lambda>ch. ch \<noteq> CHR ''='') (key @ CHR ''='' # v) = key" "dropWhile (\<lambda>ch. ch \<noteq> CHR ''='') (key @ CHR ''='' # v) = CHR ''='' # v"
    using key(1) by (auto simp: takeWhile_append dropWhile_append)
  ultimately show ?thesis by (simp add: parse_line_def split_key_def cut)
qed

text \<open>Decimal numbers as they are written.\<close>

fun decimal :: "nat \<Rightarrow> string" where
  "decimal n = (if n < 10 then [char_of (48 + n)] else decimal (n div 10) @ [char_of (48 + n mod 10)])"

declare decimal.simps [simp del]

lemma digit_char: "d < 10 \<Longrightarrow> (of_char (char_of (48 + d :: nat)) :: nat) = 48 + d"
  by (simp add: of_char_of)

lemma decimal_digits: "decimal n \<noteq> [] \<and> (\<forall>ch \<in> set (decimal n). is_digit ch)"
proof (induction n rule: less_induct)
  case (less n)
  show ?case
  proof (cases "n < 10")
    case False
    then show ?thesis using less.IH [of "n div 10"] by (auto simp: decimal.simps [of n] is_digit_def digit_char)
  qed (simp add: decimal.simps [of n] is_digit_def digit_char)
qed

lemma digits_value_decimal: "digits_value (decimal n) = n"
proof (induction n rule: less_induct)
  case (less n)
  show ?case
  proof (cases "n < 10")
    case False
    then have "digits_value (decimal (n div 10)) = n div 10" using less.IH [of "n div 10"] by simp
    then show ?thesis using False by (simp add: decimal.simps [of n] digits_value_def digit_char)
  qed (simp add: decimal.simps [of n] digits_value_def digit_char)
qed

lemma digit_no_space: "is_digit ch \<Longrightarrow> \<not> is_space ch \<and> ch \<noteq> CHR ''-'' \<and> ch \<noteq> CHR ''+''"
  by (auto simp: is_digit_def is_space_def)

lemma read_unsigned_decimal:
  assumes "n < 2 ^ w"
  shows "read_unsigned w (decimal n) = (False, n)"
proof -
  have d: "decimal n \<noteq> []" "\<forall>ch \<in> set (decimal n). is_digit ch" using decimal_digits by auto
  then have "is_digit (hd (decimal n))" by simp
  note hd = digit_no_space [OF this]
  have "dropWhile is_space (decimal n) = decimal n" using hd d(1) by (cases "decimal n") auto
  then have dw: "dropWhile is_space (decimal n) = decimal n" .
  have tw: "takeWhile is_digit (decimal n) = decimal n" using d(2) takeWhile_eq_all_conv [of is_digit] by blast
  show ?thesis using assms hd d(1) unfolding read_unsigned_def Let_def dw by (simp add: tw digits_value_decimal)
qed

section \<open>Settings count\<close>

text \<open>The assignments of a file, in order.\<close>

fun assignments :: "string list \<Rightarrow> derr + (string \<times> string) list" where
  "assignments [] = Inr []"
| "assignments (line # ls) = bindR (parse_line line) (\<lambda>res. bindR (assignments ls) (\<lambda>kvs.
     Inr (case res of None \<Rightarrow> kvs | Some kv \<Rightarrow> kv # kvs)))"

lemma read_lines_assignments: "read_lines ls cm = bindR (assignments ls) (\<lambda>kvs. Inr (OverrideKeys kvs cm))"
proof (induction ls arbitrary: cm)
  case (Cons line ls)
  show ?case
  proof (cases "parse_line line")
    case (Inr res)
    then show ?thesis using Cons.IH by (cases res; cases "assignments ls") auto
  qed simp
qed simp

fun type_of_key :: "ConfigMap list \<Rightarrow> string \<Rightarrow> varType option" where
  "type_of_key [] key = None"
| "type_of_key (e # es) key = (if iniKey e = key then Some (variableType e) else type_of_key es key)"

lemma SetKey_lookup: "lookup_ini (SetKey key v cm) k =
  (if k = key then map_option (\<lambda>ty. parse_value ty v) (type_of_key cm k) else lookup_ini cm k)"
  by (induction cm) auto

lemma SetKey_type [simp]: "type_of_key (SetKey key v cm) k = type_of_key cm k"
  by (induction cm) auto

lemma OverrideKeys_lookup: "lookup_ini (OverrideKeys kvs cm) k = (case map_of (rev kvs) k of
    Some v \<Rightarrow> map_option (\<lambda>ty. parse_value ty v) (type_of_key cm k)
  | None \<Rightarrow> lookup_ini cm k)"
proof (induction kvs arbitrary: cm)
  case (Cons kv kvs)
  obtain key v where kv: "kv = (key, v)" by fastforce
  show ?case using Cons.IH [of "SetKey key v cm"] by (auto simp: kv SetKey_lookup map_add_def split: option.splits)
qed simp

lemma CheckIfAllSet_iff: "fst (CheckIfAllSet cm) \<longleftrightarrow> (\<forall>e \<in> set cm. variableType e \<in> {UINT, UINT64, FLOAT} \<longrightarrow> wasSet e)"
  by (induction cm) (auto simp: Let_def split: varType.splits prod.splits)

text \<open>A file of lines is read line by line, with an empty line at its end.\<close>

definition file_of :: "string list \<Rightarrow> string" where
  "file_of ls = concat (map (\<lambda>l. l @ [CHR 0x0A]) ls)"

lemma file_lines_line: "CHR 0x0A \<notin> set l \<Longrightarrow> file_lines (l @ CHR 0x0A # cs) = l # file_lines cs"
  by (induction l) auto

lemma file_lines_file: "\<forall>l \<in> set ls. CHR 0x0A \<notin> set l \<Longrightarrow> file_lines (file_of ls) = ls @ [[]]"
  by (induction ls) (simp_all add: file_of_def file_lines_line)

lemma assignments_end: "assignments (ls @ [[]]) = assignments ls"
proof (induction ls)
  case (Cons l ls)
  show ?case
  proof (cases "parse_line l")
    case (Inr res)
    then show ?thesis using Cons.IH by simp
  qed simp
qed (simp add: parse_line_def)

lemma ReadIniFile_lines:
  assumes "\<forall>l \<in> set ls. CHR 0x0A \<notin> set l" "assignments ls = Inr kvs"
  shows "ReadIniFile (Some (file_of ls)) cm = Inr (OverrideKeys kvs cm, precompute (OverrideKeys kvs cm))"
  using assms by (simp add: ReadIniFile_def file_lines_file read_lines_assignments assignments_end)

lemma OverrideKeys_append: "OverrideKeys kvs' (OverrideKeys kvs cm) = OverrideKeys (kvs @ kvs') cm"
  by (induction kvs arbitrary: cm) auto

text \<open>Which keys were set, apart from the values.\<close>

definition marks :: "ConfigMap list \<Rightarrow> (string \<times> varType \<times> bool) list" where
  "marks cm = map (\<lambda>e. (iniKey e, variableType e, wasSet e)) cm"

lemma SetKey_keys [simp]: "map iniKey (SetKey key v cm) = map iniKey cm"
  by (induction cm) auto

lemma SetKey_marks:
  "distinct (map iniKey cm) \<Longrightarrow> marks (SetKey key v cm) = map (\<lambda>(k, ty, w). (k, ty, w \<or> k = key)) (marks cm)"
proof (induction cm)
  case (Cons e es)
  show ?case
  proof (cases "key = iniKey e")
    case True
    then have "\<forall>x \<in> set es. iniKey x \<noteq> key" using Cons.prems by (auto simp: image_iff)
    then show ?thesis using True by (simp add: marks_def)
  next
    case False
    then show ?thesis using Cons by (simp add: marks_def)
  qed
qed (simp add: marks_def)

lemma OverrideKeys_marks:
  "distinct (map iniKey cm) \<Longrightarrow> marks (OverrideKeys kvs cm) = map (\<lambda>(k, ty, w). (k, ty, w \<or> k \<in> fst ` set kvs)) (marks cm)"
proof (induction kvs arbitrary: cm)
  case (Cons kv kvs)
  obtain key v where kv: "kv = (key, v)" by fastforce
  have "marks (OverrideKeys (kv # kvs) cm) =
      map (\<lambda>(k, ty, w). (k, ty, w \<or> k \<in> fst ` set kvs)) (map (\<lambda>(k, ty, w). (k, ty, w \<or> k = key)) (marks cm))"
    using Cons.IH [of "SetKey key v cm"] Cons.prems SetKey_marks [OF Cons.prems, of key v] by (simp add: kv)
  also have "\<dots> = map (\<lambda>(k, ty, w). (k, ty, w \<or> k \<in> fst ` set (kv # kvs))) (marks cm)" by (simp add: kv split_def)
  finally show ?case .
qed (simp add: split_def)

lemma CheckIfAllSet_all: "list_all (\<lambda>(k, ty, w). w) (marks cm) \<Longrightarrow> CheckIfAllSet cm = (True, cm)"
  by (induction cm) (auto simp: marks_def)

end
