(* ===== verification/Dram_Files.thy ===== *)
theory Dram_Files
  imports Dram_Ini
begin

text \<open>
  The settings files of the repository, \<open>ini/DDR3_micron_32M_8B_x8_sg15.ini\<close> and \<open>system.ini\<close>,
  line by line, and the memory they describe.
\<close>

section \<open>The files\<close>

definition tabs :: "nat \<Rightarrow> string" where
  "tabs n = replicate n (CHR 0x09)"

definition device_ini :: "string list" where
  "device_ini = [
     ''NUM_BANKS=8'',
     ''NUM_ROWS=32768'',
     ''NUM_COLS=1024'',
     ''DEVICE_WIDTH=8'',
     [],
     '';in nanoseconds'',
     '';#define REFRESH_PERIOD 7800'',
     ''REFRESH_PERIOD=7800'',
     ''tCK=1.5 ;*'',
     [],
     ''CL=10 ;*'',
     ''AL=0 ;*'',
     '';AL=3; needs to be tRCD-1 or 0'',
     '';RL=(CL+AL)'',
     '';WL=(RL-1)'',
     ''BL=8 ;*'',
     ''tRAS=24;* '',
     ''tRCD=10 ;*'',
     ''tRRD=4 ;*'',
     ''tRC=34 ;*'',
     ''tRP=10  ;*'',
     ''tCCD=4 ;*'',
     ''tRTP=5 ;*'',
     ''tWTR=5 ;*'',
     ''tWR=10 ;*'',
     ''tRTRS=1; -- RANK PARAMETER, TODO '',
     ''tRFC=107;*'',
     ''tFAW=20;*'',
     ''tCKE=4 ;*'',
     ''tXP=4 ;*'',
     [],
     ''tCMD=1 ;*'',
     [],
     ''IDD0=130;'',
     ''IDD1=155;'',
     ''IDD2P=10;'',
     ''IDD2Q=70;'',
     ''IDD2N=70;'',
     ''IDD3Pf=60;'',
     ''IDD3Ps=60;'',
     ''IDD3N=90;'',
     ''IDD4W=300;'',
     ''IDD4R=255;'',
     ''IDD5=305;'',
     ''IDD6=9;'',
     ''IDD6L=12;'',
     ''IDD7=460;'',
     [],
     '';same bank'',
     '';READ_TO_PRE_DELAY=(AL+BL/2+max(tRTP,2)-2)'',
     '';WRITE_TO_PRE_DELAY=(WL+BL/2+tWR)'',
     '';READ_TO_WRITE_DELAY=(RL+BL/2+tRTRS-WL)'',
     '';READ_AUTOPRE_DELAY=(AL+tRTP+tRP)'',
     '';WRITE_AUTOPRE_DELAY=(WL+BL/2+tWR+tRP)'',
     '';WRITE_TO_READ_DELAY_B=(WL+BL/2+tWTR);interbank'',
     '';WRITE_TO_READ_DELAY_R=(WL+BL/2+tRTRS-RL);interrank'',
     [],
     ''Vdd=1.5 ; TODO: double check this'']"

definition system_ini :: "string list" where
  "system_ini = [
     ''; COPY THIS FILE AND MODIFY IT TO SUIT YOUR NEEDS'',
     [],
     ''NUM_CHANS=1'' @ tabs 8 @ ''; number of *logically independent* channels (i.e. each with a separate memory controller); should be a power of 2'',
     ''JEDEC_DATA_BUS_BITS=64 '' @ tabs 2 @ '' '' @ tabs 2 @ ''; Always 64 for DDRx; if you want multiple *ganged* channels, set this to N*64'',
     ''TRANS_QUEUE_DEPTH=32'' @ tabs 5 @ ''; transaction queue, i.e., CPU-level commands such as:  READ 0xbeef'',
     ''CMD_QUEUE_DEPTH=32'' @ tabs 6 @ ''; command queue, i.e., DRAM-level commands such as: CAS 544, RAS 4'',
     ''EPOCH_LENGTH=100000'' @ tabs 6 @ ''; length of an epoch in cycles (granularity of simulation)'',
     ''ROW_BUFFER_POLICY=open_page '' @ tabs 2 @ ''; close_page or open_page'',
     ''ADDRESS_MAPPING_SCHEME=scheme2'' @ tabs 1 @ '';valid schemes 1-7; For multiple independent channels, use scheme7 since it has the most parallelism '',
     ''SCHEDULING_POLICY=rank_then_bank_round_robin  ; bank_then_rank_round_robin or rank_then_bank_round_robin '',
     ''QUEUING_STRUCTURE=per_rank'' @ tabs 3 @ '';per_rank or per_rank_per_bank'',
     [],
     '';for true/false, please use all lowercase'',
     ''DEBUG_TRANS_Q=false'',
     ''DEBUG_CMD_Q=false'',
     ''DEBUG_ADDR_MAP=false'',
     ''DEBUG_BUS=false'',
     ''DEBUG_BANKSTATE=false'',
     ''DEBUG_BANKS=false'',
     ''DEBUG_POWER=false'',
     ''VIS_FILE_OUTPUT=true'',
     [],
     ''USE_LOW_POWER=true '' @ tabs 5 @ ''; go into low power mode when idle?'',
     ''VERIFICATION_OUTPUT=false '' @ tabs 3 @ ''; should be false for normal operation'',
     ''TOTAL_ROW_ACCESSES=4'' @ tabs 1 @ ''; '' @ tabs 4 @ ''maximum number of open page requests to send to the same row before forcing a row close (to prevent starvation)'']"

section \<open>What they set\<close>

definition device_settings :: "(string \<times> string) list" where
  "device_settings = [
     (''NUM_BANKS'', ''8''), (''NUM_ROWS'', ''32768''), (''NUM_COLS'', ''1024''), (''DEVICE_WIDTH'', ''8''), (''REFRESH_PERIOD'', ''7800''),
     (''tCK'', ''1.5''), (''CL'', ''10''), (''AL'', ''0''), (''BL'', ''8''), (''tRAS'', ''24''), (''tRCD'', ''10''), (''tRRD'', ''4''),
     (''tRC'', ''34''), (''tRP'', ''10''), (''tCCD'', ''4''), (''tRTP'', ''5''), (''tWTR'', ''5''), (''tWR'', ''10''), (''tRTRS'', ''1''),
     (''tRFC'', ''107''), (''tFAW'', ''20''), (''tCKE'', ''4''), (''tXP'', ''4''), (''tCMD'', ''1''), (''IDD0'', ''130''), (''IDD1'', ''155''),
     (''IDD2P'', ''10''), (''IDD2Q'', ''70''), (''IDD2N'', ''70''), (''IDD3Pf'', ''60''), (''IDD3Ps'', ''60''), (''IDD3N'', ''90''),
     (''IDD4W'', ''300''), (''IDD4R'', ''255''), (''IDD5'', ''305''), (''IDD6'', ''9''), (''IDD6L'', ''12''), (''IDD7'', ''460''),
     (''Vdd'', ''1.5'')]"

definition system_settings :: "(string \<times> string) list" where
  "system_settings = [
     (''NUM_CHANS'', ''1''), (''JEDEC_DATA_BUS_BITS'', ''64''), (''TRANS_QUEUE_DEPTH'', ''32''), (''CMD_QUEUE_DEPTH'', ''32''),
     (''EPOCH_LENGTH'', ''100000''), (''ROW_BUFFER_POLICY'', ''open_page''), (''ADDRESS_MAPPING_SCHEME'', ''scheme2''),
     (''SCHEDULING_POLICY'', ''rank_then_bank_round_robin''), (''QUEUING_STRUCTURE'', ''per_rank''), (''DEBUG_TRANS_Q'', ''false''),
     (''DEBUG_CMD_Q'', ''false''), (''DEBUG_ADDR_MAP'', ''false''), (''DEBUG_BUS'', ''false''), (''DEBUG_BANKSTATE'', ''false''),
     (''DEBUG_BANKS'', ''false''), (''DEBUG_POWER'', ''false''), (''VIS_FILE_OUTPUT'', ''true''), (''USE_LOW_POWER'', ''true''),
     (''VERIFICATION_OUTPUT'', ''false''), (''TOTAL_ROW_ACCESSES'', ''4'')]"

lemma device_lines: "list_all (\<lambda>l. CHR 0x0A \<notin> set l) device_ini"
  by code_simp

lemma system_lines: "list_all (\<lambda>l. CHR 0x0A \<notin> set l) system_ini"
  by code_simp

lemma device_assignments: "assignments device_ini = Inr device_settings"
  by code_simp

lemma system_assignments: "assignments system_ini = Inr system_settings"
  by code_simp

abbreviation all_settings :: "(string \<times> string) list" where
  "all_settings \<equiv> device_settings @ system_settings"

lemma keys_distinct: "distinct (map iniKey configMap)"
  by code_simp

lemma all_set: "list_all (\<lambda>(k, ty, w). w) (map (\<lambda>(k, ty, w). (k, ty, w \<or> k \<in> set (map fst all_settings))) (marks configMap))"
  by code_simp

lemma load_repository:
  "load_settings (Some (file_of device_ini)) (Some (file_of system_ini)) [] =
   Inr (OverrideKeys all_settings configMap, precompute (OverrideKeys all_settings configMap))"
proof -
  have l: "\<forall>l \<in> set device_ini. CHR 0x0A \<notin> set l" "\<forall>l \<in> set system_ini. CHR 0x0A \<notin> set l"
    using device_lines system_lines by (simp_all add: list_all_iff)
  have "list_all (\<lambda>(k, ty, w). w) (marks (OverrideKeys all_settings configMap))"
    unfolding OverrideKeys_marks [OF keys_distinct] using all_set by (simp add: image_Un)
  then have "CheckIfAllSet (OverrideKeys all_settings configMap) = (True, OverrideKeys all_settings configMap)" by (rule CheckIfAllSet_all)
  then show ?thesis
    by (simp add: load_settings_def ReadIniFile_lines [OF l(1) device_assignments] ReadIniFile_lines [OF l(2) system_assignments]
        OverrideKeys_append)
qed

text \<open>The values of the keys, looked up in the assignments.\<close>

definition final_value :: "string \<Rightarrow> ini_value option" where
  "final_value k = (case map_of (rev all_settings) k of
       Some v \<Rightarrow> map_option (\<lambda>ty. parse_value ty v) (type_of_key configMap k)
     | None \<Rightarrow> lookup_ini configMap k)"

definition final_uint :: "string \<Rightarrow> nat" where
  "final_uint k = (case final_value k of Some (V_uint n) \<Rightarrow> n | _ \<Rightarrow> 0)"

definition final_bool :: "string \<Rightarrow> bool" where
  "final_bool k = (case final_value k of Some (V_bool b) \<Rightarrow> b | _ \<Rightarrow> False)"

definition final_string :: "string \<Rightarrow> string" where
  "final_string k = (case final_value k of Some (V_string s) \<Rightarrow> s | _ \<Rightarrow> [])"

lemma final_lookup:
  "uint_of (OverrideKeys all_settings configMap) = final_uint" "bool_of (OverrideKeys all_settings configMap) = final_bool"
  "string_of (OverrideKeys all_settings configMap) = final_string"
  by (rule ext, simp add: uint_of_def bool_of_def string_of_def final_uint_def final_bool_def final_string_def final_value_def OverrideKeys_lookup)+

definition final_derived :: derived where
  "final_derived = \<lparr>d_NUM_BANKS_LOG = 3, d_NUM_CHANS_LOG = 0, d_NUM_ROWS_LOG = 15, d_NUM_COLS_LOG = 10, d_BYTE_OFFSET_WIDTH = 3,
     d_TRANSACTION_SIZE = 64, d_THROW_AWAY_BITS = 6, d_COL_LOW_BIT_WIDTH = 3\<rparr>"

lemma final_uints: "final_uint ''JEDEC_DATA_BUS_BITS'' = 64" "final_uint ''BL'' = 8" "final_uint ''NUM_BANKS'' = 8" "final_uint ''NUM_CHANS'' = 1"
  "final_uint ''NUM_ROWS'' = 32768" "final_uint ''NUM_COLS'' = 1024"
  by code_simp+

lemma final_precompute: "precompute (OverrideKeys all_settings configMap) = final_derived"
proof -
  have "dramsim_log2 8 = 3" "dramsim_log2 64 = 6" "dramsim_log2 1 = 0" "dramsim_log2 32768 = 15" "dramsim_log2 1024 = 10"
    using log2_pow2 [of 3] log2_pow2 [of 6] log2_pow2 [of 0] log2_pow2 [of 15] log2_pow2 [of 10] by simp_all
  then show ?thesis by (simp add: precompute_def final_lookup final_uints final_derived_def u32_sub_def)
qed

lemma repository_settings:
  "settings_of 5200 2600 (OverrideKeys all_settings configMap) (precompute (OverrideKeys all_settings configMap)) =
   ddr3_cfg\<lparr>NUM_RANKS := 0, NUM_RANKS_LOG := 0, NUM_DEVICES := 0\<rparr>"
  unfolding settings_of_def final_lookup final_precompute by code_simp

section \<open>The memory they open\<close>

lemma ddr3_device: "device_ok (ddr3_cfg\<lparr>NUM_RANKS := 0, NUM_RANKS_LOG := 0, NUM_DEVICES := 0\<rparr>)"
proof -
  have "timing_cfg (ddr3_cfg\<lparr>NUM_RANKS := 0, NUM_RANKS_LOG := 0, NUM_DEVICES := 0\<rparr>)" using timing_ddr3
    by (simp add: timing_cfg_def READ_TO_PRE_DELAY_def READ_AUTOPRE_DELAY_def RL_def)
  moreover have "megsOfStoragePerRank (ddr3_cfg\<lparr>NUM_RANKS := 0, NUM_RANKS_LOG := 0, NUM_DEVICES := 0\<rparr>) = 2 ^ 11"
    by (simp add: megsOfStoragePerRank_def ddr3_cfg_def)
  then have "\<exists>k. megsOfStoragePerRank (ddr3_cfg\<lparr>NUM_RANKS := 0, NUM_RANKS_LOG := 0, NUM_DEVICES := 0\<rparr>) = 2 ^ k" ..
  ultimately show ?thesis unfolding device_ok_def by (simp add: ddr3_cfg_def offset_bits_def)
qed

text \<open>Four gigabytes are two ranks.\<close>

lemma repository_memory:
  "open_memory 5200 2600 4096 (Some (file_of device_ini)) (Some (file_of system_ini)) [] = Inr (ddr3_cfg, multi_start ddr3_cfg 1 1)"
proof -
  let ?c = "ddr3_cfg\<lparr>NUM_RANKS := 0, NUM_RANKS_LOG := 0, NUM_DEVICES := 0\<rparr>"
  have "isPowerOfTwo 4096" using isPowerOfTwo_iff [of 4096] power_le_one_iff by (auto intro!: exI [of _ 12])
  moreover have "megsOfStoragePerRank ?c = 2 ^ 11" by (simp add: megsOfStoragePerRank_def ddr3_cfg_def)
  then have "size_ranks 4096 ?c = Inr (with_ranks 2 1 ?c)" using size_ranks_ok [OF ddr3_device, of 4096 12 11] by simp
  moreover have "with_ranks 2 1 ?c = ddr3_cfg" by (simp add: with_ranks_def ddr3_cfg_def)
  moreover have "NUM_CHANS ?c = Suc 0" by (simp add: ddr3_cfg_def)
  ultimately show ?thesis unfolding open_memory_def load_repository
    by (simp add: repository_settings newMultiChannel_def multi_start_def)
qed

end
