(* ===== verification/Dram_Schedule.thy ===== *)
theory Dram_Schedule
  imports Dram_Queue
begin

text \<open>
  What the command queue promises over a run: commands that may go are not held back, and
  the activations of a rank keep the four-activation window.
\<close>

section \<open>Nothing is held back\<close>

text \<open>The commands a round passes over although the state table allows them.\<close>

definition held_back :: "dram_cfg \<Rightarrow> BusPacket list \<Rightarrow> nat \<Rightarrow> bool" where
  "held_back c q i = (case rowBufferPolicy c of
       OpenPage \<Rightarrow> dependency q i
     | ClosePage \<Rightarrow> (case queuingStructure c of PerRank \<Rightarrow> paired_activate q i | PerRankPerBank \<Rightarrow> 0 < i))"

lemma try_none_held:
  assumes wf: "cq_wf c cq" and y: "rr_valid c y" and q: "q = getCommandQueue c (fst y) (snd y) cq"
    and free: "\<not> (refreshWaiting cq \<and> fst y = refreshRank cq)"
    and none: "case rowBufferPolicy c of ClosePage \<Rightarrow> close_try c bs (place y cq) = Inr None
      | OpenPage \<Rightarrow> open_try c bs (place y cq) = Inr None"
    and i: "i < length q" "isIssuable c bs cq (q ! i) = Inr True"
  shows "held_back c q i"
proof -
  let ?cq = "place y cq"
  have wf': "cq_wf c ?cq" using place_wf [OF wf y] .
  have q': "q = getCommandQueue c (nextRank ?cq) (nextBank ?cq) ?cq" using q by (simp add: place_def getCommandQueue_def)
  have go: "q \<noteq> [] \<and> \<not> (nextRank ?cq = refreshRank ?cq \<and> refreshWaiting ?cq)"
    using i free by (auto simp: place_def)
  have iss: "isIssuable c bs ?cq = isIssuable c bs cq" by (simp add: issuable_place fun_eq_iff)
  show ?thesis
  proof (cases "rowBufferPolicy c")
    case OpenPage
    from queue_first [OF wf' q', of bs "dependency q"] show ?thesis
    proof cases
      case (1 res)
      then have "res = None" using none OpenPage go by (auto simp: open_try_def Let_def q' [symmetric] split: option.splits)
      then show ?thesis using 1(2) i OpenPage by (simp add: held_back_def iss)
    qed
  next
    case close: ClosePage
    show ?thesis
    proof (cases "queuingStructure c")
      case PerRank
      from queue_first [OF wf' q', of bs "paired_activate q"] show ?thesis
      proof cases
        case (1 res)
        then have "res = None" using none close PerRank go by (auto simp: close_try_def Let_def q' [symmetric] split: option.splits)
        then show ?thesis using 1(2) i close PerRank by (simp add: held_back_def iss)
      qed
    next
      case PerRankPerBank
      have "isIssuable c bs cq (q ! 0) \<noteq> Inr True"
        using none close PerRankPerBank go by (auto simp: close_try_def Let_def q' [symmetric] iss)
      then show ?thesis using i close PerRankPerBank by (cases i) (auto simp: held_back_def)
    qed
  qed
qed

lemma popped_none_held:
  assumes wf: "cq_wf c cq" and pop: "pop c bs cq = Inr (None, cq')"
    and rb: "r < NUM_RANKS c" "b < NUM_BANKS c" "\<not> (refreshWaiting cq \<and> r = refreshRank cq)"
    and i: "i < length (getCommandQueue c r b cq)"
      "isIssuable c bs (tick_tFAW c cq) (getCommandQueue c r b cq ! i) = Inr True"
  shows "held_back c (getCommandQueue c r b cq) i"
proof -
  let ?cq = "tick_tFAW c cq"
  define y where "y = (r, if queuingStructure c = PerRank then nextBank cq else b)"
  have y: "pos_valid c (nextBank ?cq) y" "rr_valid c y"
    using rb cq_wfD(3) [OF wf] by (auto simp: y_def pos_valid_def rr_valid_def tick_tFAW_def)
  have q: "getCommandQueue c r b cq = getCommandQueue c (fst y) (snd y) ?cq"
    by (auto simp: getCommandQueue_def queue_index_def y_def tick_tFAW_def split: QueuingStructure.split)
  have "idle_post c bs ?cq" using pop_ok [OF wf, of bs] pop by (simp add: popped_def)
  then have "case rowBufferPolicy c of ClosePage \<Rightarrow> close_try c bs (place y ?cq) = Inr None
      | OpenPage \<Rightarrow> open_try c bs (place y ?cq) = Inr None"
    using y(1) by (cases "rowBufferPolicy c") (simp_all add: idle_post_def round_empty_def del: split_paired_All)
  from try_none_held [OF tick_wf [OF wf] y(2) q _ this] show ?thesis
    using rb(3) i by (simp add: y_def tick_tFAW_def)
qed

section \<open>The window of activations\<close>

text \<open>
  A run of the queue: commands are put in, refreshes are asked for, and once per cycle a
  command is taken under an arbitrary state table. The log holds the cycles at which a rank
  was activated.
\<close>

inductive queue_run :: "dram_cfg \<Rightarrow> CommandQueue \<Rightarrow> (nat \<Rightarrow> nat list) \<Rightarrow> nat \<Rightarrow> bool" for c where
  queue_run_start: "queue_run c newCommandQueue (\<lambda>r. []) 0"
| queue_run_enqueue: "queue_run c cq log n \<Longrightarrow> packet_ok c (rank p) (queue_index c (bank p)) p \<Longrightarrow>
    enqueue c p cq = Inr cq' \<Longrightarrow> queue_run c cq' log n"
| queue_run_refresh: "queue_run c cq log n \<Longrightarrow> r < NUM_RANKS c \<Longrightarrow> queue_run c (needRefresh r cq) log n"
| queue_run_pop: "queue_run c cq log n \<Longrightarrow> pop c bs cq = Inr (res, cq') \<Longrightarrow>
    log' = (case res of Some p \<Rightarrow> if busPacketType p = ACTIVATE then log(rank p := log (rank p) @ [n + 1]) else log | None \<Rightarrow> log) \<Longrightarrow>
    queue_run c (cq'\<lparr>cq_clock := cq_clock cq' + 1\<rparr>) log' (n + 1)"

lemma enqueue_room: "enqueue c p cq = Inr cq' \<Longrightarrow> length (getCommandQueue c (rank p) (bank p) cq) < CMD_QUEUE_DEPTH c"
  by (simp add: enqueue_def Let_def split: if_splits)

lemma queue_run_wf:
  assumes "queue_cfg c" "queue_run c cq log n"
  shows "cq_wf c cq"
  using assms(2)
proof induction
  case (queue_run_enqueue cq log n p cq')
  from enqueue_ok [OF queue_run_enqueue.IH queue_run_enqueue.hyps(2) enqueue_room [OF queue_run_enqueue.hyps(3)]]
  show ?case by (simp add: queue_run_enqueue.hyps(3))
next
  case (queue_run_pop cq log n bs res cq' log')
  then show ?case using pop_ok [of c cq bs] by (simp add: popped_def)
qed (auto simp: new_queue_wf [OF assms(1)] needRefresh_wf)

text \<open>The countdowns of a rank are what is left of the window for its last activations.\<close>

definition recent :: "nat \<Rightarrow> nat \<Rightarrow> nat list \<Rightarrow> nat list" where
  "recent w n ts = map (\<lambda>t. w - (n - t)) (filter (\<lambda>t. n - t < w) ts)"

definition window_ok :: "dram_cfg \<Rightarrow> nat \<Rightarrow> nat list \<Rightarrow> bool" where
  "window_ok c n ts \<longleftrightarrow> sorted_wrt (<) ts \<and> (\<forall>t \<in> set ts. t \<le> n) \<and> (\<forall>i. i + 4 < length ts \<longrightarrow> ts ! i + tFAW c \<le> ts ! (i + 4))"

lemma recent_tick:
  assumes s: "sorted_wrt (<) ts" and n: "\<forall>t \<in> set ts. t \<le> n" and w: "0 < w" "w < 2 ^ 32"
  shows "(let xs = map (\<lambda>x. u32_sub x 1) (recent w n ts) in if xs \<noteq> [] \<and> hd xs = 0 then tl xs else xs) = recent w (n + 1) ts"
  using s n
proof (induction ts)
  case (Cons t ts)
  have le: "t \<le> n" and lt: "\<forall>u \<in> set ts. t < u \<and> u \<le> n" using Cons.prems by auto
  have dec: "map (\<lambda>x. u32_sub x 1) (recent w n ts) = recent w (n + 1) ts" if "n + 1 - t \<le> w"
  proof -
    have "filter (\<lambda>u. n - u < w) ts = ts" "filter (\<lambda>u. n + 1 - u < w) ts = ts"
      using lt that by (auto intro!: filter_True)
    moreover have "u32_sub (w - (n - u)) 1 = w - (n + 1 - u)" if "u \<in> set ts" for u
    proof -
      have "n + 1 - u < w" using lt that \<open>n + 1 - t \<le> w\<close> by fastforce
      then show ?thesis using w(2) lt that by (subst u32_sub_id) auto
    qed
    ultimately show ?thesis by (simp add: recent_def)
  qed
  consider "n - t \<ge> w" | "n + 1 - t = w" | "n + 1 - t < w" using le by linarith
  then show ?case
  proof cases
    case 1
    then show ?thesis using Cons by (simp add: recent_def)
  next
    case 2
    have "u32_sub (w - (n - t)) 1 = 0" using 2 w le by (subst u32_sub_id) auto
    moreover have "n - t < w" "\<not> n + 1 - t < w" using 2 w le by auto
    ultimately show ?thesis using 2 dec by (simp add: recent_def Let_def)
  next
    case 3
    have "u32_sub (w - (n - t)) 1 = w - (n + 1 - t)" using 3 w le by (subst u32_sub_id) auto
    moreover have "n - t < w" using 3 by simp
    ultimately show ?thesis using 3 dec by (simp add: recent_def Let_def)
  qed
qed (simp add: recent_def)

lemma filter_suffix:
  assumes "sorted_wrt (<) (ts :: nat list)" "length (filter (\<lambda>t. k < t) ts) < m" "m \<le> length ts"
  shows "ts ! (length ts - m) \<le> k"
proof (rule ccontr)
  assume "\<not> ?thesis"
  then have "\<forall>i. length ts - m \<le> i \<and> i < length ts \<longrightarrow> k < ts ! i"
    using assms(1) by (metis leD le_less_trans linorder_not_less nat_less_le sorted_wrt_nth_less order.strict_trans)
  then have "\<forall>t \<in> set (drop (length ts - m) ts). k < t"
    by (auto simp: in_set_conv_nth)
  then have "filter (\<lambda>t. k < t) (drop (length ts - m) ts) = drop (length ts - m) ts" by (simp add: filter_True)
  then have "m \<le> length (filter (\<lambda>t. k < t) (drop (length ts - m) ts))" using assms(3) by simp
  also have "\<dots> \<le> length (filter (\<lambda>t. k < t) ts)"
    by (metis append_take_drop_id filter_append le_add2 length_append)
  finally show False using assms(2) by simp
qed

lemma window_append:
  assumes ok: "window_ok c n ts" and room: "length (recent (tFAW c) (n + 1) ts) < 4"
  shows "window_ok c (n + 1) (ts @ [n + 1])"
proof -
  have s: "sorted_wrt (<) ts" and n: "\<forall>t \<in> set ts. t \<le> n" using ok by (auto simp: window_ok_def)
  have "(ts @ [n + 1]) ! i + tFAW c \<le> (ts @ [n + 1]) ! (i + 4)" if i: "i + 4 < length ts + 1" for i
  proof (cases "i + 4 < length ts")
    case True
    then show ?thesis using ok by (simp add: window_ok_def nth_append)
  next
    case False
    then have i': "i = length ts - 4" "4 \<le> length ts" using i by auto
    have eq: "filter (\<lambda>t. n + 1 - t < tFAW c) ts = filter (\<lambda>t. n + 1 < t + tFAW c) ts"
      using n by (intro filter_cong) auto
    show ?thesis
    proof (cases "tFAW c \<le> n + 1")
      case True
      have "filter (\<lambda>t. n + 1 < t + tFAW c) ts = filter (\<lambda>t. n + 1 - tFAW c < t) ts"
        using True by (intro filter_cong) auto
      then have "ts ! (length ts - 4) \<le> n + 1 - tFAW c"
        using filter_suffix [OF s, of "n + 1 - tFAW c" 4] room eq i' by (simp add: recent_def)
      moreover have "i < length ts" "i + 4 = length ts" using i' by auto
      ultimately show ?thesis using True i'(1) by (simp add: nth_append)
    next
      case False
      then have "filter (\<lambda>t. n + 1 < t + tFAW c) ts = ts" by (intro filter_True) auto
      then show ?thesis using room eq i' by (simp add: recent_def)
    qed
  qed
  then show ?thesis using s n by (auto simp: window_ok_def sorted_wrt_append less_Suc_eq_le)
qed

lemma queue_run_window:
  assumes cfg: "queue_cfg c" "0 < tFAW c" "tFAW c < 2 ^ 32"
  shows "queue_run c cq log n \<Longrightarrow> r < NUM_RANKS c \<Longrightarrow> tFAWCountdown cq r = recent (tFAW c) n (log r) \<and> window_ok c n (log r)"
proof (induction rule: queue_run.induct)
  case queue_run_start
  then show ?case by (simp add: newCommandQueue_def recent_def window_ok_def)
next
  case (queue_run_enqueue cq log n p cq')
  have "tFAWCountdown cq' = tFAWCountdown cq"
    using queue_run_enqueue.hyps(3) by (auto simp: enqueue_def Let_def setCommandQueue_def split: if_splits)
  then show ?case using queue_run_enqueue by simp
next
  case (queue_run_refresh cq log n r')
  then show ?case by (simp add: needRefresh_def)
next
  case (queue_run_pop cq log n bs res cq' log')
  have wf: "cq_wf c cq" using queue_run_wf [OF cfg(1) queue_run_pop.hyps(1)] .
  have p: "popped c bs cq (res, cq')" using pop_ok [OF wf, of bs] queue_run_pop.hyps(2) by simp
  have ok: "window_ok c n (log r)" using queue_run_pop by simp
  have tick: "tFAWCountdown (tick_tFAW c cq) r = recent (tFAW c) (n + 1) (log r)"
    using recent_tick [of "log r" n "tFAW c"] queue_run_pop ok cfg by (simp add: tick_tFAW_def window_ok_def)
  have same: "window_ok c (n + 1) (log r)" using ok by (auto simp: window_ok_def)
  show ?case
  proof (cases "\<exists>p. res = Some p \<and> busPacketType p = ACTIVATE \<and> rank p = r")
    case True
    then obtain p where a: "res = Some p" "busPacketType p = ACTIVATE" "rank p = r" by blast
    have "length (tFAWCountdown (tick_tFAW c cq) r) < 4"
      using p a by (simp add: popped_def cmd_ok_def isIssuable_def Let_def)
    then have "window_ok c (n + 1) (log r @ [n + 1])" using window_append [OF ok] tick by simp
    moreover have "recent (tFAW c) (n + 1) (log r @ [n + 1]) = recent (tFAW c) (n + 1) (log r) @ [tFAW c]"
      using cfg by (simp add: recent_def)
    ultimately show ?thesis using a p tick queue_run_pop.hyps(3) by (simp add: popped_def)
  next
    case False
    then have "log' r = log r" "tFAWCountdown cq' r = tFAWCountdown (tick_tFAW c cq) r"
      using p queue_run_pop.hyps(3) by (auto simp: popped_def split: option.splits)
    then show ?thesis using tick same by simp
  qed
qed

end
