(* ===== verification/Dram_Bank.thy ===== *)
theory Dram_Bank
  imports Dram_Config
begin

text \<open>
  \<open>Bank.cpp\<close>: the sparse storage of a bank. For every column there is a linked list of the
  rows written so far. Shown: the lists implement a random access memory, that is, a read
  returns what was written last to the row and column, and the tracer value if nothing was.
\<close>

section \<open>The storage\<close>

text \<open>\<open>DataStruct\<close>, a node of a list, is a pair of a row and its data; the list is a list.\<close>

type_synonym 'd Bank = "nat \<Rightarrow> (nat \<times> 'd) list"

definition newBank :: "'d Bank" where
  "newBank = (\<lambda>col. [])"

fun searchForRow :: "nat \<Rightarrow> (nat \<times> 'd) list \<Rightarrow> 'd option" where
  "searchForRow rw [] = None"
| "searchForRow rw (node # nodes) = (if fst node = rw then Some (snd node) else searchForRow rw nodes)"

text \<open>The read packet becomes a data packet; \<open>None\<close> stands for the tracer value \<open>0xdeadbeef\<close>.\<close>

definition bank_read :: "'d Bank \<Rightarrow> BusPacket \<Rightarrow> BusPacket \<times> 'd option" where
  "bank_read b busPacket =
     (let rowHeadNode = b (column busPacket)
      in (busPacket\<lparr>busPacketType := DATA\<rparr>, searchForRow (row busPacket) rowHeadNode))"

fun plaster :: "nat \<Rightarrow> 'd \<Rightarrow> (nat \<times> 'd) list \<Rightarrow> (nat \<times> 'd) list" where
  "plaster rw d [] = []"
| "plaster rw d (node # nodes) = (if fst node = rw then (rw, d) # nodes else node # plaster rw d nodes)"

definition bank_write :: "dram_cfg \<Rightarrow> 'd Bank \<Rightarrow> BusPacket \<Rightarrow> 'd \<Rightarrow> derr + 'd Bank" where
  "bank_write c b busPacket data =
     (if NUM_COLS c \<le> column busPacket then Inl Column_Out_Of_Bounds
      else let rowHeadNode = b (column busPacket)
           in case searchForRow (row busPacket) rowHeadNode of
                None \<Rightarrow> Inr (b(column busPacket := (row busPacket, data) # rowHeadNode))
              | Some _ \<Rightarrow> Inr (b(column busPacket := plaster (row busPacket) data rowHeadNode)))"

section \<open>Random access memories\<close>

text \<open>What a memory promises: reading after writing.\<close>

locale ram =
  fixes rd :: "'m \<Rightarrow> 'a \<Rightarrow> 'd option" and wr :: "'a \<Rightarrow> 'd \<Rightarrow> 'm \<Rightarrow> 'm" and ok :: "'a \<Rightarrow> bool"
  assumes rd_wr: "ok a \<Longrightarrow> rd (wr a d m) b = (if a = b then Some d else rd m b)"
begin

lemma rd_wr_same: "ok a \<Longrightarrow> rd (wr a d m) a = Some d"
  by (simp add: rd_wr)

lemma wr_wr: "ok a \<Longrightarrow> rd (wr a d (wr a d' m)) = rd (wr a d m)"
  by (rule ext) (simp add: rd_wr)

lemma wr_swap: "ok a \<Longrightarrow> ok b \<Longrightarrow> a \<noteq> b \<Longrightarrow> rd (wr a d (wr b d' m)) = rd (wr b d' (wr a d m))"
  by (rule ext) (auto simp: rd_wr)

text \<open>After a sequence of writes a read returns the last one to its address.\<close>

lemma rd_writes:
  "\<forall>x \<in> set ws. ok (fst x) \<Longrightarrow>
   rd (fold (\<lambda>(a, d). wr a d) ws m) b = (case map_of (rev ws) b of Some d \<Rightarrow> Some d | None \<Rightarrow> rd m b)"
proof (induction ws rule: rev_induct)
  case (snoc x ws)
  then show ?case by (cases x) (auto simp: rd_wr)
qed simp

end

lemma searchForRow_plaster:
  "searchForRow r (plaster rw d ns) = (if r = rw then (if searchForRow rw ns = None then None else Some d) else searchForRow r ns)"
  by (induction ns) auto

lemma bank_write_read:
  assumes "column p < NUM_COLS c"
  shows "okR (bank_write c b p d) (\<lambda>b'. \<forall>q. snd (bank_read b' q) =
    (if row q = row p \<and> column q = column p then Some d else snd (bank_read b q)))"
proof (cases "searchForRow (row p) (b (column p))")
  case None
  then show ?thesis using assms by (auto simp: bank_write_def bank_read_def Let_def)
next
  case (Some e)
  then show ?thesis using assms by (auto simp: bank_write_def bank_read_def Let_def searchForRow_plaster)
qed

text \<open>The bank at the places given by row and column.\<close>

definition bank_rd :: "'d Bank \<Rightarrow> nat \<times> nat \<Rightarrow> 'd option" where
  "bank_rd b = (\<lambda>(rw, col). snd (bank_read b (mkBusPacket READ 0 col rw 0 0)))"

definition bank_wr :: "dram_cfg \<Rightarrow> nat \<times> nat \<Rightarrow> 'd \<Rightarrow> 'd Bank \<Rightarrow> 'd Bank" where
  "bank_wr c = (\<lambda>(rw, col) d b. case bank_write c b (mkBusPacket DATA 0 col rw 0 0) d of Inl _ \<Rightarrow> b | Inr b' \<Rightarrow> b')"

interpretation bank_ram: ram bank_rd "bank_wr c" "\<lambda>(rw, col). col < NUM_COLS c" for c
proof
  fix a :: "nat \<times> nat" and d :: 'a and m :: "'a Bank" and q
  assume a: "case a of (rw, col) \<Rightarrow> col < NUM_COLS c"
  obtain rw col where rc: "a = (rw, col)" by fastforce
  show "bank_rd (bank_wr c a d m) q = (if a = q then Some d else bank_rd m q)"
    using bank_write_read [of "mkBusPacket DATA 0 col rw 0 0" c m d] a
    by (cases q) (auto simp: bank_rd_def bank_wr_def rc okR_iff mkBusPacket_def split: sum.splits)
qed

section \<open>Histories\<close>

text \<open>A sequence of writes, which stops at the first that is out of bounds.\<close>

fun bank_history :: "dram_cfg \<Rightarrow> (BusPacket \<times> 'd) list \<Rightarrow> 'd Bank \<Rightarrow> derr + 'd Bank" where
  "bank_history c [] b = Inr b"
| "bank_history c ((p, d) # ws) b = bindR (bank_write c b p d) (bank_history c ws)"

definition spot :: "BusPacket \<Rightarrow> nat \<times> nat" where
  "spot p = (row p, column p)"

lemma bank_read_spot: "bank_read b q = (q\<lparr>busPacketType := DATA\<rparr>, bank_rd b (spot q))"
  by (simp add: bank_read_def bank_rd_def spot_def mkBusPacket_def)

lemma bank_write_spot: "column p < NUM_COLS c \<Longrightarrow> bank_write c b p d = Inr (bank_wr c (spot p) d b)"
  by (auto simp: bank_write_def bank_wr_def spot_def mkBusPacket_def Let_def split: option.splits)

lemma bank_rd_new [simp]: "bank_rd newBank a = None"
  by (cases a) (simp add: bank_rd_def bank_read_def newBank_def)

lemma bank_history_ok:
  "\<forall>x \<in> set ws. column (fst x) < NUM_COLS c \<Longrightarrow>
   bank_history c ws b = Inr (fold (\<lambda>(a, d). bank_wr c a d) (map (\<lambda>(p, d). (spot p, d)) ws) b)"
proof (induction ws arbitrary: b)
  case (Cons x ws)
  then show ?case by (cases x) (simp add: bank_write_spot)
qed simp

lemma bank_history_read:
  assumes "\<forall>x \<in> set ws. column (fst x) < NUM_COLS c"
  shows "okR (bank_history c ws newBank) (\<lambda>b. \<forall>q. bank_read b q =
    (q\<lparr>busPacketType := DATA\<rparr>, map_of (rev (map (\<lambda>(p, d). (spot p, d)) ws)) (spot q)))"
proof -
  have "\<forall>x \<in> set (map (\<lambda>(p, d). (spot p, d)) ws). (\<lambda>(rw, col). col < NUM_COLS c) (fst x)"
    using assms by (auto simp: spot_def)
  then show ?thesis
    using bank_history_ok [OF assms, of newBank] bank_ram.rd_writes [of "map (\<lambda>(p, d). (spot p, d)) ws" c newBank]
    by (simp add: bank_read_spot option.case_eq_if split: option.splits)
qed

end
