(* ===== verification/Dram_Properties.thy ===== *)
theory Dram_Properties
  imports Dram_Files Dram_Schedule Dram_Bank
begin

text \<open>
  The properties of DRAMSim2: the memory as its users see it, a channel as a whole, the
  command queue, the address mapping, the storage of a bank, and the settings.
\<close>

section \<open>A channel\<close>

lemma map_ddr3: "map_cfg ddr3_cfg"
  by (simp add: map_cfg_def ddr3_cfg_def offset_bits_def widths_def colHighBitWidth_def u32_sub_def)

lemma queue_ddr3: "queue_cfg ddr3_cfg"
  by (simp add: queue_cfg_def ddr3_cfg_def)

lemma dram_ddr3: "dram_ok ddr3_cfg"
  unfolding dram_ok_def using map_ddr3 queue_ddr3 timing_ddr3 by (simp add: ddr3_cfg_def)

text \<open>C7. \<open>MemorySystem::update\<close> never stops with an error. After any sequence of requests and
  cycles it returns: no rank refuses a command, no two packets meet on a bus, no queue
  overflows, and every piece of data that comes back finds the read it belongs to.\<close>

theorem channel_never_fails:
  assumes "dram_ok c" "channel_run c ms rs ws out"
  shows "\<exists>ms' out'. ms_update c ms = Inr (ms', out')"
  using ms_update_ok [OF assms(1), of ms] channel_run_ok [OF assms(2,1)] by (auto simp: okR_iff)

text \<open>A read and a write of the same row, submitted to a new channel.\<close>

definition two_requests :: MemorySystem where
  "two_requests = snd (ms_addTransaction ddr3_cfg True 64 (snd (ms_addTransaction ddr3_cfg False 64 (newMemorySystem ddr3_cfg))))"

lemma two_requests_run: "channel_run ddr3_cfg two_requests {#64#} {#64#} []"
  using channel_submit [OF channel_submit [OF start, of ddr3_cfg False 64], of True 64] by (simp add: two_requests_def)

theorem channel_never_fails_witness: "\<exists>ms' out'. ms_update ddr3_cfg two_requests = Inr (ms', out')"
  using channel_never_fails [OF dram_ddr3 two_requests_run] .

text \<open>C9. The reads that were submitted are those for which the read callback was made and those
  the channel still holds, each once, and likewise for the writes.\<close>

theorem channel_answers_once:
  assumes "dram_ok c" "channel_run c ms rs ws out"
  shows "rs = reads_out out + owed_reads ms \<and> ws = writes_out out + owed_writes c ms"
  using channel_run_ok [OF assms(2,1)] by (simp add: add.commute)

theorem channel_answers_once_witness: "owed_reads two_requests = {#64#} \<and> owed_writes ddr3_cfg two_requests = {#64#}"
  using channel_answers_once [OF dram_ddr3 two_requests_run] by (metis add_0 list.simps(8) reads_out_def sum_list.Nil writes_out_def)

section \<open>The command queue\<close>

text \<open>C12. \<open>pop\<close> returns. What it takes is allowed by the state table, the column accesses that
  wait are those from before without the one taken, and with nothing taken the queues are as
  they were.\<close>

theorem pop_takes_allowed:
  assumes "cq_wf c cq"
  shows "\<exists>res cq'. pop c bs cq = Inr (res, cq') \<and> cq_wf c cq' \<and>
    (case res of
       None \<Rightarrow> queues cq' = queues cq
     | Some p \<Rightarrow> cmd_ok c bs (tick_tFAW c cq) p \<and> waiting_cols c cq = waiting_cols c cq' + col_of p)"
proof -
  obtain res cq' where "pop c bs cq = Inr (res, cq')" "popped c bs cq (res, cq')"
    using pop_ok [OF assms, of bs] by (auto simp: okR_iff)
  then show ?thesis by (auto simp: popped_def split: option.splits)
qed

theorem pop_takes_allowed_witness: "\<exists>res cq'. pop ddr3_cfg (\<lambda>r b. newBankState) newCommandQueue = Inr (res, cq')"
  using pop_takes_allowed [OF new_queue_wf [OF queue_ddr3]] by blast

text \<open>C15. When nothing is taken, every command that the state table allows and that is not kept
  back for a refresh waits for an earlier command of its queue.\<close>

theorem pop_work_conserving:
  assumes "cq_wf c cq" "pop c bs cq = Inr (None, cq')" "r < NUM_RANKS c" "b < NUM_BANKS c"
    "\<not> (refreshWaiting cq \<and> r = refreshRank cq)" "i < length (getCommandQueue c r b cq)"
    "isIssuable c bs (tick_tFAW c cq) (getCommandQueue c r b cq ! i) = Inr True"
  shows "held_back c (getCommandQueue c r b cq) i \<and> 0 < i"
proof -
  have "held_back c (getCommandQueue c r b cq) i" using popped_none_held [OF assms] .
  moreover from this have "0 < i"
    by (auto simp: held_back_def dependency_def paired_activate_def split: RowBufferPolicy.splits QueuingStructure.splits)
  ultimately show ?thesis by blast
qed

text \<open>An access that waits for the activation in front of it, which the open row holds up.\<close>

definition close_cfg :: dram_cfg where
  "close_cfg = ddr3_cfg\<lparr>NUM_RANKS := 1, NUM_BANKS := 1, rowBufferPolicy := ClosePage\<rparr>"

definition open_row :: bank_table where
  "open_row = (\<lambda>r b. newBankState\<lparr>currentBankState := RowActive, openRowAddress := 5\<rparr>)"

definition paired_queue :: CommandQueue where
  "paired_queue = newCommandQueue\<lparr>queues := (\<lambda>r b. if r = 0 \<and> b = 0
     then [mkBusPacket ACTIVATE 64 0 5 0 0, mkBusPacket READ_P 64 0 5 0 0] else [])\<rparr>"

lemma paired_queue_wf: "cq_wf close_cfg paired_queue"
  by (simp add: cq_wf_def close_cfg_def ddr3_cfg_def paired_queue_def newCommandQueue_def queue_cfg_def queues_ok_def packet_ok_def
      mkBusPacket_def queue_index_def cmd_types_def)

lemma paired_queue_none: "\<exists>cq'. pop close_cfg open_row paired_queue = Inr (None, cq')"
proof -
  have "(case pop close_cfg open_row paired_queue of Inr (None, _) \<Rightarrow> True | _ \<Rightarrow> False)" by code_simp
  then show ?thesis by (auto split: sum.splits prod.splits option.splits)
qed

theorem pop_work_conserving_witness: "held_back close_cfg (getCommandQueue close_cfg 0 0 paired_queue) 1"
proof -
  obtain cq' where p: "pop close_cfg open_row paired_queue = Inr (None, cq')" using paired_queue_none by blast
  have q: "getCommandQueue close_cfg 0 0 paired_queue = [mkBusPacket ACTIVATE 64 0 5 0 0, mkBusPacket READ_P 64 0 5 0 0]"
    by (simp add: getCommandQueue_def queue_index_def paired_queue_def close_cfg_def ddr3_cfg_def)
  have "isIssuable close_cfg open_row (tick_tFAW close_cfg paired_queue) (mkBusPacket READ_P 64 0 5 0 0) = Inr True"
    by (simp add: isIssuable_def mkBusPacket_def open_row_def newBankState_def tick_tFAW_def paired_queue_def newCommandQueue_def
        close_cfg_def ddr3_cfg_def)
  then show ?thesis using pop_work_conserving [OF paired_queue_wf p, of 0 0 1] q
    by (simp add: close_cfg_def paired_queue_def newCommandQueue_def)
qed

text \<open>C23. A round of the scheduler that finds nothing looks at every rank and bank once and ends
  where it began, under both policies.\<close>

theorem round_complete:
  assumes "r < NUM_RANKS c" "b < NUM_BANKS c" "r' < NUM_RANKS c" "b' < NUM_BANKS c"
  shows "(\<exists>k < NUM_RANKS c * NUM_BANKS c. (nextRankAndBank c ^^ k) (r, b) = (r', b')) \<and>
    (nextRankAndBank c ^^ (NUM_RANKS c * NUM_BANKS c)) (r, b) = (r, b)"
  using rr_circle.round_visits [of c "(r, b)" "(r', b')"] rr_circle.round_ends [of c "(r, b)"] assms by (simp add: rr_valid_def)

theorem round_complete_witness: "(nextRankAndBank ddr3_cfg ^^ 16) (1, 7) = (1, 7)"
  using round_complete [of 1 ddr3_cfg 7 0 0] by (simp add: ddr3_cfg_def)

text \<open>C24. \<open>hasRoomFor\<close> is right although it subtracts unsigned numbers: with room for two, an
  activation and its access go to the end of their queue, and \<open>enqueue\<close> reports an overflow
  exactly when there is no room for one.\<close>

theorem enqueue_after_check:
  assumes "cq_wf c cq" "rank q = rank p" "bank q = bank p"
  shows "(hasRoomFor c 2 (rank p) (bank p) cq \<longrightarrow>
      bindR (enqueue c p cq) (enqueue c q) =
        Inr (setCommandQueue c (rank p) (bank p) (getCommandQueue c (rank p) (bank p) cq @ [p, q]) cq)) \<and>
    (enqueue c p cq = Inl Queue_Overflow \<longleftrightarrow> \<not> hasRoomFor c 1 (rank p) (bank p) cq)"
  using assms hasRoomFor_iff [OF assms(1)]
  by (auto simp: enqueue_def Let_def setCommandQueue_def getCommandQueue_def upd2_def)

theorem enqueue_after_check_witness:
  "enqueue (ddr3_cfg\<lparr>CMD_QUEUE_DEPTH := 0\<rparr>) (mkBusPacket READ 64 0 5 0 0) newCommandQueue = Inl Queue_Overflow"
  using enqueue_after_check [OF new_queue_wf, of "ddr3_cfg\<lparr>CMD_QUEUE_DEPTH := 0\<rparr>" "mkBusPacket READ 64 0 5 0 0" "mkBusPacket READ 64 0 5 0 0"]
    hasRoomFor_iff [OF new_queue_wf, of "ddr3_cfg\<lparr>CMD_QUEUE_DEPTH := 0\<rparr>" 1]
  by (simp add: queue_cfg_def ddr3_cfg_def)


text \<open>One activation, put in and taken out again.\<close>

definition first_activate :: BusPacket where
  "first_activate = mkBusPacket ACTIVATE 64 0 5 1 3"

lemma one_enqueued: "queue_run ddr3_cfg (setCommandQueue ddr3_cfg 1 3 [first_activate] newCommandQueue) (\<lambda>r. []) 0"
proof (rule queue_run_enqueue [OF queue_run_start, of ddr3_cfg first_activate])
  show "packet_ok ddr3_cfg (rank first_activate) (queue_index ddr3_cfg (bank first_activate)) first_activate"
    by (simp add: packet_ok_def first_activate_def mkBusPacket_def ddr3_cfg_def cmd_types_def)
  show "enqueue ddr3_cfg first_activate newCommandQueue = Inr (setCommandQueue ddr3_cfg 1 3 [first_activate] newCommandQueue)"
    by (simp add: enqueue_def getCommandQueue_def newCommandQueue_def first_activate_def mkBusPacket_def ddr3_cfg_def)
qed


text \<open>C14. Of five activations of a rank, the last comes at least \<open>tFAW\<close> cycles after the first.\<close>

theorem four_activations:
  assumes "queue_cfg c" "0 < tFAW c" "tFAW c < 2 ^ 32" "queue_run c cq log n" "r < NUM_RANKS c"
  shows "sorted_wrt (<) (log r) \<and> (\<forall>i. i + 4 < length (log r) \<longrightarrow> log r ! i + tFAW c \<le> log r ! (i + 4))"
  using queue_run_window [OF assms] by (simp add: window_ok_def)

lemma one_taken: "\<exists>cq. queue_run ddr3_cfg cq ((\<lambda>r. [])(1 := [1])) 1"
proof -
  let ?cq = "setCommandQueue ddr3_cfg 1 3 [first_activate] newCommandQueue"
  have "(case pop ddr3_cfg (\<lambda>r b. newBankState) ?cq of Inr (Some p, _) \<Rightarrow> busPacketType p = ACTIVATE \<and> rank p = 1 | _ \<Rightarrow> False)" by code_simp
  then obtain p cq' where p: "pop ddr3_cfg (\<lambda>r b. newBankState) ?cq = Inr (Some p, cq')" "busPacketType p = ACTIVATE" "rank p = 1"
    by (auto split: sum.splits prod.splits option.splits)
  show ?thesis using queue_run_pop [OF one_enqueued p(1) refl] p(2,3) by auto
qed

theorem four_activations_witness: "\<exists>cq. queue_run ddr3_cfg cq ((\<lambda>r. [])(1 := [1])) 1 \<and> sorted_wrt (<) (((\<lambda>r. [])(1 := [1])) (1 :: nat) :: nat list)"
proof -
  obtain cq where cq: "queue_run ddr3_cfg cq ((\<lambda>r. [])(1 := [1])) 1" using one_taken by blast
  show ?thesis using four_activations [OF queue_ddr3 _ _ cq, of 1] cq by (auto simp: ddr3_cfg_def)
qed

section \<open>Addresses\<close>

text \<open>C16. Under every scheme the address of a transaction and its place determine each other.\<close>

theorem address_mapping_bijective:
  assumes "address_ok c pa" "place_ok c m"
  shows "unmap c (addressMapping c pa) = pa \<and> addressMapping c (unmap c m) = m"
  using address_map.dec_enc [OF assms(1)] address_map.enc_dec [OF assms(2)] by simp

theorem address_mapping_bijective_witness: "unmap ddr3_cfg (addressMapping ddr3_cfg 4096) = 4096"
proof -
  have "address_ok ddr3_cfg 4096"
    using map_ddr3 by (simp add: address_ok_def offset_bits_def widths_def ddr3_cfg_def colHighBitWidth_def u32_sub_def)
  then show ?thesis using address_mapping_bijective [of ddr3_cfg 4096 "addressMapping ddr3_cfg 4096"] mapping_place [OF map_ddr3] by simp
qed



section \<open>Storage\<close>

text \<open>C17. The linked lists of a bank are a random access memory: after any sequence of writes
  with columns in bounds, a read returns the data written last to its row and column, or the
  tracer value if there is none.\<close>

theorem bank_is_ram:
  assumes "\<forall>x \<in> set ws. column (fst x) < NUM_COLS c"
  shows "\<exists>b. bank_history c ws newBank = Inr b \<and>
    (\<forall>q. bank_read b q = (q\<lparr>busPacketType := DATA\<rparr>, map_of (rev (map (\<lambda>(p, d). (spot p, d)) ws)) (spot q)))"
  using bank_history_read [OF assms] by (auto simp: okR_iff)

theorem bank_is_ram_witness:
  "\<exists>b. bank_history ddr3_cfg [(mkBusPacket DATA 0 3 5 0 0, ''a''), (mkBusPacket DATA 0 3 5 0 0, ''b'')] newBank = Inr b \<and>
     snd (bank_read b (mkBusPacket READ 0 3 5 0 0)) = Some ''b''"
  using bank_is_ram [of "[(mkBusPacket DATA 0 3 5 0 0, ''a''), (mkBusPacket DATA 0 3 5 0 0, ''b'')]" ddr3_cfg]
  by (auto simp: mkBusPacket_def ddr3_cfg_def spot_def)

section \<open>Arithmetic\<close>

text \<open>\<open>dramsim_log2\<close> rounds up to the least power of two that is large enough, and
  \<open>isPowerOfTwo\<close> decides what its name says; zero is not a power of two.\<close>

theorem log2_least:
  assumes "0 < v" "v < 2 ^ 32"
  shows "dramsim_log2 v = (LEAST k. v \<le> 2 ^ k) \<and> (isPowerOfTwo v \<longleftrightarrow> (\<exists>k. v = 2 ^ k)) \<and> \<not> isPowerOfTwo 0"
proof -
  have "dramsim_log2 v \<le> k" if "v \<le> 2 ^ k" for k
  proof -
    have "(2 :: nat) ^ dramsim_log2 v < 2 ^ Suc k" using dramsim_log2_spec(2) [OF assms] that by simp
    then have "dramsim_log2 v < Suc k" by (rule power_less_imp_less_exp [rotated]) simp
    then show ?thesis by simp
  qed
  then have "(LEAST k. v \<le> 2 ^ k) = dramsim_log2 v" using dramsim_log2_spec(1) [OF assms] by (intro Least_equality) auto
  moreover have "\<not> isPowerOfTwo 0" by (simp add: isPowerOfTwo_iff)
  ultimately show ?thesis using isPowerOfTwo_iff [OF assms(2)] by simp
qed

theorem log2_least_witness: "dramsim_log2 5 = (LEAST k. 5 \<le> (2 :: nat) ^ k)"
  using log2_least [of 5] by simp

section \<open>The memory\<close>

lemma multi_ddr3: "multi_cfg ddr3_cfg"
  using dram_ddr3 by (simp add: multi_cfg_def ddr3_cfg_def)

lemma lcm_2_3: "lcm 2 3 < (2 :: nat) ^ 64"
proof -
  have "lcm 2 3 dvd (6 :: nat)" by simp
  then have "lcm 2 3 \<le> (6 :: nat)" by (rule dvd_imp_le) simp
  then show ?thesis by simp
qed

lemma start_inv: "multi_inv ddr3_cfg 2 3 (multi_start ddr3_cfg 2 3) 0 [] []"
  using multi_run_inv [OF multi_run_start multi_ddr3] lcm_2_3 by simp



text \<open>C28. Each channel answers the reads and the writes of its own addresses, each once; the
  rest it still holds.\<close>

theorem memory_answers_once:
  assumes "multi_cfg c" "0 < c2" "lcm c1 c2 < 2 ^ 64" "multi_run c c1 c2 m n asked out" "i < NUM_CHANS c"
  shows "asked_reads c i asked = reads_out (outs_of i out) + owed_reads (channels m ! i) \<and>
    asked_writes c i asked = writes_out (outs_of i out) + owed_writes c (channels m ! i)"
  using multi_run_inv [OF assms(4,1-3)] assms(5) by (simp add: multi_inv_def chans_ok_def chan_ok_def)

theorem memory_answers_once_witness:
  "\<exists>m. multi_run ddr3_cfg 2 3 m 0 [(False, 64)] [] \<and> {#64#} = owed_reads (channels m ! 0)"
proof -
  obtain m where m: "multi_addTransaction ddr3_cfg False 64 (multi_start ddr3_cfg 2 3) = Inr (True, m)"
    using multi_add_ok [OF multi_ddr3 start_inv] by blast
  have r: "multi_run ddr3_cfg 2 3 m 0 [(False, 64)] []" using multi_run_submit [OF multi_run_start m] by simp
  have "chan_of ddr3_cfg 64 = 0" by (simp add: chan_of_def ddr3_cfg_def)
  moreover have "(0 :: nat) < NUM_CHANS ddr3_cfg" by (simp add: ddr3_cfg_def)
  ultimately show ?thesis using memory_answers_once [OF multi_ddr3 _ lcm_2_3 r, of 0] r by (auto simp: asked_reads_def reads_out_def)
qed

text \<open>C29. The memory keeps time: after \<open>n\<close> processor cycles it has made \<open>n * clock1 / clock2\<close>
  cycles of its own, rounded up.\<close>

theorem memory_keeps_time:
  assumes "multi_cfg c" "0 < c2" "lcm c1 c2 < 2 ^ 64" "multi_run c c1 c2 m n asked out"
  shows "n * c1 \<le> mm_clock m * c2 \<and> mm_clock m * c2 < n * c1 + c2"
  using multi_run_inv [OF assms(4,1-3)] calls_bounds(1) [OF assms(2), of n c1] calls_bounds(2) [OF assms(2), of c1 n] by (simp add: multi_inv_def)

theorem memory_keeps_time_witness:
  "\<exists>m out. multi_run ddr3_cfg 2 3 m 1 [] out \<and> mm_clock m = 1"
proof -
  obtain m out where u: "multi_update ddr3_cfg (multi_start ddr3_cfg 2 3) = Some (Inr (m, out))"
    using multi_update_ok [OF multi_ddr3 _ lcm_2_3 start_inv] by auto
  have r: "multi_run ddr3_cfg 2 3 m 1 [] out" using multi_run_update [OF multi_run_start u] by simp
  have "2 \<le> mm_clock m * 3 \<and> mm_clock m * 3 < 5" using memory_keeps_time [OF multi_ddr3 _ lcm_2_3 r] by simp
  then have "mm_clock m = 1" by presburger
  then show ?thesis using r by blast
qed

section \<open>Settings\<close>


text \<open>C31. For a memory size that is a power of two, and not smaller than the number of channels,
  the constructor finds a number of ranks with which the memory works; for a size that is not
  a power of two it stops.\<close>

theorem memory_constructed:
  assumes "device_ok c" "NUM_CHANS c \<le> megs" "megs < 2 ^ 32"
  shows "if \<exists>a. megs = 2 ^ a
    then \<exists>c'. newMultiChannel c megs = Inr (c', multi_start c' 1 1) \<and> multi_cfg c'
    else newMultiChannel c megs = Inl Memory_Not_Power_Of_Two"
proof (cases "\<exists>a. megs = 2 ^ a")
  case True
  then obtain a where a: "megs = 2 ^ a" by blast
  then have "a < 32" using assms(3) by (metis power_less_imp_less_exp one_less_numeral_iff semiring_norm(76))
  then show ?thesis using newMultiChannel_ok [OF assms(1) a _ assms(2)] True by auto
next
  case False
  then show ?thesis using isPowerOfTwo_iff [OF assms(3)] by (simp add: newMultiChannel_def)
qed

theorem memory_constructed_witness:
  "newMultiChannel (ddr3_cfg\<lparr>NUM_RANKS := 0, NUM_RANKS_LOG := 0, NUM_DEVICES := 0\<rparr>) 3000 = Inl Memory_Not_Power_Of_Two"
proof -
  have "(3000 :: nat) \<noteq> 2 ^ a" for a
  proof
    assume e: "(3000 :: nat) = 2 ^ a"
    show False
    proof (cases "a \<le> 11")
      case True
      then have "(2 :: nat) ^ a \<le> 2 ^ 11" by (intro power_increasing) auto
      then show False using e by simp
    next
      case False
      then have "(2 :: nat) ^ 12 \<le> 2 ^ a" by (intro power_increasing) auto
      then show False using e by simp
    qed
  qed
  then show ?thesis using memory_constructed [OF ddr3_device, of 3000] by (auto simp: ddr3_cfg_def)
qed

text \<open>C32. A number written behind its key, with blanks and a comment after it, is read back.\<close>

theorem setting_read_back:
  assumes "type_of_key cm key = Some UINT" "n < 2 ^ 32" "CHR ''='' \<notin> set key" "CHR '';'' \<notin> set key"
    "\<forall>ch \<in> set bs. is_blank ch" "rest = [] \<or> hd rest = CHR '';''"
  shows "\<exists>cm'. read_lines [key @ CHR ''='' # decimal n @ bs @ rest] cm = Inr cm' \<and> lookup_ini cm' key = Some (V_uint n) \<and>
    (\<forall>k. k \<noteq> key \<longrightarrow> lookup_ini cm' k = lookup_ini cm k)"
proof -
  have d: "decimal n \<noteq> []" "\<forall>ch \<in> set (decimal n). is_digit ch" using decimal_digits by auto
  then have "is_digit (last (decimal n))" by simp
  then have "\<not> is_blank (last (decimal n))" by (auto simp: is_digit_def is_blank_def)
  moreover have "CHR '';'' \<notin> set (decimal n)" using d(2) by (auto simp: is_digit_def)
  ultimately have "parse_line (key @ CHR ''='' # decimal n @ bs @ rest) = Inr (Some (key, decimal n))"
    using parse_line_key [OF assms(3,4) _ d(1) _ assms(5,6)] by blast
  then show ?thesis using assms(1,2) by (auto simp: SetKey_lookup parse_value_def read_unsigned_decimal)
qed

theorem setting_read_back_witness:
  "\<exists>cm'. read_lines [''tRCD='' @ decimal 10 @ '' ;*''] configMap = Inr cm' \<and> lookup_ini cm' ''tRCD'' = Some (V_uint 10)"
proof -
  have "type_of_key configMap ''tRCD'' = Some UINT" by code_simp
  then show ?thesis using setting_read_back [of configMap "''tRCD''" 10 "'' ''" "'';*''"] by (auto simp: is_blank_def)
qed

text \<open>C33. Of several settings of a key the last one counts, in a file and over several files.\<close>

theorem last_setting_counts:
  assumes "assignments ls = Inr kvs" "assignments ls' = Inr kvs'"
  shows "\<exists>cm'. bindR (read_lines ls cm) (read_lines ls') = Inr cm' \<and> (\<forall>k. lookup_ini cm' k =
    (case map_of (rev (kvs @ kvs')) k of
       Some v \<Rightarrow> map_option (\<lambda>ty. parse_value ty v) (type_of_key cm k)
     | None \<Rightarrow> lookup_ini cm k))"
  using assms OverrideKeys_lookup [of "kvs @ kvs'" cm] by (simp add: read_lines_assignments OverrideKeys_append)

theorem last_setting_counts_witness:
  "\<exists>cm'. bindR (read_lines [''AL=0'', ''AL=9''] configMap) (read_lines [''AL=3'']) = Inr cm' \<and> lookup_ini cm' ''AL'' = Some (V_uint 3)"
proof -
  have a: "assignments [''AL=0'', ''AL=9''] = Inr [(''AL'', ''0''), (''AL'', ''9'')]" "assignments [''AL=3''] = Inr [(''AL'', ''3'')]"
    and v: "type_of_key configMap ''AL'' = Some UINT" "parse_value UINT ''3'' = V_uint 3" by code_simp+
  show ?thesis using last_setting_counts [OF a, of configMap] v by auto
qed

text \<open>C34. The settings are accepted exactly when every number was set.\<close>

theorem missing_number_reported:
  "fst (CheckIfAllSet cm) \<longleftrightarrow> (\<forall>e. e \<in> set cm \<and> variableType e \<in> {UINT, UINT64, FLOAT} \<longrightarrow> wasSet e)"
  using CheckIfAllSet_iff by blast

theorem missing_number_reported_witness: "\<not> fst (CheckIfAllSet configMap)"
proof -
  have "uint_param ''NUM_BANKS'' DEV_PARAM \<in> set configMap" unfolding configMap_def by (simp only: list.set insert_iff simp_thms)
  then show ?thesis using missing_number_reported [of configMap] by (auto simp: uint_param_def)
qed

end
