(* ===== verification/Whole_Memory.thy ===== *)
theory Whole_Memory
  imports Hybrid_Queues Dram_Multi
begin

text \<open>
  The hybrid memory on top of the DRAM simulator it uses: \<open>HybridSystem::update\<close> hands the
  front of its queue to \<open>MultiChannelMemorySystem\<close>, updates it, and gets its callbacks. The
  flash stays an environment that answers what was asked. Shown: the two together refine the
  hybrid memory with an abstract DRAM, so that neither of them fails.
\<close>

section \<open>The two memories together\<close>

text \<open>The size in megabytes that the constructor asks for; \<open>OVERRIDE_DRAM_SIZE\<close> is 0.\<close>

definition dram_size :: "hs_cfg \<Rightarrow> nat" where
  "dram_size c = (let size = u64 (CACHE_PAGES c * PAGE_SIZE c) div 2 ^ 20 in if size = 0 then 1 else size)"

definition create_dram :: "dram_cfg \<Rightarrow> hs_cfg \<Rightarrow> derr + dram_cfg \<times> MultiChannelMemorySystem" where
  "create_dram dev c = newMultiChannel dev (u32 (dram_size c))"

text \<open>The callbacks that the constructor registers with every channel.\<close>

fun dram_answer :: "nat \<times> dcallback \<Rightarrow> mem_cb" where
  "dram_answer (i, Read_Returned a t) = DRAM_Read_CB a"
| "dram_answer (i, Write_Data_Done a t) = DRAM_Write_CB a"

definition ask_dram :: "dram_cfg \<Rightarrow> hs \<Rightarrow> MultiChannelMemorySystem \<Rightarrow> derr + bool \<times> MultiChannelMemorySystem" where
  "ask_dram dc s m = (case dram_queue s of [] \<Rightarrow> Inr (True, m)
     | tmp # _ \<Rightarrow> multi_addTransaction dc (transactionType tmp = DATA_WRITE) (address tmp) m)"

datatype werr = Hybrid_Error herr | Dram_Error derr | Dram_Runs_On

fun mapL :: "('e \<Rightarrow> 'f) \<Rightarrow> 'e + 'a \<Rightarrow> 'f + 'a" where
  "mapL f (Inl e) = Inl (f e)"
| "mapL f (Inr x) = Inr x"

definition update_dram :: "dram_cfg \<Rightarrow> MultiChannelMemorySystem \<Rightarrow> werr + MultiChannelMemorySystem \<times> (nat \<times> dcallback) list" where
  "update_dram dc m = (case multi_update dc m of None \<Rightarrow> Inl Dram_Runs_On | Some r \<Rightarrow> mapL Dram_Error r)"

text \<open>A cycle. The callbacks of the DRAM only touch the hybrid memory, so they can follow its update.\<close>

definition whole_update :: "dram_cfg \<Rightarrow> bool \<Rightarrow> mem_cb list \<Rightarrow> hs \<times> MultiChannelMemorySystem \<Rightarrow> werr + hs \<times> MultiChannelMemorySystem" where
  "whole_update dc flash_ok flash_cbs = (\<lambda>(s, m).
     bindR (mapL Hybrid_Error (before_issue s)) (\<lambda>s2.
     bindR (mapL Dram_Error (ask_dram dc s2 m)) (\<lambda>(dram_ok, m1).
     let s3 = tick_delay (issue_flash flash_ok (issue_dram dram_ok s2)) in
     bindR (update_dram dc m1) (\<lambda>(m2, out).
     bindR (mapL Hybrid_Error (run_cbs (map dram_answer out) s3)) (\<lambda>s4.
     bindR (mapL Hybrid_Error (run_cbs flash_cbs s4)) (\<lambda>s5.
     Inr (step s5, m2)))))))"

text \<open>
  The system with the requests accepted so far and the reads held by the flash. The list of
  the reads held by the DRAM stays empty in this environment: the simulator itself holds them.
\<close>

type_synonym whole = "hs \<times> MultiChannelMemorySystem \<times> menv \<times> (bool \<times> nat) multiset"

inductive whole_step :: "dram_cfg \<Rightarrow> whole \<Rightarrow> whole \<Rightarrow> bool" for dc where
  w_submit: "a < 2 ^ 64 \<Longrightarrow> addTransaction_rw w a s = Inr s' \<Longrightarrow> whole_step dc (s, m, e, acc) (s', m, e, add_mset (w, a) acc)"
| w_device: "op \<in> {0, 2, 3, 4} \<Longrightarrow> mmio op a s = Inr s' \<Longrightarrow> whole_step dc (s, m, e, acc) (s', m, e, acc)"
| w_cycle: "legal False fok [] fcbs s e = Some e' \<Longrightarrow> whole_update dc fok fcbs (s, m) = Inr (s', m') \<Longrightarrow>
    whole_step dc (s, m, e, acc) (s', m', e', acc)"

definition whole_init :: "hs_cfg \<Rightarrow> dram_cfg \<Rightarrow> whole \<Rightarrow> bool" where
  "whole_init c dc x \<longleftrightarrow> cfg_ok c \<and> (\<exists>dev i m. device_ok dev \<and> NUM_CHANS dev \<le> u32 (dram_size c) \<and> create_dram dev c = Inr (dc, m) \<and>
     x = (init_hs c i True True, m, no_reads, {#}))"

abbreviation whole_run :: "hs_cfg \<Rightarrow> dram_cfg \<Rightarrow> whole \<Rightarrow> bool" where
  "whole_run c dc \<equiv> reach (whole_init c dc) (whole_step dc)"

section \<open>The reads between the two\<close>

definition reads_asked :: "request list \<Rightarrow> nat multiset" where
  "reads_asked asked = mset (map snd (filter (\<lambda>(w, a). \<not> w) asked))"

definition reads_answered :: "(nat \<times> dcallback) list \<Rightarrow> nat multiset" where
  "reads_answered out = reads_out (map snd out)"

definition dram_owes :: "dram_cfg \<Rightarrow> MultiChannelMemorySystem \<Rightarrow> nat multiset" where
  "dram_owes dc m = (\<Sum>i<NUM_CHANS dc. owed_reads (channels m ! i))"

lemma reads_asked_sum:
  assumes "multi_cfg c"
  shows "(\<Sum>i<NUM_CHANS c. asked_reads c i asked) = reads_asked asked"
proof (induction asked)
  case (Cons r asked)
  obtain w a where r: "r = (w, a)" by fastforce
  have "asked_reads c i (r # asked) = (if chan_of c a = i then (if w then {#} else {#a#}) else {#}) + asked_reads c i asked" for i
    by (auto simp: asked_reads_def r)
  then have "(\<Sum>i<NUM_CHANS c. asked_reads c i (r # asked)) = (if w then {#} else {#a#}) + reads_asked asked"
    using findChannel_ok(2) [OF assms, of a] Cons.IH by (simp add: sum.distrib)
  then show ?case by (simp add: reads_asked_def r)
qed (simp add: reads_asked_def asked_reads_def)

lemma reads_answered_sum:
  assumes "\<forall>i. n \<le> i \<longrightarrow> outs_of i out = []"
  shows "(\<Sum>i<n. reads_out (outs_of i out)) = reads_answered out"
  using assms
proof (induction out)
  case (Cons x out)
  have "outs_of (fst x) (x # out) \<noteq> []" by (simp add: outs_of_def)
  then have k: "fst x < n" using Cons.prems by (meson not_less)
  have "\<forall>i. n \<le> i \<longrightarrow> outs_of i out = []" using Cons.prems by (auto simp: outs_of_def split: if_splits)
  note IH = Cons.IH [OF this]
  have "reads_out (outs_of i (x # out)) = (if fst x = i then read_out (snd x) else {#}) + reads_out (outs_of i out)" for i
    by (simp add: outs_of_def reads_out_def)
  then have "(\<Sum>i<n. reads_out (outs_of i (x # out))) = read_out (snd x) + reads_answered out"
    using k IH by (simp add: sum.distrib)
  then show ?case by (simp add: reads_answered_def reads_out_def)
qed (simp add: reads_answered_def outs_of_def reads_out_def)

lemma dram_owes_eq:
  assumes "multi_cfg c" "multi_inv c c1 c2 m n asked out"
  shows "reads_asked asked = reads_answered out + dram_owes c m"
proof -
  have ch: "chans_ok c (calls c1 c2 n) asked out (channels m)" using assms(2) by (simp add: multi_inv_def)
  have "reads_asked asked = (\<Sum>i<NUM_CHANS c. asked_reads c i asked)" using reads_asked_sum [OF assms(1)] by simp
  also have "\<dots> = (\<Sum>i<NUM_CHANS c. reads_out (outs_of i out) + owed_reads (channels m ! i))"
    using ch by (intro sum.cong) (auto simp: chans_ok_def chan_ok_def)
  also have "\<dots> = reads_answered out + dram_owes c m"
    using reads_answered_sum [of "NUM_CHANS c" out] ch by (simp add: sum.distrib dram_owes_def chans_ok_def)
  finally show ?thesis .
qed

text \<open>What the DRAM owes after a request and after an update.\<close>

definition dram_inv :: "dram_cfg \<Rightarrow> MultiChannelMemorySystem \<Rightarrow> bool" where
  "dram_inv dc m \<longleftrightarrow> multi_cfg dc \<and> (\<exists>n asked out. multi_inv dc 1 1 m n asked out)"

lemma dram_add:
  assumes "dram_inv dc m"
  shows "\<exists>m'. multi_addTransaction dc w a m = Inr (True, m') \<and> dram_inv dc m' \<and> dram_owes dc m' = dram_owes dc m + (if w then {#} else {#a#})"
proof -
  obtain n asked out where m: "multi_cfg dc" "multi_inv dc 1 1 m n asked out" using assms by (auto simp: dram_inv_def)
  obtain m' where m': "multi_addTransaction dc w a m = Inr (True, m')" "multi_inv dc 1 1 m' n (asked @ [(w, a)]) out"
    using multi_add_ok [OF m, of w a] by blast
  have "reads_asked (asked @ [(w, a)]) = reads_asked asked + (if w then {#} else {#a#})" by (simp add: reads_asked_def)
  then have "dram_owes dc m' = dram_owes dc m + (if w then {#} else {#a#})"
    using dram_owes_eq [OF m] dram_owes_eq [OF m(1) m'(2)] by (simp add: add.assoc)
  then show ?thesis using m(1) m' by (auto simp: dram_inv_def)
qed

lemma dram_tick:
  assumes "dram_inv dc m"
  shows "\<exists>m' out. update_dram dc m = Inr (m', out) \<and> dram_inv dc m' \<and> dram_owes dc m = reads_answered out + dram_owes dc m'"
proof -
  obtain n asked out0 where m: "multi_cfg dc" "multi_inv dc 1 1 m n asked out0" using assms by (auto simp: dram_inv_def)
  obtain m' out where m': "multi_update dc m = Some (Inr (m', out))" "multi_inv dc 1 1 m' (Suc n) asked (out0 @ out)"
    using multi_update_ok [OF m(1) _ _ m(2)] by auto
  have "reads_answered (out0 @ out) = reads_answered out0 + reads_answered out" by (simp add: reads_answered_def)
  then have "dram_owes dc m = reads_answered out + dram_owes dc m'"
    using dram_owes_eq [OF m] dram_owes_eq [OF m(1) m'(2)] by (simp add: add.assoc)
  then show ?thesis using m(1) m' by (auto simp: dram_inv_def update_dram_def)
qed

section \<open>The refinement\<close>

text \<open>The callbacks of the DRAM are legal: each read it answers is one that it was given.\<close>

lemma env_answers:
  assumes "reads_answered out \<subseteq># mset (dout e)"
  shows "\<exists>d. env_cbs (map dram_answer out) e = Some (e\<lparr>dout := d\<rparr>) \<and> mset d = mset (dout e) - reads_answered out"
  using assms
proof (induction out arbitrary: e)
  case Nil
  then show ?case by (auto simp: reads_answered_def reads_out_def intro!: exI [of _ "dout e"])
next
  case (Cons x out)
  obtain i cb where x: "x = (i, cb)" by fastforce
  show ?case
  proof (cases cb)
    case (Read_Returned a t)
    have r: "reads_answered (x # out) = add_mset a (reads_answered out)" by (simp add: reads_answered_def reads_out_def x Read_Returned)
    have a: "a \<in> set (dout e)" using Cons.prems r by (metis insert_subset_eq_iff set_mset_mset)
    let ?e = "e\<lparr>dout := remove1 a (dout e)\<rparr>"
    have "reads_answered out \<subseteq># mset (dout ?e)" using Cons.prems r by (simp add: insert_subset_eq_iff)
    from Cons.IH [OF this] show ?thesis using a r by (auto simp: x Read_Returned)
  next
    case (Write_Data_Done a t)
    then have "reads_answered (x # out) = reads_answered out" by (simp add: reads_answered_def reads_out_def x)
    then show ?thesis using Cons.IH [of e] Cons.prems by (simp add: x Write_Data_Done)
  qed
qed

lemma env_flash:
  assumes "dout e = []" "env_cbs cbs e = Some e'"
  shows "env_cbs cbs (e\<lparr>dout := d\<rparr>) = Some (e'\<lparr>dout := d\<rparr>)" "dout e' = []"
proof -
  have one: "env_cb cb (e\<lparr>dout := d\<rparr>) = Some (e'\<lparr>dout := d\<rparr>) \<and> dout e' = []" if "dout e = []" "env_cb cb e = Some e'" for cb e e'
    using that by (cases cb) (auto split: if_splits)
  have "env_cbs cbs (e\<lparr>dout := d\<rparr>) = Some (e'\<lparr>dout := d\<rparr>) \<and> dout e' = []"
    using assms
  proof (induction cbs arbitrary: e)
    case (Cons cb cbs)
    then show ?case using one by (fastforce split: option.splits)
  qed auto
  then show "env_cbs cbs (e\<lparr>dout := d\<rparr>) = Some (e'\<lparr>dout := d\<rparr>)" "dout e' = []" by simp_all
qed

definition whole_inv :: "hs_cfg \<Rightarrow> dram_cfg \<Rightarrow> whole \<Rightarrow> bool" where
  "whole_inv c dc = (\<lambda>(s, m, e, acc). dram_inv dc m \<and> dout e = [] \<and> (\<exists>d. run c (s, e\<lparr>dout := d\<rparr>, acc) \<and> mset d = dram_owes dc m))"

lemma mapL_bind [simp]: "bindR (mapL f (bindR m g)) h = bindR (mapL f m) (\<lambda>x. bindR (mapL f (g x)) h)"
  by (cases m) auto

lemma ask_dram_ok:
  assumes "dram_inv dc m" "queues_typed s"
  shows "\<exists>m'. ask_dram dc s m = Inr (True, m') \<and> dram_inv dc m' \<and> dram_owes dc m' = dram_owes dc m + mset (reads (take 1 (dram_queue s)))"
proof (cases "dram_queue s")
  case (Cons t q)
  then have "transactionType t = DATA_WRITE \<longleftrightarrow> transactionType t \<noteq> DATA_READ" using assms(2) by (auto simp: queues_typed_def is_data_def)
  then show ?thesis using dram_add [OF assms(1), of "transactionType t = DATA_WRITE" "address t"] Cons by (auto simp: ask_dram_def reads_def)
qed (use assms(1) in \<open>simp add: ask_dram_def reads_def\<close>)

text \<open>A cycle of the two together is a cycle of the hybrid memory with the answers of the DRAM.\<close>

lemma whole_update_legal:
  assumes inv: "whole_inv c dc (s, m, e, acc)" and legal: "legal False fok [] fcbs s e = Some e'" and d: "run c (s, e\<lparr>dout := d\<rparr>, acc)" "mset d = dram_owes dc m"
  shows "(\<exists>err. before_issue s = Inl err \<and> whole_update dc fok fcbs (s, m) = Inl (Hybrid_Error err)) \<or>
    (\<exists>m' dcbs d'. dram_inv dc m' \<and> legal True fok dcbs fcbs s (e\<lparr>dout := d\<rparr>) = Some (e'\<lparr>dout := d'\<rparr>) \<and> dout e' = [] \<and> mset d' = dram_owes dc m' \<and>
      whole_update dc fok fcbs (s, m) = bindR (mapL Hybrid_Error (update True fok dcbs fcbs s)) (\<lambda>s'. Inr (s', m')))"
proof (cases "before_issue s")
  case (Inr s2)
  have m: "dram_inv dc m" "dout e = []" using inv by (simp_all add: whole_inv_def)
  have "queues_typed s2" using typed_before_issue [of s] typed_run [OF d(1)] Inr by simp
  from ask_dram_ok [OF m(1) this] obtain m1 where m1: "ask_dram dc s2 m = Inr (True, m1)" "dram_inv dc m1"
    "dram_owes dc m1 = dram_owes dc m + mset (reads (take 1 (dram_queue s2)))" by blast
  obtain m2 out where m2: "update_dram dc m1 = Inr (m2, out)" "dram_inv dc m2" "dram_owes dc m1 = reads_answered out + dram_owes dc m2"
    using dram_tick [OF m1(2)] by blast
  let ?e = "env_issue True fok s2 (e\<lparr>dout := d\<rparr>)"
  have ds: "mset (dout ?e) = dram_owes dc m1" using d(2) m1(3) by (simp add: env_issue_def)
  then obtain d' where d': "env_cbs (map dram_answer out) ?e = Some (?e\<lparr>dout := d'\<rparr>)" "mset d' = mset (dout ?e) - reads_answered out"
    using env_answers [of out ?e] m2(3) by auto
  have l: "env_cbs fcbs (env_issue False fok s2 e) = Some e'" using legal Inr by (simp add: legal_def)
  have dn: "dout (env_issue False fok s2 e) = []" using m(2) by (simp add: env_issue_def reads_def)
  have "?e\<lparr>dout := d'\<rparr> = (env_issue False fok s2 e)\<lparr>dout := d'\<rparr>" by (simp add: env_issue_def)
  then have "legal True fok (map dram_answer out) fcbs s (e\<lparr>dout := d\<rparr>) = Some (e'\<lparr>dout := d'\<rparr>)" "dout e' = []"
    using env_flash [OF dn l] d'(1) Inr by (simp_all add: legal_def env_cbs_append)
  moreover have "mset d' = dram_owes dc m2" using d'(2) ds m2(3) by simp
  moreover have "whole_update dc fok fcbs (s, m) = bindR (mapL Hybrid_Error (update True fok (map dram_answer out) fcbs s)) (\<lambda>s'. Inr (s', m2))"
    using Inr m1(1) m2(1) by (simp add: whole_update_def update_parts run_cbs_append Let_def)
  ultimately show ?thesis using m2(2) by blast
qed (simp add: whole_update_def)

lemma whole_cycle_ok:
  assumes inv: "whole_inv c dc (s, m, e, acc)" and legal: "legal False fok [] fcbs s e = Some e'"
  shows "case whole_update dc fok fcbs (s, m) of Inl err \<Rightarrow> ENABLE_STREAM_BUFFER c \<and> err = Hybrid_Error Iterator_Past_End
    | Inr (s', m') \<Rightarrow> whole_inv c dc (s', m', e', acc)"
proof -
  obtain d where d: "run c (s, e\<lparr>dout := d\<rparr>, acc)" "mset d = dram_owes dc m" using inv by (auto simp: whole_inv_def)
  obtain fl where fl: "cfg s = c" "hinv s fl (e\<lparr>dout := d\<rparr>)" using d(1) by (rule runE)
  from whole_update_legal [OF inv legal d] show ?thesis
  proof (elim disjE exE conjE)
    fix err assume "before_issue s = Inl err" "whole_update dc fok fcbs (s, m) = Inl (Hybrid_Error err)"
    then show ?thesis using before_issue_ok [OF fl(2)] fl(1) by simp
  next
    fix m' dcbs d' assume m': "dram_inv dc m'" "legal True fok dcbs fcbs s (e\<lparr>dout := d\<rparr>) = Some (e'\<lparr>dout := d'\<rparr>)" "dout e' = []" "mset d' = dram_owes dc m'"
      "whole_update dc fok fcbs (s, m) = bindR (mapL Hybrid_Error (update True fok dcbs fcbs s)) (\<lambda>s'. Inr (s', m'))"
    show ?thesis
    proof (cases "update True fok dcbs fcbs s")
      case (Inl err)
      then show ?thesis using update_ok [OF fl(2) m'(2)] fl(1) m'(5) by simp
    next
      case (Inr s')
      then have "run c (s', e'\<lparr>dout := d'\<rparr>, acc)" by (rule reach_step [OF d(1) sys_step.cycle [OF m'(2)]])
      then show ?thesis using Inr m' by (auto simp: whole_inv_def)
    qed
  qed
qed

section \<open>The system\<close>

lemma create_dram_ok:
  assumes d: "device_ok dev" "NUM_CHANS dev \<le> u32 (dram_size c)" and cr: "create_dram dev c = Inr (dc, m)"
  shows "dram_inv dc m" "dram_owes dc m = {#}"
proof -
  let ?n = "u32 (dram_size c)"
  have lt: "?n < 2 ^ 32" by (simp add: u32_def)
  have "isPowerOfTwo ?n" using cr by (simp add: create_dram_def newMultiChannel_def split: if_splits)
  then obtain a where a: "?n = 2 ^ a" using isPowerOfTwo_iff [OF lt] by blast
  then have "a < 32" using lt by (metis power_less_imp_less_exp one_less_numeral_iff semiring_norm(76))
  then have m: "multi_cfg dc" "m = multi_start dc 1 1" using newMultiChannel_ok [OF d(1) a _ d(2)] cr by (auto simp: create_dram_def)
  then show "dram_inv dc m" using multi_run_inv [OF multi_run_start [of dc 1 1]] by (auto simp: dram_inv_def)
  show "dram_owes dc m = {#}" by (simp add: m dram_owes_def multi_start_def owed_new)
qed

lemma whole_inv_init: "whole_init c dc x \<Longrightarrow> whole_inv c dc x"
proof -
  assume "whole_init c dc x"
  then obtain dev i m where x: "cfg_ok c" "device_ok dev" "NUM_CHANS dev \<le> u32 (dram_size c)" "create_dram dev c = Inr (dc, m)"
    "x = (init_hs c i True True, m, no_reads, {#})" unfolding whole_init_def by blast
  have e: "no_reads\<lparr>dout := []\<rparr> = no_reads" "dout no_reads = []" by (simp_all add: no_reads_def)
  have "run c (init_hs c i True True, no_reads\<lparr>dout := []\<rparr>, {#})"
    unfolding e using x(1) by (intro reach_init) (auto simp: sys_init_def)
  then show "whole_inv c dc x" using create_dram_ok [OF x(2-4)] e(2) by (auto simp: whole_inv_def x(5) intro!: exI [of _ "[]"])
qed

lemma run_next: "run c x \<Longrightarrow> sys_step x y \<Longrightarrow> run c y"
  by (rule reach_step)

lemma whole_inv_step:
  assumes "whole_inv c dc x" "whole_step dc x y"
  shows "whole_inv c dc y"
  using assms(2,1)
proof cases
  case (w_submit a w s s' m e acc)
  then show ?thesis using assms(1) run_next [OF _ sys_step.submit [OF w_submit(3,4)]] by (auto simp: whole_inv_def)
next
  case (w_device op a s s' m e acc)
  then show ?thesis using assms(1) run_next [OF _ sys_step.device [OF w_device(3,4)]] by (auto simp: whole_inv_def)
next
  case (w_cycle fok fcbs s e e' m s' m' acc)
  then show ?thesis using whole_cycle_ok [of c dc s m e acc fok fcbs e'] assms(1) by simp
qed

interpretation whole_memory: safe_system "whole_init c dc" "whole_step dc" "whole_inv c dc" for c dc
  by unfold_locales (auto intro: whole_inv_init whole_inv_step)

end
