(* ===== verification/Nv_Config.thy ===== *)
theory Nv_Config
  imports Sim_Prelude
begin

text \<open>
  Settings, transactions and packets of the flash simulator (\<open>src/NVDIMMSim/src\<close>:
  \<open>FlashConfiguration.h\<close>, \<open>FlashTransaction.h\<close>, \<open>ChannelPacket.h\<close>), and the physical address of
  a page (\<open>Ftl::translate\<close>). Shown: address and place of a page determine each other.
\<close>

section \<open>Settings\<close>

text \<open>
  Times are turned into cycles in floating point (\<open>divide_params\<close>, \<open>divide_params_64b\<close>), and the
  thresholds of the garbage collector are compared in floating point; \<open>divide_params\<close>, the cycle
  counts and the three comparisons are therefore settings of the model.
\<close>

record nv_cfg =
  NUM_PACKAGES :: nat
  DIES_PER_PACKAGE :: nat
  PLANES_PER_DIE :: nat
  BLOCKS_PER_PLANE :: nat
  VIRTUAL_BLOCKS_PER_PLANE :: nat
  PAGES_PER_BLOCK :: nat
  NV_PAGE_SIZE :: nat
  SCHEDULE :: bool
  PERFECT_SCHEDULE :: bool
  WRITE_ON_QUEUE_SIZE :: bool
  WRITE_QUEUE_LIMIT :: nat
  IDLE_WRITE :: bool
  DELAY_WRITE :: bool
  DELAY_WRITE_CYCLES :: nat
  DISK_READ :: bool
  FRONT_BUFFER :: bool
  REQUEST_BUFFER_SIZE :: nat
  RESPONSE_BUFFER_SIZE :: nat
  ENABLE_COMMAND_CHANNEL :: bool
  COMMAND_CHANNEL_WIDTH :: nat
  ENABLE_REQUEST_CHANNEL :: bool
  REQUEST_CHANNEL_WIDTH :: nat
  NV_CHANNEL_WIDTH :: nat
  NV_DEVICE_WIDTH :: nat
  COMMAND_LENGTH :: nat
  CRIT_LINE_FIRST :: bool
  GARBAGE_COLLECT :: bool
  IN_PLACE_DEVICE :: bool
  FTL_READ_QUEUE_LENGTH :: nat
  FTL_WRITE_QUEUE_LENGTH :: nat
  CTRL_READ_QUEUE_LENGTH :: nat
  LOOKUP_CYCLES :: nat
  QUEUE_ACCESS_CYCLES :: nat
  READ_CYCLES :: nat
  WRITE_CYCLES :: nat
  ERASE_CYCLES :: nat
  return_cycles :: nat
  critBeat :: nat
  deadlock_time :: nat
  divide_params :: "nat \<Rightarrow> nat \<Rightarrow> nat"
  force_gc :: "nat \<Rightarrow> bool"
  all_used :: "nat \<Rightarrow> bool"
  checkGC :: "nat \<Rightarrow> bool"

definition BLOCK_SIZE :: "nv_cfg \<Rightarrow> nat" where
  "BLOCK_SIZE c = NV_PAGE_SIZE c * PAGES_PER_BLOCK c"

definition TOTAL_SIZE :: "nv_cfg \<Rightarrow> nat" where
  "TOTAL_SIZE c = NV_PAGE_SIZE c * NUM_PACKAGES c * DIES_PER_PACKAGE c * PLANES_PER_DIE c * BLOCKS_PER_PLANE c * PAGES_PER_BLOCK c"

definition VIRTUAL_TOTAL_SIZE :: "nv_cfg \<Rightarrow> nat" where
  "VIRTUAL_TOTAL_SIZE c =
     NV_PAGE_SIZE c * NUM_PACKAGES c * DIES_PER_PACKAGE c * PLANES_PER_DIE c * VIRTUAL_BLOCKS_PER_PLANE c * PAGES_PER_BLOCK c"

section \<open>Transactions and packets\<close>

datatype nvType =
    F_DATA_READ | F_DATA_WRITE | F_GC_DATA | F_GC_DATA_READ | F_GC_DATA_WRITE | F_RETURN_DATA | F_BLOCK_ERASE | F_EMPTY

text \<open>The data of a transaction and of a packet is a pointer, which is never followed; 0 is the null pointer.\<close>

record FlashTransaction =
  fl_type :: nvType
  fl_addr :: nat
  fl_data :: nat

definition mkFlash :: "nvType \<Rightarrow> nat \<Rightarrow> nat \<Rightarrow> FlashTransaction" where
  "mkFlash ty a d = \<lparr>fl_type = ty, fl_addr = a, fl_data = d\<rparr>"

text \<open>An empty transaction has no address; the model gives it 0.\<close>

definition emptyFlash :: FlashTransaction where
  "emptyFlash = mkFlash F_EMPTY 0 0"

datatype ChannelPacketType = P_READ | P_GC_READ | P_WRITE | P_GC_WRITE | P_ERASE | P_DATA | P_FAST_WRITE

record ChannelPacket =
  pk_type :: ChannelPacketType
  pk_page :: nat
  pk_block :: nat
  pk_plane :: nat
  pk_die :: nat
  pk_package :: nat
  pk_vaddr :: nat
  pk_paddr :: nat
  pk_data :: nat

datatype nverr =
    Invalid_Address | Address_Out_Of_Bounds | Panic_Mode | Flash_Full | Nothing_To_Collect | Gc_Data_Missing
  | Page_Not_Mapped | Bad_Type | Empty_Queue | Undefined_Iterator | Die_Busy | Registers_Full | Cache_Reg_Empty
  | Page_Written_Twice | Data_Reg_Empty | Bad_Packet | Bad_Request

section \<open>Physical addresses\<close>

definition translate :: "nv_cfg \<Rightarrow> ChannelPacketType \<Rightarrow> nat \<Rightarrow> nat \<Rightarrow> nverr + ChannelPacket" where
  "translate c ty vAddr pAddr =
     (if u64_sub (TOTAL_SIZE c) 1 < pAddr then Inl Invalid_Address
      else let a0 = pAddr div NV_PAGE_SIZE c;
               page = a0 mod PAGES_PER_BLOCK c; a1 = a0 div PAGES_PER_BLOCK c;
               block = a1 mod BLOCKS_PER_PLANE c; a2 = a1 div BLOCKS_PER_PLANE c;
               plane = a2 mod PLANES_PER_DIE c; a3 = a2 div PLANES_PER_DIE c;
               die = a3 mod DIES_PER_PACKAGE c; a4 = a3 div DIES_PER_PACKAGE c;
               package = a4 mod NUM_PACKAGES c
           in Inr \<lparr>pk_type = ty, pk_page = page, pk_block = block, pk_plane = plane, pk_die = die, pk_package = package,
                   pk_vaddr = vAddr, pk_paddr = pAddr, pk_data = 0\<rparr>)"

text \<open>A place: package, die, plane, block and page.\<close>

type_synonym flash_place = "nat \<times> nat \<times> nat \<times> nat \<times> nat"

definition flash_place_of :: "ChannelPacket \<Rightarrow> flash_place" where
  "flash_place_of p = (pk_package p, pk_die p, pk_plane p, pk_block p, pk_page p)"

definition place_valid :: "nv_cfg \<Rightarrow> flash_place \<Rightarrow> bool" where
  "place_valid c = (\<lambda>(package, die, plane, block, page). package < NUM_PACKAGES c \<and> die < DIES_PER_PACKAGE c \<and>
     plane < PLANES_PER_DIE c \<and> block < BLOCKS_PER_PLANE c \<and> page < PAGES_PER_BLOCK c)"

definition address_of :: "nv_cfg \<Rightarrow> flash_place \<Rightarrow> nat" where
  "address_of c = (\<lambda>(package, die, plane, block, page).
     (page + PAGES_PER_BLOCK c * (block + BLOCKS_PER_PLANE c * (plane + PLANES_PER_DIE c * (die + DIES_PER_PACKAGE c * package)))) * NV_PAGE_SIZE c)"

definition page_address :: "nv_cfg \<Rightarrow> nat \<Rightarrow> bool" where
  "page_address c a \<longleftrightarrow> a < TOTAL_SIZE c \<and> NV_PAGE_SIZE c dvd a"

definition place_at :: "nv_cfg \<Rightarrow> nat \<Rightarrow> flash_place" where
  "place_at c a = (case translate c P_READ 0 a of Inl _ \<Rightarrow> (0, 0, 0, 0, 0) | Inr p \<Rightarrow> flash_place_of p)"

definition sizes_ok :: "nv_cfg \<Rightarrow> bool" where
  "sizes_ok c \<longleftrightarrow> 0 < TOTAL_SIZE c \<and> TOTAL_SIZE c < 2 ^ 64"

lemma sizes_pos:
  assumes "sizes_ok c"
  shows "0 < NUM_PACKAGES c" "0 < DIES_PER_PACKAGE c" "0 < PLANES_PER_DIE c" "0 < BLOCKS_PER_PLANE c" "0 < PAGES_PER_BLOCK c"
    "0 < NV_PAGE_SIZE c"
  using assms by (auto simp: sizes_ok_def TOTAL_SIZE_def)

lemma translate_ok:
  assumes "sizes_ok c" "a < TOTAL_SIZE c"
  shows "\<exists>p. translate c ty v a = Inr p \<and> pk_type p = ty \<and> pk_vaddr p = v \<and> pk_paddr p = a \<and> flash_place_of p = place_at c a"
proof -
  have "u64_sub (TOTAL_SIZE c) 1 = TOTAL_SIZE c - 1" using assms(1) using u64_sub_id [of 1 "TOTAL_SIZE c"] by (simp add: sizes_ok_def)
  then show ?thesis using assms by (auto simp: translate_def place_at_def flash_place_of_def Let_def)
qed

end
