(* ===== verification/Nv_State.thy ===== *)
theory Nv_State
  imports Nv_Config
begin

text \<open>
  The state of the flash simulator: one record per class (\<open>Plane\<close>, \<open>Die\<close>, \<open>Controller\<close>, \<open>Ftl\<close> with the
  fields of its subclass \<open>GCFtl\<close>, \<open>FrontBuffer\<close>, \<open>NVDIMM\<close>), as the constructors leave them. A vector or
  array that is indexed by package, die, plane or block is a function. Counters that only grow are
  numbers. The modelled configuration is
  that of \<open>nvdimm.ini\<close>, which \<open>hybridsim.ini\<close> names: \<open>BUFFERED\<close>, \<open>CTRL_SCHEDULE\<close> and \<open>ENABLE_WRITE_SCRIPT\<close> are off and \<open>LOGGING\<close> is on.
\<close>

section \<open>Planes and dies\<close>

record nvplane =
  dataReg :: "ChannelPacket option"
  cacheReg :: "ChannelPacket option"
  blocks :: "nat \<Rightarrow> (nat \<Rightarrow> nat option) option"

record nvdie =
  di_planes :: "nat \<Rightarrow> nvplane"
  di_currentCommands :: "nat \<Rightarrow> ChannelPacket option"
  di_controlCyclesLeft :: "nat \<Rightarrow> nat"
  di_dataCyclesLeft :: nat
  di_returnDataPackets :: "ChannelPacket list"

definition new_plane :: nvplane where
  "new_plane = \<lparr>dataReg = None, cacheReg = None, blocks = (\<lambda>_. None)\<rparr>"

text \<open>The array \<open>controlCyclesLeft\<close> has no initial value; it is written before it is read.\<close>

definition new_die :: nvdie where
  "new_die = \<lparr>di_planes = (\<lambda>_. new_plane), di_currentCommands = (\<lambda>_. None), di_controlCyclesLeft = (\<lambda>_. 0),
     di_dataCyclesLeft = 0, di_returnDataPackets = []\<rparr>"

section \<open>Controller and channels\<close>

record nvctrl =
  ct_readQueues :: "nat \<Rightarrow> nat \<Rightarrow> ChannelPacket list"
  ct_outgoingPackets :: "nat \<Rightarrow> ChannelPacket option"
  ct_channelBeatsLeft :: "nat \<Rightarrow> nat"
  ct_die_pointers :: "nat \<Rightarrow> nat"
  ct_returnTransaction :: "FlashTransaction list"

definition new_ctrl :: nvctrl where
  "new_ctrl = \<lparr>ct_readQueues = (\<lambda>_ _. []), ct_outgoingPackets = (\<lambda>_. None), ct_channelBeatsLeft = (\<lambda>_. 0),
     ct_die_pointers = (\<lambda>_. 0), ct_returnTransaction = []\<rparr>"

text \<open>
  A channel is held by a sender or free (\<open>sender = -1\<close>); it moves whole packets, so that its \<open>busy\<close> flag,
  which \<open>sendPiece\<close> alone sets, stays clear.
\<close>

datatype SenderType = CONTROLLER | BUFFER

section \<open>Flash translation layer\<close>

record nvftl =
  ft_channel :: nat
  ft_die :: nat
  ft_plane :: nat
  ft_lookupCounter :: nat
  ft_currentTransaction :: FlashTransaction
  ft_busy :: bool
  ft_deadlock_counter :: nat
  ft_write_counter :: nat
  ft_used_page_count :: nat
  ft_write_wait_count :: nat
  ft_read_pointer :: nat
  ft_read_queues_full :: bool
  ft_write_queues_full :: bool
  ft_queue_access_counter :: nat
  ft_read_iterator_counter :: nat
  ft_locked_counter :: nat
  ft_addressMap :: "(nat, nat) umap"
  ft_used :: "nat \<Rightarrow> nat \<Rightarrow> bool"
  ft_readQueue :: "FlashTransaction list"
  ft_writeQueue :: "FlashTransaction list"
  ft_gc_status :: bool
  ft_panic_mode :: bool
  ft_start_erase :: nat
  ft_erase_pointer :: nat
  ft_gc_pending_erase :: "(nat list \<times> nat) list"
  ft_dirty_page_count :: nat
  ft_dirty :: "nat \<Rightarrow> nat \<Rightarrow> bool"
  ft_gcQueue :: "FlashTransaction list"

text \<open>The iterator \<open>read_pointer\<close> is an index, and the end of a list an index that no list reaches.\<close>

definition list_end :: nat where
  "list_end = 2 ^ 64"

definition new_ftl :: "nv_cfg \<Rightarrow> nvftl" where
  "new_ftl c = \<lparr>ft_channel = 0, ft_die = 0, ft_plane = 0, ft_lookupCounter = 0, ft_currentTransaction = emptyFlash,
     ft_busy = False, ft_deadlock_counter = 0, ft_write_counter = 0, ft_used_page_count = 0,
     ft_write_wait_count = DELAY_WRITE_CYCLES c, ft_read_pointer = list_end, ft_read_queues_full = False,
     ft_write_queues_full = False, ft_queue_access_counter = 0, ft_read_iterator_counter = 0, ft_locked_counter = 0,
     ft_addressMap = [], ft_used = (\<lambda>_ _. False), ft_readQueue = [], ft_writeQueue = [],
     ft_gc_status = False, ft_panic_mode = False, ft_start_erase = 0, ft_erase_pointer = 0, ft_gc_pending_erase = [],
     ft_dirty_page_count = 0, ft_dirty = (\<lambda>_ _. False), ft_gcQueue = []\<rparr>"

section \<open>Front buffer\<close>

record nvfront =
  fb_requests :: "FlashTransaction list"
  fb_responses :: "FlashTransaction list"
  fb_commands :: "FlashTransaction list"
  fb_requestsSize :: nat
  fb_responsesSize :: nat
  fb_requestTrans :: FlashTransaction
  fb_responseTrans :: FlashTransaction
  fb_commandTrans :: FlashTransaction
  fb_pendingData :: "FlashTransaction list"
  fb_pendingCommand :: "FlashTransaction list"
  fb_requestCyclesLeft :: nat
  fb_responseCyclesLeft :: nat
  fb_commandCyclesLeft :: nat

definition new_front :: nvfront where
  "new_front = \<lparr>fb_requests = [], fb_responses = [], fb_commands = [], fb_requestsSize = 0, fb_responsesSize = 0,
     fb_requestTrans = emptyFlash, fb_responseTrans = emptyFlash, fb_commandTrans = emptyFlash, fb_pendingData = [],
     fb_pendingCommand = [], fb_requestCyclesLeft = 0, fb_responseCyclesLeft = 0, fb_commandCyclesLeft = 0\<rparr>"

section \<open>The device\<close>

text \<open>The calls of the registered callbacks, in order; a read carries whether the page was mapped.\<close>

datatype nvcall = ReturnReadData nat bool | CriticalLineDone nat | WriteDataDone nat

record nvdimm =
  nv_ftl :: nvftl
  nv_ctrl :: nvctrl
  nv_channels :: "nat \<Rightarrow> (SenderType \<times> nat) option"
  nv_dies :: "nat \<Rightarrow> nat \<Rightarrow> nvdie"
  nv_front :: nvfront
  nv_numReads :: nat
  nv_numWrites :: nat
  nv_numErases :: nat
  nv_calls :: "nvcall list"

definition new_nvdimm :: "nv_cfg \<Rightarrow> nvdimm" where
  "new_nvdimm c = \<lparr>nv_ftl = new_ftl c, nv_ctrl = new_ctrl, nv_channels = (\<lambda>_. None), nv_dies = (\<lambda>_ _. new_die),
     nv_front = new_front, nv_numReads = 0, nv_numWrites = 0, nv_numErases = 0, nv_calls = []\<rparr>"

definition nv_call :: "nvcall \<Rightarrow> nvdimm \<Rightarrow> nvdimm" where
  "nv_call e s = s\<lparr>nv_calls := nv_calls s @ [e]\<rparr>"

definition put_die :: "nat \<Rightarrow> nat \<Rightarrow> nvdie \<Rightarrow> nvdimm \<Rightarrow> nvdimm" where
  "put_die k j d s = s\<lparr>nv_dies := (nv_dies s)(k := (nv_dies s k)(j := d))\<rparr>"

definition put_plane :: "nat \<Rightarrow> nvplane \<Rightarrow> nvdie \<Rightarrow> nvdie" where
  "put_plane k p d = d\<lparr>di_planes := (di_planes d)(k := p)\<rparr>"

end
