(* ===== verification/Nv_Die.thy ===== *)
theory Nv_Die
  imports Nv_State
begin

text \<open>
  Blocks, planes and the command side of a die (\<open>Block.cpp\<close>, \<open>Plane.cpp\<close>, \<open>Die::receiveFromBuffer\<close>,
  \<open>Die::isDieBusy\<close>, \<open>Die::writeToPlane\<close>). Pages are stored; a message on the error stream that does not
  end the program is dropped, \<open>exit\<close> and \<open>abort\<close> are errors of the model.
\<close>

section \<open>Blocks\<close>

definition block_read :: "(nat \<Rightarrow> nat option) \<Rightarrow> nat \<Rightarrow> nat" where
  "block_read b page = (case b page of None \<Rightarrow> 0 | Some d \<Rightarrow> d)"

definition block_write :: "nv_cfg \<Rightarrow> nat \<Rightarrow> nat \<Rightarrow> (nat \<Rightarrow> nat option) \<Rightarrow> nverr + (nat \<Rightarrow> nat option)" where
  "block_write c page d b =
     (if b page = None then Inr (b(page := Some d))
      else if GARBAGE_COLLECT c then Inl Page_Written_Twice else Inr (b(page := Some d)))"

section \<open>Planes\<close>

definition block_at :: "nvplane \<Rightarrow> nat \<Rightarrow> (nat \<Rightarrow> nat option)" where
  "block_at pl k = (case blocks pl k of None \<Rightarrow> (\<lambda>_. None) | Some b \<Rightarrow> b)"

definition plane_read :: "ChannelPacket \<Rightarrow> nvplane \<Rightarrow> nverr + ChannelPacket \<times> nvplane" where
  "plane_read p pl =
     (let p' = (case blocks pl (pk_block p) of None \<Rightarrow> p | Some b \<Rightarrow> p\<lparr>pk_data := block_read b (pk_page p)\<rparr>)
      in if dataReg pl = None then Inr (p', pl\<lparr>dataReg := Some p'\<rparr>) else Inl Registers_Full)"

definition plane_write :: "nv_cfg \<Rightarrow> ChannelPacket \<Rightarrow> nvplane \<Rightarrow> nverr + nvplane" where
  "plane_write c p pl =
     (let pl' = pl\<lparr>blocks := (blocks pl)(pk_block p := Some (block_at pl (pk_block p)))\<rparr>
      in if pk_type p = P_FAST_WRITE then
           bindR (block_write c (pk_page p) 0 (block_at pl' (pk_block p)))
             (\<lambda>b. Inr (pl'\<lparr>blocks := (blocks pl')(pk_block p := Some b)\<rparr>))
         else case cacheReg pl' of None \<Rightarrow> Inl Cache_Reg_Empty
              | Some r \<Rightarrow> Inr (pl'\<lparr>dataReg := Some r, cacheReg := None\<rparr>))"

definition plane_writeDone :: "nv_cfg \<Rightarrow> ChannelPacket \<Rightarrow> nvplane \<Rightarrow> nverr + nvplane" where
  "plane_writeDone c p pl =
     (case dataReg pl of None \<Rightarrow> Inl Data_Reg_Empty
      | Some r \<Rightarrow> bindR (block_write c (pk_page p) (pk_data r) (block_at pl (pk_block p)))
          (\<lambda>b. Inr (pl\<lparr>blocks := (blocks pl)(pk_block p := Some b), dataReg := None\<rparr>)))"

definition plane_erase :: "ChannelPacket \<Rightarrow> nvplane \<Rightarrow> nvplane" where
  "plane_erase p pl = pl\<lparr>blocks := (blocks pl)(pk_block p := None)\<rparr>"

definition storeInData :: "ChannelPacket \<Rightarrow> nvplane \<Rightarrow> nverr + nvplane" where
  "storeInData p pl = (if cacheReg pl = None then Inr (pl\<lparr>cacheReg := Some p\<rparr>) else Inl Registers_Full)"

definition readFromData :: "nvplane \<Rightarrow> nverr + ChannelPacket \<times> nvplane" where
  "readFromData pl =
     (case (cacheReg pl, dataReg pl) of
        (None, Some r) \<Rightarrow> Inr (r, pl\<lparr>cacheReg := Some r, dataReg := None\<rparr>)
      | _ \<Rightarrow> Inl Registers_Full)"

definition checkCacheReg :: "nvplane \<Rightarrow> bool" where
  "checkCacheReg pl \<longleftrightarrow> cacheReg pl = None"

definition dataGone :: "nvplane \<Rightarrow> nvplane" where
  "dataGone pl = pl\<lparr>cacheReg := None\<rparr>"

section \<open>Dies\<close>

definition start_command :: "ChannelPacket \<Rightarrow> nvplane \<Rightarrow> nat \<Rightarrow> nvdie \<Rightarrow> nvdie" where
  "start_command p pl cycles d =
     (put_plane (pk_plane p) pl d)\<lparr>di_currentCommands := (di_currentCommands d)(pk_plane p := Some p),
        di_controlCyclesLeft := (di_controlCyclesLeft d)(pk_plane p := cycles)\<rparr>"

definition receiveFromBuffer :: "nv_cfg \<Rightarrow> ChannelPacket \<Rightarrow> nvdimm \<Rightarrow> nverr + nvdimm" where
  "receiveFromBuffer c p s =
     (let d = nv_dies s (pk_package p) (pk_die p); pl = di_planes d (pk_plane p); put = put_die (pk_package p) (pk_die p)
      in if pk_type p = P_DATA then bindR (storeInData p pl) (\<lambda>pl'. Inr (put (put_plane (pk_plane p) pl' d) s))
         else if di_currentCommands d (pk_plane p) \<noteq> None then Inl Die_Busy
         else case pk_type p of
             P_READ \<Rightarrow> bindR (plane_read p pl) (\<lambda>(p', pl'). Inr (put (start_command p' pl' (READ_CYCLES c) d) s))
           | P_GC_READ \<Rightarrow> bindR (plane_read p pl) (\<lambda>(p', pl'). Inr (put (start_command p' pl' (READ_CYCLES c) d) s))
           | P_ERASE \<Rightarrow> Inr (put (start_command p (plane_erase p pl) (ERASE_CYCLES c) d) (s\<lparr>nv_numErases := nv_numErases s + 1\<rparr>))
           | P_FAST_WRITE \<Rightarrow> Inr (put (d\<lparr>di_currentCommands := (di_currentCommands d)(pk_plane p := Some p)\<rparr>) s)
           | _ \<Rightarrow> bindR (plane_write c p pl) (\<lambda>pl'.
               Inr (put (start_command p pl' (if IN_PLACE_DEVICE c \<and> \<not> GARBAGE_COLLECT c then ERASE_CYCLES c else WRITE_CYCLES c) d)
                 (s\<lparr>nv_numWrites := nv_numWrites s + 1\<rparr>))))"

definition isDieBusy :: "nat \<Rightarrow> nvdie \<Rightarrow> nat" where
  "isDieBusy k d =
     (case di_currentCommands d k of
        None \<Rightarrow> (if checkCacheReg (di_planes d k) then 0 else 3)
      | Some p \<Rightarrow> (if pk_type p = P_WRITE \<and> checkCacheReg (di_planes d k) then 2 else 1))"

definition writeToPlane :: "nv_cfg \<Rightarrow> ChannelPacket \<Rightarrow> nvdimm \<Rightarrow> nverr + nvdimm" where
  "writeToPlane c p s =
     (let d = nv_dies s (pk_package p) (pk_die p)
      in bindR (plane_write c p (di_planes d (pk_plane p)))
           (\<lambda>pl. Inr (put_die (pk_package p) (pk_die p) (put_plane (pk_plane p) pl d) s)))"

end
