(* ===== verification/Nv_Ftl.thy ===== *)
theory Nv_Ftl
  imports Nv_Die
begin

text \<open>
  The flash translation layer (\<open>Ftl.cpp\<close>) and its version with garbage collection (\<open>GCFtl.cpp\<close>), with the
  operations of the controller they call (\<open>Controller::checkQueueWrite\<close>, \<open>addPacket\<close>, \<open>writeToPackage\<close>,
  \<open>returnReadData\<close>, \<open>returnUnmappedData\<close>). A list iterator is an index; erasing or reading at the end, or
  taking the front of an empty list, is an error of the model.
\<close>

section \<open>The controller's side\<close>

definition checkQueueWrite :: "nv_cfg \<Rightarrow> ChannelPacket \<Rightarrow> nvctrl \<Rightarrow> bool" where
  "checkQueueWrite c p ct \<longleftrightarrow>
     length (ct_readQueues ct (pk_package p) (pk_die p)) + 1 < CTRL_READ_QUEUE_LENGTH c \<or> CTRL_READ_QUEUE_LENGTH c = 0"

definition push_packet :: "ChannelPacket \<Rightarrow> nvctrl \<Rightarrow> nvctrl" where
  "push_packet p ct = ct\<lparr>ct_readQueues := (ct_readQueues ct)(pk_package p :=
     (ct_readQueues ct (pk_package p))(pk_die p := ct_readQueues ct (pk_package p) (pk_die p) @ [p]))\<rparr>"

definition addPacket :: "nv_cfg \<Rightarrow> ChannelPacket \<Rightarrow> nvdimm \<Rightarrow> bool \<times> nvdimm" where
  "addPacket c p s =
     (if length (ct_readQueues (nv_ctrl s) (pk_package p) (pk_die p)) < CTRL_READ_QUEUE_LENGTH c \<or> CTRL_READ_QUEUE_LENGTH c = 0
      then (True, s\<lparr>nv_ctrl := push_packet p (nv_ctrl s)\<rparr>) else (False, s))"

definition writeToPackage :: "nv_cfg \<Rightarrow> ChannelPacket \<Rightarrow> nvdimm \<Rightarrow> nverr + nvdimm" where
  "writeToPackage c p s = writeToPlane c p s"

definition returnReadData :: "FlashTransaction \<Rightarrow> nvdimm \<Rightarrow> nvdimm" where
  "returnReadData t s = (nv_call (ReturnReadData (fl_addr t) True) s)\<lparr>nv_numReads := nv_numReads s + 1\<rparr>"

definition returnUnmappedData :: "FlashTransaction \<Rightarrow> nvdimm \<Rightarrow> nvdimm" where
  "returnUnmappedData t s = (nv_call (ReturnReadData (fl_addr t) False) s)\<lparr>nv_numReads := nv_numReads s + 1\<rparr>"

definition put_ftl :: "nvftl \<Rightarrow> nvdimm \<Rightarrow> nvdimm" where
  "put_ftl f s = s\<lparr>nv_ftl := f\<rparr>"

section \<open>Accepting transactions\<close>

definition attemptAdd :: "FlashTransaction \<Rightarrow> FlashTransaction list \<Rightarrow> nat \<Rightarrow> bool \<times> FlashTransaction list" where
  "attemptAdd t q limit = (if limit \<le> length q \<and> limit \<noteq> 0 then (False, q) else (True, q @ [t]))"

definition add_read :: "nv_cfg \<Rightarrow> FlashTransaction \<Rightarrow> nvftl \<Rightarrow> bool \<times> nvftl" where
  "add_read c t f =
     (case attemptAdd t (ft_readQueue f) (FTL_READ_QUEUE_LENGTH c) of
        (ok, q) \<Rightarrow> (ok, f\<lparr>ft_readQueue := q, ft_read_pointer := (if ok \<and> length q = 1 then 0 else ft_read_pointer f)\<rparr>))"

text \<open>The write that a new one replaces: the first of the same address, unless that address is being worked on.\<close>

definition replaced_write :: "FlashTransaction \<Rightarrow> nvftl \<Rightarrow> FlashTransaction option" where
  "replaced_write t f = find (\<lambda>w. fl_addr w = fl_addr t \<and> fl_addr (ft_currentTransaction f) \<noteq> fl_addr t) (ft_writeQueue f)"

definition addScheduledTransaction :: "nv_cfg \<Rightarrow> FlashTransaction \<Rightarrow> nvdimm \<Rightarrow> bool \<times> nvdimm" where
  "addScheduledTransaction c t s =
     (let f = nv_ftl s
      in if fl_type t = F_DATA_READ \<or> fl_type t = F_BLOCK_ERASE then (case add_read c t f of (ok, f') \<Rightarrow> (ok, put_ftl f' s))
         else if fl_type t = F_DATA_WRITE then
           (case replaced_write t f of
              None \<Rightarrow> (case attemptAdd t (ft_writeQueue f) (FTL_WRITE_QUEUE_LENGTH c) of
                         (ok, q) \<Rightarrow> (ok, put_ftl (f\<lparr>ft_writeQueue := q\<rparr>) s))
            | Some w \<Rightarrow> (case attemptAdd t (remove1 w (ft_writeQueue f)) (FTL_WRITE_QUEUE_LENGTH c) of
                         (ok, q) \<Rightarrow> (ok, put_ftl (f\<lparr>ft_writeQueue := q\<rparr>) (nv_call (WriteDataDone (fl_addr w)) s))))
         else (False, s))"

definition addPerfectTransaction :: "nv_cfg \<Rightarrow> FlashTransaction \<Rightarrow> nvdimm \<Rightarrow> bool \<times> nvdimm" where
  "addPerfectTransaction c t s =
     (let f = nv_ftl s
      in if fl_type t = F_DATA_READ \<or> fl_type t = F_BLOCK_ERASE then (case add_read c t f of (ok, f') \<Rightarrow> (ok, put_ftl f' s))
         else if fl_type t = F_DATA_WRITE then
           (case attemptAdd t (ft_writeQueue f) (FTL_WRITE_QUEUE_LENGTH c) of (ok, q) \<Rightarrow> (ok, put_ftl (f\<lparr>ft_writeQueue := q\<rparr>) s))
         else (False, s))"

definition add_by_schedule :: "nv_cfg \<Rightarrow> FlashTransaction \<Rightarrow> nvdimm \<Rightarrow> bool \<times> nvdimm" where
  "add_by_schedule c t s =
     (if SCHEDULE c then addScheduledTransaction c t s
      else if PERFECT_SCHEDULE c then addPerfectTransaction c t s
      else case attemptAdd t (ft_readQueue (nv_ftl s)) (FTL_READ_QUEUE_LENGTH c) of
             (ok, q) \<Rightarrow> (ok, put_ftl ((nv_ftl s)\<lparr>ft_readQueue := q\<rparr>) s))"

definition ftl_addTransaction :: "nv_cfg \<Rightarrow> FlashTransaction \<Rightarrow> nvdimm \<Rightarrow> nverr + bool \<times> nvdimm" where
  "ftl_addTransaction c t s =
     (if fl_addr t < VIRTUAL_TOTAL_SIZE c * 1024 then Inr (add_by_schedule c t s) else Inl Address_Out_Of_Bounds)"

definition gc_addTransaction :: "nv_cfg \<Rightarrow> FlashTransaction \<Rightarrow> nvdimm \<Rightarrow> nverr + bool \<times> nvdimm" where
  "gc_addTransaction c t s =
     (if fl_addr t < VIRTUAL_TOTAL_SIZE c * 1024 \<and> \<not> ft_panic_mode (nv_ftl s) then Inr (add_by_schedule c t s)
      else if fl_addr t < VIRTUAL_TOTAL_SIZE c * 1024 then Inl Panic_Mode else Inl Address_Out_Of_Bounds)"

definition addTransactionF :: "nv_cfg \<Rightarrow> FlashTransaction \<Rightarrow> nvdimm \<Rightarrow> nverr + bool \<times> nvdimm" where
  "addTransactionF c t s = (if GARBAGE_COLLECT c then gc_addTransaction c t s else ftl_addTransaction c t s)"

section \<open>Choosing the next transaction\<close>

definition begin_transaction :: "nv_cfg \<Rightarrow> FlashTransaction \<Rightarrow> nvftl \<Rightarrow> nvftl" where
  "begin_transaction c t f = f\<lparr>ft_busy := True, ft_currentTransaction := t, ft_lookupCounter := LOOKUP_CYCLES c\<rparr>"

definition scheduleCurrentTransaction :: "nv_cfg \<Rightarrow> nvftl \<Rightarrow> nverr + nvftl" where
  "scheduleCurrentTransaction c f =
     (if (WRITE_ON_QUEUE_SIZE c \<and> WRITE_QUEUE_LIMIT c \<le> length (ft_writeQueue f)) \<or>
         (\<not> WRITE_ON_QUEUE_SIZE c \<and> FTL_WRITE_QUEUE_LENGTH c \<le> length (ft_writeQueue f)) then
        (case ft_writeQueue f of [] \<Rightarrow> Inl Empty_Queue | t # _ \<Rightarrow> Inr (begin_transaction c t f))
      else if ft_readQueue f \<noteq> [] then
        (if ft_read_pointer f < length (ft_readQueue f) then Inr (begin_transaction c (ft_readQueue f ! ft_read_pointer f) f)
         else Inl Undefined_Iterator)
      else if IDLE_WRITE c \<and> ft_writeQueue f \<noteq> [] then
        (if ft_write_wait_count f \<noteq> 0 \<and> DELAY_WRITE c then Inr (f\<lparr>ft_write_wait_count := ft_write_wait_count f - 1\<rparr>)
         else Inr ((begin_transaction c (hd (ft_writeQueue f)) f)\<lparr>ft_write_wait_count := DELAY_WRITE_CYCLES c\<rparr>))
      else Inr (f\<lparr>ft_busy := False\<rparr>))"

section \<open>Leaving the queues\<close>

definition pop_read_at :: "nvftl \<Rightarrow> nverr + nvftl" where
  "pop_read_at f =
     (if ft_read_pointer f < length (ft_readQueue f) then
        Inr (f\<lparr>ft_readQueue := take (ft_read_pointer f) (ft_readQueue f) @ drop (Suc (ft_read_pointer f)) (ft_readQueue f),
               ft_read_pointer := 0\<rparr>)
      else Inl Undefined_Iterator)"

definition pop_read :: "nvftl \<Rightarrow> nverr + nvftl" where
  "pop_read f = (case ft_readQueue f of [] \<Rightarrow> Inl Empty_Queue | _ # q \<Rightarrow> Inr (f\<lparr>ft_readQueue := q\<rparr>))"

definition pop_write :: "nvftl \<Rightarrow> nverr + nvftl" where
  "pop_write f = (case ft_writeQueue f of [] \<Rightarrow> Inl Empty_Queue | _ # q \<Rightarrow> Inr (f\<lparr>ft_writeQueue := q\<rparr>))"

definition pop_gc :: "nvftl \<Rightarrow> nverr + nvftl" where
  "pop_gc f = (case ft_gcQueue f of [] \<Rightarrow> Inl Empty_Queue | _ # q \<Rightarrow> Inr (f\<lparr>ft_gcQueue := q\<rparr>))"

definition ftl_popFront :: "nv_cfg \<Rightarrow> ChannelPacketType \<Rightarrow> nvftl \<Rightarrow> nverr + nvftl" where
  "ftl_popFront c ty f =
     (if SCHEDULE c \<or> PERFECT_SCHEDULE c then
        (if ty = P_READ \<or> ty = P_ERASE then pop_read_at f else if ty = P_WRITE then pop_write f else Inr f)
      else pop_read f)"

definition gc_popFront :: "nv_cfg \<Rightarrow> ChannelPacketType \<Rightarrow> nvftl \<Rightarrow> nverr + nvftl" where
  "gc_popFront c ty f =
     (if ty = P_ERASE \<or> ty = P_GC_READ \<or> ty = P_GC_WRITE then pop_gc f
      else if SCHEDULE c \<or> PERFECT_SCHEDULE c then
        (if ty = P_READ then pop_read_at f else if ty = P_WRITE then pop_write f else Inr f)
      else pop_read f)"

definition popFront :: "nv_cfg \<Rightarrow> ChannelPacketType \<Rightarrow> nvftl \<Rightarrow> nverr + nvftl" where
  "popFront c ty f = (if GARBAGE_COLLECT c then gc_popFront c ty f else ftl_popFront c ty f)"

text \<open>A transaction is over: it leaves its queue and the layer is idle.\<close>

definition finish_read :: "nv_cfg \<Rightarrow> ChannelPacketType \<Rightarrow> nvftl \<Rightarrow> nverr + nvftl" where
  "finish_read c ty f = bindR (popFront c ty f) (\<lambda>f'. Inr (f'\<lparr>ft_read_iterator_counter := 0, ft_busy := False\<rparr>))"

text \<open>A read found its controller queue full.\<close>

definition read_blocked :: "nv_cfg \<Rightarrow> nvftl \<Rightarrow> nverr + nvftl" where
  "read_blocked c f =
     (if \<not> SCHEDULE c then Inr (f\<lparr>ft_write_queues_full := True\<rparr>)
      else if length (ft_readQueue f) \<le> ft_read_pointer f then Inl Undefined_Iterator
      else let ptr = (if ft_read_pointer f + 1 = length (ft_readQueue f) then 0 else ft_read_pointer f + 1);
               n = ft_read_iterator_counter f + 1
           in Inr (if length (ft_readQueue f) \<le> n
                   then f\<lparr>ft_read_pointer := 0, ft_read_queues_full := True, ft_read_iterator_counter := 0, ft_busy := False\<rparr>
                   else f\<lparr>ft_read_pointer := ptr, ft_read_iterator_counter := n, ft_busy := False\<rparr>))"

section \<open>Free pages\<close>

definition find_free :: "nv_cfg \<Rightarrow> (nat \<Rightarrow> nat \<Rightarrow> bool) \<Rightarrow> nat \<Rightarrow> nat \<Rightarrow> (nat \<times> nat) option" where
  "find_free c u lo hi = find (\<lambda>(b, p). \<not> u b p) (List.product [lo..<hi] [0..<PAGES_PER_BLOCK c])"

definition write_start :: "nv_cfg \<Rightarrow> nvftl \<Rightarrow> nat" where
  "write_start c f = BLOCKS_PER_PLANE c * (ft_plane f + PLANES_PER_DIE c * (ft_die f + DIES_PER_PACKAGE c * ft_channel f))"

text \<open>
  From the write pointer to the end of the flash, then from the start. The bound of the second search
  is the one of the source, \<open>start / BLOCK_SIZE\<close>, although \<open>start\<close> counts blocks.
\<close>

definition search_free :: "nv_cfg \<Rightarrow> nvftl \<Rightarrow> (nat \<times> nat) option" where
  "search_free c f =
     (case find_free c (ft_used f) (write_start c f) (TOTAL_SIZE c div BLOCK_SIZE c) of
        Some x \<Rightarrow> Some x
      | None \<Rightarrow> find_free c (ft_used f) 0 (write_start c f div BLOCK_SIZE c))"

definition page_paddr :: "nv_cfg \<Rightarrow> nat \<Rightarrow> nat \<Rightarrow> nat" where
  "page_paddr c block page = block * BLOCK_SIZE c + page * NV_PAGE_SIZE c"

definition set_flag :: "nat \<Rightarrow> nat \<Rightarrow> bool \<Rightarrow> (nat \<Rightarrow> nat \<Rightarrow> bool) \<Rightarrow> nat \<Rightarrow> nat \<Rightarrow> bool" where
  "set_flag b p v u = u(b := (u b)(p := v))"

definition advance_pointer :: "nv_cfg \<Rightarrow> nvftl \<Rightarrow> nvftl" where
  "advance_pointer c f =
     (let ch = (ft_channel f + 1) mod NUM_PACKAGES c;
          di = (if ch = 0 then (ft_die f + 1) mod DIES_PER_PACKAGE c else ft_die f);
          pl = (if ch = 0 \<and> di = 0 then (ft_plane f + 1) mod PLANES_PER_DIE c else ft_plane f)
      in f\<lparr>ft_channel := ch, ft_die := di, ft_plane := pl\<rparr>)"

section \<open>Reads\<close>

definition handle_disk_read :: "nv_cfg \<Rightarrow> nvdimm \<Rightarrow> nverr + nvdimm" where
  "handle_disk_read c s =
     (let f = nv_ftl s; vAddr = fl_addr (ft_currentTransaction f)
      in case search_free c f of
           None \<Rightarrow> let n = u64 (ft_deadlock_counter f + 1)
                   in if n = deadlock_time c then Inl Flash_Full else Inr (put_ftl (f\<lparr>ft_deadlock_counter := n\<rparr>) s)
         | Some (block, page) \<Rightarrow>
             let pAddr = page_paddr c block page
             in bindR (translate c P_FAST_WRITE vAddr pAddr) (\<lambda>w.
                bindR (writeToPackage c w s) (\<lambda>s1.
                let f1 = advance_pointer c (f\<lparr>ft_deadlock_counter := 0, ft_used := set_flag block page True (ft_used f),
                           ft_used_page_count := ft_used_page_count f + 1, ft_addressMap := um_put vAddr pAddr (ft_addressMap f)\<rparr>)
                in bindR (translate c P_READ vAddr pAddr) (\<lambda>r.
                   case addPacket c r s1 of
                     (True, s2) \<Rightarrow> bindR (finish_read c P_READ f1) (\<lambda>f2. Inr (put_ftl f2 s2))
                   | (False, s2) \<Rightarrow> bindR (read_blocked c f1) (\<lambda>f2. Inr (put_ftl f2 s2))))))"

text \<open>
  A read that waits in the write queue is served from there. The loop that looks for the write leaves
  its iterator at the end of the queue, where the data is fetched afterwards.
\<close>

definition read_mapped_page :: "nv_cfg \<Rightarrow> bool \<Rightarrow> nvdimm \<Rightarrow> nverr + nvdimm" where
  "read_mapped_page c gc s =
     (let f = nv_ftl s; vAddr = fl_addr (ft_currentTransaction f); ty = (if gc then P_GC_READ else P_READ)
      in case um_get (ft_addressMap f) vAddr of
           None \<Rightarrow>
             if gc then Inl Gc_Data_Missing
             else if DISK_READ c then handle_disk_read c s
             else bindR (finish_read c P_READ f) (\<lambda>f'.
                    Inr (put_ftl f' (returnUnmappedData (mkFlash F_RETURN_DATA vAddr 3735928559) s)))
         | Some pAddr \<Rightarrow>
             bindR (translate c ty vAddr pAddr) (\<lambda>r.
               case addPacket c r s of
                 (True, s') \<Rightarrow> bindR (finish_read c ty f) (\<lambda>f'. Inr (put_ftl f' s'))
               | (False, s') \<Rightarrow> bindR (read_blocked c f) (\<lambda>f'. Inr (put_ftl f' s'))))"

definition handle_read :: "nv_cfg \<Rightarrow> bool \<Rightarrow> nvdimm \<Rightarrow> nverr + nvdimm" where
  "handle_read c gc s =
     (let f = nv_ftl s; vAddr = fl_addr (ft_currentTransaction f)
      in if \<not> gc \<and> SCHEDULE c \<and> ft_queue_access_counter f = 0 \<and> (\<exists>w\<in>set (ft_writeQueue f). fl_addr w = vAddr)
         then Inr (put_ftl (f\<lparr>ft_queue_access_counter := QUEUE_ACCESS_CYCLES c\<rparr>) s)
         else if \<not> gc \<and> SCHEDULE c \<and> 0 < ft_queue_access_counter f then
           (if ft_queue_access_counter f = 1 then Inl Undefined_Iterator
            else Inr (put_ftl (f\<lparr>ft_queue_access_counter := ft_queue_access_counter f - 1\<rparr>) s))
         else read_mapped_page c gc s)"

section \<open>Writes\<close>

definition old_page :: "nv_cfg \<Rightarrow> nat \<Rightarrow> nvftl \<Rightarrow> nat \<times> nat" where
  "old_page c vAddr f =
     (let p = um_at 0 (ft_addressMap f) vAddr in (p div BLOCK_SIZE c, (p div NV_PAGE_SIZE c) mod PAGES_PER_BLOCK c))"

definition write_used_handler :: "nv_cfg \<Rightarrow> nat \<Rightarrow> nvftl \<Rightarrow> nvftl" where
  "write_used_handler c vAddr f =
     (case old_page c vAddr f of (b, p) \<Rightarrow>
        if GARBAGE_COLLECT c
        then f\<lparr>ft_dirty := set_flag b p True (ft_dirty f), ft_dirty_page_count := ft_dirty_page_count f + 1\<rparr>
        else f\<lparr>ft_used := set_flag b p False (ft_used f)\<rparr>)"

definition write_success :: "nv_cfg \<Rightarrow> nat \<Rightarrow> nat \<Rightarrow> nat \<Rightarrow> nat \<Rightarrow> nvftl \<Rightarrow> nverr + nvftl" where
  "write_success c block page vAddr pAddr f =
     bindR (popFront c P_WRITE (f\<lparr>ft_used := set_flag block page True (ft_used f),
                                  ft_used_page_count := ft_used_page_count f + 1\<rparr>))
       (\<lambda>f'. Inr (f'\<lparr>ft_busy := False, ft_write_counter := ft_write_counter f' + 1,
                     ft_addressMap := um_put vAddr pAddr (ft_addressMap f')\<rparr>))"

text \<open>
  The attempts to place a write. The page found first is kept (\<open>done\<close> is not cleared), so a scheduled
  write tries the same queue once per plane before it gives up.
\<close>

function place_write :: "nv_cfg \<Rightarrow> bool \<Rightarrow> nat \<Rightarrow> nat \<Rightarrow> nat \<Rightarrow> nvdimm \<Rightarrow> nverr + nvdimm" where
  "place_write c gc block page itr s =
     (let f = nv_ftl s; vAddr = fl_addr (ft_currentTransaction f); pAddr = page_paddr c block page
      in bindR (translate c P_DATA vAddr pAddr) (\<lambda>dat.
         bindR (translate c (if gc then P_GC_WRITE else P_WRITE) vAddr pAddr) (\<lambda>cmd.
         if PERFECT_SCHEDULE c then
           bindR (write_success c block page vAddr pAddr (advance_pointer c f))
             (\<lambda>f'. Inr (nv_call (WriteDataDone vAddr) (put_ftl f' s)))
         else if checkQueueWrite c dat (nv_ctrl s) then
           bindR (write_success c block page vAddr pAddr f)
             (\<lambda>f'. Inr (put_ftl (if itr = 0 then advance_pointer c f' else f') (snd (addPacket c cmd (snd (addPacket c dat s))))))
         else if SCHEDULE c then
           (if itr + 1 < NUM_PACKAGES c * DIES_PER_PACKAGE c * PLANES_PER_DIE c then place_write c gc block page (itr + 1) s
            else Inr (put_ftl (f\<lparr>ft_write_queues_full := True, ft_busy := False\<rparr>) s))
         else Inr (put_ftl (f\<lparr>ft_write_queues_full := True\<rparr>) s))))"
  by pat_completeness auto

termination place_write
  by (relation "measure (\<lambda>(c, gc, block, page, itr, s). NUM_PACKAGES c * DIES_PER_PACKAGE c * PLANES_PER_DIE c - itr)") auto

declare place_write.simps [simp del]

text \<open>
  Without a free page the loop changes nothing but \<open>deadlock_counter\<close>, a 64-bit counter that it
  increments until it is \<open>deadlock_time\<close>, and then the program exits.
\<close>

definition handle_write :: "nv_cfg \<Rightarrow> bool \<Rightarrow> nvdimm \<Rightarrow> nverr + nvdimm" where
  "handle_write c gc s =
     (let f = nv_ftl s; vAddr = fl_addr (ft_currentTransaction f);
          f1 = (if um_has (ft_addressMap f) vAddr then write_used_handler c vAddr f else f)
      in case search_free c f1 of
           None \<Rightarrow> Inl Flash_Full
         | Some (block, page) \<Rightarrow> place_write c gc block page 0 (put_ftl (f1\<lparr>ft_deadlock_counter := 0\<rparr>) s))"

lemma deadlock_counts_out:
  assumes "t < 2 ^ 64"
  shows "\<exists>n>0. u64 (k + n) = t"
proof -
  define n where "n = t + (2 ^ 64 - u64 k)"
  have "k = 2 ^ 64 * (k div 2 ^ 64) + u64 k" unfolding u64_def by (rule mult_div_mod_eq [symmetric])
  then have "k + n = t + 2 ^ 64 * (k div 2 ^ 64 + 1)" using u64_less [of k] unfolding n_def distrib_left by linarith
  then have "u64 (k + n) = t" using assms unfolding u64_def by (simp only: mod_mult_self2 mod_less)
  moreover have "0 < n" using u64_less [of k] unfolding n_def by linarith
  ultimately show ?thesis by blast
qed

definition queuesNotFull :: "nvdimm \<Rightarrow> nvdimm" where
  "queuesNotFull s = put_ftl ((nv_ftl s)\<lparr>ft_read_queues_full := False, ft_write_queues_full := False, ft_locked_counter := 0\<rparr>) s"

section \<open>Garbage collection\<close>

definition addGcTransaction :: "FlashTransaction \<Rightarrow> nvftl \<Rightarrow> nvftl" where
  "addGcTransaction t f = f\<lparr>ft_gcQueue := ft_gcQueue f @ [t], ft_write_queues_full := False\<rparr>"

definition dirty_pages :: "nv_cfg \<Rightarrow> nvftl \<Rightarrow> nat \<Rightarrow> nat" where
  "dirty_pages c f b = length (filter (ft_dirty f b) [0..<PAGES_PER_BLOCK c])"

definition dirtiest :: "nv_cfg \<Rightarrow> nvftl \<Rightarrow> nat \<Rightarrow> nat \<Rightarrow> nat" where
  "dirtiest c f lo hi =
     fst (fold (\<lambda>b (best, most). if most < dirty_pages c f b then (b, dirty_pages c f b) else (best, most)) [lo..<hi] (0, 0))"

definition reverse_lookup :: "nat \<Rightarrow> nvftl \<Rightarrow> nat option" where
  "reverse_lookup pAddr f = map_option fst (find (\<lambda>e. snd e = pAddr) (ft_addressMap f))"

text \<open>One page of the block to erase: a page in use is scheduled to be read.\<close>

definition gc_page :: "nv_cfg \<Rightarrow> nat \<Rightarrow> nat \<Rightarrow> nat list \<times> nvftl \<Rightarrow> nverr + nat list \<times> nvftl" where
  "gc_page c b page = (\<lambda>(reads, f).
     if ft_used f b page \<and> \<not> ft_dirty f b page then
       (case reverse_lookup (page_paddr c b page) f of
          None \<Rightarrow> Inl Page_Not_Mapped
        | Some vAddr \<Rightarrow> Inr (vAddr # reads, addGcTransaction (mkFlash F_GC_DATA_READ vAddr 0) f))
     else Inr (reads, f))"

definition addGC :: "nv_cfg \<Rightarrow> nat \<Rightarrow> nvftl \<Rightarrow> nverr + nvftl" where
  "addGC c b f =
     bindR (foldR (gc_page c b) [0..<PAGES_PER_BLOCK c] ([], f)) (\<lambda>(reads, f').
       Inr (if reads = [] then addGcTransaction (mkFlash F_BLOCK_ERASE (b * BLOCK_SIZE c) 0) f'
            else f'\<lparr>ft_gc_pending_erase := (reads, b) # ft_gc_pending_erase f'\<rparr>))"

definition runGC :: "nv_cfg \<Rightarrow> nvftl \<Rightarrow> nverr + nvftl" where
  "runGC c f =
     (let n = TOTAL_SIZE c div BLOCK_SIZE c; b = dirtiest c f (ft_erase_pointer f) n
      in addGC c b (f\<lparr>ft_erase_pointer := (b + 1) mod n\<rparr>))"

definition runGC_plane :: "nv_cfg \<Rightarrow> nat \<Rightarrow> nvftl \<Rightarrow> nverr + nvftl" where
  "runGC_plane c k f = addGC c (dirtiest c f (k * BLOCKS_PER_PLANE c) ((k + 1) * BLOCKS_PER_PLANE c)) f"

primrec pending_done :: "nat \<Rightarrow> (nat list \<times> nat) list \<Rightarrow> (nat list \<times> nat) list \<times> nat option" where
  "pending_done v [] = ([], None)"
| "pending_done v (e # es) =
     (let rs = removeAll v (fst e)
      in if rs = [] then (es, Some (snd e)) else (case pending_done v es of (es', b) \<Rightarrow> ((rs, snd e) # es', b)))"

definition GCReadDone :: "nv_cfg \<Rightarrow> nat \<Rightarrow> nvdimm \<Rightarrow> nvdimm" where
  "GCReadDone c vAddr s =
     (if GARBAGE_COLLECT c then
        let f = nv_ftl s
        in case pending_done vAddr (ft_gc_pending_erase f) of (es, b) \<Rightarrow>
             put_ftl (addGcTransaction (mkFlash F_GC_DATA_WRITE vAddr 0)
               (case b of None \<Rightarrow> f\<lparr>ft_gc_pending_erase := es\<rparr>
                | Some k \<Rightarrow> addGcTransaction (mkFlash F_BLOCK_ERASE (k * BLOCK_SIZE c) 0) (f\<lparr>ft_gc_pending_erase := es\<rparr>))) s
      else s)"

definition clear_page :: "nat \<Rightarrow> nat \<Rightarrow> nvftl \<Rightarrow> nvftl" where
  "clear_page b i f =
     (let f1 = (if ft_dirty f b i then f\<lparr>ft_dirty := set_flag b i False (ft_dirty f), ft_dirty_page_count := u64_sub (ft_dirty_page_count f) 1\<rparr> else f)
      in if ft_used f1 b i then f1\<lparr>ft_used := set_flag b i False (ft_used f1), ft_used_page_count := u64_sub (ft_used_page_count f1) 1\<rparr> else f1)"

definition pop_erased :: "nvftl \<Rightarrow> nverr + nvftl" where
  "pop_erased f =
     (if ft_gc_status f then pop_gc f
      else if ft_read_pointer f < length (ft_readQueue f) then
        Inr (f\<lparr>ft_readQueue := take (ft_read_pointer f) (ft_readQueue f) @ drop (Suc (ft_read_pointer f)) (ft_readQueue f),
               ft_read_pointer := (if Suc (ft_read_pointer f) = length (ft_readQueue f) then list_end else ft_read_pointer f)\<rparr>)
      else Inl Undefined_Iterator)"

definition handle_erase :: "nv_cfg \<Rightarrow> nvdimm \<Rightarrow> nverr + nvdimm" where
  "handle_erase c s =
     (let f = nv_ftl s; vAddr = fl_addr (ft_currentTransaction f)
      in bindR (translate c P_ERASE vAddr vAddr) (\<lambda>p.
         case addPacket c p s of
           (True, s') \<Rightarrow> bindR (pop_erased (fold (clear_page (vAddr div BLOCK_SIZE c)) [0..<PAGES_PER_BLOCK c] f))
                           (\<lambda>f'. Inr (put_ftl (f'\<lparr>ft_busy := False\<rparr>) s'))
         | (False, s') \<Rightarrow> Inr (put_ftl (f\<lparr>ft_write_queues_full := True\<rparr>) s')))"

section \<open>One cycle\<close>

definition next_unscheduled :: "nv_cfg \<Rightarrow> nvftl \<Rightarrow> nvftl" where
  "next_unscheduled c f = (case ft_readQueue f of [] \<Rightarrow> f | t # _ \<Rightarrow> begin_transaction c t f)"

definition next_transaction :: "nv_cfg \<Rightarrow> nvftl \<Rightarrow> nverr + nvftl" where
  "next_transaction c f =
     (if SCHEDULE c \<or> PERFECT_SCHEDULE c then scheduleCurrentTransaction c f else Inr (next_unscheduled c f))"

definition wait_cycle :: "nvftl \<Rightarrow> nvftl" where
  "wait_cycle f =
     (if 0 < ft_lookupCounter f then f\<lparr>ft_lookupCounter := ft_lookupCounter f - 1\<rparr>
      else f\<lparr>ft_locked_counter := ft_locked_counter f + 1\<rparr>)"

definition ftl_update :: "nv_cfg \<Rightarrow> nvdimm \<Rightarrow> nverr + nvdimm" where
  "ftl_update c s =
     (let f = nv_ftl s
      in if ft_busy f then
           (if ft_lookupCounter f = 0 \<and> \<not> ft_write_queues_full f then
              (case fl_type (ft_currentTransaction f) of
                 F_DATA_READ \<Rightarrow> (if ft_read_queues_full f then Inr s else handle_read c False s)
               | F_DATA_WRITE \<Rightarrow> handle_write c False s
               | _ \<Rightarrow> Inr s)
            else Inr (put_ftl (wait_cycle f) s))
         else bindR (next_transaction c f) (\<lambda>f'. Inr (put_ftl f' s)))"

definition gc_finished :: "nv_cfg \<Rightarrow> nat \<Rightarrow> nvftl \<Rightarrow> nvftl" where
  "gc_finished c erases f =
     (if ft_gc_status f then
        let f1 = (if \<not> ft_panic_mode f \<and> erases = ft_start_erase f + 1 then f\<lparr>ft_gc_status := False\<rparr> else f)
        in if ft_panic_mode f1 \<and> erases = ft_start_erase f1 + PLANES_PER_DIE c * DIES_PER_PACKAGE c * NUM_PACKAGES c
           then f1\<lparr>ft_panic_mode := False, ft_gc_status := False\<rparr> else f1
      else f)"

definition gc_forced :: "nv_cfg \<Rightarrow> nat \<Rightarrow> nvftl \<Rightarrow> nverr + nvftl" where
  "gc_forced c erases f =
     (if \<not> ft_gc_status f \<and> force_gc c (ft_used_page_count f) then
        (if ft_dirty_page_count f \<noteq> 0 then
           foldR (runGC_plane c) [0..<PLANES_PER_DIE c * DIES_PER_PACKAGE c * NUM_PACKAGES c]
             (f\<lparr>ft_start_erase := erases, ft_gc_status := True, ft_panic_mode := True, ft_busy := False\<rparr>)
         else if all_used c (ft_used_page_count f) then Inl Nothing_To_Collect else Inr f)
      else Inr f)"

definition gc_next :: "nv_cfg \<Rightarrow> nvftl \<Rightarrow> nverr + nvftl" where
  "gc_next c f =
     (if ft_gc_status f then
        Inr (case ft_gcQueue f of [] \<Rightarrow> f\<lparr>ft_busy := False\<rparr> | t # _ \<Rightarrow> begin_transaction c t f)
      else next_transaction c f)"

definition gc_idle :: "nv_cfg \<Rightarrow> nat \<Rightarrow> nvftl \<Rightarrow> nverr + nvftl" where
  "gc_idle c erases f =
     (if ft_lookupCounter f \<noteq> LOOKUP_CYCLES c \<and> checkGC c (ft_used_page_count f) \<and> \<not> ft_gc_status f \<and> ft_dirty_page_count f \<noteq> 0
      then runGC c (f\<lparr>ft_start_erase := erases, ft_gc_status := True\<rparr>) else Inr f)"

text \<open>The switch over the current transaction.\<close>

definition gc_dispatch :: "nv_cfg \<Rightarrow> nvdimm \<Rightarrow> nverr + nvdimm" where
  "gc_dispatch c s =
     (case fl_type (ft_currentTransaction (nv_ftl s)) of
        F_DATA_READ \<Rightarrow> (if ft_read_queues_full (nv_ftl s) then Inr s else handle_read c False s)
      | F_DATA_WRITE \<Rightarrow> handle_write c False s
      | F_GC_DATA_READ \<Rightarrow> handle_read c True s
      | F_GC_DATA_WRITE \<Rightarrow> handle_write c True s
      | F_BLOCK_ERASE \<Rightarrow> handle_erase c s
      | _ \<Rightarrow> Inl Bad_Type)"

definition gc_update :: "nv_cfg \<Rightarrow> nvdimm \<Rightarrow> nverr + nvdimm" where
  "gc_update c s =
     bindR (gc_forced c (nv_numErases s) (gc_finished c (nv_numErases s) (nv_ftl s))) (\<lambda>f.
     let s1 = put_ftl f s
     in if ft_busy f then
          (if ft_lookupCounter f = 0 \<and> \<not> ft_write_queues_full f then gc_dispatch c s1
           else Inr (put_ftl (wait_cycle f) s1))
        else bindR (gc_next c f) (\<lambda>f1. bindR (gc_idle c (nv_numErases s) f1) (\<lambda>f2. Inr (put_ftl f2 s1))))"

definition update_ftl :: "nv_cfg \<Rightarrow> nvdimm \<Rightarrow> nverr + nvdimm" where
  "update_ftl c s = (if GARBAGE_COLLECT c then gc_update c s else ftl_update c s)"

end
