(* ===== verification/Nv_Front.thy ===== *)
theory Nv_Front
  imports Nv_Ftl
begin

text \<open>
  The front buffer between host and translation layer (\<open>FrontBuffer.cpp\<close>, \<open>subtract_params\<close> of
  \<open>Util.cpp\<close>). With a command channel a request crosses twice, once as a command and once as data, and
  goes on when both copies are across.
\<close>

definition subtract_params :: "nat \<Rightarrow> nat \<Rightarrow> nat" where
  "subtract_params a b = (if a < b then 0 else a - b)"

definition page_bits :: "nv_cfg \<Rightarrow> nat" where
  "page_bits c = NV_PAGE_SIZE c * 8"

section \<open>Accepting transactions\<close>

definition push_request :: "nv_cfg \<Rightarrow> FlashTransaction \<Rightarrow> nat \<Rightarrow> nvfront \<Rightarrow> nvfront" where
  "push_request c t bits b =
     b\<lparr>fb_requests := fb_requests b @ [t],
       fb_commands := (if ENABLE_COMMAND_CHANNEL c then fb_commands b @ [t] else fb_commands b),
       fb_requestsSize := u64 (fb_requestsSize b + bits)\<rparr>"

definition front_addTransaction :: "nv_cfg \<Rightarrow> FlashTransaction \<Rightarrow> nvfront \<Rightarrow> bool \<times> nvfront" where
  "front_addTransaction c t b =
     (case fl_type t of
        F_DATA_READ \<Rightarrow>
          if fb_requestsSize b \<le> u64_sub (REQUEST_BUFFER_SIZE c) (COMMAND_LENGTH c)
          then (True, push_request c t (COMMAND_LENGTH c) b) else (False, b)
      | F_DATA_WRITE \<Rightarrow>
          if fb_requestsSize b \<le> u64_sub (REQUEST_BUFFER_SIZE c) (COMMAND_LENGTH c + page_bits c)
          then (True, push_request c t (COMMAND_LENGTH c + page_bits c) b) else (False, b)
      | F_RETURN_DATA \<Rightarrow>
          if fb_responsesSize b \<le> u64_sub (RESPONSE_BUFFER_SIZE c) (page_bits c)
          then (True, b\<lparr>fb_responses := fb_responses b @ [t], fb_responsesSize := u64 (fb_responsesSize b + page_bits c)\<rparr>)
          else (False, b)
      | _ \<Rightarrow> (False, b))"

section \<open>Moving transactions\<close>

definition put_front :: "nvfront \<Rightarrow> nvdimm \<Rightarrow> nvdimm" where
  "put_front b s = s\<lparr>nv_front := b\<rparr>"

definition newRequestTrans :: "nv_cfg \<Rightarrow> nvfront \<Rightarrow> FlashTransaction \<times> nvfront" where
  "newRequestTrans c b =
     (hd (fb_requests b),
      b\<lparr>fb_requestsSize := subtract_params (fb_requestsSize b) (if ENABLE_COMMAND_CHANNEL c then page_bits c else COMMAND_LENGTH c + page_bits c),
        fb_requests := tl (fb_requests b)\<rparr>)"

definition setDataCycles :: "nv_cfg \<Rightarrow> FlashTransaction \<Rightarrow> nat \<Rightarrow> nverr + nat" where
  "setDataCycles c t width =
     (if fl_type t = F_DATA_READ then
        Inr (if ENABLE_COMMAND_CHANNEL c then 1 else divide_params c (COMMAND_LENGTH c) width)
      else if fl_type t = F_DATA_WRITE then
        Inr (divide_params c (if ENABLE_COMMAND_CHANNEL c then page_bits c else page_bits c + COMMAND_LENGTH c) width)
      else Inl Bad_Request)"

definition sendToFTL :: "nv_cfg \<Rightarrow> FlashTransaction \<Rightarrow> nvdimm \<Rightarrow> nverr + bool \<times> nvdimm" where
  "sendToFTL c t s = addTransactionF c t s"

definition sendToHybrid :: "FlashTransaction \<Rightarrow> nvdimm \<Rightarrow> nvdimm" where
  "sendToHybrid t s = (nv_call (ReturnReadData (fl_addr t) True) s)\<lparr>nv_numReads := nv_numReads s + 1\<rparr>"

definition drop_first :: "nat \<Rightarrow> FlashTransaction list \<Rightarrow> FlashTransaction list" where
  "drop_first a ts = takeWhile (\<lambda>t. fl_addr t \<noteq> a) ts @ tl (dropWhile (\<lambda>t. fl_addr t \<noteq> a) ts)"

text \<open>
  The result has what stays on the channel, the list searched (\<open>pendingSearch\<close>) and the list added to
  (\<open>pendingAdd\<close>).
\<close>

definition findTransaction ::
  "nv_cfg \<Rightarrow> FlashTransaction list \<Rightarrow> FlashTransaction list \<Rightarrow> FlashTransaction \<Rightarrow> nvdimm \<Rightarrow>
     nverr + (FlashTransaction \<times> FlashTransaction list \<times> FlashTransaction list) \<times> nvdimm" where
  "findTransaction c search add t s =
     (if \<exists>p\<in>set search. fl_addr p = fl_addr t then
        bindR (sendToFTL c t s) (\<lambda>(ok, s').
          Inr (if ok then (emptyFlash, drop_first (fl_addr t) search, add) else (t, search, add), s'))
      else if fl_type t \<noteq> F_EMPTY then Inr ((emptyFlash, search, add @ [t]), s)
      else Inr ((t, search, add), s))"

text \<open>A request is across on a data channel: with a command channel it waits for its command.\<close>

definition data_across :: "nv_cfg \<Rightarrow> FlashTransaction \<Rightarrow> nvdimm \<Rightarrow> nverr + FlashTransaction \<times> nvdimm" where
  "data_across c t s =
     (if ENABLE_COMMAND_CHANNEL c then
        bindR (findTransaction c (fb_pendingData (nv_front s)) (fb_pendingCommand (nv_front s)) t s)
          (\<lambda>((r, search, add), s'). Inr (r, put_front ((nv_front s')\<lparr>fb_pendingData := search, fb_pendingCommand := add\<rparr>) s'))
      else bindR (sendToFTL c t s) (\<lambda>(ok, s'). Inr (if ok then emptyFlash else t, s')))"

definition response_cycles :: "nv_cfg \<Rightarrow> nvfront \<Rightarrow> nverr + nat" where
  "response_cycles c b =
     (if fb_responseCyclesLeft b = 0 \<and> fl_type (fb_responseTrans b) \<noteq> F_EMPTY then
        (if fl_type (fb_responseTrans b) = F_RETURN_DATA then Inr (divide_params c (page_bits c) (NV_CHANNEL_WIDTH c))
         else if \<not> ENABLE_REQUEST_CHANNEL c then setDataCycles c (fb_responseTrans b) (NV_CHANNEL_WIDTH c)
         else Inr (fb_responseCyclesLeft b))
      else Inr (fb_responseCyclesLeft b))"

definition updateResponse :: "nv_cfg \<Rightarrow> nvdimm \<Rightarrow> nverr + nvdimm" where
  "updateResponse c s =
     bindR (response_cycles c (nv_front s)) (\<lambda>n.
       let s1 = put_front ((nv_front s)\<lparr>fb_responseCyclesLeft := u64_sub n 1\<rparr>) s; t = fb_responseTrans (nv_front s)
       in if u64_sub n 1 \<noteq> 0 then Inr s1
          else if fl_type t = F_RETURN_DATA then
            Inr (sendToHybrid t (put_front ((nv_front s1)\<lparr>fb_responseTrans := emptyFlash\<rparr>) s1))
          else bindR (data_across c t s1) (\<lambda>(r, s2). Inr (put_front ((nv_front s2)\<lparr>fb_responseTrans := r\<rparr>) s2)))"

definition updateRequest :: "nv_cfg \<Rightarrow> nvdimm \<Rightarrow> nverr + nvdimm" where
  "updateRequest c s =
     (let b = nv_front s; t = fb_requestTrans b
      in bindR (if fb_requestCyclesLeft b = 0 \<and> fl_type t \<noteq> F_EMPTY then setDataCycles c t (REQUEST_CHANNEL_WIDTH c)
                else Inr (fb_requestCyclesLeft b)) (\<lambda>n.
         let s1 = put_front (b\<lparr>fb_requestCyclesLeft := u64_sub n 1\<rparr>) s
         in if u64_sub n 1 \<noteq> 0 then Inr s1
            else bindR (data_across c t s1) (\<lambda>(r, s2). Inr (put_front ((nv_front s2)\<lparr>fb_requestTrans := r\<rparr>) s2))))"

definition updateCommand :: "nv_cfg \<Rightarrow> nvdimm \<Rightarrow> nverr + nvdimm" where
  "updateCommand c s =
     (let b = nv_front s; t = fb_commandTrans b;
          n = (if fb_commandCyclesLeft b = 0 \<and> fl_type t \<noteq> F_EMPTY then divide_params c (COMMAND_LENGTH c) (COMMAND_CHANNEL_WIDTH c)
               else fb_commandCyclesLeft b);
          s1 = put_front (b\<lparr>fb_commandCyclesLeft := u64_sub n 1\<rparr>) s
      in if u64_sub n 1 \<noteq> 0 then Inr s1
         else bindR (findTransaction c (fb_pendingCommand b) (fb_pendingData b) t s1) (\<lambda>((r, search, add), s2).
                Inr (put_front ((nv_front s2)\<lparr>fb_commandTrans := r, fb_pendingCommand := search, fb_pendingData := add\<rparr>) s2)))"

section \<open>One cycle\<close>

definition front_response :: "nv_cfg \<Rightarrow> nvdimm \<Rightarrow> nverr + nvdimm" where
  "front_response c s =
     (let b = nv_front s
      in if fl_type (fb_responseTrans b) \<noteq> F_EMPTY then updateResponse c s
         else case fb_responses b of
             t # ts \<Rightarrow> updateResponse c (put_front (b\<lparr>fb_responseTrans := t, fb_responses := ts,
                         fb_responsesSize := subtract_params (fb_responsesSize b) (page_bits c)\<rparr>) s)
           | [] \<Rightarrow> if \<not> ENABLE_REQUEST_CHANNEL c \<and> fb_requests b \<noteq> [] then
                     (case newRequestTrans c b of (t, b') \<Rightarrow> updateResponse c (put_front (b'\<lparr>fb_responseTrans := t\<rparr>) s))
                   else Inr s)"

definition front_request :: "nv_cfg \<Rightarrow> nvdimm \<Rightarrow> nverr + nvdimm" where
  "front_request c s =
     (let b = nv_front s
      in if \<not> ENABLE_REQUEST_CHANNEL c then Inr s
         else if fl_type (fb_requestTrans b) \<noteq> F_EMPTY then updateRequest c s
         else if fb_requests b \<noteq> [] then
           (case newRequestTrans c b of (t, b') \<Rightarrow> updateRequest c (put_front (b'\<lparr>fb_requestTrans := t\<rparr>) s))
         else Inr s)"

definition front_command :: "nv_cfg \<Rightarrow> nvdimm \<Rightarrow> nverr + nvdimm" where
  "front_command c s =
     (let b = nv_front s
      in if \<not> ENABLE_COMMAND_CHANNEL c then Inr s
         else if fl_type (fb_commandTrans b) \<noteq> F_EMPTY then updateCommand c s
         else case fb_commands b of
             t # ts \<Rightarrow> updateCommand c (put_front (b\<lparr>fb_commandTrans := t, fb_commands := ts,
                         fb_requestsSize := subtract_params (fb_requestsSize b) (COMMAND_LENGTH c)\<rparr>) s)
           | [] \<Rightarrow> Inr s)"

definition front_update :: "nv_cfg \<Rightarrow> nvdimm \<Rightarrow> nverr + nvdimm" where
  "front_update c s = bindR (front_response c s) (\<lambda>s1. bindR (front_request c s1) (front_command c))"

end
