(* ===== verification/Nv_Controller.thy ===== *)
theory Nv_Controller
  imports Nv_Front
begin

text \<open>
  Channels, the controller without scheduling, the data side of a die, and the device
  (\<open>Channel.cpp\<close>, \<open>Controller.cpp\<close>, \<open>Die::update\<close>, \<open>NVDIMM.cpp\<close>).
\<close>

section \<open>Channels\<close>

definition obtainChannel :: "nat \<Rightarrow> nat \<Rightarrow> SenderType \<Rightarrow> ChannelPacket option \<Rightarrow> nvdimm \<Rightarrow> bool \<times> nvdimm" where
  "obtainChannel k j t p s =
     (let refused = (case p of None \<Rightarrow> False
           | Some q \<Rightarrow> t = CONTROLLER \<and>
               (let busy = isDieBusy (pk_plane q) (nv_dies s k (pk_die q))
                in busy = 1 \<or> (pk_type q \<noteq> P_DATA \<and> busy = 2) \<or> (pk_type q = P_DATA \<and> busy = 3)))
      in if nv_channels s k \<noteq> None \<or> refused then (False, s)
         else (True, s\<lparr>nv_channels := (nv_channels s)(k := Some (t, j))\<rparr>))"

definition hasChannel :: "nat \<Rightarrow> SenderType \<Rightarrow> nat \<Rightarrow> nvdimm \<Rightarrow> bool" where
  "hasChannel k t j s \<longleftrightarrow> nv_channels s k = Some (t, j)"

definition releaseChannel :: "nat \<Rightarrow> SenderType \<Rightarrow> nat \<Rightarrow> nvdimm \<Rightarrow> nvdimm" where
  "releaseChannel k t j s =
     (if hasChannel k t j s then s\<lparr>nv_channels := (nv_channels s)(k := None)\<rparr> else s)"

section \<open>Controller\<close>

definition put_ctrl :: "nvctrl \<Rightarrow> nvdimm \<Rightarrow> nvdimm" where
  "put_ctrl ct s = s\<lparr>nv_ctrl := ct\<rparr>"

definition receiveFromChannel :: "ChannelPacket \<Rightarrow> nvdimm \<Rightarrow> nverr + nvdimm" where
  "receiveFromChannel p s =
     (case pk_type p of
        P_READ \<Rightarrow> Inr (put_ctrl ((nv_ctrl s)\<lparr>ct_returnTransaction :=
            ct_returnTransaction (nv_ctrl s) @ [mkFlash F_RETURN_DATA (pk_vaddr p) (pk_data p)]\<rparr>) s)
      | P_GC_READ \<Rightarrow> Inr s
      | _ \<Rightarrow> Inl Bad_Packet)"

definition next_die :: "nv_cfg \<Rightarrow> nat \<Rightarrow> nvctrl \<Rightarrow> nvctrl" where
  "next_die c k ct =
     (let d = ct_die_pointers ct k + 1
      in ct\<lparr>ct_die_pointers := (ct_die_pointers ct)(k := (if DIES_PER_PACKAGE c \<le> d then 0 else d))\<rparr>)"

definition packet_beats :: "nv_cfg \<Rightarrow> ChannelPacket \<Rightarrow> nat" where
  "packet_beats c p = divide_params c (if pk_type p = P_DATA then page_bits c else COMMAND_LENGTH c) (NV_DEVICE_WIDTH c)"

text \<open>The packet at the front of a queue goes out on its channel.\<close>

definition issue_packet :: "nv_cfg \<Rightarrow> nat \<Rightarrow> nat \<Rightarrow> ChannelPacket \<Rightarrow> nvdimm \<Rightarrow> nvdimm" where
  "issue_packet c k j p s =
     (let ct = nv_ctrl s;
          ct1 = ct\<lparr>ct_outgoingPackets := (ct_outgoingPackets ct)(k := Some p),
                   ct_readQueues := (ct_readQueues ct)(k := (ct_readQueues ct k)(j := tl (ct_readQueues ct k j))),
                   ct_channelBeatsLeft := (ct_channelBeatsLeft ct)(k := packet_beats c p)\<rparr>
      in queuesNotFull (put_ctrl (next_die c k ct1) s))"

text \<open>The loop over the dies of a package; \<open>n\<close> is \<open>die_counter\<close>.\<close>

function pick_packet :: "nv_cfg \<Rightarrow> nat \<Rightarrow> nat \<Rightarrow> nvdimm \<Rightarrow> nvdimm" where
  "pick_packet c k n s =
     (let j = ct_die_pointers (nv_ctrl s) k;
          s1 = put_ctrl (next_die c k (nv_ctrl s)) s;
          again = (if DIES_PER_PACKAGE c \<le> n + 1 then s1 else pick_packet c k (n + 1) s1)
      in case ct_readQueues (nv_ctrl s) k j of
           p # _ \<Rightarrow>
             if ct_outgoingPackets (nv_ctrl s) k = None then
               (case obtainChannel k 0 CONTROLLER (Some p) s of
                  (True, s') \<Rightarrow> issue_packet c k j p s'
                | (False, _) \<Rightarrow> again)
             else again
         | [] \<Rightarrow> again)"
  by pat_completeness auto

termination pick_packet
  by (relation "measure (\<lambda>(c, k, n, s). DIES_PER_PACKAGE c - n)") auto

declare pick_packet.simps [simp del]

definition sendToBuffer :: "nv_cfg \<Rightarrow> ChannelPacket \<Rightarrow> nvdimm \<Rightarrow> nverr + nvdimm" where
  "sendToBuffer c p s = receiveFromBuffer c p s"

definition move_packet :: "nv_cfg \<Rightarrow> nat \<Rightarrow> nvdimm \<Rightarrow> nverr + nvdimm" where
  "move_packet c i s =
     (case ct_outgoingPackets (nv_ctrl s) i of
        None \<Rightarrow> Inr s
      | Some p \<Rightarrow>
          if hasChannel (pk_package p) CONTROLLER 0 s then
            let ct = nv_ctrl s; n = u64_sub (ct_channelBeatsLeft ct i) 1;
                s1 = put_ctrl (ct\<lparr>ct_channelBeatsLeft := (ct_channelBeatsLeft ct)(i := n)\<rparr>) s
            in if n = 0 then
                 bindR (sendToBuffer c p s1) (\<lambda>s2.
                   let s3 = releaseChannel (pk_package p) CONTROLLER 0 s2
                   in Inr (put_ctrl ((nv_ctrl s3)\<lparr>ct_outgoingPackets := (ct_outgoingPackets (nv_ctrl s3))(i := None)\<rparr>) s3))
               else Inr s1
          else Inr s)"

text \<open>Read data is returned from the back of the list; the argument is the list reversed.\<close>

primrec return_read_data :: "nv_cfg \<Rightarrow> FlashTransaction list \<Rightarrow> nvdimm \<Rightarrow> nvdimm" where
  "return_read_data c [] s = put_ctrl ((nv_ctrl s)\<lparr>ct_returnTransaction := []\<rparr>) s"
| "return_read_data c (t # ts) s =
     (if FRONT_BUFFER c then
        (case front_addTransaction c t (nv_front s) of
           (True, b) \<Rightarrow> return_read_data c ts (put_front b s)
         | (False, b) \<Rightarrow> put_ctrl ((nv_ctrl s)\<lparr>ct_returnTransaction := rev (t # ts)\<rparr>) (put_front b s))
      else return_read_data c ts (returnReadData t s))"

definition controller_update :: "nv_cfg \<Rightarrow> nvdimm \<Rightarrow> nverr + nvdimm" where
  "controller_update c s =
     bindR (foldR (move_packet c) [0..<NUM_PACKAGES c] (fold (\<lambda>k. pick_packet c k 0) [0..<NUM_PACKAGES c] s))
       (\<lambda>s1. Inr (return_read_data c (rev (ct_returnTransaction (nv_ctrl s1))) s1))"

definition dataReady :: "nat \<Rightarrow> nat \<Rightarrow> nat \<Rightarrow> nvctrl \<Rightarrow> bool" where
  "dataReady k j pl ct =
     (case ct_readQueues ct k j of [] \<Rightarrow> False | p # _ \<Rightarrow> pk_type p = P_READ \<and> pk_plane p = pl)"

section \<open>Dies\<close>

definition end_command :: "nat \<Rightarrow> nvdie \<Rightarrow> nvdie" where
  "end_command i d = d\<lparr>di_currentCommands := (di_currentCommands d)(i := None)\<rparr>"

text \<open>The command of plane \<open>i\<close> is over.\<close>

definition complete_command :: "nv_cfg \<Rightarrow> nat \<Rightarrow> nat \<Rightarrow> nat \<Rightarrow> ChannelPacket \<Rightarrow> nvdimm \<Rightarrow> nverr + nvdimm" where
  "complete_command c k j i p s =
     (let d = nv_dies s k j; pl = di_planes d (pk_plane p)
      in case pk_type p of
           P_READ \<Rightarrow>
             if checkCacheReg pl then
               bindR (readFromData pl) (\<lambda>(r, pl'). Inr (put_die k j
                 (end_command i ((put_plane (pk_plane p) pl' d)\<lparr>di_returnDataPackets := di_returnDataPackets d @ [r]\<rparr>)) s))
             else Inr s
         | P_GC_READ \<Rightarrow>
             if length (di_returnDataPackets d) \<le> PLANES_PER_DIE c then
               bindR (readFromData pl) (\<lambda>(r, pl'). Inr (put_die k j
                 (end_command i ((put_plane (pk_plane p) pl' d)\<lparr>di_returnDataPackets := di_returnDataPackets d @ [r]\<rparr>))
                 (GCReadDone c (pk_vaddr p) s)))
             else Inr (put_die k j (end_command i d) s)
         | P_WRITE \<Rightarrow>
             bindR (plane_writeDone c p pl) (\<lambda>pl'. Inr (put_die k j (end_command i (put_plane (pk_plane p) pl' d))
               (nv_call (WriteDataDone (pk_vaddr p)) s)))
         | _ \<Rightarrow> Inr (put_die k j (end_command i d) s))"

definition plane_step :: "nv_cfg \<Rightarrow> nat \<Rightarrow> nat \<Rightarrow> nat \<Rightarrow> nvdimm \<Rightarrow> nverr + nvdimm" where
  "plane_step c k j i s =
     (let d = nv_dies s k j
      in case di_currentCommands d i of
           None \<Rightarrow> Inr s
         | Some p \<Rightarrow>
             if di_controlCyclesLeft d i = 0 then complete_command c k j i p s
             else Inr (put_die k j (d\<lparr>di_controlCyclesLeft := (di_controlCyclesLeft d)(i := di_controlCyclesLeft d i - 1)\<rparr>) s))"

definition send_data :: "nv_cfg \<Rightarrow> nat \<Rightarrow> nat \<Rightarrow> nvdimm \<Rightarrow> nverr + nvdimm" where
  "send_data c k j s =
     (let d = nv_dies s k j
      in case di_returnDataPackets d of
           [] \<Rightarrow> Inr s
         | p # ps \<Rightarrow>
             bindR (receiveFromChannel p (put_die k j ((put_plane (pk_plane p) (dataGone (di_planes d (pk_plane p))) d)
                      \<lparr>di_returnDataPackets := ps\<rparr>) s))
               (\<lambda>s1. Inr (releaseChannel k BUFFER j s1)))"

definition crit_line :: "nv_cfg \<Rightarrow> nat \<Rightarrow> nat \<Rightarrow> nvdimm \<Rightarrow> nverr + nvdimm" where
  "crit_line c k j s =
     (let d = nv_dies s k j
      in if CRIT_LINE_FIRST c \<and> di_dataCyclesLeft d = critBeat c then
           (case di_returnDataPackets d of [] \<Rightarrow> Inl Empty_Queue | p # _ \<Rightarrow> Inr (nv_call (CriticalLineDone (pk_vaddr p)) s))
         else Inr s)"

definition return_packets :: "nv_cfg \<Rightarrow> nat \<Rightarrow> nat \<Rightarrow> nvdimm \<Rightarrow> nverr + nvdimm" where
  "return_packets c k j s =
     (let d = nv_dies s k j
      in case di_returnDataPackets d of
           [] \<Rightarrow> Inr s
         | p # _ \<Rightarrow>
             if hasChannel k BUFFER j s then
               bindR (if di_dataCyclesLeft d = 0 then send_data c k j s else Inr s) (\<lambda>s1.
               bindR (crit_line c k j s1) (\<lambda>s2.
                 let d2 = nv_dies s2 k j
                 in Inr (put_die k j (d2\<lparr>di_dataCyclesLeft := u64_sub (di_dataCyclesLeft d2) 1\<rparr>) s2)))
             else if \<not> dataReady (pk_package p) (pk_die p) (pk_plane p) (nv_ctrl s) \<or> di_currentCommands d (pk_plane p) \<noteq> None then
               (case obtainChannel k j BUFFER None s of
                  (True, s1) \<Rightarrow> Inr (put_die k j ((nv_dies s1 k j)\<lparr>di_dataCyclesLeft := return_cycles c\<rparr>) s1)
                | (False, s1) \<Rightarrow> Inr s1)
             else Inr s)"

definition die_update :: "nv_cfg \<Rightarrow> nat \<Rightarrow> nat \<Rightarrow> nvdimm \<Rightarrow> nverr + nvdimm" where
  "die_update c k j s = bindR (foldR (plane_step c k j) [0..<PLANES_PER_DIE c] s) (return_packets c k j)"

section \<open>The device\<close>

definition nv_addTransaction :: "nv_cfg \<Rightarrow> bool \<Rightarrow> nat \<Rightarrow> nvdimm \<Rightarrow> nverr + bool \<times> nvdimm" where
  "nv_addTransaction c isWrite addr s =
     (let t = mkFlash (if isWrite then F_DATA_WRITE else F_DATA_READ) addr 0
      in if FRONT_BUFFER c then (case front_addTransaction c t (nv_front s) of (ok, b) \<Rightarrow> Inr (ok, put_front b s))
         else addTransactionF c t s)"

definition package_update :: "nv_cfg \<Rightarrow> nat \<Rightarrow> nvdimm \<Rightarrow> nverr + nvdimm" where
  "package_update c k = foldR (die_update c k) [0..<DIES_PER_PACKAGE c]"

text \<open>
  One pass of the loop of \<open>NVDIMM::update\<close>. The clock counters are floating point numbers, so the number
  \<open>n\<close> of channel cycles that fit into the pass is an argument, and \<open>nvdimm_update\<close> takes one such number
  for each pass.
\<close>

definition nvdimm_pass :: "nv_cfg \<Rightarrow> nat \<Rightarrow> nvdimm \<Rightarrow> nverr + nvdimm" where
  "nvdimm_pass c n s =
     bindR (update_ftl c s) (\<lambda>s1.
     bindR (if FRONT_BUFFER c then foldR (\<lambda>_. front_update c) [0..<n] s1 else Inr s1) (\<lambda>s2.
     bindR (controller_update c s2) (foldR (package_update c) [0..<NUM_PACKAGES c])))"

definition nvdimm_update :: "nv_cfg \<Rightarrow> nat list \<Rightarrow> nvdimm \<Rightarrow> nverr + nvdimm" where
  "nvdimm_update c ns s = foldR (nvdimm_pass c) ns s"

end
