(* ===== verification/Nv_Ledger.thy ===== *)
theory Nv_Ledger
  imports Nv_Controller "HOL-Library.Multiset"
begin

text \<open>
  Where the reads of the host are inside the flash simulator. The ledger counts the reads that were
  answered and those that wait in the front buffer, the translation layer, the controller, on a
  channel or in a die. Shown: without garbage collection an operation moves reads and neither drops
  nor duplicates one; with it, none is duplicated.
\<close>

section \<open>The ledger\<close>

definition host :: "FlashTransaction \<Rightarrow> bool" where
  "host t \<longleftrightarrow> fl_type t = F_DATA_READ \<or> fl_type t = F_DATA_WRITE"

definition addrs_of :: "nvType \<Rightarrow> FlashTransaction list \<Rightarrow> nat multiset" where
  "addrs_of ty ts = mset (map fl_addr (filter (\<lambda>t. fl_type t = ty) ts))"

definition reads_p :: "ChannelPacket list \<Rightarrow> nat multiset" where
  "reads_p ps = mset (map pk_vaddr (filter (\<lambda>p. pk_type p = P_READ) ps))"

fun olist :: "'a option \<Rightarrow> 'a list" where
  "olist None = []"
| "olist (Some x) = [x]"

fun call_read :: "nvcall \<Rightarrow> nat list" where
  "call_read (ReturnReadData a _) = [a]"
| "call_read (CriticalLineDone _) = []"
| "call_read (WriteDataDone _) = []"

definition answered :: "nvcall list \<Rightarrow> nat multiset" where
  "answered es = mset (concat (map call_read es))"

definition crit_calls :: "nvcall list \<Rightarrow> nat set" where
  "crit_calls es = {a. CriticalLineDone a \<in> set es}"

definition chan_req :: "nv_cfg \<Rightarrow> nvfront \<Rightarrow> FlashTransaction list" where
  "chan_req c b = filter host [if ENABLE_REQUEST_CHANNEL c then fb_requestTrans b else fb_responseTrans b]"

definition front_reads :: "nv_cfg \<Rightarrow> nvfront \<Rightarrow> nat multiset" where
  "front_reads c b = addrs_of F_DATA_READ (chan_req c b) + addrs_of F_DATA_READ (fb_requests b) + addrs_of F_DATA_READ (fb_pendingCommand b)"

definition front_returns :: "nvfront \<Rightarrow> nat multiset" where
  "front_returns b = addrs_of F_RETURN_DATA (fb_responses b) + addrs_of F_RETURN_DATA [fb_responseTrans b]"

definition ftl_reads :: "nvftl \<Rightarrow> nat multiset" where
  "ftl_reads f = addrs_of F_DATA_READ (ft_readQueue f)"

definition nv_queue_reads :: "nv_cfg \<Rightarrow> nvctrl \<Rightarrow> nat multiset" where
  "nv_queue_reads c ct = (\<Sum>k<NUM_PACKAGES c. \<Sum>j<DIES_PER_PACKAGE c. reads_p (ct_readQueues ct k j))"

definition out_reads :: "nv_cfg \<Rightarrow> nvctrl \<Rightarrow> nat multiset" where
  "out_reads c ct = (\<Sum>k<NUM_PACKAGES c. reads_p (olist (ct_outgoingPackets ct k)))"

definition return_reads :: "nvctrl \<Rightarrow> nat multiset" where
  "return_reads ct = addrs_of F_RETURN_DATA (ct_returnTransaction ct)"

definition nv_cmd_reads :: "nv_cfg \<Rightarrow> nvdie \<Rightarrow> nat multiset" where
  "nv_cmd_reads c d = (\<Sum>i<PLANES_PER_DIE c. reads_p (olist (di_currentCommands d i)))"

definition die_reads :: "nv_cfg \<Rightarrow> nvdie \<Rightarrow> nat multiset" where
  "die_reads c d = nv_cmd_reads c d + reads_p (di_returnDataPackets d)"

definition dies_reads :: "nv_cfg \<Rightarrow> (nat \<Rightarrow> nat \<Rightarrow> nvdie) \<Rightarrow> nat multiset" where
  "dies_reads c ds = (\<Sum>k<NUM_PACKAGES c. \<Sum>j<DIES_PER_PACKAGE c. die_reads c (ds k j))"

text \<open>The reads beyond the translation layer: its own are the rest.\<close>

definition beyond :: "nv_cfg \<Rightarrow> nvdimm \<Rightarrow> nat multiset" where
  "beyond c s = answered (nv_calls s) + front_reads c (nv_front s) + front_returns (nv_front s) +
     (nv_queue_reads c (nv_ctrl s) + out_reads c (nv_ctrl s) + return_reads (nv_ctrl s)) + dies_reads c (nv_dies s)"

text \<open>The reads that the device has accepted and not answered.\<close>

definition nv_waiting :: "nv_cfg \<Rightarrow> nvdimm \<Rightarrow> nat multiset" where
  "nv_waiting c s = front_reads c (nv_front s) + front_returns (nv_front s) +
     (nv_queue_reads c (nv_ctrl s) + out_reads c (nv_ctrl s) + return_reads (nv_ctrl s)) + dies_reads c (nv_dies s) + ftl_reads (nv_ftl s)"

definition nv_ledger :: "nv_cfg \<Rightarrow> nvdimm \<Rightarrow> nat multiset" where
  "nv_ledger c s = beyond c s + ftl_reads (nv_ftl s)"

lemma ledger_split: "nv_ledger c s = answered (nv_calls s) + nv_waiting c s"
  by (simp add: nv_ledger_def beyond_def nv_waiting_def union_ac)

text \<open>Garbage collection can start with these settings.\<close>

definition gc_active :: "nv_cfg \<Rightarrow> bool" where
  "gc_active c \<longleftrightarrow> GARBAGE_COLLECT c \<and> (\<exists>n. force_gc c n \<or> checkGC c n)"

definition nv_keeps :: "nv_cfg \<Rightarrow> nat multiset \<Rightarrow> nat multiset \<Rightarrow> bool" where
  "nv_keeps c T L \<longleftrightarrow> (if gc_active c then L \<subseteq># T else L = T)"

lemma nv_keeps_refl [simp]: "nv_keeps c T T"
  by (simp add: nv_keeps_def)

lemma nv_keeps_trans: "nv_keeps c T L \<Longrightarrow> nv_keeps c L K \<Longrightarrow> nv_keeps c T K"
  by (auto simp: nv_keeps_def split: if_splits)

lemma nv_keeps_add: "nv_keeps c T L \<Longrightarrow> nv_keeps c (T + K) (L + K)"
  by (auto simp: nv_keeps_def split: if_splits)

lemma addrs_simps [simp]:
  "addrs_of ty [] = {#}"
  "addrs_of ty (t # ts) = (if fl_type t = ty then {#fl_addr t#} else {#}) + addrs_of ty ts"
  "addrs_of ty (ts @ us) = addrs_of ty ts + addrs_of ty us"
  by (auto simp: addrs_of_def)

lemma addrs_rev [simp]: "addrs_of ty (rev ts) = addrs_of ty ts"
  by (simp add: addrs_of_def rev_filter [symmetric] rev_map [symmetric])

lemma reads_p_simps [simp]:
  "reads_p [] = {#}"
  "reads_p (p # ps) = (if pk_type p = P_READ then {#pk_vaddr p#} else {#}) + reads_p ps"
  "reads_p (ps @ qs) = reads_p ps + reads_p qs"
  by (auto simp: reads_p_def)

lemma answered_simps [simp]:
  "answered [] = {#}" "answered (es @ fs) = answered es + answered fs"
  "answered [ReturnReadData a b] = {#a#}" "answered [WriteDataDone a] = {#}" "answered [CriticalLineDone a] = {#}"
  by (auto simp: answered_def)

lemma crit_simps [simp]:
  "crit_calls [] = {}" "crit_calls (es @ fs) = crit_calls es \<union> crit_calls fs"
  "crit_calls [ReturnReadData a b] = {}" "crit_calls [WriteDataDone a] = {}" "crit_calls [CriticalLineDone a] = {a}"
  by (auto simp: crit_calls_def)

text \<open>One entry of a sum changes.\<close>

lemma sum_fun_upd:
  fixes f :: "nat \<Rightarrow> 'a" and g :: "'a \<Rightarrow> nat multiset"
  assumes "k < n"
  shows "(\<Sum>i<n. g ((f(k := x)) i)) + g (f k) = (\<Sum>i<n. g (f i)) + g x"
proof -
  have *: "{..<n} = insert k ({..<n} - {k})" using assms by auto
  have "(\<Sum>i<n. h i) = h k + (\<Sum>i\<in>{..<n} - {k}. h i)" for h :: "nat \<Rightarrow> nat multiset"
    by (subst *) (simp add: sum.insert_remove)
  from this [of "\<lambda>i. g ((f(k := x)) i)"] this [of "\<lambda>i. g (f i)"] show ?thesis by (simp add: union_ac)
qed

lemma sum_fun_upd_out:
  fixes f :: "nat \<Rightarrow> 'a" and g :: "'a \<Rightarrow> nat multiset"
  shows "\<not> k < n \<Longrightarrow> (\<Sum>i<n. g ((f(k := x)) i)) = (\<Sum>i<n. g (f i))"
  by (intro sum.cong) auto

lemma mset_exchange:
  fixes A :: "nat multiset"
  assumes "A + H = B + H'" "H' + x = H + y"
  shows "A + x = B + y"
proof -
  have "(A + x) + (H + H') = (A + H) + (H' + x)" by (simp add: union_ac)
  also have "\<dots> = (B + y) + (H + H')" unfolding assms by (simp add: union_ac)
  finally show ?thesis by simp
qed

text \<open>The same for a sum over a matrix.\<close>

lemma sum_fun_upd2:
  fixes f :: "nat \<Rightarrow> nat \<Rightarrow> 'a" and g :: "'a \<Rightarrow> nat multiset"
  assumes "k < n" "j < m"
  shows "(\<Sum>i<n. \<Sum>l<m. g ((f(k := (f k)(j := x))) i l)) + g (f k j) = (\<Sum>i<n. \<Sum>l<m. g (f i l)) + g x"
proof -
  let ?h = "\<lambda>r. \<Sum>l<m. g (r l)"
  have "(\<Sum>i<n. ?h ((f(k := (f k)(j := x))) i)) + ?h (f k) = (\<Sum>i<n. ?h (f i)) + ?h ((f k)(j := x))"
    using assms(1) by (rule sum_fun_upd [where g = ?h])
  moreover have "?h ((f k)(j := x)) + g (f k j) = ?h (f k) + g x" using assms(2) by (rule sum_fun_upd [where g = g])
  ultimately show ?thesis by (rule mset_exchange)
qed

section \<open>The invariant\<close>

definition nv_packet_ok :: "nv_cfg \<Rightarrow> ChannelPacket \<Rightarrow> bool" where
  "nv_packet_ok c p \<longleftrightarrow> pk_package p < NUM_PACKAGES c \<and> pk_die p < DIES_PER_PACKAGE c \<and> pk_plane p < PLANES_PER_DIE c"

definition ctrl_inv :: "nv_cfg \<Rightarrow> nvctrl \<Rightarrow> bool" where
  "ctrl_inv c ct \<longleftrightarrow>
     (\<forall>k j. \<forall>p\<in>set (ct_readQueues ct k j). nv_packet_ok c p \<and> pk_package p = k \<and> pk_die p = j) \<and>
     (\<forall>k p. ct_outgoingPackets ct k = Some p \<longrightarrow> nv_packet_ok c p \<and> pk_package p = k) \<and>
     (\<forall>k. ct_die_pointers ct k < DIES_PER_PACKAGE c) \<and>
     (\<forall>t\<in>set (ct_returnTransaction ct). fl_type t = F_RETURN_DATA)"

definition die_inv :: "nvdie \<Rightarrow> bool" where
  "die_inv d \<longleftrightarrow> (\<forall>i p. di_currentCommands d i = Some p \<longrightarrow> pk_plane p = i \<and>
     (pk_type p = P_READ \<or> pk_type p = P_GC_READ \<longrightarrow> dataReg (di_planes d i) = Some p))"

definition scheduled :: "nv_cfg \<Rightarrow> bool" where
  "scheduled c \<longleftrightarrow> SCHEDULE c \<or> PERFECT_SCHEDULE c"

definition current_ok :: "nv_cfg \<Rightarrow> nvftl \<Rightarrow> bool" where
  "current_ok c f \<longleftrightarrow>
     (ft_busy f \<longrightarrow>
       (if scheduled c then
          fl_type (ft_currentTransaction f) = F_DATA_READ \<longrightarrow>
            ft_read_pointer f < length (ft_readQueue f) \<and> ft_readQueue f ! ft_read_pointer f = ft_currentTransaction f
        else host (ft_currentTransaction f) \<longrightarrow> (\<exists>q. ft_readQueue f = ft_currentTransaction f # q)))"

text \<open>
  The address map of a device that writes each page once (\<open>GARBAGE_COLLECT\<close>): a mapped page is in use, and
  no two virtual pages share one.
\<close>

definition map_ok :: "nv_cfg \<Rightarrow> (nat, nat) umap \<Rightarrow> (nat \<Rightarrow> nat \<Rightarrow> bool) \<Rightarrow> bool" where
  "map_ok c m u \<longleftrightarrow>
     (\<forall>v a. um_get m v = Some a \<longrightarrow> a < TOTAL_SIZE c \<and> (\<exists>b p. a = page_paddr c b p \<and> p < PAGES_PER_BLOCK c \<and> u b p)) \<and>
     (\<forall>v w a. um_get m v = Some a \<longrightarrow> um_get m w = Some a \<longrightarrow> v = w)"

definition map_inv :: "nv_cfg \<Rightarrow> nvftl \<Rightarrow> bool" where
  "map_inv c f \<longleftrightarrow> (GARBAGE_COLLECT c \<and> \<not> gc_active c \<longrightarrow> map_ok c (ft_addressMap f) (ft_used f))"

definition ftl_inv :: "nv_cfg \<Rightarrow> nvftl \<Rightarrow> bool" where
  "ftl_inv c f \<longleftrightarrow> current_ok c f \<and> map_inv c f \<and> (\<forall>t\<in>set (ft_readQueue f). host t) \<and>
     (\<forall>t\<in>set (ft_writeQueue f). fl_type t = F_DATA_WRITE) \<and> (\<forall>t\<in>set (ft_gcQueue f). \<not> host t) \<and>
     (gc_active c \<or> (\<not> ft_gc_status f \<and> (ft_busy f \<longrightarrow> host (ft_currentTransaction f))))"

text \<open>
  With a command channel a request is on its way twice. For each address, the copies that one channel
  has delivered and the other has not come first in what the other still has to deliver.
\<close>

definition at_addr :: "nat \<Rightarrow> FlashTransaction list \<Rightarrow> FlashTransaction list" where
  "at_addr a = filter (\<lambda>t. fl_addr t = a)"

definition paired :: "FlashTransaction list \<Rightarrow> FlashTransaction list \<Rightarrow> FlashTransaction list \<Rightarrow> FlashTransaction list \<Rightarrow> bool" where
  "paired D C req cmd \<longleftrightarrow> (\<forall>a.
     (at_addr a D = [] \<and> at_addr a cmd = at_addr a C @ at_addr a req) \<or>
     (at_addr a C = [] \<and> at_addr a req = at_addr a D @ at_addr a cmd))"

definition chan_cmd :: "nvfront \<Rightarrow> FlashTransaction list" where
  "chan_cmd b = filter host [fb_commandTrans b]"

definition front_inv :: "nv_cfg \<Rightarrow> nvfront \<Rightarrow> bool" where
  "front_inv c b \<longleftrightarrow>
     (\<forall>t\<in>set (fb_requests b) \<union> set (fb_commands b) \<union> set (fb_pendingData b) \<union> set (fb_pendingCommand b). host t) \<and>
     (\<forall>t\<in>set (fb_responses b). fl_type t = F_RETURN_DATA) \<and>
     (fl_type (fb_responseTrans b) = F_EMPTY \<or> fl_type (fb_responseTrans b) = F_RETURN_DATA \<or>
        (\<not> ENABLE_REQUEST_CHANNEL c \<and> host (fb_responseTrans b))) \<and>
     (fl_type (fb_requestTrans b) = F_EMPTY \<or> (ENABLE_REQUEST_CHANNEL c \<and> host (fb_requestTrans b))) \<and>
     (fl_type (fb_commandTrans b) = F_EMPTY \<or> (ENABLE_COMMAND_CHANNEL c \<and> host (fb_commandTrans b))) \<and>
     (if ENABLE_COMMAND_CHANNEL c
      then paired (fb_pendingData b) (fb_pendingCommand b) (chan_req c b @ fb_requests b) (chan_cmd b @ fb_commands b)
      else fb_commands b = [] \<and> fb_pendingData b = [] \<and> fb_pendingCommand b = [])"

definition nv_inv :: "nv_cfg \<Rightarrow> nvdimm \<Rightarrow> bool" where
  "nv_inv c s \<longleftrightarrow> (CRIT_LINE_FIRST c \<or> crit_calls (nv_calls s) = {}) \<and> front_inv c (nv_front s) \<and> ftl_inv c (nv_ftl s) \<and> ctrl_inv c (nv_ctrl s) \<and> (\<forall>k j. die_inv (nv_dies s k j))"

text \<open>\<open>T\<close> are the reads the device has accepted.\<close>

definition nv_good :: "nv_cfg \<Rightarrow> nat multiset \<Rightarrow> nvdimm \<Rightarrow> bool" where
  "nv_good c T s \<longleftrightarrow> nv_inv c s \<and> nv_keeps c T (nv_ledger c s)"

lemma good_answered: "nv_good c T s \<Longrightarrow> answered (nv_calls s) \<subseteq># T"
proof -
  assume "nv_good c T s"
  then have "answered (nv_calls s) + nv_waiting c s \<subseteq># T" by (auto simp: nv_good_def nv_keeps_def ledger_split split: if_splits)
  then show ?thesis by (metis mset_subset_eq_add_left subset_mset.trans)
qed

end
