(* ===== verification/Nv_Flow_Ftl.thy ===== *)
theory Nv_Flow_Ftl
  imports Nv_Ledger
begin

text \<open>
  Reads in the translation layer: every operation of \<open>Ftl\<close> and \<open>GCFtl\<close> keeps the ledger.
\<close>

section \<open>Parts of the state\<close>

definition rest_inv :: "nv_cfg \<Rightarrow> nvdimm \<Rightarrow> bool" where
  "rest_inv c s \<longleftrightarrow> (CRIT_LINE_FIRST c \<or> crit_calls (nv_calls s) = {}) \<and> front_inv c (nv_front s) \<and> ctrl_inv c (nv_ctrl s) \<and> (\<forall>k j. die_inv (nv_dies s k j))"

lemma nv_good_iff: "nv_good c T s \<longleftrightarrow> rest_inv c s \<and> ftl_inv c (nv_ftl s) \<and> nv_keeps c T (beyond c s + ftl_reads (nv_ftl s))"
  by (auto simp: nv_good_def nv_inv_def rest_inv_def nv_ledger_def)

lemma put_ftl_simps [simp]:
  "rest_inv c (put_ftl f s) = rest_inv c s" "beyond c (put_ftl f s) = beyond c s" "nv_ftl (put_ftl f s) = f"
  "nv_ctrl (put_ftl f s) = nv_ctrl s" "nv_front (put_ftl f s) = nv_front s" "nv_dies (put_ftl f s) = nv_dies s"
  "nv_calls (put_ftl f s) = nv_calls s"
  by (auto simp: put_ftl_def rest_inv_def beyond_def)

lemma call_simps [simp]:
  "CRIT_LINE_FIRST c \<or> crit_calls [e] = {} \<Longrightarrow> rest_inv c (nv_call e s) = rest_inv c s" "beyond c (nv_call e s) = beyond c s + answered [e]" "nv_ftl (nv_call e s) = nv_ftl s"
  "rest_inv c (s\<lparr>nv_numReads := n\<rparr>) = rest_inv c s" "beyond c (s\<lparr>nv_numReads := n\<rparr>) = beyond c s"
  by (auto simp: nv_call_def rest_inv_def beyond_def)

lemma put_ftl_good:
  "rest_inv c s \<Longrightarrow> ftl_inv c f \<Longrightarrow> nv_keeps c T (beyond c s + ftl_reads f) \<Longrightarrow> nv_good c T (put_ftl f s)"
  by (simp add: nv_good_iff)

lemma translate_packet:
  assumes "sizes_ok c" "translate c ty v a = Inr p"
  shows "nv_packet_ok c p" "pk_type p = ty" "pk_vaddr p = v"
proof -
  note pos = sizes_pos [OF assms(1)]
  from assms(2) have "pk_package p = a div NV_PAGE_SIZE c div PAGES_PER_BLOCK c div BLOCKS_PER_PLANE c div PLANES_PER_DIE c div DIES_PER_PACKAGE c mod NUM_PACKAGES c"
    "pk_die p = a div NV_PAGE_SIZE c div PAGES_PER_BLOCK c div BLOCKS_PER_PLANE c div PLANES_PER_DIE c mod DIES_PER_PACKAGE c"
    "pk_plane p = a div NV_PAGE_SIZE c div PAGES_PER_BLOCK c div BLOCKS_PER_PLANE c mod PLANES_PER_DIE c"
    by (auto simp: translate_def Let_def split: if_splits)
  then show "nv_packet_ok c p" using pos by (simp add: nv_packet_ok_def)
  from assms(2) show "pk_type p = ty" "pk_vaddr p = v" by (auto simp: translate_def Let_def split: if_splits)
qed

section \<open>Fresh pages\<close>

lemma translate_range: "sizes_ok c \<Longrightarrow> translate c ty v a = Inr p \<Longrightarrow> a < TOTAL_SIZE c"
  using u64_sub_id [of 1 "TOTAL_SIZE c"] by (auto simp: translate_def sizes_ok_def Let_def split: if_splits)

definition page_fresh :: "nv_cfg \<Rightarrow> nvftl \<Rightarrow> nat \<Rightarrow> nat \<Rightarrow> bool" where
  "page_fresh c f block page \<longleftrightarrow> page < PAGES_PER_BLOCK c \<and> \<not> ft_used f block page"

lemma find_free_fresh: "find_free c u lo hi = Some (b, p) \<Longrightarrow> p < PAGES_PER_BLOCK c \<and> \<not> u b p"
proof -
  assume f: "find_free c u lo hi = Some (b, p)"
  then have "(b, p) \<in> set (List.product [lo..<hi] [0..<PAGES_PER_BLOCK c])"
    unfolding find_free_def find_Some_iff by (metis nth_mem)
  then show ?thesis using f by (auto simp: find_free_def find_Some_iff)
qed

lemma search_fresh: "search_free c f = Some (b, p) \<Longrightarrow> page_fresh c f b p"
  by (auto simp: search_free_def page_fresh_def dest: find_free_fresh split: option.splits)

lemma page_paddr_inj:
  assumes "sizes_ok c" "p < PAGES_PER_BLOCK c" "q < PAGES_PER_BLOCK c" "page_paddr c b p = page_paddr c d q"
  shows "b = d \<and> p = q"
proof -
  have "b * PAGES_PER_BLOCK c + p = d * PAGES_PER_BLOCK c + q"
  proof -
    have "(b * PAGES_PER_BLOCK c + p) * NV_PAGE_SIZE c = (d * PAGES_PER_BLOCK c + q) * NV_PAGE_SIZE c"
      using assms(4) by (simp add: page_paddr_def BLOCK_SIZE_def algebra_simps)
    then show ?thesis using sizes_pos(6) [OF assms(1)] by simp
  qed
  then have "(b * PAGES_PER_BLOCK c + p) div PAGES_PER_BLOCK c = (d * PAGES_PER_BLOCK c + q) div PAGES_PER_BLOCK c"
    "(b * PAGES_PER_BLOCK c + p) mod PAGES_PER_BLOCK c = (d * PAGES_PER_BLOCK c + q) mod PAGES_PER_BLOCK c" by simp_all
  then show ?thesis using assms(2,3) by simp
qed

text \<open>A virtual page moves to a page that was not in use.\<close>

lemma map_remap:
  assumes "sizes_ok c" "map_ok c m u" "p < PAGES_PER_BLOCK c" "\<not> u b p" "page_paddr c b p < TOTAL_SIZE c"
  shows "map_ok c (um_put v (page_paddr c b p) m) (set_flag b p True u)"
proof -
  have old: "a < TOTAL_SIZE c \<and> (\<exists>d q. a = page_paddr c d q \<and> q < PAGES_PER_BLOCK c \<and> set_flag b p True u d q)" if "um_get m w = Some a" for w a
  proof -
    obtain d q where "a < TOTAL_SIZE c" "a = page_paddr c d q" "q < PAGES_PER_BLOCK c" "u d q" using assms(2) \<open>um_get m w = Some a\<close> unfolding map_ok_def by blast
    moreover then have "set_flag b p True u d q" by (auto simp: set_flag_def)
    ultimately show ?thesis by blast
  qed
  have new: "um_get m w \<noteq> Some (page_paddr c b p)" for w
  proof
    assume "um_get m w = Some (page_paddr c b p)"
    then obtain d q where "page_paddr c b p = page_paddr c d q" "q < PAGES_PER_BLOCK c" "u d q" using assms(2) unfolding map_ok_def by blast
    then show False using page_paddr_inj [OF assms(1,3)] assms(4) by blast
  qed
  have "set_flag b p True u b p" by (simp add: set_flag_def)
  then have "a < TOTAL_SIZE c \<and> (\<exists>d q. a = page_paddr c d q \<and> q < PAGES_PER_BLOCK c \<and> set_flag b p True u d q)"
    if "um_get (um_put v (page_paddr c b p) m) w = Some a" for w a
    using that old [of w a] assms(3,5) by (auto simp: um_get_put split: if_splits)
  moreover have "w = x" if "um_get (um_put v (page_paddr c b p) m) w = Some a" "um_get (um_put v (page_paddr c b p) m) x = Some a" for w x a
    using that new assms(2) unfolding map_ok_def by (auto simp: um_get_put split: if_splits)
  ultimately show ?thesis unfolding map_ok_def by blast
qed

section \<open>Packets handed to the controller\<close>

lemma push_packet_flow:
  assumes "nv_packet_ok c p"
  shows "nv_queue_reads c (push_packet p ct) = nv_queue_reads c ct + reads_p [p]"
proof -
  have "nv_queue_reads c (push_packet p ct) + reads_p (ct_readQueues ct (pk_package p) (pk_die p)) =
      nv_queue_reads c ct + reads_p (ct_readQueues ct (pk_package p) (pk_die p) @ [p])"
    using assms sum_fun_upd2 [of "pk_package p" "NUM_PACKAGES c" "pk_die p" "DIES_PER_PACKAGE c" reads_p "ct_readQueues ct"
      "ct_readQueues ct (pk_package p) (pk_die p) @ [p]"]
    by (simp add: nv_queue_reads_def push_packet_def nv_packet_ok_def del: reads_p_simps)
  then show ?thesis by (simp add: union_ac)
qed

lemma push_packet_other [simp]:
  "ct_outgoingPackets (push_packet p ct) = ct_outgoingPackets ct" "ct_die_pointers (push_packet p ct) = ct_die_pointers ct"
  "ct_returnTransaction (push_packet p ct) = ct_returnTransaction ct" "ct_channelBeatsLeft (push_packet p ct) = ct_channelBeatsLeft ct"
  by (simp_all add: push_packet_def)

lemma push_packet_inv: "nv_packet_ok c p \<Longrightarrow> ctrl_inv c ct \<Longrightarrow> ctrl_inv c (push_packet p ct)"
  unfolding ctrl_inv_def push_packet_other by (auto simp: push_packet_def)

lemma addPacket_flow:
  assumes "addPacket c p s = (ok, s')" "nv_packet_ok c p"
  shows "beyond c s' = beyond c s + (if ok then reads_p [p] else {#})" "nv_ftl s' = nv_ftl s"
    "rest_inv c s \<Longrightarrow> rest_inv c s'"
proof -
  from assms(1) have s': "s' = (if ok then s\<lparr>nv_ctrl := push_packet p (nv_ctrl s)\<rparr> else s)"
    by (auto simp: addPacket_def split: if_splits)
  show "beyond c s' = beyond c s + (if ok then reads_p [p] else {#})"
    by (simp add: s' beyond_def push_packet_flow [OF assms(2)] out_reads_def return_reads_def union_ac)
  show "nv_ftl s' = nv_ftl s" by (simp add: s')
  show "rest_inv c s \<Longrightarrow> rest_inv c s'" by (simp add: s' rest_inv_def push_packet_inv [OF assms(2)])
qed

section \<open>Fast writes\<close>

lemma put_die_flow:
  assumes "k < NUM_PACKAGES c" "j < DIES_PER_PACKAGE c"
  shows "dies_reads c (nv_dies (put_die k j d s)) + die_reads c (nv_dies s k j) = dies_reads c (nv_dies s) + die_reads c d"
  using sum_fun_upd2 [OF assms, of "die_reads c" "nv_dies s" d] by (simp add: dies_reads_def put_die_def)

lemma put_die_simps [simp]:
  "nv_ftl (put_die k j d s) = nv_ftl s" "nv_ctrl (put_die k j d s) = nv_ctrl s" "nv_front (put_die k j d s) = nv_front s"
  "nv_calls (put_die k j d s) = nv_calls s" "nv_channels (put_die k j d s) = nv_channels s"
  by (simp_all add: put_die_def)

lemma put_die_same:
  assumes "die_reads c d = die_reads c (nv_dies s k j)"
  shows "dies_reads c (nv_dies (put_die k j d s)) = dies_reads c (nv_dies s)"
  unfolding dies_reads_def put_die_def using assms by (auto intro!: sum.cong)

lemma put_die_inv: "rest_inv c s \<Longrightarrow> die_inv d \<Longrightarrow> rest_inv c (put_die k j d s)"
  by (auto simp: rest_inv_def put_die_def)

lemma rest_die: "rest_inv c s \<Longrightarrow> die_inv (nv_dies s k j)"
  by (simp add: rest_inv_def)

lemma fast_write_regs:
  "pk_type p = P_FAST_WRITE \<Longrightarrow> plane_write c p pl = Inr pl' \<Longrightarrow> dataReg pl' = dataReg pl \<and> cacheReg pl' = cacheReg pl"
  by (auto simp: plane_write_def bindR_eq_Inr)

lemma die_reads_planes [simp]: "die_reads c (put_plane i pl d) = die_reads c d"
  by (simp add: die_reads_def nv_cmd_reads_def put_plane_def)

lemma writeToPackage_flow:
  assumes "pk_type p = P_FAST_WRITE" "writeToPackage c p s = Inr s'"
  shows "beyond c s' = beyond c s" "nv_ftl s' = nv_ftl s" "rest_inv c s \<Longrightarrow> rest_inv c s'"
proof -
  let ?d = "nv_dies s (pk_package p) (pk_die p)"
  from assms(2) obtain pl where pl: "plane_write c p (di_planes ?d (pk_plane p)) = Inr pl"
    and s': "s' = put_die (pk_package p) (pk_die p) (put_plane (pk_plane p) pl ?d) s"
    by (auto simp: writeToPackage_def writeToPlane_def Let_def bindR_eq_Inr)
  show "beyond c s' = beyond c s" by (simp add: s' beyond_def put_die_same)
  show "nv_ftl s' = nv_ftl s" by (simp add: s')
  assume r: "rest_inv c s"
  have "die_inv (put_plane (pk_plane p) pl ?d)"
    using rest_die [OF r, of "pk_package p" "pk_die p"] fast_write_regs [OF assms(1) pl] by (auto simp: die_inv_def put_plane_def)
  then show "rest_inv c s'" unfolding s' by (rule put_die_inv [OF r])
qed

section \<open>Leaving the queue\<close>

lemma ftl_inv_idle:
  assumes "ftl_inv c f" "\<not> ft_busy f'" "set (ft_readQueue f') \<subseteq> set (ft_readQueue f)" "set (ft_writeQueue f') \<subseteq> set (ft_writeQueue f)"
    "set (ft_gcQueue f') \<subseteq> set (ft_gcQueue f)" "ft_gc_status f' \<Longrightarrow> gc_active c \<or> ft_gc_status f" "map_inv c f \<Longrightarrow> map_inv c f'"
  shows "ftl_inv c f'"
  using assms by (auto simp: ftl_inv_def current_ok_def)

lemma set_cut: "set (take n xs @ drop (Suc n) xs) \<subseteq> set xs"
  by (auto dest: in_set_takeD in_set_dropD)

lemma mset_cut: "n < length xs \<Longrightarrow> addrs_of ty xs = addrs_of ty (take n xs @ drop (Suc n) xs) + addrs_of ty [xs ! n]"
  by (subst id_take_nth_drop [of n xs]) (auto simp: union_ac)

lemma cut_subset: "n < length xs \<Longrightarrow> addrs_of ty (take n xs @ drop (Suc n) xs) \<subseteq># addrs_of ty xs"
  unfolding mset_cut [of n xs ty] by simp

lemma pop_cases:
  assumes "popFront c ty f = Inr f'"
  shows "pop_read_at f = Inr f' \<or> pop_read f = Inr f' \<or> pop_write f = Inr f' \<or> pop_gc f = Inr f' \<or> f = f'"
proof -
  have "popFront c ty f \<in> {pop_read_at f, pop_read f, pop_write f, pop_gc f, Inr f}"
    by (simp add: popFront_def gc_popFront_def ftl_popFront_def)
  then show ?thesis using assms by (elim insertE emptyE) simp_all
qed

lemma pop_shape:
  assumes "popFront c ty f = Inr f'"
  shows "set (ft_readQueue f') \<subseteq> set (ft_readQueue f) \<and> set (ft_writeQueue f') \<subseteq> set (ft_writeQueue f) \<and>
    set (ft_gcQueue f') \<subseteq> set (ft_gcQueue f) \<and> ft_gc_status f' = ft_gc_status f \<and> ft_addressMap f' = ft_addressMap f \<and>
    ft_used f' = ft_used f \<and> ftl_reads f' \<subseteq># ftl_reads f"
  using pop_cases [OF assms]
proof (elim disjE)
  assume "pop_read_at f = Inr f'"
  then show ?thesis
    using set_cut [of "ft_read_pointer f" "ft_readQueue f"] cut_subset [of "ft_read_pointer f" "ft_readQueue f" F_DATA_READ]
    by (auto simp: pop_read_at_def ftl_reads_def split: if_splits)
qed (auto simp: pop_read_def pop_write_def pop_gc_def ftl_reads_def split: list.splits)

lemma pop_current_read:
  assumes "ftl_inv c f" "ft_busy f" "fl_type (ft_currentTransaction f) = F_DATA_READ" "popFront c P_READ f = Inr f'"
  shows "ftl_reads f = ftl_reads f' + {#fl_addr (ft_currentTransaction f)#}"
proof (cases "scheduled c")
  case True
  then have *: "ft_read_pointer f < length (ft_readQueue f)" "ft_readQueue f ! ft_read_pointer f = ft_currentTransaction f"
    using assms(1-3) by (auto simp: ftl_inv_def current_ok_def)
  have "ft_readQueue f' = take (ft_read_pointer f) (ft_readQueue f) @ drop (Suc (ft_read_pointer f)) (ft_readQueue f)"
    using assms(4) True * by (auto simp: popFront_def gc_popFront_def ftl_popFront_def pop_read_at_def scheduled_def split: if_splits)
  then show ?thesis unfolding ftl_reads_def mset_cut [OF *(1), of F_DATA_READ] using * assms(3) by simp
next
  case False
  then obtain q where "ft_readQueue f = ft_currentTransaction f # q"
    using assms(1-3) by (auto simp: ftl_inv_def current_ok_def host_def)
  then show ?thesis using assms(3,4) False
    by (auto simp: popFront_def gc_popFront_def ftl_popFront_def pop_read_def scheduled_def ftl_reads_def
        split: if_splits)
qed

lemma pop_current_write:
  assumes "ftl_inv c f" "ft_busy f" "fl_type (ft_currentTransaction f) = F_DATA_WRITE" "popFront c P_WRITE f = Inr f'"
  shows "ftl_reads f' = ftl_reads f"
proof (cases "scheduled c")
  case True
  then show ?thesis using assms(4)
    by (auto simp: popFront_def gc_popFront_def ftl_popFront_def pop_write_def scheduled_def ftl_reads_def
        split: if_splits list.splits)
next
  case False
  then obtain q where "ft_readQueue f = ft_currentTransaction f # q"
    using assms(1-3) by (auto simp: ftl_inv_def current_ok_def host_def)
  then show ?thesis using assms(3,4) False
    by (auto simp: popFront_def gc_popFront_def ftl_popFront_def pop_read_def scheduled_def ftl_reads_def
        split: if_splits)
qed

lemma finish_read_flow:
  assumes "ftl_inv c f" "ft_busy f" "fl_type (ft_currentTransaction f) = F_DATA_READ" "finish_read c P_READ f = Inr f'"
  shows "ftl_inv c f' \<and> ftl_reads f = ftl_reads f' + {#fl_addr (ft_currentTransaction f)#}"
proof -
  from assms(4) obtain f1 where f1: "popFront c P_READ f = Inr f1"
    and f': "f' = f1\<lparr>ft_read_iterator_counter := 0, ft_busy := False\<rparr>"
    by (auto simp: finish_read_def bindR_eq_Inr)
  from pop_shape [OF f1] have "ftl_inv c f'" by (intro ftl_inv_idle [OF assms(1)]) (auto simp: f' map_inv_def)
  moreover have "ftl_reads f' = ftl_reads f1" by (simp add: f' ftl_reads_def)
  ultimately show ?thesis using pop_current_read [OF assms(1-3) f1] by simp
qed

lemma ftl_inv_weak:
  assumes "ft_busy f' = ft_busy f" "ft_currentTransaction f' = ft_currentTransaction f" "ft_readQueue f' = ft_readQueue f"
    "ft_writeQueue f' = ft_writeQueue f" "ft_read_pointer f' = ft_read_pointer f" "ft_gc_status f' = ft_gc_status f"
    "ft_gcQueue f' = ft_gcQueue f" "map_inv c f \<Longrightarrow> map_inv c f'"
  shows "(ftl_inv c f \<longrightarrow> ftl_inv c f') \<and> ftl_reads f' = ftl_reads f"
  using assms(8) unfolding ftl_inv_def current_ok_def ftl_reads_def assms(1-7) by simp

lemma ftl_inv_cong:
  assumes "ft_busy f' = ft_busy f" "ft_currentTransaction f' = ft_currentTransaction f" "ft_readQueue f' = ft_readQueue f"
    "ft_writeQueue f' = ft_writeQueue f" "ft_read_pointer f' = ft_read_pointer f" "ft_gc_status f' = ft_gc_status f"
    "ft_gcQueue f' = ft_gcQueue f" "ft_addressMap f' = ft_addressMap f" "ft_used f' = ft_used f"
  shows "ftl_inv c f' = ftl_inv c f \<and> ftl_reads f' = ftl_reads f"
  unfolding ftl_inv_def current_ok_def ftl_reads_def map_inv_def assms by simp

lemma read_blocked_flow:
  assumes "ftl_inv c f" "read_blocked c f = Inr f'"
  shows "ftl_inv c f' \<and> ftl_reads f' = ftl_reads f"
proof (cases "SCHEDULE c")
  case True
  then have "\<not> ft_busy f' \<and> ft_readQueue f' = ft_readQueue f \<and> ft_writeQueue f' = ft_writeQueue f \<and>
      ft_gcQueue f' = ft_gcQueue f \<and> ft_gc_status f' = ft_gc_status f \<and> ft_addressMap f' = ft_addressMap f \<and> ft_used f' = ft_used f"
    using assms(2) by (auto simp: read_blocked_def Let_def split: if_splits)
  then show ?thesis using ftl_inv_idle [OF assms(1), of f'] by (simp add: ftl_reads_def map_inv_def)
next
  case False
  then have "f' = f\<lparr>ft_write_queues_full := True\<rparr>" using assms(2) by (simp add: read_blocked_def)
  then show ?thesis using ftl_inv_cong [of f' f c] assms(1) by simp
qed

section \<open>Reads\<close>

lemma advance_same [simp]:
  "ft_busy (advance_pointer c f) = ft_busy f" "ft_currentTransaction (advance_pointer c f) = ft_currentTransaction f"
  "ft_readQueue (advance_pointer c f) = ft_readQueue f" "ft_writeQueue (advance_pointer c f) = ft_writeQueue f"
  "ft_read_pointer (advance_pointer c f) = ft_read_pointer f" "ft_gc_status (advance_pointer c f) = ft_gc_status f"
  "ft_gcQueue (advance_pointer c f) = ft_gcQueue f" "ft_addressMap (advance_pointer c f) = ft_addressMap f"
  "ft_used (advance_pointer c f) = ft_used f"
  by (simp_all add: advance_pointer_def Let_def)

text \<open>The common end of the reads: the packet is in the controller's queue, or the read waits.\<close>

lemma issue_read_flow:
  assumes "rest_inv c s" "ftl_inv c f" "ft_busy f" "fl_type (ft_currentTransaction f) = F_DATA_READ"
    and "nv_keeps c T (beyond c s + ftl_reads f)"
    and "nv_packet_ok c r" "pk_type r = P_READ" "pk_vaddr r = fl_addr (ft_currentTransaction f)"
  shows "partR (case addPacket c r s of
                 (True, s') \<Rightarrow> bindR (finish_read c P_READ f) (\<lambda>f'. Inr (put_ftl f' s'))
               | (False, s') \<Rightarrow> bindR (read_blocked c f) (\<lambda>f'. Inr (put_ftl f' s'))) (nv_good c T)"
proof -
  obtain ok s' where a: "addPacket c r s = (ok, s')" by force
  note flow = addPacket_flow [OF a assms(6)]
  show ?thesis
  proof (cases ok)
    case True
    show ?thesis
    proof (cases "finish_read c P_READ f")
      case (Inr f')
      have "ftl_inv c f'" and "ftl_reads f = ftl_reads f' + {#fl_addr (ft_currentTransaction f)#}"
        using finish_read_flow [OF assms(2-4) Inr] by simp_all
      then have "nv_good c T (put_ftl f' s')" using flow assms(1,5,7,8) True by (intro put_ftl_good) (auto simp: union_ac)
      then show ?thesis using a True Inr by simp
    qed (use a True in simp)
  next
    case False
    show ?thesis
    proof (cases "read_blocked c f")
      case (Inr f')
      have "nv_good c T (put_ftl f' s')"
        using read_blocked_flow [OF assms(2) Inr] flow assms(1,5) False by (intro put_ftl_good) auto
      then show ?thesis using a False Inr by simp
    qed (use a False in simp)
  qed
qed

lemma handle_disk_read_flow:
  assumes "sizes_ok c" "nv_good c T s" "ft_busy (nv_ftl s)" "fl_type (ft_currentTransaction (nv_ftl s)) = F_DATA_READ"
  shows "partR (handle_disk_read c s) (nv_good c T)"
proof (cases "search_free c (nv_ftl s)")
  case None
  let ?f = "nv_ftl s"
  have "nv_good c T (put_ftl (?f\<lparr>ft_deadlock_counter := n\<rparr>) s)" for n
    using assms(2) ftl_inv_cong [of "?f\<lparr>ft_deadlock_counter := n\<rparr>" ?f c] by (simp add: nv_good_iff)
  then show ?thesis by (simp add: handle_disk_read_def Let_def None)
next
  case (Some x)
  obtain block page where x: "x = (block, page)" by force
  let ?f = "nv_ftl s" and ?v = "fl_addr (ft_currentTransaction (nv_ftl s))" and ?p = "page_paddr c block page"
  let ?f1 = "advance_pointer c (?f\<lparr>ft_deadlock_counter := 0, ft_used := set_flag block page True (ft_used ?f),
               ft_used_page_count := ft_used_page_count ?f + 1, ft_addressMap := um_put ?v ?p (ft_addressMap ?f)\<rparr>)"
  have fr: "page < PAGES_PER_BLOCK c" "\<not> ft_used ?f block page" using search_fresh Some x by (auto simp: page_fresh_def)
  have "(ftl_inv c ?f \<longrightarrow> ftl_inv c ?f1) \<and> ftl_reads ?f1 = ftl_reads ?f" if "?p < TOTAL_SIZE c"
    by (rule ftl_inv_weak) (use map_remap [of c "ft_addressMap ?f" "ft_used ?f" page block ?v] assms(1) fr that in \<open>auto simp: map_inv_def\<close>)
  then have f1: "?p < TOTAL_SIZE c \<Longrightarrow> ftl_inv c ?f1" "?p < TOTAL_SIZE c \<Longrightarrow> ftl_reads ?f1 = ftl_reads ?f" "ft_busy ?f1"
    "ft_currentTransaction ?f1 = ft_currentTransaction ?f"
    using assms(2,3) by (simp_all add: nv_good_iff)
  show ?thesis unfolding handle_disk_read_def Let_def Some x option.case prod.case
  proof (rule partR_bind [where Q = "\<lambda>w. pk_type w = P_FAST_WRITE"])
    show "partR (translate c P_FAST_WRITE ?v ?p) (\<lambda>w. pk_type w = P_FAST_WRITE)"
      by (cases "translate c P_FAST_WRITE ?v ?p") (auto dest: translate_packet [OF assms(1)])
    fix w :: ChannelPacket assume w: "pk_type w = P_FAST_WRITE"
    show "partR (bindR (writeToPackage c w s) (\<lambda>s1. bindR (translate c P_READ ?v ?p) (\<lambda>r. case addPacket c r s1 of
          (True, s2) \<Rightarrow> bindR (finish_read c P_READ ?f1) (\<lambda>f2. Inr (put_ftl f2 s2))
        | (False, s2) \<Rightarrow> bindR (read_blocked c ?f1) (\<lambda>f2. Inr (put_ftl f2 s2))))) (nv_good c T)"
    proof (cases "writeToPackage c w s")
      case (Inr s1)
      note w1 = writeToPackage_flow [OF w Inr]
      show ?thesis
      proof (cases "translate c P_READ ?v ?p")
        case (Inr r)
        have "partR (case addPacket c r s1 of
            (True, s') \<Rightarrow> bindR (finish_read c P_READ ?f1) (\<lambda>f'. Inr (put_ftl f' s'))
          | (False, s') \<Rightarrow> bindR (read_blocked c ?f1) (\<lambda>f'. Inr (put_ftl f' s'))) (nv_good c T)"
          by (rule issue_read_flow)
            (use assms f1 w1 translate_packet [OF assms(1) Inr] translate_range [OF assms(1) Inr] in \<open>auto simp: nv_good_iff\<close>)
        then show ?thesis using Inr \<open>writeToPackage c w s = Inr s1\<close> by simp
      qed (simp add: Inr)
    qed simp
  qed
qed

lemma read_mapped_page_flow:
  assumes "sizes_ok c" "nv_good c T s" "ft_busy (nv_ftl s)" "fl_type (ft_currentTransaction (nv_ftl s)) = F_DATA_READ"
  shows "partR (read_mapped_page c False s) (nv_good c T)"
proof (cases "um_get (ft_addressMap (nv_ftl s)) (fl_addr (ft_currentTransaction (nv_ftl s)))")
  case None
  show ?thesis
  proof (cases "finish_read c P_READ (nv_ftl s)")
    case (Inl e)
    then show ?thesis using None handle_disk_read_flow [OF assms] by (simp add: read_mapped_page_def Let_def)
  next
    case (Inr f')
    from assms(2-4) finish_read_flow [OF _ assms(3,4) Inr]
    have "nv_good c T (put_ftl f' (returnUnmappedData (mkFlash F_RETURN_DATA (fl_addr (ft_currentTransaction (nv_ftl s))) 3735928559) s))"
      by (intro put_ftl_good) (auto simp: nv_good_iff returnUnmappedData_def mkFlash_def union_ac)
    then show ?thesis using None Inr handle_disk_read_flow [OF assms] by (simp add: read_mapped_page_def Let_def)
  qed
next
  case (Some pa)
  let ?v = "fl_addr (ft_currentTransaction (nv_ftl s))"
  show ?thesis
  proof (cases "translate c P_READ ?v pa")
    case (Inr r)
    have "partR (case addPacket c r s of
        (True, s') \<Rightarrow> bindR (finish_read c P_READ (nv_ftl s)) (\<lambda>f'. Inr (put_ftl f' s'))
      | (False, s') \<Rightarrow> bindR (read_blocked c (nv_ftl s)) (\<lambda>f'. Inr (put_ftl f' s'))) (nv_good c T)"
      by (rule issue_read_flow) (use assms translate_packet [OF assms(1) Inr] in \<open>auto simp: nv_good_iff\<close>)
    then show ?thesis using Some Inr by (simp add: read_mapped_page_def Let_def)
  qed (simp add: read_mapped_page_def Let_def Some)
qed

lemma handle_read_flow:
  assumes "sizes_ok c" "nv_good c T s" "ft_busy (nv_ftl s)" "fl_type (ft_currentTransaction (nv_ftl s)) = F_DATA_READ"
  shows "partR (handle_read c False s) (nv_good c T)"
proof -
  have "nv_good c T (put_ftl (nv_ftl s\<lparr>ft_queue_access_counter := n\<rparr>) s)" for n
    using assms(2) ftl_inv_cong [of "nv_ftl s\<lparr>ft_queue_access_counter := n\<rparr>" "nv_ftl s" c] by (simp add: nv_good_iff)
  then show ?thesis using read_mapped_page_flow [OF assms] by (simp add: handle_read_def Let_def)
qed

text \<open>Reads of the garbage collector take their packet from its own queue.\<close>

lemma gc_finish_flow:
  assumes "GARBAGE_COLLECT c" "ftl_inv c f" "finish_read c P_GC_READ f = Inr f'"
  shows "ftl_inv c f' \<and> ftl_reads f' = ftl_reads f"
proof -
  from assms(1,3) have f': "\<not> ft_busy f'" "ft_readQueue f' = ft_readQueue f" "ft_writeQueue f' = ft_writeQueue f" "ft_gc_status f' = ft_gc_status f"
    "set (ft_gcQueue f') \<subseteq> set (ft_gcQueue f)" "ft_addressMap f' = ft_addressMap f" "ft_used f' = ft_used f"
    by (auto simp: finish_read_def popFront_def gc_popFront_def pop_gc_def bindR_eq_Inr split: list.splits)
  then show ?thesis using ftl_inv_idle [OF assms(2), of f'] by (simp add: ftl_reads_def map_inv_def)
qed

lemma gc_read_flow:
  assumes "sizes_ok c" "GARBAGE_COLLECT c" "nv_good c T s"
  shows "partR (handle_read c True s) (nv_good c T)"
proof (cases "um_get (ft_addressMap (nv_ftl s)) (fl_addr (ft_currentTransaction (nv_ftl s)))")
  case None
  then show ?thesis by (simp add: handle_read_def read_mapped_page_def Let_def)
next
  case (Some pa)
  let ?f = "nv_ftl s"
  have inv: "rest_inv c s" "ftl_inv c ?f" "nv_keeps c T (beyond c s + ftl_reads ?f)" using assms(3) by (simp_all add: nv_good_iff)
  show ?thesis
  proof (cases "translate c P_GC_READ (fl_addr (ft_currentTransaction ?f)) pa")
    case (Inr r)
    note r = translate_packet [OF assms(1) Inr]
    obtain ok s' where a: "addPacket c r s = (ok, s')" by force
    note flow = addPacket_flow [OF a r(1)]
    have "nv_good c T (put_ftl f' s')" if "finish_read c P_GC_READ ?f = Inr f' \<or> read_blocked c ?f = Inr f'" for f'
    proof -
      from that gc_finish_flow [OF assms(2) inv(2)] read_blocked_flow [OF inv(2)]
      have "ftl_inv c f' \<and> ftl_reads f' = ftl_reads ?f" by blast
      then show ?thesis using inv flow r(2) by (intro put_ftl_good) auto
    qed
    then show ?thesis using Some Inr a
      by (cases "finish_read c P_GC_READ ?f"; cases "read_blocked c ?f")
        (auto simp: handle_read_def read_mapped_page_def Let_def split: bool.splits)
  qed (simp add: handle_read_def read_mapped_page_def Let_def Some)
qed

section \<open>Writes\<close>

lemma write_success_flow:
  assumes "sizes_ok c" "page_fresh c f block page" "page_paddr c block page < TOTAL_SIZE c" "ftl_inv c f"
    and "write_success c block page v (page_paddr c block page) f = Inr f'"
    and "ft_busy f \<and> fl_type (ft_currentTransaction f) = F_DATA_WRITE \<or> gc_active c"
  shows "ftl_inv c f' \<and> nv_keeps c (ftl_reads f) (ftl_reads f')"
proof -
  let ?f0 = "f\<lparr>ft_used := set_flag block page True (ft_used f), ft_used_page_count := ft_used_page_count f + 1\<rparr>"
  let ?pa = "page_paddr c block page"
  from assms(5) obtain f1 where f1: "popFront c P_WRITE ?f0 = Inr f1"
    and f': "f' = f1\<lparr>ft_busy := False, ft_write_counter := ft_write_counter f1 + 1, ft_addressMap := um_put v ?pa (ft_addressMap f1)\<rparr>"
    by (auto simp: write_success_def bindR_eq_Inr)
  have u: "map_ok c m u \<Longrightarrow> map_ok c m (set_flag block page True u)" for m u
    unfolding map_ok_def set_flag_def by (metis fun_upd_apply)
  have "(ftl_inv c f \<longrightarrow> ftl_inv c ?f0) \<and> ftl_reads ?f0 = ftl_reads f" by (rule ftl_inv_weak) (auto simp: map_inv_def u)
  then have f0: "ftl_inv c ?f0" "ftl_reads ?f0 = ftl_reads f" using assms(4) by simp_all
  have "map_inv c f \<Longrightarrow> map_inv c f'"
    using pop_shape [OF f1] assms(1-3) by (auto simp: f' map_inv_def page_fresh_def intro: map_remap)
  then have "ftl_inv c f'" using pop_shape [OF f1] by (intro ftl_inv_idle [OF assms(4)]) (auto simp: f')
  moreover have "ftl_reads f' = ftl_reads f1" by (simp add: f' ftl_reads_def)
  moreover have "nv_keeps c (ftl_reads f) (ftl_reads f1)"
    using assms(6)
  proof
    assume "ft_busy f \<and> fl_type (ft_currentTransaction f) = F_DATA_WRITE"
    then show ?thesis using pop_current_write [OF _ _ _ f1] f0 by simp
  next
    assume "gc_active c"
    then show ?thesis using pop_shape [OF f1] f0 by (simp add: nv_keeps_def)
  qed
  ultimately show ?thesis by simp
qed

lemma advance_inv [simp]: "ftl_inv c (advance_pointer c f) = ftl_inv c f" "ftl_reads (advance_pointer c f) = ftl_reads f"
  using ftl_inv_cong [of "advance_pointer c f" f c] by simp_all

lemma write_packets_flow:
  assumes "sizes_ok c" "translate c ty v pa = Inr p" "ty \<noteq> P_READ" "rest_inv c s"
  shows "rest_inv c (snd (addPacket c p s)) \<and> beyond c (snd (addPacket c p s)) = beyond c s"
proof -
  obtain ok s' where a: "addPacket c p s = (ok, s')" by force
  from translate_packet [OF assms(1,2)] addPacket_flow [OF a] assms(3,4) a show ?thesis by auto
qed

lemma write_done_flow:
  assumes "sizes_ok c" "page_fresh c f block page" "page_paddr c block page < TOTAL_SIZE c"
    and "rest_inv c s" "ftl_inv c f" "nv_keeps c T (beyond c s + ftl_reads f)"
    and "ft_busy f \<and> fl_type (ft_currentTransaction f) = F_DATA_WRITE \<or> gc_active c"
  shows "partR (bindR (write_success c block page v (page_paddr c block page) f) (\<lambda>f'. Inr (put_ftl (if b then advance_pointer c f' else f') s))) (nv_good c T)"
proof (cases "write_success c block page v (page_paddr c block page) f")
  case (Inr f')
  note w = write_success_flow [OF assms(1-3,5) Inr assms(7)]
  have "nv_keeps c (beyond c s + ftl_reads f) (beyond c s + ftl_reads f')"
    using nv_keeps_add [of c "ftl_reads f" "ftl_reads f'" "beyond c s"] w by (simp add: union_ac)
  then have "nv_good c T (put_ftl (if b then advance_pointer c f' else f') s)"
    using w assms(4,6) by (intro put_ftl_good) (auto intro: nv_keeps_trans)
  then show ?thesis by (simp add: Inr)
qed simp

lemma write_full_flow:
  assumes "nv_good c T s"
  shows "nv_good c T (put_ftl (nv_ftl s\<lparr>ft_write_queues_full := True\<rparr>) s)"
    "nv_good c T (put_ftl (nv_ftl s\<lparr>ft_write_queues_full := True, ft_busy := False\<rparr>) s)"
  using assms ftl_inv_cong [of "nv_ftl s\<lparr>ft_write_queues_full := True\<rparr>" "nv_ftl s" c]
    ftl_inv_idle [of c "nv_ftl s" "nv_ftl s\<lparr>ft_write_queues_full := True, ft_busy := False\<rparr>"]
  by (simp_all add: nv_good_iff ftl_reads_def map_inv_def)

lemma place_write_flow:
  assumes "sizes_ok c" "nv_good c T s"
    and "ft_busy (nv_ftl s) \<and> fl_type (ft_currentTransaction (nv_ftl s)) = F_DATA_WRITE \<or> gc_active c"
    and "page_fresh c (nv_ftl s) block page"
  shows "partR (place_write c gc block page itr s) (nv_good c T)"
  using assms
proof (induction c gc block page itr s rule: place_write.induct)
  case (1 c gc block page itr s)
  let ?f = "nv_ftl s" and ?v = "fl_addr (ft_currentTransaction (nv_ftl s))" and ?p = "page_paddr c block page"
  let ?ty = "if gc then P_GC_WRITE else P_WRITE"
  have inv: "rest_inv c s" "ftl_inv c ?f" "nv_keeps c T (beyond c s + ftl_reads ?f)" using "1.prems"(2) by (simp_all add: nv_good_iff)
  show ?case
  proof (cases "translate c P_DATA ?v ?p"; cases "translate c ?ty ?v ?p")
    fix dat cmd assume tr: "translate c P_DATA ?v ?p = Inr dat" "translate c ?ty ?v ?p = Inr cmd"
    have range: "?p < TOTAL_SIZE c" by (rule translate_range [OF "1.prems"(1) tr(1)])
    let ?s1 = "snd (addPacket c dat s)" and ?s2 = "snd (addPacket c cmd (snd (addPacket c dat s)))"
    have s1: "rest_inv c ?s1 \<and> beyond c ?s1 = beyond c s" by (rule write_packets_flow [OF "1.prems"(1) tr(1) _ inv(1)]) simp
    then have s2: "rest_inv c ?s2 \<and> beyond c ?s2 = beyond c s" using write_packets_flow [OF "1.prems"(1) tr(2), of ?s1] by simp
    have s3: "rest_inv c (nv_call (WriteDataDone ?v) s)" "beyond c (nv_call (WriteDataDone ?v) s) = beyond c s" using inv(1) by simp_all
    have eq: "nv_call (WriteDataDone ?v) (put_ftl f' s) = put_ftl f' (nv_call (WriteDataDone ?v) s)" for f'
      by (simp add: nv_call_def put_ftl_def)
    have "partR (bindR (write_success c block page ?v ?p (advance_pointer c ?f)) (\<lambda>f'. Inr (put_ftl f' (nv_call (WriteDataDone ?v) s)))) (nv_good c T)"
      using write_done_flow [OF "1.prems"(1) _ range s3(1), of "advance_pointer c ?f" T ?v False] inv "1.prems"(3,4) s3 by (simp add: page_fresh_def)
    moreover have "partR (bindR (write_success c block page ?v ?p ?f) (\<lambda>f'. Inr (put_ftl (if itr = 0 then advance_pointer c f' else f') ?s2))) (nv_good c T)"
      using write_done_flow [OF "1.prems"(1,4) range, of ?s2 T ?v "itr = 0"] inv "1.prems"(3) s2 by simp
    ultimately show ?case using tr write_full_flow [OF "1.prems"(2)] "1.IH" [OF refl refl refl, of dat] "1.prems"
      by (subst place_write.simps) (simp add: Let_def eq)
  qed (subst place_write.simps, simp add: Let_def)+
qed

lemma used_handler_same [simp]:
  "ft_busy (write_used_handler c v f) = ft_busy f" "ft_currentTransaction (write_used_handler c v f) = ft_currentTransaction f"
  "ft_readQueue (write_used_handler c v f) = ft_readQueue f" "ft_writeQueue (write_used_handler c v f) = ft_writeQueue f"
  "ft_read_pointer (write_used_handler c v f) = ft_read_pointer f" "ft_gc_status (write_used_handler c v f) = ft_gc_status f"
  "ft_gcQueue (write_used_handler c v f) = ft_gcQueue f" "ft_addressMap (write_used_handler c v f) = ft_addressMap f"
  "GARBAGE_COLLECT c \<Longrightarrow> ft_used (write_used_handler c v f) = ft_used f"
  by (auto simp: write_used_handler_def split: prod.splits)

lemma handle_write_flow:
  assumes "sizes_ok c" "nv_good c T s"
    and "ft_busy (nv_ftl s) \<and> fl_type (ft_currentTransaction (nv_ftl s)) = F_DATA_WRITE \<or> gc_active c"
  shows "partR (handle_write c gc s) (nv_good c T)"
proof -
  let ?f1 = "if um_has (ft_addressMap (nv_ftl s)) (fl_addr (ft_currentTransaction (nv_ftl s)))
             then write_used_handler c (fl_addr (ft_currentTransaction (nv_ftl s))) (nv_ftl s) else nv_ftl s"
  let ?f2 = "?f1\<lparr>ft_deadlock_counter := 0\<rparr>"
  have same: "ft_busy ?f2 = ft_busy (nv_ftl s)" "ft_currentTransaction ?f2 = ft_currentTransaction (nv_ftl s)" by simp_all
  have "(ftl_inv c (nv_ftl s) \<longrightarrow> ftl_inv c ?f2) \<and> ftl_reads ?f2 = ftl_reads (nv_ftl s)" by (rule ftl_inv_weak) (auto simp: map_inv_def)
  then have "nv_good c T (put_ftl ?f2 s)" using assms(2) by (simp only: nv_good_iff put_ftl_simps)
  note place = place_write_flow [OF assms(1) this, unfolded put_ftl_simps same, OF assms(3)]
  have "page_fresh c ?f2 block page" if "search_free c ?f1 = Some (block, page)" for block page
    using search_fresh [OF that] by (simp add: page_fresh_def)
  then show ?thesis using place by (auto simp: handle_write_def Let_def split: option.splits)
qed

section \<open>Garbage collection\<close>

text \<open>What every step of the layer keeps of its own state.\<close>

definition ftl_keeps :: "nv_cfg \<Rightarrow> nvftl \<Rightarrow> nvftl \<Rightarrow> bool" where
  "ftl_keeps c f f' \<longleftrightarrow> ftl_inv c f' \<and> ftl_reads f' = ftl_reads f"

lemma ftl_keeps_refl: "ftl_inv c f \<Longrightarrow> ftl_keeps c f f"
  by (simp add: ftl_keeps_def)

lemma ftl_keeps_trans: "ftl_keeps c f g \<Longrightarrow> ftl_keeps c g h \<Longrightarrow> ftl_keeps c f h"
  by (simp add: ftl_keeps_def)

lemma ftl_keeps_idle:
  assumes "ftl_inv c f" "\<not> ft_busy f'" "ft_readQueue f' = ft_readQueue f" "ft_writeQueue f' = ft_writeQueue f"
    "ft_gcQueue f' = ft_gcQueue f" "ft_gc_status f' \<Longrightarrow> gc_active c \<or> ft_gc_status f"
    "ft_addressMap f' = ft_addressMap f" "ft_used f' = ft_used f"
  shows "ftl_keeps c f f'"
  unfolding ftl_keeps_def using ftl_inv_idle [OF assms(1,2)] assms by (simp add: ftl_reads_def map_inv_def)

lemma gc_add_inv: "\<not> host t \<Longrightarrow> ftl_inv c f \<Longrightarrow> ftl_keeps c f (addGcTransaction t f)"
  by (auto simp: addGcTransaction_def ftl_keeps_def ftl_inv_def current_ok_def ftl_reads_def map_inv_def)

lemma gc_types [simp]: "\<not> host (mkFlash F_GC_DATA_READ a d)" "\<not> host (mkFlash F_GC_DATA_WRITE a d)" "\<not> host (mkFlash F_BLOCK_ERASE a d)"
  by (auto simp: host_def mkFlash_def)

lemma gc_pending_inv [simp]:
  "ftl_inv c (f\<lparr>ft_gc_pending_erase := e\<rparr>) = ftl_inv c f" "ftl_reads (f\<lparr>ft_gc_pending_erase := e\<rparr>) = ftl_reads f"
  using ftl_inv_cong [of "f\<lparr>ft_gc_pending_erase := e\<rparr>" f c] by simp_all

lemma addGC_flow:
  assumes "ftl_inv c f"
  shows "partR (addGC c b f) (ftl_keeps c f)"
proof -
  let ?P = "\<lambda>x. ftl_keeps c f (snd x)"
  have step: "ftl_keeps c f (addGcTransaction t g)" if "ftl_keeps c f g" "\<not> host t" for t g
    using that gc_add_inv [of t c g] by (simp add: ftl_keeps_def)
  have "partR (gc_page c b pg x) ?P" if "?P x" for pg x
    using that step by (cases x) (auto simp: gc_page_def split: option.splits)
  moreover have "?P ([], f)" using assms by (simp add: ftl_keeps_refl)
  ultimately have "partR (foldR (gc_page c b) [0..<PAGES_PER_BLOCK c] ([], f)) ?P" by (rule partR_fold)
  moreover have "ftl_keeps c f (g\<lparr>ft_gc_pending_erase := e\<rparr>)" if "ftl_keeps c f g" for g e
    using that by (simp add: ftl_keeps_def)
  ultimately show ?thesis unfolding addGC_def by (intro partR_bind [where Q = ?P]) (auto simp: step)
qed

lemma GCReadDone_flow:
  assumes "ftl_inv c (nv_ftl s)"
  shows "\<exists>f. GCReadDone c v s = put_ftl f s \<and> ftl_keeps c (nv_ftl s) f"
proof -
  let ?f = "nv_ftl s"
  obtain es b where p: "pending_done v (ft_gc_pending_erase ?f) = (es, b)" by force
  let ?f1 = "?f\<lparr>ft_gc_pending_erase := es\<rparr>"
  let ?f2 = "case b of None \<Rightarrow> ?f1 | Some k \<Rightarrow> addGcTransaction (mkFlash F_BLOCK_ERASE (k * BLOCK_SIZE c) 0) ?f1"
  have "ftl_keeps c ?f ?f1" using assms by (simp add: ftl_keeps_def)
  then have "ftl_keeps c ?f ?f2"
    using gc_add_inv [of _ c ?f1] by (auto split: option.splits simp: ftl_keeps_def)
  then have "ftl_keeps c ?f (addGcTransaction (mkFlash F_GC_DATA_WRITE v 0) ?f2)"
    using gc_add_inv [of "mkFlash F_GC_DATA_WRITE v 0" c ?f2] by (simp add: ftl_keeps_def)
  moreover have "s = put_ftl ?f s" by (simp add: put_ftl_def)
  ultimately show ?thesis using ftl_keeps_refl [OF assms]
    by (cases "GARBAGE_COLLECT c") (auto simp: GCReadDone_def Let_def p simp del: put_ftl_simps)
qed

lemma pop_erased_flow:
  assumes "ftl_inv c f" "gc_active c" "pop_erased f = Inr f'"
  shows "ftl_inv c (f'\<lparr>ft_busy := False\<rparr>) \<and> ftl_reads f' \<subseteq># ftl_reads f"
proof -
  have "set (ft_readQueue f') \<subseteq> set (ft_readQueue f)" "set (ft_writeQueue f') \<subseteq> set (ft_writeQueue f)"
    "set (ft_gcQueue f') \<subseteq> set (ft_gcQueue f)"
    using assms(3) set_cut [of "ft_read_pointer f" "ft_readQueue f"]
    by (auto simp: pop_erased_def pop_gc_def split: if_splits list.splits)
  then have "ftl_inv c (f'\<lparr>ft_busy := False\<rparr>)" using assms(2) by (intro ftl_inv_idle [OF assms(1)]) (auto simp: map_inv_def)
  moreover have "ftl_reads f' \<subseteq># ftl_reads f"
    using assms(3) cut_subset [of "ft_read_pointer f" "ft_readQueue f" F_DATA_READ]
    by (auto simp: pop_erased_def pop_gc_def ftl_reads_def split: if_splits list.splits)
  ultimately show ?thesis by simp
qed

lemma clear_same [simp]:
  "ft_busy (clear_page b i f) = ft_busy f" "ft_currentTransaction (clear_page b i f) = ft_currentTransaction f"
  "ft_readQueue (clear_page b i f) = ft_readQueue f" "ft_writeQueue (clear_page b i f) = ft_writeQueue f"
  "ft_read_pointer (clear_page b i f) = ft_read_pointer f" "ft_gc_status (clear_page b i f) = ft_gc_status f"
  "ft_gcQueue (clear_page b i f) = ft_gcQueue f"
  by (simp_all add: clear_page_def Let_def)

lemma clear_pages_inv:
  assumes "gc_active c"
  shows "(ftl_inv c f \<longrightarrow> ftl_inv c (fold (clear_page b) is f)) \<and> ftl_reads (fold (clear_page b) is f) = ftl_reads f"
proof (induction "is" arbitrary: f)
  case (Cons i "is")
  have "(ftl_inv c f \<longrightarrow> ftl_inv c (clear_page b i f)) \<and> ftl_reads (clear_page b i f) = ftl_reads f"
    by (rule ftl_inv_weak) (simp_all add: map_inv_def assms)
  then show ?case using Cons.IH [of "clear_page b i f"] by simp
qed simp

lemma handle_erase_flow:
  assumes "sizes_ok c" "nv_good c T s" "gc_active c"
  shows "partR (handle_erase c s) (nv_good c T)"
proof -
  let ?f = "nv_ftl s" and ?v = "fl_addr (ft_currentTransaction (nv_ftl s))"
  let ?f1 = "fold (clear_page (?v div BLOCK_SIZE c)) [0..<PAGES_PER_BLOCK c] ?f"
  have inv: "rest_inv c s" "ftl_inv c ?f" "beyond c s + ftl_reads ?f \<subseteq># T" using assms(2,3) by (simp_all add: nv_good_iff nv_keeps_def)
  show ?thesis
  proof (cases "translate c P_ERASE ?v ?v")
    case (Inr p)
    note tp = translate_packet [OF assms(1) Inr]
    obtain ok s' where a: "addPacket c p s = (ok, s')" by force
    note flow = addPacket_flow [OF a tp(1)]
    have s': "rest_inv c s'" "beyond c s' = beyond c s" using flow inv(1) tp(2) by auto
    have "nv_good c T (put_ftl (?f\<lparr>ft_write_queues_full := True\<rparr>) s')"
      using ftl_inv_cong [of "?f\<lparr>ft_write_queues_full := True\<rparr>" ?f c] s' inv assms(3) by (intro put_ftl_good) (simp_all add: nv_keeps_def)
    moreover have "nv_good c T (put_ftl (f'\<lparr>ft_busy := False\<rparr>) s')" if "pop_erased ?f1 = Inr f'" for f'
    proof -
      have "ftl_inv c (f'\<lparr>ft_busy := False\<rparr>) \<and> ftl_reads f' \<subseteq># ftl_reads ?f1"
        using pop_erased_flow [OF _ assms(3) that] clear_pages_inv [OF assms(3)] inv(2) by blast
      then have "beyond c s + ftl_reads f' \<subseteq># T"
        using clear_pages_inv [OF assms(3)] inv(3) by (metis (no_types, lifting) subset_mset.add_left_mono subset_mset.trans)
      then show ?thesis using \<open>_ \<and> _\<close> s' assms(3) by (intro put_ftl_good) (auto simp: nv_keeps_def ftl_reads_def)
    qed
    ultimately show ?thesis using Inr a by (cases "pop_erased ?f1") (auto simp: handle_erase_def Let_def split: bool.splits)
  qed (simp add: handle_erase_def Let_def)
qed

section \<open>Choosing the next transaction\<close>

lemma ftl_start_inv:
  assumes "ftl_inv c f"
    and "if scheduled c then fl_type t = F_DATA_READ \<longrightarrow> ft_read_pointer f < length (ft_readQueue f) \<and> ft_readQueue f ! ft_read_pointer f = t
         else host t \<longrightarrow> (\<exists>q. ft_readQueue f = t # q)"
    and "gc_active c \<or> host t"
  shows "ftl_inv c (begin_transaction c t f) \<and> ftl_reads (begin_transaction c t f) = ftl_reads f"
  using assms by (auto simp: ftl_inv_def current_ok_def begin_transaction_def ftl_reads_def map_inv_def)

lemma schedule_flow:
  assumes "ftl_inv c f" "scheduled c" "\<not> ft_busy f"
  shows "partR (scheduleCurrentTransaction c f) (ftl_keeps c f)"
proof -
  have w: "ftl_keeps c f (begin_transaction c t f)" if "t \<in> set (ft_writeQueue f)" for t
    unfolding ftl_keeps_def by (rule ftl_start_inv [OF assms(1)]) (use that assms(1,2) in \<open>auto simp: ftl_inv_def host_def\<close>)
  have w2: "ftl_keeps c f (begin_transaction c t f\<lparr>ft_write_wait_count := n\<rparr>)" if "t \<in> set (ft_writeQueue f)" for t n
    using w [OF that] ftl_inv_cong [of "begin_transaction c t f\<lparr>ft_write_wait_count := n\<rparr>" "begin_transaction c t f" c]
    by (simp add: ftl_keeps_def)
  have r: "ftl_keeps c f (begin_transaction c (ft_readQueue f ! ft_read_pointer f) f)" if "ft_read_pointer f < length (ft_readQueue f)"
    unfolding ftl_keeps_def by (rule ftl_start_inv [OF assms(1)]) (use that assms(1,2) in \<open>auto simp: ftl_inv_def\<close>)
  have n: "ftl_keeps c f (f\<lparr>ft_write_wait_count := n\<rparr>)" "ftl_keeps c f (f\<lparr>ft_busy := False\<rparr>)" for n
    by (auto intro: ftl_keeps_idle [OF assms(1)] simp: assms(3))
  show ?thesis unfolding scheduleCurrentTransaction_def using w w2 r n
    by (auto split: list.splits)
qed

lemma next_flow:
  assumes "ftl_inv c f" "\<not> ft_busy f"
  shows "partR (next_transaction c f) (ftl_keeps c f)"
proof (cases "scheduled c")
  case True
  then show ?thesis using schedule_flow [OF assms(1) True assms(2)] by (simp add: next_transaction_def scheduled_def)
next
  case False
  have "ftl_keeps c f (begin_transaction c t f)" if "ft_readQueue f = t # q" for t q
    unfolding ftl_keeps_def by (rule ftl_start_inv [OF assms(1)]) (use that assms(1) False in \<open>auto simp: ftl_inv_def\<close>)
  then show ?thesis using False ftl_keeps_refl [OF assms(1)]
    by (auto simp: next_transaction_def next_unscheduled_def scheduled_def split: list.splits)
qed

lemma gc_finished_flow: "ftl_inv c f \<Longrightarrow> ftl_keeps c f (gc_finished c n f)"
  by (auto simp: gc_finished_def Let_def ftl_keeps_def ftl_inv_def current_ok_def ftl_reads_def map_inv_def)

lemma gc_forced_flow:
  assumes "GARBAGE_COLLECT c" "ftl_inv c f"
  shows "partR (gc_forced c n f) (ftl_keeps c f)"
proof -
  let ?f = "f\<lparr>ft_start_erase := n, ft_gc_status := True, ft_panic_mode := True, ft_busy := False\<rparr>"
  have "partR (runGC_plane c k g) (ftl_keeps c f)" if "ftl_keeps c f g" for k g
    unfolding runGC_plane_def by (rule partR_mono [OF addGC_flow]) (use that in \<open>auto simp: ftl_keeps_def\<close>)
  moreover have "ftl_keeps c f ?f" if "force_gc c (ft_used_page_count f)"
    by (rule ftl_keeps_idle [OF assms(2)]) (use that assms(1) in \<open>auto simp: gc_active_def\<close>)
  ultimately have "partR (foldR (runGC_plane c) ks ?f) (ftl_keeps c f)" if "force_gc c (ft_used_page_count f)" for ks
    using that by (intro partR_fold) auto
  then show ?thesis using ftl_keeps_refl [OF assms(2)] by (simp add: gc_forced_def)
qed

lemma gc_next_flow:
  assumes "ftl_inv c f" "\<not> ft_busy f"
  shows "partR (gc_next c f) (ftl_keeps c f)"
proof (cases "ft_gc_status f")
  case True
  then have "gc_active c" using assms(1) by (auto simp: ftl_inv_def)
  then have "ftl_keeps c f (begin_transaction c t f)" if "ft_gcQueue f = t # q" for t q
    unfolding ftl_keeps_def by (intro ftl_start_inv [OF assms(1)]) (use that assms(1) in \<open>auto simp: ftl_inv_def host_def\<close>)
  moreover have "ftl_keeps c f (f\<lparr>ft_busy := False\<rparr>)" by (rule ftl_keeps_idle [OF assms(1)]) auto
  ultimately show ?thesis by (auto simp: gc_next_def True split: list.splits)
next
  case False
  then show ?thesis using next_flow [OF assms(1,2)] by (simp add: gc_next_def)
qed

lemma gc_idle_flow:
  assumes "GARBAGE_COLLECT c" "ftl_inv c f"
  shows "partR (gc_idle c n f) (ftl_keeps c f)"
proof (cases "checkGC c (ft_used_page_count f)")
  case True
  then have "gc_active c" using assms(1) by (auto simp: gc_active_def)
  let ?f = "\<lambda>e. f\<lparr>ft_start_erase := n, ft_gc_status := True, ft_erase_pointer := e\<rparr>"
  have f: "ftl_keeps c f (?f e)" for e
    using assms(2) \<open>gc_active c\<close> by (auto simp: ftl_keeps_def ftl_inv_def current_ok_def ftl_reads_def map_inv_def)
  have "partR (addGC c b (?f e)) (ftl_keeps c f)" for b e
    by (rule partR_mono [OF addGC_flow]) (use f in \<open>auto simp: ftl_keeps_def\<close>)
  then show ?thesis using ftl_keeps_refl [OF assms(2)] by (simp add: gc_idle_def runGC_def Let_def)
qed (simp add: gc_idle_def ftl_keeps_refl [OF assms(2)])

section \<open>One cycle and new transactions\<close>

lemma put_keeps: "nv_good c T s \<Longrightarrow> ftl_keeps c (nv_ftl s) f \<Longrightarrow> nv_good c T (put_ftl f s)"
  by (simp add: nv_good_iff ftl_keeps_def)

lemma wait_flow: "ftl_inv c f \<Longrightarrow> ftl_keeps c f (wait_cycle f)"
  using ftl_inv_cong [of "wait_cycle f" f c] by (simp add: ftl_keeps_def wait_cycle_def)

lemma ftl_update_flow:
  assumes "sizes_ok c" "nv_good c T s"
  shows "partR (ftl_update c s) (nv_good c T)"
proof -
  have inv: "ftl_inv c (nv_ftl s)" using assms(2) by (simp add: nv_good_iff)
  have "partR (bindR (next_transaction c (nv_ftl s)) (\<lambda>f'. Inr (put_ftl f' s))) (nv_good c T)" if "\<not> ft_busy (nv_ftl s)"
    by (rule partR_bind [OF next_flow [OF inv that]]) (simp add: put_keeps [OF assms(2)])
  then show ?thesis
    using handle_read_flow [OF assms] handle_write_flow [OF assms] put_keeps [OF assms(2) wait_flow [OF inv]] assms(2)
    by (auto simp: ftl_update_def Let_def split: nvType.splits)
qed

lemma gc_busy_flow:
  assumes "sizes_ok c" "GARBAGE_COLLECT c" "nv_good c T s" "ft_busy (nv_ftl s)"
  shows "partR (gc_dispatch c s) (nv_good c T)"
proof -
  have "gc_active c" if "\<not> host (ft_currentTransaction (nv_ftl s))" using assms(3,4) that by (auto simp: nv_good_iff ftl_inv_def)
  then have "gc_active c" if "fl_type (ft_currentTransaction (nv_ftl s)) = F_GC_DATA_WRITE \<or> fl_type (ft_currentTransaction (nv_ftl s)) = F_BLOCK_ERASE"
    using that by (auto simp: host_def)
  then show ?thesis
    using handle_read_flow [OF assms(1,3,4)] gc_read_flow [OF assms(1-3)] handle_write_flow [OF assms(1,3)] handle_erase_flow [OF assms(1,3)] assms(3,4)
    by (auto simp: gc_dispatch_def split: nvType.splits)
qed

lemma gc_update_flow:
  assumes "sizes_ok c" "GARBAGE_COLLECT c" "nv_good c T s"
  shows "partR (gc_update c s) (nv_good c T)"
  unfolding gc_update_def Let_def
proof (rule partR_bind [where Q = "ftl_keeps c (nv_ftl s)"])
  let ?n = "nv_numErases s"
  have "ftl_keeps c (nv_ftl s) (gc_finished c ?n (nv_ftl s))" using assms(3) by (intro gc_finished_flow) (simp add: nv_good_iff)
  then show "partR (gc_forced c ?n (gc_finished c ?n (nv_ftl s))) (ftl_keeps c (nv_ftl s))"
    by (intro partR_mono [OF gc_forced_flow [OF assms(2)]]) (auto simp: ftl_keeps_def)
  fix f assume f: "ftl_keeps c (nv_ftl s) f"
  then have inv: "ftl_inv c f" and s1: "nv_good c T (put_ftl f s)" by (simp_all add: ftl_keeps_def put_keeps [OF assms(3)])
  have "partR (bindR (gc_next c f) (\<lambda>f1. bindR (gc_idle c ?n f1) (\<lambda>f2. Inr (put_ftl f2 (put_ftl f s))))) (nv_good c T)" if "\<not> ft_busy f"
  proof (rule partR_bind [OF gc_next_flow [OF inv that]])
    fix f1 assume f1: "ftl_keeps c f f1"
    then have "ftl_inv c f1" by (simp add: ftl_keeps_def)
    from gc_idle_flow [OF assms(2) this] show "partR (bindR (gc_idle c ?n f1) (\<lambda>f2. Inr (put_ftl f2 (put_ftl f s)))) (nv_good c T)"
      by (rule partR_bind) (use f1 in \<open>auto intro!: put_keeps [OF s1] elim: ftl_keeps_trans\<close>)
  qed
  moreover have "nv_good c T (put_ftl (wait_cycle f) (put_ftl f s))" using put_keeps [OF s1] wait_flow [OF inv] by simp
  ultimately show "partR (if ft_busy f then if ft_lookupCounter f = 0 \<and> \<not> ft_write_queues_full f then gc_dispatch c (put_ftl f s)
      else Inr (put_ftl (wait_cycle f) (put_ftl f s))
    else bindR (gc_next c f) (\<lambda>f1. bindR (gc_idle c ?n f1) (\<lambda>f2. Inr (put_ftl f2 (put_ftl f s))))) (nv_good c T)"
    using gc_busy_flow [OF assms(1,2) s1] by simp
qed

lemma update_ftl_flow: "sizes_ok c \<Longrightarrow> nv_good c T s \<Longrightarrow> partR (update_ftl c s) (nv_good c T)"
  by (simp add: update_ftl_def ftl_update_flow gc_update_flow)

end
