(* ===== verification/Nv_Flow_Front.thy ===== *)
theory Nv_Flow_Front
  imports Nv_Flow_Ftl
begin

text \<open>
  Reads in the front buffer. With a command channel the two copies of a request meet by address; shown
  is that they meet in the order in which they came, so a copy never meets one of another type.
\<close>

section \<open>Two channels that meet\<close>

lemma at_addr_simps [simp]:
  "at_addr a [] = []" "at_addr a (t # ts) = (if fl_addr t = a then t # at_addr a ts else at_addr a ts)"
  "at_addr a (ts @ us) = at_addr a ts @ at_addr a us"
  by (simp_all add: at_addr_def)

lemma at_addr_Nil: "at_addr a ts = [] \<longleftrightarrow> (\<forall>t\<in>set ts. fl_addr t \<noteq> a)"
  by (auto simp: at_addr_def filter_empty_conv)

lemma paired_sym: "paired D C req cmd \<longleftrightarrow> paired C D cmd req"
  by (auto simp: paired_def)

lemma drop_first_split:
  assumes "\<exists>p\<in>set ts. fl_addr p = a"
  obtains us p vs where "ts = us @ p # vs" "fl_addr p = a" "\<forall>u\<in>set us. fl_addr u \<noteq> a" "drop_first a ts = us @ vs"
proof -
  from assms obtain us p vs where *: "ts = us @ p # vs" "fl_addr p = a" "\<forall>u\<in>set us. fl_addr u \<noteq> a"
    using split_list_first_prop [of ts "\<lambda>p. fl_addr p = a"] by auto
  then have "drop_first a ts = us @ vs" by (simp add: drop_first_def takeWhile_tail dropWhile_append2)
  with * that show thesis by blast
qed

lemma at_addr_none: "\<forall>u\<in>set us. fl_addr u \<noteq> a \<Longrightarrow> at_addr a us = []"
  by (simp add: at_addr_Nil)

text \<open>The next copy on one channel, when the other channel has delivered one of its address: the same one.\<close>

lemma paired_found:
  assumes "paired D C (t # req) cmd" "\<exists>p\<in>set D. fl_addr p = fl_addr t"
  shows "paired (drop_first (fl_addr t) D) C req cmd" "addrs_of ty D = addrs_of ty (drop_first (fl_addr t) D) + addrs_of ty [t]"
proof -
  from assms(2) obtain us p vs where D: "D = us @ p # vs" "fl_addr p = fl_addr t" "\<forall>u\<in>set us. fl_addr u \<noteq> fl_addr t"
    "drop_first (fl_addr t) D = us @ vs" by (rule drop_first_split)
  have us: "at_addr (fl_addr t) us = []" using D(3) by (rule at_addr_none)
  have C: "at_addr (fl_addr t) C = []" and t: "t # at_addr (fl_addr t) req = p # at_addr (fl_addr t) vs @ at_addr (fl_addr t) cmd"
    using assms(1) [unfolded paired_def, rule_format, of "fl_addr t"] D(1,2) us by auto
  have "at_addr a (us @ vs) = [] \<and> at_addr a cmd = at_addr a C @ at_addr a req \<or>
      at_addr a C = [] \<and> at_addr a req = at_addr a (us @ vs) @ at_addr a cmd" for a
  proof (cases "a = fl_addr t")
    case True
    then show ?thesis using C t us by auto
  next
    case False
    then show ?thesis using assms(1) [unfolded paired_def, rule_format, of a] D(1,2) by auto
  qed
  then show "paired (drop_first (fl_addr t) D) C req cmd" unfolding paired_def D(4) by blast
  show "addrs_of ty D = addrs_of ty (drop_first (fl_addr t) D) + addrs_of ty [t]" using D(1,4) t by (simp add: union_ac)
qed

lemma paired_waits:
  assumes "paired D C (t # req) cmd" "\<not> (\<exists>p\<in>set D. fl_addr p = fl_addr t)"
  shows "paired D (C @ [t]) req cmd"
  unfolding paired_def
proof
  fix a
  have "at_addr (fl_addr t) D = []" using assms(2) by (simp add: at_addr_Nil)
  then show "at_addr a D = [] \<and> at_addr a cmd = at_addr a (C @ [t]) @ at_addr a req \<or>
      at_addr a (C @ [t]) = [] \<and> at_addr a req = at_addr a D @ at_addr a cmd"
    using assms(1) [unfolded paired_def, rule_format, of a] by (cases "fl_addr t = a") auto
qed

lemma paired_push: "paired D C req cmd \<Longrightarrow> paired D C (req @ [t]) (cmd @ [t])"
  unfolding paired_def by (metis append_assoc at_addr_simps(3))

lemma paired_Nil: "paired [] [] [] []"
  by (simp add: paired_def)

lemma drop_first_set: "set (drop_first a ts) \<subseteq> set ts"
proof -
  have "set (tl (dropWhile P ts)) \<subseteq> set ts" for P
    by (metis list.set_sel(2) set_dropWhileD subsetI tl_Nil)
  then show ?thesis by (auto simp: drop_first_def dest: set_takeWhileD)
qed

section \<open>Into the translation layer\<close>

lemma attemptAdd_reads:
  "attemptAdd t q n = (ok, q') \<Longrightarrow> q' = (if ok then q @ [t] else q)"
  by (auto simp: attemptAdd_def split: if_splits)

lemma add_read_inv:
  assumes "ftl_inv c f" "host t" "add_read c t f = (ok, f')"
  shows "ftl_inv c f' \<and> ftl_reads f' = ftl_reads f + (if ok then addrs_of F_DATA_READ [t] else {#})"
proof -
  obtain q where q: "attemptAdd t (ft_readQueue f) (FTL_READ_QUEUE_LENGTH c) = (ok, q)"
    and f': "f' = f\<lparr>ft_readQueue := q, ft_read_pointer := (if ok \<and> length q = 1 then 0 else ft_read_pointer f)\<rparr>"
    using assms(3) by (auto simp: add_read_def split: prod.splits)
  have q': "q = (if ok then ft_readQueue f @ [t] else ft_readQueue f)" using q by (rule attemptAdd_reads)
  have "current_ok c f'" using assms(1) unfolding f' q' by (auto simp: ftl_inv_def current_ok_def nth_append)
  then show ?thesis using assms(1,2) unfolding f' q' by (auto simp: ftl_inv_def ftl_reads_def map_inv_def)
qed

lemma add_write_inv:
  assumes "ftl_inv c f" "fl_type t = F_DATA_WRITE" "set q \<subseteq> set (ft_writeQueue f) \<union> {t}"
  shows "ftl_inv c (f\<lparr>ft_writeQueue := q\<rparr>) \<and> ftl_reads (f\<lparr>ft_writeQueue := q\<rparr>) = ftl_reads f"
  using assms by (auto simp: ftl_inv_def current_ok_def ftl_reads_def map_inv_def)

lemma add_plain_inv:
  assumes "ftl_inv c f" "host t" "\<not> scheduled c"
  shows "ftl_inv c (f\<lparr>ft_readQueue := ft_readQueue f @ [t]\<rparr>)"
  using assms by (auto simp: ftl_inv_def current_ok_def map_inv_def)

abbreviation same_calls :: "nvdimm \<Rightarrow> nvdimm \<Rightarrow> bool" where
  "same_calls s s' \<equiv> answered (nv_calls s') = answered (nv_calls s) \<and> crit_calls (nv_calls s') = crit_calls (nv_calls s)"

text \<open>The device without its translation layer does not notice a transaction that enters it.\<close>

definition same_but_ftl :: "nvdimm \<Rightarrow> nvdimm \<Rightarrow> bool" where
  "same_but_ftl s s' \<longleftrightarrow> nv_front s' = nv_front s \<and> nv_ctrl s' = nv_ctrl s \<and> nv_dies s' = nv_dies s \<and>
     same_calls s s'"

lemma same_put [simp]: "same_but_ftl s (put_ftl f s)" "same_but_ftl s (put_ftl f (nv_call (WriteDataDone a) s))" "same_but_ftl s s"
  by (auto simp: same_but_ftl_def put_ftl_def nv_call_def)

lemma add_write_shape:
  assumes "fl_type t = F_DATA_WRITE" "addScheduledTransaction c t s = (ok, s') \<or> addPerfectTransaction c t s = (ok, s')"
  shows "\<exists>q s1. s' = put_ftl (nv_ftl s\<lparr>ft_writeQueue := q\<rparr>) s1 \<and> set q \<subseteq> set (ft_writeQueue (nv_ftl s)) \<union> {t} \<and>
    (s1 = s \<or> (\<exists>a. s1 = nv_call (WriteDataDone a) s))"
proof -
  have add: "\<exists>ok q'. attemptAdd t q n = (ok, q') \<and> set q' \<subseteq> set q \<union> {t}" for q n
    by (auto simp: attemptAdd_def)
  have "set (remove1 w (ft_writeQueue (nv_ftl s))) \<subseteq> set (ft_writeQueue (nv_ftl s))" for w by (rule set_remove1_subset)
  with assms add [of "ft_writeQueue (nv_ftl s)" "FTL_WRITE_QUEUE_LENGTH c"]
    add [of "remove1 (the (replaced_write t (nv_ftl s))) (ft_writeQueue (nv_ftl s))" "FTL_WRITE_QUEUE_LENGTH c"]
  show ?thesis
    by (cases "replaced_write t (nv_ftl s)") (fastforce simp: addScheduledTransaction_def addPerfectTransaction_def Let_def)+
qed

lemma add_schedule_flow:
  assumes "ftl_inv c (nv_ftl s)" "host t" "add_by_schedule c t s = (ok, s')"
  shows "same_but_ftl s s' \<and> ftl_inv c (nv_ftl s') \<and>
    ftl_reads (nv_ftl s') = ftl_reads (nv_ftl s) + (if ok then addrs_of F_DATA_READ [t] else {#})"
proof -
  consider "scheduled c" "fl_type t = F_DATA_READ" | "scheduled c" "fl_type t = F_DATA_WRITE" | "\<not> scheduled c"
    using assms(2) by (auto simp: host_def)
  then show ?thesis
  proof cases
    case 1
    then obtain f' where "add_read c t (nv_ftl s) = (ok, f')" "s' = put_ftl f' s" using assms(3)
      by (auto simp: add_by_schedule_def addScheduledTransaction_def addPerfectTransaction_def scheduled_def Let_def
          split: if_splits prod.splits)
    then show ?thesis using add_read_inv [OF assms(1,2)] by simp
  next
    case 2
    then have "addScheduledTransaction c t s = (ok, s') \<or> addPerfectTransaction c t s = (ok, s')"
      using assms(3) by (auto simp: add_by_schedule_def scheduled_def split: if_splits)
    from add_write_shape [OF 2(2) this] obtain q s1 where "s' = put_ftl (nv_ftl s\<lparr>ft_writeQueue := q\<rparr>) s1"
      "set q \<subseteq> set (ft_writeQueue (nv_ftl s)) \<union> {t}" "s1 = s \<or> (\<exists>a. s1 = nv_call (WriteDataDone a) s)" by blast
    then show ?thesis using add_write_inv [OF assms(1) 2(2)] 2(2) by auto
  next
    case 3
    then have "s' = put_ftl (nv_ftl s\<lparr>ft_readQueue := if ok then ft_readQueue (nv_ftl s) @ [t] else ft_readQueue (nv_ftl s)\<rparr>) s"
      using assms(3) by (auto simp: add_by_schedule_def scheduled_def attemptAdd_def split: if_splits)
    then show ?thesis using add_plain_inv [OF assms(1,2) 3] assms(1) by (auto simp: ftl_reads_def)
  qed
qed

lemma addTransactionF_flow:
  assumes "ftl_inv c (nv_ftl s)" "host t" "addTransactionF c t s = Inr (ok, s')"
  shows "same_but_ftl s s' \<and> ftl_inv c (nv_ftl s') \<and>
    ftl_reads (nv_ftl s') = ftl_reads (nv_ftl s) + (if ok then addrs_of F_DATA_READ [t] else {#})"
proof -
  have "add_by_schedule c t s = (ok, s')" using assms(3)
    by (auto simp: addTransactionF_def gc_addTransaction_def ftl_addTransaction_def split: if_splits)
  from add_schedule_flow [OF assms(1,2) this] show ?thesis .
qed

section \<open>Moves of the front buffer\<close>

definition front_total :: "nv_cfg \<Rightarrow> nvdimm \<Rightarrow> nat multiset" where
  "front_total c s = answered (nv_calls s) + front_reads c (nv_front s) + front_returns (nv_front s) + ftl_reads (nv_ftl s)"

text \<open>A step that touches front buffer, translation layer and callbacks only, and keeps their reads.\<close>

definition front_step :: "nv_cfg \<Rightarrow> nvdimm \<Rightarrow> nvdimm \<Rightarrow> bool" where
  "front_step c s s' \<longleftrightarrow> front_inv c (nv_front s') \<and> ftl_inv c (nv_ftl s') \<and> nv_ctrl s' = nv_ctrl s \<and> nv_dies s' = nv_dies s \<and>
     front_total c s' = front_total c s \<and> crit_calls (nv_calls s') = crit_calls (nv_calls s)"

lemma front_step_good:
  assumes "nv_good c T s" "front_step c s s'"
  shows "nv_good c T s'"
proof -
  have "beyond c s' + ftl_reads (nv_ftl s') = beyond c s + ftl_reads (nv_ftl s)"
    using assms(2) by (simp add: front_step_def front_total_def beyond_def union_ac)
  then show ?thesis using assms by (simp add: nv_good_iff front_step_def rest_inv_def)
qed

lemma empty_flash [simp]: "fl_type emptyFlash = F_EMPTY" "\<not> host emptyFlash"
  by (simp_all add: emptyFlash_def mkFlash_def host_def)

lemma put_front_simps [simp]:
  "nv_front (put_front b s) = b" "nv_ftl (put_front b s) = nv_ftl s" "nv_ctrl (put_front b s) = nv_ctrl s"
  "nv_dies (put_front b s) = nv_dies s" "nv_calls (put_front b s) = nv_calls s" "put_front b (put_front b' s) = put_front b s"
  by (simp_all add: put_front_def)

text \<open>The channel on which requests travel.\<close>

definition set_chan :: "nv_cfg \<Rightarrow> FlashTransaction \<Rightarrow> nvfront \<Rightarrow> nvfront" where
  "set_chan c t b = (if ENABLE_REQUEST_CHANNEL c then b\<lparr>fb_requestTrans := t\<rparr> else b\<lparr>fb_responseTrans := t\<rparr>)"

definition get_chan :: "nv_cfg \<Rightarrow> nvfront \<Rightarrow> FlashTransaction" where
  "get_chan c b = (if ENABLE_REQUEST_CHANNEL c then fb_requestTrans b else fb_responseTrans b)"

lemma chan_simps [simp]:
  "chan_req c (set_chan c t b) = filter host [t]" "fb_requests (set_chan c t b) = fb_requests b" "fb_commands (set_chan c t b) = fb_commands b"
  "fb_pendingData (set_chan c t b) = fb_pendingData b" "fb_pendingCommand (set_chan c t b) = fb_pendingCommand b"
  "fb_responses (set_chan c t b) = fb_responses b" "fb_commandTrans (set_chan c t b) = fb_commandTrans b"
  by (simp_all add: chan_req_def set_chan_def)

lemma chan_req_get: "chan_req c b = filter host [get_chan c b]"
  by (simp add: chan_req_def get_chan_def)

text \<open>What becomes of the buffer when the request on the data channel stays or leaves.\<close>

definition chan_done :: "nv_cfg \<Rightarrow> FlashTransaction \<Rightarrow> FlashTransaction list \<Rightarrow> FlashTransaction list \<Rightarrow> nvfront \<Rightarrow> nvfront" where
  "chan_done c r D C b = set_chan c r (b\<lparr>fb_pendingData := D, fb_pendingCommand := C\<rparr>)"

lemma chan_done_inv:
  assumes "front_inv c b" "get_chan c b = t" "host t" "r = t \<or> r = emptyFlash" "\<forall>t\<in>set D \<union> set C. host t"
    and "if ENABLE_COMMAND_CHANNEL c then paired D C (filter host [r] @ fb_requests b) (chan_cmd b @ fb_commands b) else D = [] \<and> C = []"
  shows "front_inv c (chan_done c r D C b)" "front_returns (chan_done c r D C b) = front_returns b"
    "front_reads c (chan_done c r D C b) = addrs_of F_DATA_READ (filter host [r]) + addrs_of F_DATA_READ (fb_requests b) + addrs_of F_DATA_READ C"
proof -
  have cmd: "chan_cmd (chan_done c r D C b) = chan_cmd b" by (simp add: chan_cmd_def chan_done_def set_chan_def)
  have req: "chan_req c (chan_done c r D C b) = filter host [r]" by (simp add: chan_done_def)
  show "front_inv c (chan_done c r D C b)" unfolding front_inv_def cmd req
    using assms by (auto simp: front_inv_def chan_done_def set_chan_def get_chan_def)
  show "front_returns (chan_done c r D C b) = front_returns b"
    using assms(2-4) by (auto simp: front_returns_def chan_done_def set_chan_def get_chan_def host_def)
  show "front_reads c (chan_done c r D C b) = addrs_of F_DATA_READ (filter host [r]) + addrs_of F_DATA_READ (fb_requests b) + addrs_of F_DATA_READ C"
    unfolding front_reads_def req by (simp add: chan_done_def)
qed

lemma front_hosts: "front_inv c b \<Longrightarrow> \<forall>t\<in>set (fb_pendingData b) \<union> set (fb_pendingCommand b). host t"
  by (simp add: front_inv_def)

lemma front_paired:
  "front_inv c b \<Longrightarrow> ENABLE_COMMAND_CHANNEL c \<Longrightarrow>
    paired (fb_pendingData b) (fb_pendingCommand b) (chan_req c b @ fb_requests b) (chan_cmd b @ fb_commands b)"
  by (simp add: front_inv_def)

text \<open>A request at the end of its data channel.\<close>

lemma data_across_shape:
  assumes "ftl_inv c (nv_ftl s)" "host t" "data_across c t s = Inr (r, s')"
  shows "\<exists>D C sent. nv_front s' = nv_front s\<lparr>fb_pendingData := D, fb_pendingCommand := C\<rparr> \<and> nv_ctrl s' = nv_ctrl s \<and> nv_dies s' = nv_dies s \<and>
    same_calls s s' \<and> ftl_inv c (nv_ftl s') \<and>
    ftl_reads (nv_ftl s') = ftl_reads (nv_ftl s) + (if sent then addrs_of F_DATA_READ [t] else {#}) \<and>
    (D, C, r, sent) \<in> {(fb_pendingData (nv_front s), fb_pendingCommand (nv_front s), t, False)} \<union>
      (if ENABLE_COMMAND_CHANNEL c then
         (if \<exists>p\<in>set (fb_pendingData (nv_front s)). fl_addr p = fl_addr t
          then {(drop_first (fl_addr t) (fb_pendingData (nv_front s)), fb_pendingCommand (nv_front s), emptyFlash, True)}
          else {(fb_pendingData (nv_front s), fb_pendingCommand (nv_front s) @ [t], emptyFlash, False)})
       else {(fb_pendingData (nv_front s), fb_pendingCommand (nv_front s), emptyFlash, True)})"
proof -
  let ?b = "nv_front s"
  have same: "?b = ?b\<lparr>fb_pendingData := fb_pendingData ?b, fb_pendingCommand := fb_pendingCommand ?b\<rparr>" by simp
  consider (plain) ok where "\<not> ENABLE_COMMAND_CHANNEL c" "addTransactionF c t s = Inr (ok, s')" "r = (if ok then emptyFlash else t)"
    | (found) ok s1 where "ENABLE_COMMAND_CHANNEL c" "\<exists>p\<in>set (fb_pendingData ?b). fl_addr p = fl_addr t" "addTransactionF c t s = Inr (ok, s1)"
        "r = (if ok then emptyFlash else t)"
        "s' = put_front ((nv_front s1)\<lparr>fb_pendingData := if ok then drop_first (fl_addr t) (fb_pendingData ?b) else fb_pendingData ?b,
           fb_pendingCommand := fb_pendingCommand ?b\<rparr>) s1"
    | (waits) "ENABLE_COMMAND_CHANNEL c" "\<not> (\<exists>p\<in>set (fb_pendingData ?b). fl_addr p = fl_addr t)" "r = emptyFlash"
        "s' = put_front (?b\<lparr>fb_pendingData := fb_pendingData ?b, fb_pendingCommand := fb_pendingCommand ?b @ [t]\<rparr>) s"
    using assms(2,3)
    by (auto simp: data_across_def findTransaction_def sendToFTL_def bindR_eq_Inr host_def split: if_splits prod.splits)
  then show ?thesis
  proof cases
    case plain
    show ?thesis
      by (rule exI [of _ "fb_pendingData ?b"], rule exI [of _ "fb_pendingCommand ?b"], rule exI [of _ ok])
        (use addTransactionF_flow [OF assms(1,2) plain(2)] plain in \<open>auto simp: same_but_ftl_def\<close>)
  next
    case found
    show ?thesis
      by (rule exI [of _ "if ok then drop_first (fl_addr t) (fb_pendingData ?b) else fb_pendingData ?b"],
          rule exI [of _ "fb_pendingCommand ?b"], rule exI [of _ ok])
        (use addTransactionF_flow [OF assms(1,2) found(3)] found in \<open>auto simp: same_but_ftl_def\<close>)
  next
    case waits
    show ?thesis
      by (rule exI [of _ "fb_pendingData ?b"], rule exI [of _ "fb_pendingCommand ?b @ [t]"], rule exI [of _ False])
        (use assms(1) waits in auto)
  qed
qed

lemma data_across_flow:
  assumes inv: "front_inv c (nv_front s)" "ftl_inv c (nv_ftl s)" and t: "get_chan c (nv_front s) = t" "host t"
    and "data_across c t s = Inr (r, s')"
  shows "front_step c s (put_front (set_chan c r (nv_front s')) s')"
proof -
  let ?b = "nv_front s"
  obtain D C sent where sh: "nv_front s' = ?b\<lparr>fb_pendingData := D, fb_pendingCommand := C\<rparr>" "nv_ctrl s' = nv_ctrl s" "nv_dies s' = nv_dies s"
    "same_calls s s'" "ftl_inv c (nv_ftl s')"
    "ftl_reads (nv_ftl s') = ftl_reads (nv_ftl s) + (if sent then addrs_of F_DATA_READ [t] else {#})"
    and cases: "(D, C, r, sent) \<in> {(fb_pendingData ?b, fb_pendingCommand ?b, t, False)} \<union>
      (if ENABLE_COMMAND_CHANNEL c then
         (if \<exists>p\<in>set (fb_pendingData ?b). fl_addr p = fl_addr t then {(drop_first (fl_addr t) (fb_pendingData ?b), fb_pendingCommand ?b, emptyFlash, True)}
          else {(fb_pendingData ?b, fb_pendingCommand ?b @ [t], emptyFlash, False)})
       else {(fb_pendingData ?b, fb_pendingCommand ?b, emptyFlash, True)})"
    using data_across_shape [OF inv(2) t(2) assms(5)] by blast
  have req: "chan_req c ?b = [t]" using t by (simp add: chan_req_get)
  have r: "r = t \<or> r = emptyFlash" using cases by (auto split: if_splits)
  have hosts: "\<forall>t\<in>set D \<union> set C. host t"
    using cases front_hosts [OF inv(1)] drop_first_set [of "fl_addr t" "fb_pendingData ?b"] t(2) by (auto split: if_splits)
  have pair: "if ENABLE_COMMAND_CHANNEL c then paired D C (filter host [r] @ fb_requests ?b) (chan_cmd ?b @ fb_commands ?b) else D = [] \<and> C = []"
  proof (cases "ENABLE_COMMAND_CHANNEL c")
    case True
    have p: "paired (fb_pendingData ?b) (fb_pendingCommand ?b) (t # fb_requests ?b) (chan_cmd ?b @ fb_commands ?b)"
      using front_paired [OF inv(1) True] req by simp
    then show ?thesis using True cases paired_found(1) [OF p] paired_waits [OF p] t(2) by (auto split: if_splits)
  next
    case False
    then show ?thesis using cases inv(1) by (auto simp: front_inv_def)
  qed
  have b': "set_chan c r (nv_front s') = chan_done c r D C ?b" by (simp add: sh(1) chan_done_def)
  have "front_reads c (chan_done c r D C ?b) + (if sent then addrs_of F_DATA_READ [t] else {#}) = front_reads c ?b"
    unfolding chan_done_inv(3) [OF inv(1) t r hosts pair] using cases t(2) by (auto simp: front_reads_def req union_ac split: if_splits)
  then show ?thesis
    using chan_done_inv(1,2) [OF inv(1) t r hosts pair] sh(2-)
    unfolding b' by (auto simp: front_step_def front_total_def union_ac)
qed

text \<open>A command at the end of its channel.\<close>

lemma command_across_flow:
  assumes inv: "front_inv c (nv_front s)" "ftl_inv c (nv_ftl s)" and ec: "ENABLE_COMMAND_CHANNEL c"
    and t: "fb_commandTrans (nv_front s) = t" "host t"
    and f: "findTransaction c (fb_pendingCommand (nv_front s)) (fb_pendingData (nv_front s)) t s = Inr ((r, C, D), s')"
  shows "front_step c s (put_front (nv_front s'\<lparr>fb_commandTrans := r, fb_pendingCommand := C, fb_pendingData := D\<rparr>) s')"
proof -
  let ?b = "nv_front s"
  let ?b' = "?b\<lparr>fb_commandTrans := r, fb_pendingCommand := C, fb_pendingData := D\<rparr>"
  have cmd: "chan_cmd ?b = [t]" using t by (simp add: chan_cmd_def)
  have req: "chan_req c ?b' = chan_req c ?b" by (simp add: chan_req_def)
  have p: "paired (fb_pendingCommand ?b) (fb_pendingData ?b) (t # fb_commands ?b) (chan_req c ?b @ fb_requests ?b)"
    using front_paired [OF inv(1) ec] cmd by (simp add: paired_sym)
  obtain sent where sh: "nv_front s' = ?b" "nv_ctrl s' = nv_ctrl s" "nv_dies s' = nv_dies s"
    "same_calls s s'" "ftl_inv c (nv_ftl s')"
    "ftl_reads (nv_ftl s') = ftl_reads (nv_ftl s) + (if sent then addrs_of F_DATA_READ [t] else {#})"
    and cases: "r = t \<and> C = fb_pendingCommand ?b \<and> D = fb_pendingData ?b \<and> \<not> sent \<or>
      r = emptyFlash \<and> (\<exists>p\<in>set (fb_pendingCommand ?b). fl_addr p = fl_addr t) \<and> C = drop_first (fl_addr t) (fb_pendingCommand ?b) \<and>
        D = fb_pendingData ?b \<and> sent \<or>
      r = emptyFlash \<and> \<not> (\<exists>p\<in>set (fb_pendingCommand ?b). fl_addr p = fl_addr t) \<and> C = fb_pendingCommand ?b \<and> D = fb_pendingData ?b @ [t] \<and> \<not> sent"
  proof (cases "\<exists>p\<in>set (fb_pendingCommand ?b). fl_addr p = fl_addr t")
    case True
    then obtain ok where ok: "addTransactionF c t s = Inr (ok, s')"
      "(r, C, D) = (if ok then (emptyFlash, drop_first (fl_addr t) (fb_pendingCommand ?b), fb_pendingData ?b) else (t, fb_pendingCommand ?b, fb_pendingData ?b))"
      using f by (auto simp: findTransaction_def sendToFTL_def bindR_eq_Inr)
    show ?thesis by (rule that [of ok]) (use addTransactionF_flow [OF inv(2) t(2) ok(1)] ok(2) True in \<open>auto simp: same_but_ftl_def split: if_splits\<close>)
  next
    case False
    then show ?thesis using f t(2) inv(2) by (intro that [of False]) (auto simp: findTransaction_def host_def split: if_splits)
  qed
  have pair: "paired D C (chan_req c ?b @ fb_requests ?b) (filter host [r] @ fb_commands ?b)"
    unfolding paired_sym [of D] using cases p paired_found(1) [OF p] paired_waits [OF p] t(2) by auto
  have "front_inv c ?b'" unfolding front_inv_def req
    using inv(1) pair cases t ec front_hosts [OF inv(1)] drop_first_set [of "fl_addr t" "fb_pendingCommand ?b"]
    by (auto simp: front_inv_def chan_cmd_def)
  moreover have "addrs_of F_DATA_READ C + (if sent then addrs_of F_DATA_READ [t] else {#}) = addrs_of F_DATA_READ (fb_pendingCommand ?b)"
    using cases by (elim disjE conjE) (simp_all add: paired_found(2) [OF p, of F_DATA_READ] del: addrs_simps)
  then have "front_reads c ?b' + (if sent then addrs_of F_DATA_READ [t] else {#}) = front_reads c ?b"
    unfolding front_reads_def req by (simp add: union_ac del: addrs_simps)
  moreover have "front_returns ?b' = front_returns ?b" by (simp add: front_returns_def)
  ultimately show ?thesis using sh by (auto simp: front_step_def front_total_def union_ac)
qed

section \<open>One cycle of the front buffer\<close>

lemma front_cycles [simp]:
  "front_inv c (b\<lparr>fb_responseCyclesLeft := n\<rparr>) = front_inv c b" "front_inv c (b\<lparr>fb_requestCyclesLeft := n\<rparr>) = front_inv c b"
  "front_inv c (b\<lparr>fb_commandCyclesLeft := n\<rparr>) = front_inv c b"
  "front_reads c (b\<lparr>fb_responseCyclesLeft := n\<rparr>) = front_reads c b" "front_reads c (b\<lparr>fb_requestCyclesLeft := n\<rparr>) = front_reads c b"
  "front_reads c (b\<lparr>fb_commandCyclesLeft := n\<rparr>) = front_reads c b"
  "front_returns (b\<lparr>fb_responseCyclesLeft := n\<rparr>) = front_returns b" "front_returns (b\<lparr>fb_requestCyclesLeft := n\<rparr>) = front_returns b"
  "front_returns (b\<lparr>fb_commandCyclesLeft := n\<rparr>) = front_returns b"
  by (simp_all add: front_inv_def front_reads_def front_returns_def chan_req_def chan_cmd_def)

lemma front_step_put:
  assumes "ftl_inv c (nv_ftl s)" "front_inv c b" "front_reads c b + front_returns b = front_reads c (nv_front s) + front_returns (nv_front s)"
  shows "front_step c s (put_front b s)"
  using assms by (auto simp: front_step_def front_total_def union_assoc)

lemma front_step_trans: "front_step c s s1 \<Longrightarrow> front_step c s1 s2 \<Longrightarrow> front_step c s s2"
  by (simp add: front_step_def)

definition front_ok :: "nv_cfg \<Rightarrow> nvdimm \<Rightarrow> bool" where
  "front_ok c s \<longleftrightarrow> front_inv c (nv_front s) \<and> ftl_inv c (nv_ftl s)"

lemma front_ok_step: "front_step c s s' \<Longrightarrow> front_ok c s'"
  by (simp add: front_step_def front_ok_def)

lemma response_kinds:
  "front_inv c b \<Longrightarrow> fl_type (fb_responseTrans b) \<noteq> F_EMPTY \<Longrightarrow> fl_type (fb_responseTrans b) \<noteq> F_RETURN_DATA \<Longrightarrow>
    \<not> ENABLE_REQUEST_CHANNEL c \<and> host (fb_responseTrans b)"
  by (auto simp: front_inv_def)

lemma updateResponse_flow:
  assumes "front_ok c s" "fl_type (fb_responseTrans (nv_front s)) \<noteq> F_EMPTY"
  shows "partR (updateResponse c s) (front_step c s)"
proof (cases "response_cycles c (nv_front s)")
  case (Inr n)
  let ?t = "fb_responseTrans (nv_front s)"
  let ?s1 = "put_front (nv_front s\<lparr>fb_responseCyclesLeft := u64_sub n 1\<rparr>) s"
  have inv: "front_inv c (nv_front s)" "ftl_inv c (nv_ftl s)" using assms(1) by (simp_all add: front_ok_def)
  have s1: "front_step c s ?s1" by (rule front_step_put) (simp_all add: inv)
  have ret: "front_step c s (sendToHybrid ?t (put_front (nv_front ?s1\<lparr>fb_responseTrans := emptyFlash\<rparr>) ?s1))" if r: "fl_type ?t = F_RETURN_DATA"
  proof -
    let ?b = "nv_front s\<lparr>fb_responseCyclesLeft := u64_sub n 1, fb_responseTrans := emptyFlash\<rparr>"
    have "chan_req c ?b = chan_req c (nv_front s)" "chan_cmd ?b = chan_cmd (nv_front s)" using r by (auto simp: chan_req_def chan_cmd_def host_def)
    then have "front_inv c ?b" "front_reads c ?b = front_reads c (nv_front s)" "front_returns (nv_front s) = front_returns ?b + {#fl_addr ?t#}"
      using inv(1) r by (auto simp: front_inv_def front_reads_def front_returns_def)
    then show ?thesis using inv(2) by (auto simp: front_step_def front_total_def sendToHybrid_def nv_call_def put_front_def union_ac)
  qed
  have req: "partR (bindR (data_across c ?t ?s1) (\<lambda>(r, s2). Inr (put_front (nv_front s2\<lparr>fb_responseTrans := r\<rparr>) s2))) (front_step c s)"
    if r: "fl_type ?t \<noteq> F_RETURN_DATA"
  proof (cases "data_across c ?t ?s1")
    case (Inr x)
    obtain r s2 where x: "x = (r, s2)" by force
    have k: "\<not> ENABLE_REQUEST_CHANNEL c" "host ?t" using response_kinds [OF inv(1) assms(2) r] by simp_all
    have "front_step c ?s1 (put_front (set_chan c r (nv_front s2)) s2)"
      by (rule data_across_flow [OF _ _ _ k(2)]) (use inv k Inr x in \<open>simp_all add: get_chan_def\<close>)
    then have "front_step c s (put_front (set_chan c r (nv_front s2)) s2)" by (rule front_step_trans [OF s1])
    then show ?thesis using Inr x k(1) by (simp add: set_chan_def)
  qed simp
  show ?thesis using Inr s1 ret req by (auto simp: updateResponse_def Let_def simp del: front_cycles)
qed (simp add: updateResponse_def)

lemma partR_bind_all: "(\<And>x. partR (f x) P) \<Longrightarrow> partR (bindR m f) P"
  by (cases m) auto

lemma updateRequest_flow:
  assumes "front_ok c s" "ENABLE_REQUEST_CHANNEL c" "fl_type (fb_requestTrans (nv_front s)) \<noteq> F_EMPTY"
  shows "partR (updateRequest c s) (front_step c s)"
proof -
  let ?t = "fb_requestTrans (nv_front s)"
  let ?s1 = "\<lambda>n. put_front (nv_front s\<lparr>fb_requestCyclesLeft := u64_sub n 1\<rparr>) s"
  have inv: "front_inv c (nv_front s)" "ftl_inv c (nv_ftl s)" using assms(1) by (simp_all add: front_ok_def)
  have h: "host ?t" using inv(1) assms(3) by (auto simp: front_inv_def)
  have s1: "front_step c s (?s1 n)" for n by (rule front_step_put) (simp_all add: inv)
  have req: "partR (bindR (data_across c ?t (?s1 n)) (\<lambda>(r, s2). Inr (put_front (nv_front s2\<lparr>fb_requestTrans := r\<rparr>) s2))) (front_step c s)" for n
  proof (cases "data_across c ?t (?s1 n)")
    case (Inr x)
    obtain r s2 where x: "x = (r, s2)" by force
    have "front_step c (?s1 n) (put_front (set_chan c r (nv_front s2)) s2)"
      by (rule data_across_flow [OF _ _ _ h]) (use inv assms(2) Inr x in \<open>simp_all add: get_chan_def\<close>)
    then have "front_step c s (put_front (set_chan c r (nv_front s2)) s2)" by (rule front_step_trans [OF s1])
    then show ?thesis using Inr x assms(2) by (simp add: set_chan_def)
  qed simp
  have "partR (if u64_sub n 1 \<noteq> 0 then Inr (?s1 n)
      else bindR (data_across c ?t (?s1 n)) (\<lambda>(r, s2). Inr (put_front (nv_front s2\<lparr>fb_requestTrans := r\<rparr>) s2))) (front_step c s)" for n
    using s1 [of n] req [of n] by auto
  then show ?thesis unfolding updateRequest_def Let_def by (rule partR_bind_all)
qed

lemma updateCommand_flow:
  assumes "front_ok c s" "ENABLE_COMMAND_CHANNEL c" "fl_type (fb_commandTrans (nv_front s)) \<noteq> F_EMPTY"
  shows "partR (updateCommand c s) (front_step c s)"
proof -
  let ?b = "nv_front s" and ?t = "fb_commandTrans (nv_front s)"
  let ?s1 = "\<lambda>n. put_front (?b\<lparr>fb_commandCyclesLeft := u64_sub n 1\<rparr>) s"
  have inv: "front_inv c ?b" "ftl_inv c (nv_ftl s)" using assms(1) by (simp_all add: front_ok_def)
  have h: "host ?t" using inv(1) assms(3) by (auto simp: front_inv_def)
  have s1: "front_step c s (?s1 n)" for n by (rule front_step_put) (simp_all add: inv)
  have "partR (bindR (findTransaction c (fb_pendingCommand ?b) (fb_pendingData ?b) ?t (?s1 n)) (\<lambda>((r, search, add), s2).
      Inr (put_front (nv_front s2\<lparr>fb_commandTrans := r, fb_pendingCommand := search, fb_pendingData := add\<rparr>) s2))) (front_step c s)" for n
  proof (cases "findTransaction c (fb_pendingCommand ?b) (fb_pendingData ?b) ?t (?s1 n)")
    case (Inr x)
    obtain r C D s2 where x: "x = ((r, C, D), s2)" by (cases x) auto
    have "front_step c (?s1 n) (put_front (nv_front s2\<lparr>fb_commandTrans := r, fb_pendingCommand := C, fb_pendingData := D\<rparr>) s2)"
      by (rule command_across_flow [OF _ _ assms(2) _ h]) (use inv Inr x in simp_all)
    then show ?thesis using Inr x front_step_trans [OF s1] by simp
  qed simp
  note find = this
  have "partR (if u64_sub n 1 \<noteq> 0 then Inr (?s1 n) else
      bindR (findTransaction c (fb_pendingCommand ?b) (fb_pendingData ?b) ?t (?s1 n)) (\<lambda>((r, search, add), s2).
      Inr (put_front (nv_front s2\<lparr>fb_commandTrans := r, fb_pendingCommand := search, fb_pendingData := add\<rparr>) s2))) (front_step c s)" for n
    using s1 [of n] find [of n] by (simp only: if_cancel partR.simps split: if_split) simp
  then show ?thesis unfolding updateCommand_def Let_def .
qed

lemma newRequest_flow:
  assumes "front_ok c s" "fl_type (get_chan c (nv_front s)) = F_EMPTY" "fb_requests (nv_front s) \<noteq> []"
    and "newRequestTrans c (nv_front s) = (t, b)"
  shows "front_step c s (put_front (set_chan c t b) s)" "fl_type t \<noteq> F_EMPTY"
proof -
  let ?b = "nv_front s"
  have inv: "front_inv c ?b" "ftl_inv c (nv_ftl s)" using assms(1) by (simp_all add: front_ok_def)
  obtain q where q: "fb_requests ?b = t # q" and b: "b = ?b\<lparr>fb_requestsSize := fb_requestsSize b, fb_requests := q\<rparr>"
    using assms(3,4) by (cases "fb_requests ?b") (auto simp: newRequestTrans_def)
  have t: "host t" using inv(1) q by (simp add: front_inv_def)
  then show "fl_type t \<noteq> F_EMPTY" by (auto simp: host_def)
  have same: "fb_pendingData b = fb_pendingData ?b" "fb_pendingCommand b = fb_pendingCommand ?b" "fb_commands b = fb_commands ?b"
    "fb_responses b = fb_responses ?b" "fb_commandTrans b = fb_commandTrans ?b" "fb_responseTrans b = fb_responseTrans ?b"
    "fb_requestTrans b = fb_requestTrans ?b" "fb_requests b = q" by (subst b, simp)+
  have "chan_req c ?b = []" using assms(2) by (simp add: chan_req_get host_def)
  then have req: "chan_req c (set_chan c t b) @ fb_requests (set_chan c t b) = chan_req c ?b @ fb_requests ?b"
    using t q same by simp
  have "front_inv c (set_chan c t b)" unfolding front_inv_def req
    using inv(1) t q same by (auto simp: front_inv_def set_chan_def chan_cmd_def)
  moreover have "front_reads c (set_chan c t b) = front_reads c ?b"
    unfolding front_reads_def using arg_cong [OF req, of "addrs_of F_DATA_READ"] same by simp
  moreover have "front_returns (set_chan c t b) = front_returns ?b"
    using assms(2) t same by (auto simp: front_returns_def set_chan_def get_chan_def host_def)
  ultimately show "front_step c s (put_front (set_chan c t b) s)" using inv(2) by (intro front_step_put) simp_all
qed

lemma partR_after:
  assumes "front_step c s s1" "front_ok c s1 \<Longrightarrow> partR m (front_step c s1)"
  shows "partR m (front_step c s)"
  using assms front_ok_step [OF assms(1)] by (auto elim!: partR_mono front_step_trans)

lemma front_response_flow:
  assumes "front_ok c s"
  shows "partR (front_response c s) (front_step c s)"
proof -
  let ?b = "nv_front s"
  have inv: "front_inv c ?b" "ftl_inv c (nv_ftl s)" using assms by (simp_all add: front_ok_def)
  have refl: "front_step c s s" using inv by (simp add: front_step_def)
  show ?thesis
  proof (cases "fl_type (fb_responseTrans ?b) = F_EMPTY")
    case True
    show ?thesis
    proof (cases "fb_responses ?b")
      case (Cons t ts)
      let ?b1 = "?b\<lparr>fb_responseTrans := t, fb_responses := ts, fb_responsesSize := subtract_params (fb_responsesSize ?b) (page_bits c)\<rparr>"
      have t: "fl_type t = F_RETURN_DATA" using inv(1) Cons by (simp add: front_inv_def)
      have eq: "chan_req c ?b1 = chan_req c ?b" "chan_cmd ?b1 = chan_cmd ?b" using True t by (auto simp: chan_req_def chan_cmd_def host_def)
      have "front_inv c ?b1" unfolding front_inv_def eq using inv(1) t Cons by (auto simp: front_inv_def)
      moreover have "front_reads c ?b1 = front_reads c ?b" unfolding front_reads_def eq by simp
      moreover have "front_returns ?b1 = front_returns ?b" using Cons t True by (simp add: front_returns_def)
      ultimately have "front_step c s (put_front ?b1 s)" using inv(2) by (intro front_step_put) simp_all
      then have "partR (updateResponse c (put_front ?b1 s)) (front_step c s)"
        by (rule partR_after) (use t in \<open>auto intro: updateResponse_flow\<close>)
      then show ?thesis using True Cons by (simp add: front_response_def Let_def)
    next
      case Nil
      obtain t b where n: "newRequestTrans c ?b = (t, b)" by force
      have "partR (updateResponse c (put_front (b\<lparr>fb_responseTrans := t\<rparr>) s)) (front_step c s)"
        if "\<not> ENABLE_REQUEST_CHANNEL c" "fb_requests ?b \<noteq> []"
      proof -
        have *: "fl_type (get_chan c ?b) = F_EMPTY" using True that(1) by (simp add: get_chan_def)
        note nr = newRequest_flow [OF assms * that(2) n]
        then have "front_step c s (put_front (b\<lparr>fb_responseTrans := t\<rparr>) s)" using that(1) by (simp add: set_chan_def)
        then show ?thesis by (rule partR_after) (use nr(2) in \<open>auto intro: updateResponse_flow\<close>)
      qed
      then show ?thesis using True Nil n refl by (simp add: front_response_def Let_def)
    qed
  qed (use updateResponse_flow [OF assms] in \<open>simp add: front_response_def Let_def\<close>)
qed

lemma front_request_flow:
  assumes "front_ok c s"
  shows "partR (front_request c s) (front_step c s)"
proof -
  let ?b = "nv_front s"
  have refl: "front_step c s s" using assms by (simp add: front_step_def front_ok_def)
  obtain t b where n: "newRequestTrans c ?b = (t, b)" by force
  have "partR (updateRequest c (put_front (b\<lparr>fb_requestTrans := t\<rparr>) s)) (front_step c s)"
    if "ENABLE_REQUEST_CHANNEL c" "fl_type (fb_requestTrans ?b) = F_EMPTY" "fb_requests ?b \<noteq> []"
  proof -
    have *: "fl_type (get_chan c ?b) = F_EMPTY" using that by (simp add: get_chan_def)
    note nr = newRequest_flow [OF assms * that(3) n]
    then have "front_step c s (put_front (b\<lparr>fb_requestTrans := t\<rparr>) s)" using that(1) by (simp add: set_chan_def)
    then show ?thesis by (rule partR_after) (use nr(2) that(1) in \<open>auto intro: updateRequest_flow\<close>)
  qed
  then show ?thesis using updateRequest_flow [OF assms] refl n by (simp add: front_request_def Let_def)
qed

lemma front_command_flow:
  assumes "front_ok c s"
  shows "partR (front_command c s) (front_step c s)"
proof (cases "ENABLE_COMMAND_CHANNEL c \<and> fl_type (fb_commandTrans (nv_front s)) = F_EMPTY")
  case True
  let ?b = "nv_front s"
  have inv: "front_inv c ?b" "ftl_inv c (nv_ftl s)" using assms by (simp_all add: front_ok_def)
  show ?thesis
  proof (cases "fb_commands ?b")
    case (Cons t ts)
    let ?b1 = "?b\<lparr>fb_commandTrans := t, fb_commands := ts, fb_requestsSize := subtract_params (fb_requestsSize ?b) (COMMAND_LENGTH c)\<rparr>"
    have t: "host t" using inv(1) Cons by (simp add: front_inv_def)
    have eq: "chan_req c ?b1 = chan_req c ?b" "chan_cmd ?b1 @ fb_commands ?b1 = chan_cmd ?b @ fb_commands ?b"
      using True t Cons by (auto simp: chan_req_def chan_cmd_def host_def)
    have "front_inv c ?b1" unfolding front_inv_def eq using inv(1) t Cons True by (auto simp: front_inv_def)
    moreover have "front_reads c ?b1 = front_reads c ?b" unfolding front_reads_def eq by simp
    moreover have "front_returns ?b1 = front_returns ?b" by (simp add: front_returns_def)
    ultimately have "front_step c s (put_front ?b1 s)" using inv(2) by (intro front_step_put) simp_all
    then have "partR (updateCommand c (put_front ?b1 s)) (front_step c s)"
      by (rule partR_after) (use t True in \<open>auto intro!: updateCommand_flow simp: host_def\<close>)
    then show ?thesis using True Cons by (simp add: front_command_def Let_def)
  qed (use True assms in \<open>simp add: front_command_def Let_def front_step_def front_ok_def\<close>)
qed (use updateCommand_flow [OF assms] assms in \<open>auto simp: front_command_def Let_def front_step_def front_ok_def\<close>)

lemma front_update_flow:
  assumes "nv_good c T s"
  shows "partR (front_update c s) (nv_good c T)"
proof -
  have "front_ok c s" using assms by (simp add: nv_good_iff rest_inv_def front_ok_def)
  have "partR (front_update c s) (front_step c s)" unfolding front_update_def
  proof (rule partR_bind [OF front_response_flow [OF \<open>front_ok c s\<close>]])
    fix s1 assume s1: "front_step c s s1"
    show "partR (bindR (front_request c s1) (front_command c)) (front_step c s)"
    proof (rule partR_bind [OF partR_after [OF s1 front_request_flow]])
      fix s2 assume "front_step c s s2"
      then show "partR (front_command c s2) (front_step c s)" by (rule partR_after [OF _ front_command_flow])
    qed
  qed
  then show ?thesis by (rule partR_mono) (rule front_step_good [OF assms])
qed

end
