(* ===== verification/Nv_Flow.thy ===== *)
theory Nv_Flow
  imports Nv_Flow_Front
begin

text \<open>
  Reads in the controller, on the channels and in the dies, and the device as a whole: a pass of its
  update keeps the ledger.
\<close>

section \<open>Controller\<close>

lemma put_ctrl_simps [simp]:
  "nv_ctrl (put_ctrl ct s) = ct" "nv_ftl (put_ctrl ct s) = nv_ftl s" "nv_front (put_ctrl ct s) = nv_front s"
  "nv_dies (put_ctrl ct s) = nv_dies s" "nv_calls (put_ctrl ct s) = nv_calls s" "nv_channels (put_ctrl ct s) = nv_channels s"
  by (simp_all add: put_ctrl_def)

definition ctrl_reads :: "nv_cfg \<Rightarrow> nvctrl \<Rightarrow> nat multiset" where
  "ctrl_reads c ct = nv_queue_reads c ct + out_reads c ct + return_reads ct"

lemma beyond_ctrl: "beyond c s = answered (nv_calls s) + front_reads c (nv_front s) + front_returns (nv_front s) +
    ctrl_reads c (nv_ctrl s) + dies_reads c (nv_dies s)"
  by (simp add: beyond_def ctrl_reads_def)

lemma put_ctrl_good:
  assumes "nv_good c T s" "ctrl_inv c ct" "ctrl_reads c ct = ctrl_reads c (nv_ctrl s)"
  shows "nv_good c T (put_ctrl ct s)"
  using assms by (simp add: nv_good_iff rest_inv_def beyond_ctrl)

lemma next_die_same [simp]:
  "ctrl_reads c (next_die c k ct) = ctrl_reads c ct" "0 < DIES_PER_PACKAGE c \<Longrightarrow> ctrl_inv c ct \<Longrightarrow> ctrl_inv c (next_die c k ct)"
  by (auto simp: next_die_def Let_def ctrl_reads_def nv_queue_reads_def out_reads_def return_reads_def ctrl_inv_def)

lemma channels_good: "nv_good c T (s\<lparr>nv_channels := f\<rparr>) = nv_good c T s"
  by (simp add: nv_good_iff rest_inv_def beyond_def)

lemma obtain_shape:
  assumes "obtainChannel k j t p s = (ok, s')"
  shows "\<exists>f. s' = s\<lparr>nv_channels := f\<rparr>"
proof -
  have "s' = s\<lparr>nv_channels := nv_channels s\<rparr> \<or> s' = s\<lparr>nv_channels := (nv_channels s)(k := Some (t, j))\<rparr>"
    using assms by (auto simp: obtainChannel_def Let_def split: if_splits)
  then show ?thesis by blast
qed

lemma queuesNotFull_good: "nv_good c T s \<Longrightarrow> nv_good c T (queuesNotFull s)"
  unfolding queuesNotFull_def
  by (rule put_keeps) (simp_all add: ftl_keeps_def nv_good_iff ftl_inv_cong [of "nv_ftl s\<lparr>ft_read_queues_full := False, ft_write_queues_full := False, ft_locked_counter := 0\<rparr>" "nv_ftl s" c])

text \<open>A packet leaves the front of its queue for the channel.\<close>

definition take_packet :: "nv_cfg \<Rightarrow> nat \<Rightarrow> nat \<Rightarrow> ChannelPacket \<Rightarrow> nvctrl \<Rightarrow> nvctrl" where
  "take_packet c k j p ct = ct\<lparr>ct_outgoingPackets := (ct_outgoingPackets ct)(k := Some p),
     ct_readQueues := (ct_readQueues ct)(k := (ct_readQueues ct k)(j := tl (ct_readQueues ct k j))),
     ct_channelBeatsLeft := (ct_channelBeatsLeft ct)(k := packet_beats c p)\<rparr>"

lemma mset_move:
  fixes A :: "nat multiset"
  assumes "A + (x + q) = B + q" "D = E + x"
  shows "A + D + R = B + E + R"
proof -
  have "A + x + q = B + q" using assms(1) by (simp add: union_ac)
  then have "A + x = B" by simp
  then show ?thesis using assms(2) by (auto simp: union_ac)
qed

lemma mset_take:
  fixes A :: "nat multiset"
  assumes "E + x = D" "A + D = B + E"
  shows "A + x = B"
proof -
  have "A + x + E = B + E" using assms by (simp add: union_ac)
  then show ?thesis by simp
qed

lemma take_packet_reads:
  assumes "k < NUM_PACKAGES c" "j < DIES_PER_PACKAGE c" "ct_readQueues ct k j = p # q" "ct_outgoingPackets ct k = None"
  shows "ctrl_reads c (take_packet c k j p ct) = ctrl_reads c ct"
proof -
  have "nv_queue_reads c (take_packet c k j p ct) + reads_p (p # q) = nv_queue_reads c ct + reads_p q"
    using sum_fun_upd2 [OF assms(1,2), of reads_p "ct_readQueues ct" q] assms(3) by (simp add: nv_queue_reads_def take_packet_def del: reads_p_simps)
  moreover have "out_reads c (take_packet c k j p ct) = out_reads c ct + reads_p [p]"
    using sum_fun_upd [OF assms(1), of "\<lambda>x. reads_p (olist x)" "ct_outgoingPackets ct" "Some p"] assms(4)
    by (simp add: out_reads_def take_packet_def)
  moreover have "return_reads (take_packet c k j p ct) = return_reads ct" by (simp add: return_reads_def take_packet_def)
  moreover have "reads_p (p # q) = reads_p [p] + reads_p q" by simp
  ultimately show ?thesis unfolding ctrl_reads_def using mset_move by metis
qed

lemma take_packet_inv:
  assumes "ctrl_inv c ct" "ct_readQueues ct k j = p # q"
  shows "ctrl_inv c (take_packet c k j p ct)"
proof -
  have "\<forall>x\<in>set (p # q). nv_packet_ok c x \<and> pk_package x = k \<and> pk_die x = j" using assms unfolding ctrl_inv_def by metis
  then show ?thesis using assms by (auto simp: ctrl_inv_def take_packet_def)
qed

lemma pick_packet_flow:
  assumes "k < NUM_PACKAGES c" "0 < DIES_PER_PACKAGE c" "nv_good c T s"
  shows "nv_good c T (pick_packet c k n s)"
  using assms
proof (induction c k n s rule: pick_packet.induct)
  case (1 c k n s)
  let ?ct = "nv_ctrl s" and ?j = "ct_die_pointers (nv_ctrl s) k"
  let ?s1 = "put_ctrl (next_die c k ?ct) s"
  have ci: "ctrl_inv c ?ct" using "1.prems"(3) by (simp add: nv_good_iff rest_inv_def)
  have s1: "nv_good c T ?s1" by (rule put_ctrl_good) (use "1.prems" ci in simp_all)
  have again: "nv_good c T (if DIES_PER_PACKAGE c \<le> n + 1 then ?s1 else pick_packet c k (n + 1) ?s1)"
    using s1 "1.IH" "1.prems" by auto
  have issue: "nv_good c T (issue_packet c k ?j p s')"
    if "ct_readQueues ?ct k ?j = p # q" "ct_outgoingPackets ?ct k = None" "obtainChannel k 0 CONTROLLER (Some p) s = (True, s')" for p q s'
  proof -
    from obtain_shape [OF that(3)] obtain f where s': "s' = s\<lparr>nv_channels := f\<rparr>" by blast
    have j: "?j < DIES_PER_PACKAGE c" using ci by (simp add: ctrl_inv_def)
    have "issue_packet c k ?j p s' = queuesNotFull (put_ctrl (next_die c k (take_packet c k ?j p ?ct)) s')"
      by (simp add: issue_packet_def take_packet_def Let_def s')
    moreover have "nv_good c T (put_ctrl (next_die c k (take_packet c k ?j p ?ct)) s')"
      by (rule put_ctrl_good) (use "1.prems" take_packet_inv [OF ci that(1)] take_packet_reads [OF "1.prems"(1) j that(1,2)] channels_good s' in simp_all)
    ultimately show ?thesis by (simp add: queuesNotFull_good)
  qed
  show ?case using again issue by (subst pick_packet.simps) (auto simp: Let_def split: list.splits prod.splits bool.splits)
qed

section \<open>From the channel into a die\<close>

lemma start_command_reads:
  assumes "pk_plane p < PLANES_PER_DIE c" "di_currentCommands d (pk_plane p) = None"
  shows "die_reads c (start_command p pl n d) = die_reads c d + reads_p [p]"
proof -
  have "nv_cmd_reads c (start_command p pl n d) = nv_cmd_reads c d + reads_p [p]"
    using sum_fun_upd [OF assms(1), of "\<lambda>x. reads_p (olist x)" "di_currentCommands d" "Some p"] assms(2)
    by (simp add: nv_cmd_reads_def start_command_def put_plane_def)
  then show ?thesis by (simp add: die_reads_def start_command_def put_plane_def union_ac)
qed

lemma start_command_inv:
  assumes "die_inv d" "pk_type p = P_READ \<or> pk_type p = P_GC_READ \<Longrightarrow> dataReg pl = Some p"
  shows "die_inv (start_command p pl n d)"
  using assms by (auto simp: die_inv_def start_command_def put_plane_def)

text \<open>A step that changes one die.\<close>

definition die_step :: "nv_cfg \<Rightarrow> nat multiset \<Rightarrow> nvdimm \<Rightarrow> nvdimm \<Rightarrow> bool" where
  "die_step c R s s' \<longleftrightarrow> nv_ctrl s' = nv_ctrl s \<and> nv_front s' = nv_front s \<and> nv_ftl s' = nv_ftl s \<and> nv_calls s' = nv_calls s \<and>
     nv_channels s' = nv_channels s \<and> (\<forall>k j. die_inv (nv_dies s' k j)) \<and> dies_reads c (nv_dies s') = dies_reads c (nv_dies s) + R"

lemma die_step_put:
  assumes "\<forall>k j. die_inv (nv_dies s k j)" "k < NUM_PACKAGES c" "j < DIES_PER_PACKAGE c" "die_inv d"
    "die_reads c d = die_reads c (nv_dies s k j) + R"
  shows "die_step c R s (put_die k j d s)"
proof -
  have "dies_reads c (nv_dies (put_die k j d s)) + die_reads c (nv_dies s k j) = dies_reads c (nv_dies s) + R + die_reads c (nv_dies s k j)"
    using put_die_flow [OF assms(2,3), of d s] assms(5) by (simp add: union_ac)
  then show ?thesis using assms(1,4) by (simp add: die_step_def) (simp add: put_die_def)
qed

lemma die_step_counts:
  "die_step c R (s\<lparr>nv_numErases := n\<rparr>) s' = die_step c R s s'" "die_step c R (s\<lparr>nv_numWrites := n\<rparr>) s' = die_step c R s s'"
  by (simp_all add: die_step_def)

lemma receive_flow:
  assumes "\<forall>k j. die_inv (nv_dies s k j)" "nv_packet_ok c p"
  shows "partR (receiveFromBuffer c p s) (die_step c (reads_p [p]) s)"
proof -
  let ?k = "pk_package p" and ?j = "pk_die p" and ?d = "nv_dies s (pk_package p) (pk_die p)"
  let ?pl = "di_planes ?d (pk_plane p)"
  have idx: "?k < NUM_PACKAGES c" "?j < DIES_PER_PACKAGE c" "pk_plane p < PLANES_PER_DIE c" using assms(2) by (simp_all add: nv_packet_ok_def)
  have di: "die_inv ?d" using assms(1) by simp
  have start: "die_step c (reads_p [q]) s0 (put_die ?k ?j (start_command q pl n ?d) s0)"
    if "di_currentCommands ?d (pk_plane p) = None" "pk_plane q = pk_plane p" "nv_dies s0 = nv_dies s"
      "pk_type q = P_READ \<or> pk_type q = P_GC_READ \<Longrightarrow> dataReg pl = Some q" for q pl n s0
    by (rule die_step_put) (use that assms(1) idx start_command_inv [OF di that(4)] start_command_reads [of q c ?d pl n] in auto)
  have rd: "die_step c (reads_p [p]) s (put_die ?k ?j (start_command p' pl' n ?d) s)"
    if "plane_read p ?pl = Inr (p', pl')" "di_currentCommands ?d (pk_plane p) = None" for p' pl' n
  proof -
    have p': "pk_type p' = pk_type p" "pk_vaddr p' = pk_vaddr p" "pk_plane p' = pk_plane p" "dataReg pl' = Some p'"
      using that(1) by (auto simp: plane_read_def Let_def split: if_splits option.splits)
    have "reads_p [p'] = reads_p [p]" using p' by simp
    then show ?thesis using start [of p' s pl' n] that(2) p' by simp
  qed
  have fw: "die_step c (reads_p [p]) s (put_die ?k ?j (?d\<lparr>di_currentCommands := (di_currentCommands ?d)(pk_plane p := Some p)\<rparr>) s)"
    if "pk_type p = P_FAST_WRITE" "di_currentCommands ?d (pk_plane p) = None"
  proof -
    have eq: "?d\<lparr>di_currentCommands := (di_currentCommands ?d)(pk_plane p := Some p)\<rparr> = start_command p ?pl (di_controlCyclesLeft ?d (pk_plane p)) ?d"
      by (simp add: start_command_def put_plane_def)
    show ?thesis unfolding eq using start [of p s ?pl] that by simp
  qed
  have data: "die_step c (reads_p [p]) s (put_die ?k ?j (put_plane (pk_plane p) pl ?d) s)" if "pk_type p = P_DATA" "dataReg pl = dataReg ?pl" for pl
    by (rule die_step_put) (use that assms(1) idx di in \<open>auto simp: die_inv_def put_plane_def die_reads_def nv_cmd_reads_def\<close>)
  show ?thesis
  proof (cases "pk_type p = P_DATA")
    case True
    then show ?thesis using data by (simp add: receiveFromBuffer_def Let_def storeInData_def)
  next
    case False
    have wr: "partR (bindR (plane_write c p ?pl) (\<lambda>pl'. Inr (put_die ?k ?j (start_command p pl' n ?d) (s\<lparr>nv_numWrites := m\<rparr>)))) (die_step c (reads_p [p]) s)"
      if "di_currentCommands ?d (pk_plane p) = None" "pk_type p \<noteq> P_READ" "pk_type p \<noteq> P_GC_READ" for n m
      using start [of p "s\<lparr>nv_numWrites := m\<rparr>"] that by (cases "plane_write c p ?pl") (auto simp: die_step_counts)
    have er: "die_step c (reads_p [p]) s (put_die ?k ?j (start_command p pl n ?d) (s\<lparr>nv_numErases := m\<rparr>))"
      if "di_currentCommands ?d (pk_plane p) = None" "pk_type p = P_ERASE" for pl n m
      using start [of p "s\<lparr>nv_numErases := m\<rparr>" pl n] that by (simp add: die_step_counts)
    have rd': "partR (bindR (plane_read p ?pl) (\<lambda>(p', pl'). Inr (put_die ?k ?j (start_command p' pl' n ?d) s))) (die_step c (reads_p [p]) s)"
      if "di_currentCommands ?d (pk_plane p) = None" for n
      using rd that by (cases "plane_read p ?pl") auto
    show ?thesis
      using False wr er rd' fw by (cases "pk_type p") (simp_all add: receiveFromBuffer_def Let_def)
  qed
qed

lemma release_shape: "\<exists>f. releaseChannel k t j s = s\<lparr>nv_channels := f\<rparr>"
proof -
  have "releaseChannel k t j s = s\<lparr>nv_channels := if hasChannel k t j s then (nv_channels s)(k := None) else nv_channels s\<rparr>"
    by (simp add: releaseChannel_def)
  then show ?thesis by blast
qed

lemma put_ctrl_channels: "put_ctrl ct (s\<lparr>nv_channels := f\<rparr>) = (put_ctrl ct s)\<lparr>nv_channels := f\<rparr>"
  by (cases s) (simp add: put_ctrl_def)

lemma beats_good: "nv_good c T s \<Longrightarrow> nv_good c T (put_ctrl (nv_ctrl s\<lparr>ct_channelBeatsLeft := f\<rparr>) s)"
  by (rule put_ctrl_good) (auto simp: nv_good_iff rest_inv_def ctrl_inv_def ctrl_reads_def nv_queue_reads_def out_reads_def return_reads_def)

lemma clear_outgoing:
  assumes "i < NUM_PACKAGES c" "ct_outgoingPackets ct i = Some p"
  shows "ctrl_reads c (ct\<lparr>ct_outgoingPackets := (ct_outgoingPackets ct)(i := None)\<rparr>) + reads_p [p] = ctrl_reads c ct"
    "ctrl_inv c ct \<Longrightarrow> ctrl_inv c (ct\<lparr>ct_outgoingPackets := (ct_outgoingPackets ct)(i := None)\<rparr>)"
proof -
  let ?ct = "ct\<lparr>ct_outgoingPackets := (ct_outgoingPackets ct)(i := None)\<rparr>"
  have "out_reads c ?ct + reads_p [p] = out_reads c ct"
    using sum_fun_upd [OF assms(1), of "\<lambda>x. reads_p (olist x)" "ct_outgoingPackets ct" None] assms(2) by (simp add: out_reads_def)
  then show "ctrl_reads c ?ct + reads_p [p] = ctrl_reads c ct"
    by (simp add: ctrl_reads_def nv_queue_reads_def return_reads_def union_ac)
  show "ctrl_inv c ct \<Longrightarrow> ctrl_inv c ?ct" by (auto simp: ctrl_inv_def)
qed

lemma deliver_flow:
  assumes "i < NUM_PACKAGES c" "nv_good c T s" "ct_outgoingPackets (nv_ctrl s) i = Some p" "sendToBuffer c p s = Inr s2"
  shows "nv_good c T (put_ctrl (nv_ctrl s2\<lparr>ct_outgoingPackets := (ct_outgoingPackets (nv_ctrl s2))(i := None)\<rparr>) s2)"
proof -
  have inv: "rest_inv c s" "ftl_inv c (nv_ftl s)" "nv_keeps c T (beyond c s + ftl_reads (nv_ftl s))" using assms(2) by (simp_all add: nv_good_iff)
  have "nv_packet_ok c p" using inv(1) assms(3) by (auto simp: rest_inv_def ctrl_inv_def)
  moreover have "\<forall>k j. die_inv (nv_dies s k j)" using inv(1) by (simp add: rest_inv_def)
  ultimately have d: "die_step c (reads_p [p]) s s2" using receive_flow [of s c p] assms(4) by (simp add: sendToBuffer_def)
  let ?ct = "nv_ctrl s\<lparr>ct_outgoingPackets := (ct_outgoingPackets (nv_ctrl s))(i := None)\<rparr>"
  note cl = clear_outgoing [OF assms(1,3)]
  have "beyond c (put_ctrl ?ct s2) = answered (nv_calls s) + front_reads c (nv_front s) + front_returns (nv_front s) +
      (ctrl_reads c ?ct + reads_p [p]) + dies_reads c (nv_dies s)"
    using d unfolding beyond_ctrl die_step_def by (simp add: union_ac del: reads_p_simps)
  then have "beyond c (put_ctrl ?ct s2) = beyond c s" unfolding cl(1) beyond_ctrl .
  moreover have "rest_inv c (put_ctrl ?ct s2)" using d cl(2) inv(1) by (simp add: rest_inv_def die_step_def)
  moreover have "nv_ftl (put_ctrl ?ct s2) = nv_ftl s" "nv_ctrl s2 = nv_ctrl s" using d by (simp_all add: die_step_def)
  ultimately show ?thesis using inv by (simp add: nv_good_iff)
qed

lemma move_packet_flow:
  assumes "i < NUM_PACKAGES c" "nv_good c T s"
  shows "partR (move_packet c i s) (nv_good c T)"
proof (cases "ct_outgoingPackets (nv_ctrl s) i")
  case (Some p)
  let ?s1 = "\<lambda>n. put_ctrl (nv_ctrl s\<lparr>ct_channelBeatsLeft := (ct_channelBeatsLeft (nv_ctrl s))(i := n)\<rparr>) s"
  have s1: "nv_good c T (?s1 n)" for n by (rule beats_good [OF assms(2)])
  have "partR (bindR (sendToBuffer c p (?s1 n)) (\<lambda>s2. let s3 = releaseChannel (pk_package p) CONTROLLER 0 s2
      in Inr (put_ctrl (nv_ctrl s3\<lparr>ct_outgoingPackets := (ct_outgoingPackets (nv_ctrl s3))(i := None)\<rparr>) s3))) (nv_good c T)" for n
  proof (cases "sendToBuffer c p (?s1 n)")
    case (Inr s2)
    obtain f where f: "releaseChannel (pk_package p) CONTROLLER 0 s2 = s2\<lparr>nv_channels := f\<rparr>" using release_shape by blast
    have "nv_good c T (put_ctrl (nv_ctrl s2\<lparr>ct_outgoingPackets := (ct_outgoingPackets (nv_ctrl s2))(i := None)\<rparr>) s2)"
      by (rule deliver_flow [OF assms(1) s1 _ Inr]) (simp add: Some)
    then have "nv_good c T ((put_ctrl (nv_ctrl s2\<lparr>ct_outgoingPackets := (ct_outgoingPackets (nv_ctrl s2))(i := None)\<rparr>) s2)\<lparr>nv_channels := f\<rparr>)"
      by (simp add: channels_good)
    then show ?thesis using Inr by (simp add: Let_def f put_ctrl_channels)
  qed simp
  note fin = this [of "u64_sub (ct_channelBeatsLeft (nv_ctrl s) i) 1"]
  show ?thesis unfolding move_packet_def Some option.case Let_def using s1 fin assms(2)
    by (simp only: partR.simps Let_def split: if_split) simp
qed (simp add: move_packet_def assms)

section \<open>Returning data\<close>

lemma front_return:
  assumes "front_inv c b" "fl_type t = F_RETURN_DATA" "front_addTransaction c t b = (ok, b')"
  shows "front_inv c b' \<and> front_reads c b' = front_reads c b \<and> front_returns b' = front_returns b + (if ok then {#fl_addr t#} else {#})"
proof -
  let ?b = "\<lambda>n. b\<lparr>fb_responses := fb_responses b @ [t], fb_responsesSize := n\<rparr>"
  obtain n where n: "b' = (if ok then ?b n else b)" using assms(2,3) by (auto simp: front_addTransaction_def split: if_splits)
  have eq: "chan_req c (?b n) = chan_req c b" "chan_cmd (?b n) = chan_cmd b" for n by (simp_all add: chan_req_def chan_cmd_def)
  have "front_inv c (?b n)" for n unfolding front_inv_def eq using assms(1,2) by (auto simp: front_inv_def)
  moreover have "front_reads c (?b n) = front_reads c b" for n unfolding front_reads_def eq by simp
  moreover have "front_returns (?b n) = front_returns b + {#fl_addr t#}" for n using assms(2) by (simp add: front_returns_def union_ac)
  ultimately show ?thesis using assms(1) n by (cases ok) simp_all
qed

lemma return_read_data_flow:
  assumes "nv_good c T (put_ctrl (nv_ctrl s\<lparr>ct_returnTransaction := rev ts\<rparr>) s)"
  shows "nv_good c T (return_read_data c ts s)"
  using assms
proof (induction ts arbitrary: s)
  case (Cons t ts)
  let ?ct = "\<lambda>ts. nv_ctrl s\<lparr>ct_returnTransaction := rev ts\<rparr>"
  have inv: "rest_inv c (put_ctrl (?ct (t # ts)) s)" "ftl_inv c (nv_ftl s)" "nv_keeps c T (beyond c (put_ctrl (?ct (t # ts)) s) + ftl_reads (nv_ftl s))"
    using Cons.prems by (simp_all add: nv_good_iff)
  have t: "fl_type t = F_RETURN_DATA" using inv(1) by (simp add: rest_inv_def ctrl_inv_def)
  have ci: "ctrl_inv c (?ct ts)" using inv(1) by (simp add: rest_inv_def ctrl_inv_def)
  have cr: "ctrl_reads c (?ct (t # ts)) = ctrl_reads c (?ct ts) + {#fl_addr t#}"
    using t by (simp add: ctrl_reads_def nv_queue_reads_def out_reads_def return_reads_def)
  show ?case
  proof (cases "FRONT_BUFFER c")
    case True
    obtain ok b where f: "front_addTransaction c t (nv_front s) = (ok, b)" by force
    have fr: "front_inv c b" "front_reads c b = front_reads c (nv_front s)"
      "front_returns b = front_returns (nv_front s) + (if ok then {#fl_addr t#} else {#})"
      using front_return [OF _ t f] inv(1) by (simp_all add: rest_inv_def)
    have "nv_good c T (put_ctrl (?ct (if ok then ts else t # ts)) (put_front b s))"
      using inv ci fr cr by (auto simp: nv_good_iff rest_inv_def beyond_ctrl union_ac)
    then show ?thesis using True f Cons.IH [of "put_front b s"] by (auto split: bool.splits)
  next
    case False
    have "nv_good c T (put_ctrl (?ct ts) (returnReadData t s))"
      using inv ci cr by (auto simp: nv_good_iff rest_inv_def beyond_ctrl returnReadData_def nv_call_def put_ctrl_def union_ac)
    then show ?thesis using False Cons.IH [of "returnReadData t s"] by (simp add: returnReadData_def nv_call_def)
  qed
qed simp

lemma controller_update_flow:
  assumes "0 < DIES_PER_PACKAGE c" "nv_good c T s"
  shows "partR (controller_update c s) (nv_good c T)"
proof -
  have "nv_good c T (fold (\<lambda>k. pick_packet c k 0) ks s)" if "\<forall>k\<in>set ks. k < NUM_PACKAGES c" for ks
    using that assms(2) by (induction ks arbitrary: s) (auto intro: pick_packet_flow [OF _ assms(1)])
  then have "partR (foldR (move_packet c) [0..<NUM_PACKAGES c] (fold (\<lambda>k. pick_packet c k 0) [0..<NUM_PACKAGES c] s)) (nv_good c T)"
    by (intro partR_fold) (auto intro: move_packet_flow)
  then show ?thesis unfolding controller_update_def
  proof (rule partR_bind)
    fix s1 assume "nv_good c T s1"
    then have "nv_good c T (put_ctrl (nv_ctrl s1\<lparr>ct_returnTransaction := rev (rev (ct_returnTransaction (nv_ctrl s1)))\<rparr>) s1)"
      by (simp add: put_ctrl_def)
    from return_read_data_flow [OF this] show "partR (Inr (return_read_data c (rev (ct_returnTransaction (nv_ctrl s1))) s1)) (nv_good c T)" by simp
  qed
qed

section \<open>Dies\<close>

lemma good_die_step: "nv_good c T s \<Longrightarrow> die_step c {#} s s' \<Longrightarrow> nv_good c T s'"
  by (simp add: nv_good_iff rest_inv_def beyond_def die_step_def)

lemma good_dies: "nv_good c T s \<Longrightarrow> \<forall>k j. die_inv (nv_dies s k j)"
  by (simp add: nv_good_iff rest_inv_def)

lemma put_die_good:
  assumes "nv_good c T s" "k < NUM_PACKAGES c" "j < DIES_PER_PACKAGE c" "die_inv d" "die_reads c d = die_reads c (nv_dies s k j)"
  shows "nv_good c T (put_die k j d s)"
  by (rule good_die_step [OF assms(1) die_step_put [OF good_dies [OF assms(1)] assms(2-4)]]) (simp add: assms(5))

lemma end_command_reads:
  assumes "i < PLANES_PER_DIE c" "di_currentCommands d i = Some p"
  shows "die_reads c (end_command i d) + reads_p [p] = die_reads c d"
proof -
  have "nv_cmd_reads c (end_command i d) + reads_p [p] = nv_cmd_reads c d"
    using sum_fun_upd [OF assms(1), of "\<lambda>x. reads_p (olist x)" "di_currentCommands d" None] assms(2)
    by (simp add: nv_cmd_reads_def end_command_def)
  then show ?thesis by (auto simp: die_reads_def end_command_def union_ac)
qed

lemma end_command_inv:
  assumes "die_inv d" "di_currentCommands d i = Some p"
  shows "die_inv (end_command i (put_plane (pk_plane p) pl d))" "die_inv (end_command i d)"
    "die_inv (end_command i (put_plane (pk_plane p) pl d\<lparr>di_returnDataPackets := ps\<rparr>))"
  using assms by (auto simp: die_inv_def end_command_def put_plane_def)

lemma call_good: "answered [e] = {#} \<Longrightarrow> CRIT_LINE_FIRST c \<or> crit_calls [e] = {} \<Longrightarrow> nv_good c T (nv_call e s) = nv_good c T s"
  by (simp add: nv_good_iff)

text \<open>A read that is over moves from the command to the return queue; the data register has it.\<close>

lemma read_over_reads:
  assumes "i < PLANES_PER_DIE c" "die_inv d" "di_currentCommands d i = Some p" "pk_type p = P_READ \<or> pk_type p = P_GC_READ"
    and "readFromData (di_planes d (pk_plane p)) = Inr (r, pl)"
  shows "die_reads c (end_command i (put_plane (pk_plane p) pl d\<lparr>di_returnDataPackets := di_returnDataPackets d @ [r]\<rparr>)) = die_reads c d"
proof -
  let ?d1 = "put_plane (pk_plane p) pl d\<lparr>di_returnDataPackets := di_returnDataPackets d @ [r]\<rparr>"
  have "pk_plane p = i" "dataReg (di_planes d i) = Some p" using assms(2-4) by (auto simp: die_inv_def)
  then have "r = p" using assms(5) by (auto simp: readFromData_def split: option.splits)
  have "die_reads c (end_command i ?d1) + reads_p [p] = die_reads c ?d1"
    by (rule end_command_reads [OF assms(1)]) (simp add: put_plane_def assms(3))
  also have "\<dots> = die_reads c d + reads_p [p]"
    using \<open>r = p\<close> by (simp add: die_reads_def nv_cmd_reads_def put_plane_def union_ac)
  finally show ?thesis by (rule add_right_imp_eq)
qed

lemma complete_command_flow:
  assumes "nv_good c T s" "k < NUM_PACKAGES c" "j < DIES_PER_PACKAGE c" "i < PLANES_PER_DIE c" "di_currentCommands (nv_dies s k j) i = Some p"
  shows "partR (complete_command c k j i p s) (nv_good c T)"
proof -
  let ?d = "nv_dies s k j" and ?pl = "di_planes (nv_dies s k j) (pk_plane p)"
  have di: "die_inv ?d" using good_dies [OF assms(1)] by simp
  note ei = end_command_inv [OF di assms(5)]
  have over: "nv_good c T (put_die k j (end_command i (put_plane (pk_plane p) pl' ?d\<lparr>di_returnDataPackets := di_returnDataPackets ?d @ [r]\<rparr>)) s0)"
    if "nv_good c T s0" "nv_dies s0 = nv_dies s" "readFromData ?pl = Inr (r, pl')" "pk_type p = P_READ \<or> pk_type p = P_GC_READ" for s0 r pl'
    by (rule put_die_good [OF that(1) assms(2,3) ei(3)]) (simp add: that(2) read_over_reads [OF assms(4) di assms(5) that(4,3)])
  have drop: "nv_good c T (put_die k j (end_command i ?d) s)" if "pk_type p \<noteq> P_READ"
    by (rule put_die_good [OF assms(1-3) ei(2)]) (use end_command_reads [OF assms(4,5)] that in simp)
  have wd: "nv_good c T (put_die k j (end_command i (put_plane (pk_plane p) pl' ?d)) (nv_call (WriteDataDone a) s))" if "pk_type p = P_WRITE" for pl' a
  proof (rule put_die_good [OF _ assms(2,3) ei(1)])
    show "nv_good c T (nv_call (WriteDataDone a) s)" using assms(1) by (simp add: call_good)
    have "di_currentCommands (put_plane (pk_plane p) pl' ?d) i = Some p" using assms(5) by (simp add: put_plane_def)
    from end_command_reads [OF assms(4) this] that
    show "die_reads c (end_command i (put_plane (pk_plane p) pl' ?d)) = die_reads c (nv_dies (nv_call (WriteDataDone a) s) k j)"
      by (simp add: nv_call_def)
  qed
  obtain f where gf: "GCReadDone c (pk_vaddr p) s = put_ftl f s" "ftl_keeps c (nv_ftl s) f"
    using GCReadDone_flow [of c s "pk_vaddr p"] assms(1) by (auto simp: nv_good_iff)
  have "nv_good c T (GCReadDone c (pk_vaddr p) s)" unfolding gf(1) by (rule put_keeps [OF assms(1) gf(2)])
  moreover have "nv_dies (GCReadDone c (pk_vaddr p) s) = nv_dies s" by (simp add: gf(1))
  ultimately show ?thesis using over [of s] over [of "GCReadDone c (pk_vaddr p) s"] drop wd assms(1)
    by (cases "pk_type p"; cases "readFromData ?pl"; cases "plane_writeDone c p ?pl") (auto simp: complete_command_def Let_def)
qed

lemma plane_step_flow:
  assumes "nv_good c T s" "k < NUM_PACKAGES c" "j < DIES_PER_PACKAGE c" "i < PLANES_PER_DIE c"
  shows "partR (plane_step c k j i s) (nv_good c T)"
proof -
  have "nv_good c T (put_die k j (nv_dies s k j\<lparr>di_controlCyclesLeft := f\<rparr>) s)" for f
    using good_dies [OF assms(1)] by (intro put_die_good assms) (simp_all add: die_inv_def die_reads_def nv_cmd_reads_def)
  then show ?thesis using complete_command_flow [OF assms] assms(1) by (auto simp: plane_step_def Let_def split: option.splits)
qed

lemma partR_if: "(b \<Longrightarrow> partR m P) \<Longrightarrow> (\<not> b \<Longrightarrow> partR n P) \<Longrightarrow> partR (if b then m else n) P"
  by simp

lemma send_data_flow:
  assumes "nv_good c T s" "k < NUM_PACKAGES c" "j < DIES_PER_PACKAGE c"
  shows "partR (send_data c k j s) (nv_good c T)"
proof (cases "di_returnDataPackets (nv_dies s k j)")
  case (Cons p ps)
  let ?d = "nv_dies s k j"
  let ?d1 = "put_plane (pk_plane p) (dataGone (di_planes ?d (pk_plane p))) ?d\<lparr>di_returnDataPackets := ps\<rparr>"
  let ?s1 = "put_die k j ?d1 s"
  have inv: "rest_inv c s" "ftl_inv c (nv_ftl s)" "nv_keeps c T (beyond c s + ftl_reads (nv_ftl s))" using assms(1) by (simp_all add: nv_good_iff)
  have "die_inv ?d1" using good_dies [OF assms(1)] by (auto simp: die_inv_def put_plane_def dataGone_def)
  moreover have "die_reads c ?d1 + reads_p [p] = die_reads c ?d" using Cons by (simp add: die_reads_def nv_cmd_reads_def put_plane_def union_ac)
  moreover have "dies_reads c (nv_dies ?s1) + die_reads c ?d = dies_reads c (nv_dies s) + die_reads c ?d1" by (rule put_die_flow [OF assms(2,3)])
  ultimately have s1: "rest_inv c ?s1" "dies_reads c (nv_dies ?s1) + reads_p [p] = dies_reads c (nv_dies s)"
    using put_die_inv [OF inv(1)] by (blast, blast intro: mset_take)
  let ?ct = "nv_ctrl s\<lparr>ct_returnTransaction := ct_returnTransaction (nv_ctrl s) @ [mkFlash F_RETURN_DATA (pk_vaddr p) (pk_data p)]\<rparr>"
  have rd: "nv_good c T (put_ctrl ?ct ?s1)" if "pk_type p = P_READ"
  proof -
    have "ctrl_reads c ?ct = ctrl_reads c (nv_ctrl s) + {#pk_vaddr p#}"
      by (simp add: ctrl_reads_def nv_queue_reads_def out_reads_def return_reads_def mkFlash_def)
    then have "beyond c (put_ctrl ?ct ?s1) = beyond c s" unfolding beyond_ctrl s1(2) [symmetric] using that by (simp add: union_ac)
    moreover have "ctrl_inv c ?ct" using inv(1) by (auto simp: rest_inv_def ctrl_inv_def mkFlash_def)
    ultimately show ?thesis using s1(1) inv by (simp add: nv_good_iff rest_inv_def)
  qed
  have gc: "nv_good c T ?s1" if "pk_type p = P_GC_READ"
    using s1 inv that by (simp add: nv_good_iff beyond_ctrl)
  have rel: "nv_good c T (releaseChannel k BUFFER j s') = nv_good c T s'" for s'
    using release_shape [of k BUFFER j s'] channels_good by auto
  show ?thesis using Cons rd gc rel by (cases "pk_type p") (simp_all add: send_data_def Let_def receiveFromChannel_def)
qed (simp add: send_data_def assms)

lemma return_packets_flow:
  assumes "nv_good c T s" "k < NUM_PACKAGES c" "j < DIES_PER_PACKAGE c"
  shows "partR (return_packets c k j s) (nv_good c T)"
proof (cases "di_returnDataPackets (nv_dies s k j)")
  case (Cons p ps)
  have cyc: "nv_good c T (put_die k j (nv_dies s' k j\<lparr>di_dataCyclesLeft := n\<rparr>) s')" if "nv_good c T s'" for s' n
    using good_dies [OF that] by (intro put_die_good that assms) (simp_all add: die_inv_def die_reads_def nv_cmd_reads_def)
  have crit: "partR (crit_line c k j s') (nv_good c T)" if "nv_good c T s'" for s'
    using that by (auto simp: crit_line_def Let_def call_good split: list.splits)
  have "partR (if di_dataCyclesLeft (nv_dies s k j) = 0 then send_data c k j s else Inr s) (nv_good c T)"
    using send_data_flow [OF assms] assms(1) by simp
  then have has: "partR (bindR (if di_dataCyclesLeft (nv_dies s k j) = 0 then send_data c k j s else Inr s) (\<lambda>s1. bindR (crit_line c k j s1) (\<lambda>s2.
      let d2 = nv_dies s2 k j in Inr (put_die k j (d2\<lparr>di_dataCyclesLeft := u64_sub (di_dataCyclesLeft d2) 1\<rparr>) s2)))) (nv_good c T)"
    by (rule partR_bind) (rule partR_bind [OF crit], simp_all add: Let_def cyc)
  have "partR (case obtainChannel k j BUFFER None s of
      (True, s1) \<Rightarrow> Inr (put_die k j (nv_dies s1 k j\<lparr>di_dataCyclesLeft := return_cycles c\<rparr>) s1) | (False, s1) \<Rightarrow> Inr s1) (nv_good c T)"
  proof -
    obtain ok s1 where o: "obtainChannel k j BUFFER None s = (ok, s1)" by force
    then have "nv_good c T s1" using obtain_shape [OF o] channels_good assms(1) by auto
    then show ?thesis using o cyc by (cases ok) simp_all
  qed
  note wait = this
  show ?thesis unfolding return_packets_def Let_def Cons list.case
    by (intro partR_if has [unfolded Let_def] wait) (use assms(1) in simp)
qed (simp add: return_packets_def assms)

section \<open>The device\<close>

lemma die_update_flow:
  assumes "nv_good c T s" "k < NUM_PACKAGES c" "j < DIES_PER_PACKAGE c"
  shows "partR (die_update c k j s) (nv_good c T)"
proof -
  have "partR (foldR (plane_step c k j) [0..<PLANES_PER_DIE c] s) (nv_good c T)"
    by (rule partR_fold) (use plane_step_flow assms in auto)
  then show ?thesis unfolding die_update_def by (rule partR_bind) (rule return_packets_flow [OF _ assms(2,3)])
qed

lemma nvdimm_pass_flow:
  assumes "sizes_ok c" "nv_good c T s"
  shows "partR (nvdimm_pass c n s) (nv_good c T)"
proof -
  have d: "0 < DIES_PER_PACKAGE c" using sizes_pos [OF assms(1)] by simp
  have front: "partR (if FRONT_BUFFER c then foldR (\<lambda>_. front_update c) [0..<n] s1 else Inr s1) (nv_good c T)" if "nv_good c T s1" for s1
    using that by (auto intro: partR_fold front_update_flow)
  have pack: "partR (package_update c k s1) (nv_good c T)" if "nv_good c T s1" "k < NUM_PACKAGES c" for s1 k
    unfolding package_update_def by (rule partR_fold) (use die_update_flow that in auto)
  have packs: "partR (foldR (package_update c) [0..<NUM_PACKAGES c] s1) (nv_good c T)" if "nv_good c T s1" for s1
    by (rule partR_fold) (use pack that in auto)
  show ?thesis unfolding nvdimm_pass_def
    by (intro partR_bind [OF update_ftl_flow [OF assms]] partR_bind [OF front] partR_bind [OF controller_update_flow [OF d]] packs)
qed

lemma nvdimm_update_flow: "sizes_ok c \<Longrightarrow> nv_good c T s \<Longrightarrow> partR (nvdimm_update c ns s) (nv_good c T)"
  unfolding nvdimm_update_def by (rule partR_fold) (auto intro: nvdimm_pass_flow)

lemma push_request_flow:
  assumes "front_inv c b" "host t"
  shows "front_inv c (push_request c t n b) \<and> front_returns (push_request c t n b) = front_returns b \<and>
    front_reads c (push_request c t n b) = front_reads c b + addrs_of F_DATA_READ [t]"
proof -
  let ?b = "push_request c t n b"
  have eq: "chan_req c ?b = chan_req c b" "chan_cmd ?b = chan_cmd b" by (simp_all add: chan_req_def chan_cmd_def push_request_def)
  have "front_inv c ?b" unfolding front_inv_def eq
    using assms paired_push [of "fb_pendingData b" "fb_pendingCommand b" "chan_req c b @ fb_requests b" "chan_cmd b @ fb_commands b" t]
    by (auto simp: front_inv_def push_request_def)
  moreover have "front_reads c ?b = front_reads c b + addrs_of F_DATA_READ [t]"
    unfolding front_reads_def eq by (simp add: push_request_def union_ac)
  moreover have "front_returns ?b = front_returns b" by (simp add: front_returns_def push_request_def)
  ultimately show ?thesis by blast
qed

lemma nv_add_flow:
  assumes "nv_good c T s" "nv_addTransaction c w a s = Inr (ok, s')"
  shows "nv_good c (T + (if ok \<and> \<not> w then {#a#} else {#})) s'"
proof -
  let ?t = "mkFlash (if w then F_DATA_WRITE else F_DATA_READ) a 0"
  have h: "host ?t" "addrs_of F_DATA_READ [?t] = (if w then {#} else {#a#})" by (simp_all add: host_def mkFlash_def)
  have inv: "rest_inv c s" "ftl_inv c (nv_ftl s)" "nv_keeps c T (beyond c s + ftl_reads (nv_ftl s))" using assms(1) by (simp_all add: nv_good_iff)
  show ?thesis
  proof (cases "FRONT_BUFFER c")
    case True
    then obtain b where f: "front_addTransaction c ?t (nv_front s) = (ok, b)" and s': "s' = put_front b s"
      using assms(2) by (auto simp: nv_addTransaction_def Let_def split: prod.splits)
    obtain n where b: "b = (if ok then push_request c ?t n (nv_front s) else nv_front s)"
      using f by (auto simp: front_addTransaction_def mkFlash_def split: if_splits)
    have fi: "front_inv c (nv_front s)" using inv(1) by (simp add: rest_inv_def)
    have "front_inv c b" "front_returns b = front_returns (nv_front s)"
      "front_reads c b = front_reads c (nv_front s) + (if ok \<and> \<not> w then {#a#} else {#})"
      using push_request_flow [OF fi h(1), of n] h(2) fi by (auto simp: b)
    then show ?thesis using inv nv_keeps_add [OF inv(3), of "if ok \<and> \<not> w then {#a#} else {#}"]
      by (simp add: s' nv_good_iff rest_inv_def beyond_def union_ac)
  next
    case False
    then have "addTransactionF c ?t s = Inr (ok, s')" using assms(2) by (simp add: nv_addTransaction_def Let_def)
    from addTransactionF_flow [OF inv(2) h(1) this] h(2) inv nv_keeps_add [OF inv(3), of "if ok \<and> \<not> w then {#a#} else {#}"]
    show ?thesis by (auto simp: same_but_ftl_def nv_good_iff rest_inv_def beyond_def union_ac)
  qed
qed

lemma good_new: "sizes_ok c \<Longrightarrow> nv_good c {#} (new_nvdimm c)"
  by (simp add: nv_good_iff rest_inv_def new_nvdimm_def new_front_def new_ftl_def new_ctrl_def new_die_def front_inv_def ftl_inv_def ctrl_inv_def
      die_inv_def current_ok_def map_inv_def map_ok_def umap_simps chan_req_def chan_cmd_def paired_Nil beyond_def front_reads_def front_returns_def ftl_reads_def nv_queue_reads_def
      out_reads_def return_reads_def dies_reads_def die_reads_def nv_cmd_reads_def sizes_pos)

end
