(* ===== verification/Nv_Properties.thy ===== *)
theory Nv_Properties
  imports Nv_Flow
begin

text \<open>
  What the flash simulator does with a sequence of requests and cycles, and where it goes wrong
  when the garbage collector runs.
\<close>

section \<open>Runs\<close>

text \<open>A request of the host, or an update with the channel cycles of its passes.\<close>

datatype nv_action = Nv_Submit bool nat | Nv_Cycle "nat list"

text \<open>The reads accepted so far and the device.\<close>

fun nv_exec :: "nv_cfg \<Rightarrow> nv_action list \<Rightarrow> nat multiset \<times> nvdimm \<Rightarrow> nverr + nat multiset \<times> nvdimm" where
  "nv_exec c [] x = Inr x"
| "nv_exec c (Nv_Submit w a # acts) (T, s) =
     bindR (nv_addTransaction c w a s) (\<lambda>(ok, s'). nv_exec c acts (T + (if ok \<and> \<not> w then {#a#} else {#}), s'))"
| "nv_exec c (Nv_Cycle ns # acts) (T, s) = bindR (nvdimm_update c ns s) (\<lambda>s'. nv_exec c acts (T, s'))"

lemma nv_exec_good: "sizes_ok c \<Longrightarrow> nv_good c T s \<Longrightarrow> nv_exec c acts (T, s) = Inr (T', s') \<Longrightarrow> nv_good c T' s'"
proof (induction c acts "(T, s)" arbitrary: T s rule: nv_exec.induct)
  case (2 c w a acts T s)
  obtain ok s1 where s1: "nv_addTransaction c w a s = Inr (ok, s1)" "nv_exec c acts (T + (if ok \<and> \<not> w then {#a#} else {#}), s1) = Inr (T', s')"
    using 2 by (auto simp: bindR_eq_Inr)
  show ?case by (rule "2.hyps" [OF "2.prems"(1) nv_add_flow [OF "2.prems"(2) s1(1)] s1(2)])
next
  case (3 c ns acts T s)
  then obtain s1 where "nvdimm_update c ns s = Inr s1" "nv_exec c acts (T, s1) = Inr (T', s')" by (auto simp: bindR_eq_Inr)
  then show ?case using 3 nvdimm_update_flow [of c T s ns] by simp
qed simp

section \<open>Reads are answered once\<close>

text \<open>C6. The flash simulator answers only reads that it accepted, each at most once. When the garbage
  collector cannot start, none is lost: every accepted read was answered or is still on its way, in
  the front buffer, the translation layer, the controller, on a channel or in a die.\<close>

theorem flash_answers_once:
  assumes "sizes_ok c" "nv_exec c acts ({#}, new_nvdimm c) = Inr (asked, s)"
  shows "answered (nv_calls s) \<subseteq># asked \<and> (\<not> gc_active c \<longrightarrow> asked = answered (nv_calls s) + nv_waiting c s)"
proof -
  have g: "nv_good c asked s" using nv_exec_good [OF assms(1) good_new [OF assms(1)] assms(2)] .
  then show ?thesis using good_answered [OF g] by (auto simp: nv_good_def nv_keeps_def ledger_split)
qed

text \<open>Four pages, and no collection.\<close>

definition probe_cfg :: nv_cfg where
  "probe_cfg = \<lparr>NUM_PACKAGES = 1, DIES_PER_PACKAGE = 1, PLANES_PER_DIE = 1, BLOCKS_PER_PLANE = 2, VIRTUAL_BLOCKS_PER_PLANE = 2,
     PAGES_PER_BLOCK = 2, NV_PAGE_SIZE = 64, SCHEDULE = False, PERFECT_SCHEDULE = False, WRITE_ON_QUEUE_SIZE = False,
     WRITE_QUEUE_LIMIT = 0, IDLE_WRITE = False, DELAY_WRITE = False, DELAY_WRITE_CYCLES = 0, DISK_READ = False,
     FRONT_BUFFER = False, REQUEST_BUFFER_SIZE = 0, RESPONSE_BUFFER_SIZE = 0, ENABLE_COMMAND_CHANNEL = False,
     COMMAND_CHANNEL_WIDTH = 8, ENABLE_REQUEST_CHANNEL = False, REQUEST_CHANNEL_WIDTH = 8, NV_CHANNEL_WIDTH = 8,
     NV_DEVICE_WIDTH = 8, COMMAND_LENGTH = 8, CRIT_LINE_FIRST = False, GARBAGE_COLLECT = True, IN_PLACE_DEVICE = False,
     FTL_READ_QUEUE_LENGTH = 4, FTL_WRITE_QUEUE_LENGTH = 4, CTRL_READ_QUEUE_LENGTH = 4, LOOKUP_CYCLES = 0,
     QUEUE_ACCESS_CYCLES = 0, READ_CYCLES = 0, WRITE_CYCLES = 0, ERASE_CYCLES = 0, return_cycles = 0, critBeat = 1,
     deadlock_time = 1, divide_params = (\<lambda>a b. 2), force_gc = (\<lambda>_. False), all_used = (\<lambda>_. False), checkGC = (\<lambda>_. False)\<rparr>"

lemma probe_sel [simp]:
  "NUM_PACKAGES probe_cfg = 1" "DIES_PER_PACKAGE probe_cfg = 1" "PLANES_PER_DIE probe_cfg = 1" "BLOCKS_PER_PLANE probe_cfg = 2"
  "VIRTUAL_BLOCKS_PER_PLANE probe_cfg = 2" "PAGES_PER_BLOCK probe_cfg = 2" "NV_PAGE_SIZE probe_cfg = 64"
  "SCHEDULE probe_cfg = False" "PERFECT_SCHEDULE probe_cfg = False" "WRITE_ON_QUEUE_SIZE probe_cfg = False"
  "WRITE_QUEUE_LIMIT probe_cfg = 0" "IDLE_WRITE probe_cfg = False" "DELAY_WRITE probe_cfg = False"
  "DELAY_WRITE_CYCLES probe_cfg = 0" "DISK_READ probe_cfg = False" "FRONT_BUFFER probe_cfg = False"
  "REQUEST_BUFFER_SIZE probe_cfg = 0" "RESPONSE_BUFFER_SIZE probe_cfg = 0" "ENABLE_COMMAND_CHANNEL probe_cfg = False"
  "COMMAND_CHANNEL_WIDTH probe_cfg = 8" "ENABLE_REQUEST_CHANNEL probe_cfg = False" "REQUEST_CHANNEL_WIDTH probe_cfg = 8"
  "NV_CHANNEL_WIDTH probe_cfg = 8" "NV_DEVICE_WIDTH probe_cfg = 8" "COMMAND_LENGTH probe_cfg = 8"
  "CRIT_LINE_FIRST probe_cfg = False" "GARBAGE_COLLECT probe_cfg = True" "IN_PLACE_DEVICE probe_cfg = False"
  "FTL_READ_QUEUE_LENGTH probe_cfg = 4" "FTL_WRITE_QUEUE_LENGTH probe_cfg = 4" "CTRL_READ_QUEUE_LENGTH probe_cfg = 4"
  "LOOKUP_CYCLES probe_cfg = 0" "QUEUE_ACCESS_CYCLES probe_cfg = 0" "READ_CYCLES probe_cfg = 0" "WRITE_CYCLES probe_cfg = 0"
  "ERASE_CYCLES probe_cfg = 0" "return_cycles probe_cfg = 0" "critBeat probe_cfg = 1" "deadlock_time probe_cfg = 1"
  "divide_params probe_cfg a b = 2" "force_gc probe_cfg n = False" "all_used probe_cfg n = False" "checkGC probe_cfg n = False"
  by (simp_all add: probe_cfg_def)

lemma probe_sizes [simp]: "BLOCK_SIZE probe_cfg = 128" "TOTAL_SIZE probe_cfg = 256" "VIRTUAL_TOTAL_SIZE probe_cfg = 256"
  by (simp_all add: BLOCK_SIZE_def TOTAL_SIZE_def VIRTUAL_TOTAL_SIZE_def)

lemma probe_ok: "sizes_ok probe_cfg" "\<not> gc_active probe_cfg"
  by (simp_all add: sizes_ok_def gc_active_def)

definition probe_asked :: nvdimm where
  "probe_asked = put_ftl ((new_ftl probe_cfg)\<lparr>ft_readQueue := [mkFlash F_DATA_READ 64 0]\<rparr>) (new_nvdimm probe_cfg)"

definition probe_busy :: nvdimm where
  "probe_busy = put_ftl (begin_transaction probe_cfg (mkFlash F_DATA_READ 64 0) (nv_ftl probe_asked)) probe_asked"

definition probe_answered :: nvdimm where
  "probe_answered = put_ftl ((nv_ftl probe_busy)\<lparr>ft_readQueue := [], ft_read_iterator_counter := 0, ft_busy := False\<rparr>)
     (returnUnmappedData (mkFlash F_RETURN_DATA 64 3735928559) probe_busy)"

lemmas probe_defs = probe_asked_def probe_busy_def probe_answered_def new_nvdimm_def new_ftl_def new_ctrl_def new_die_def new_front_def put_ftl_def

lemma probe_submit: "nv_addTransaction probe_cfg False 64 (new_nvdimm probe_cfg) = Inr (True, probe_asked)"
  by (simp add: nv_addTransaction_def addTransactionF_def gc_addTransaction_def add_by_schedule_def attemptAdd_def VIRTUAL_TOTAL_SIZE_def mkFlash_def probe_defs Let_def)

lemma probe_rest: "nv_ctrl s = new_ctrl \<Longrightarrow> nv_dies s = (\<lambda>_ _. new_die) \<Longrightarrow>
   bindR (controller_update probe_cfg s) (foldR (package_update probe_cfg) [0..<NUM_PACKAGES probe_cfg]) = Inr s"
  by (cases s) (auto simp: controller_update_def package_update_def die_update_def plane_step_def return_packets_def pick_packet.simps next_die_def put_ctrl_def
      move_packet_def new_die_def new_ctrl_def Let_def)

lemma probe_passes: "nvdimm_pass probe_cfg n probe_asked = Inr probe_busy" "nvdimm_pass probe_cfg n probe_busy = Inr probe_answered"
proof -
  have "update_ftl probe_cfg probe_asked = Inr probe_busy"
    by (simp add: update_ftl_def gc_update_def gc_finished_def gc_forced_def gc_next_def next_transaction_def next_unscheduled_def gc_idle_def begin_transaction_def
        probe_defs Let_def)
  then show "nvdimm_pass probe_cfg n probe_asked = Inr probe_busy"
    using probe_rest [of probe_busy] by (simp add: nvdimm_pass_def probe_busy_def probe_asked_def new_nvdimm_def put_ftl_def)
  have "update_ftl probe_cfg probe_busy = Inr probe_answered"
    by (simp add: update_ftl_def gc_update_def gc_finished_def gc_forced_def gc_dispatch_def handle_read_def read_mapped_page_def finish_read_def popFront_def gc_popFront_def
        pop_read_def begin_transaction_def um_get_def mkFlash_def probe_defs Let_def)
  then show "nvdimm_pass probe_cfg n probe_busy = Inr probe_answered"
    using probe_rest [of probe_answered]
    by (simp add: nvdimm_pass_def probe_answered_def probe_busy_def probe_asked_def new_nvdimm_def put_ftl_def returnUnmappedData_def nv_call_def)
qed

theorem flash_answers_once_witness:
  "sizes_ok probe_cfg \<and> nv_exec probe_cfg [Nv_Submit False 64, Nv_Cycle [0, 0]] ({#}, new_nvdimm probe_cfg) = Inr ({#64#}, probe_answered) \<and>
   answered (nv_calls probe_answered) = {#64#} \<and> nv_waiting probe_cfg probe_answered = {#}"
proof -
  have e: "nv_exec probe_cfg [Nv_Submit False 64, Nv_Cycle [0, 0]] ({#}, new_nvdimm probe_cfg) = Inr ({#64#}, probe_answered)"
    by (simp add: probe_submit probe_passes nvdimm_update_def)
  have a: "answered (nv_calls probe_answered) = {#64#}"
    by (simp add: probe_answered_def probe_busy_def probe_asked_def new_nvdimm_def put_ftl_def returnUnmappedData_def nv_call_def mkFlash_def)
  show ?thesis using flash_answers_once [OF probe_ok(1) e] probe_ok e a by simp
qed

section \<open>Pages\<close>











section \<open>Faults\<close>

text \<open>
  The second search for a free page ends at \<open>start / BLOCK_SIZE\<close>, although \<open>start\<close> counts blocks. When
  the pages from the write pointer on are in use, a write ends the program as if the flash were full,
  whatever is free below the write pointer.
\<close>

lemma write_stops_below_pointer:
  assumes "\<not> um_has (ft_addressMap (nv_ftl s)) (fl_addr (ft_currentTransaction (nv_ftl s)))"
    and "write_start c (nv_ftl s) < BLOCK_SIZE c"
    and "\<forall>b\<in>{write_start c (nv_ftl s)..<TOTAL_SIZE c div BLOCK_SIZE c}. \<forall>p<PAGES_PER_BLOCK c. ft_used (nv_ftl s) b p"
  shows "handle_write c gc s = Inl Flash_Full"
proof -
  have "find_free c (ft_used (nv_ftl s)) (write_start c (nv_ftl s)) (TOTAL_SIZE c div BLOCK_SIZE c) = None"
    using assms(3) by (auto simp: find_free_def find_None_iff)
  moreover have "find_free c (ft_used (nv_ftl s)) 0 (write_start c (nv_ftl s) div BLOCK_SIZE c) = None"
    using assms(2) by (simp add: find_free_def)
  ultimately show ?thesis using assms(1) by (simp add: handle_write_def search_free_def Let_def)
qed

text \<open>
  A write of the collector leaves the queue of the host: \<open>write_success\<close> calls \<open>popFront(WRITE)\<close>, so the
  oldest request of the host is dropped, and the write of the collector stays in its queue.
\<close>

lemma write_success_pops:
  assumes "GARBAGE_COLLECT c" "\<not> SCHEDULE c" "\<not> PERFECT_SCHEDULE c" "write_success c block page v a f = Inr f'"
  shows "ft_readQueue f' = tl (ft_readQueue f) \<and> ft_gcQueue f' = ft_gcQueue f"
  using assms by (cases "ft_readQueue f") (auto simp: write_success_def popFront_def gc_popFront_def pop_read_def)

lemma place_write_pops:
  assumes "GARBAGE_COLLECT c" "\<not> SCHEDULE c" "\<not> PERFECT_SCHEDULE c" "place_write c gc block page 0 s = Inr s'"
    and "\<not> ft_write_queues_full (nv_ftl s')"
  shows "ft_readQueue (nv_ftl s') = tl (ft_readQueue (nv_ftl s)) \<and> ft_gcQueue (nv_ftl s') = ft_gcQueue (nv_ftl s)"
proof -
  have a: "ft_readQueue (advance_pointer c f) = ft_readQueue f" "ft_gcQueue (advance_pointer c f) = ft_gcQueue f" for f
    by (simp_all add: advance_pointer_def Let_def)
  show ?thesis using assms(4) [unfolded place_write.simps [of c gc block page 0 s]] assms(1-3,5)
    by (auto simp: bindR_eq_Inr put_ftl_def Let_def a split: if_splits dest: write_success_pops)
qed

lemma gc_write_drops_host:
  assumes "GARBAGE_COLLECT c" "\<not> SCHEDULE c" "\<not> PERFECT_SCHEDULE c" "handle_write c True s = Inr s'"
    and "\<not> ft_write_queues_full (nv_ftl s')"
  shows "ft_readQueue (nv_ftl s') = tl (ft_readQueue (nv_ftl s)) \<and> ft_gcQueue (nv_ftl s') = ft_gcQueue (nv_ftl s)"
proof -
  have u: "ft_readQueue (write_used_handler c v f) = ft_readQueue f \<and> ft_gcQueue (write_used_handler c v f) = ft_gcQueue f" for v f
    by (simp add: write_used_handler_def split: prod.splits)
  obtain block page f where f: "place_write c True block page 0 (put_ftl f s) = Inr s'"
    "ft_readQueue f = ft_readQueue (nv_ftl s)" "ft_gcQueue f = ft_gcQueue (nv_ftl s)"
    using assms(4) u by (fastforce simp: handle_write_def Let_def split: option.splits if_splits)
  show ?thesis using place_write_pops [OF assms(1-3) f(1) assms(5)] f(2,3) by (simp add: put_ftl_def)
qed

text \<open>
  A write of the collector never leaves the data register: \<open>Die::update\<close> calls \<open>writeDone\<close> for the writes
  of the host only. The next read of the plane aborts.
\<close>

lemma gc_write_jams_plane:
  assumes cmd: "di_currentCommands (nv_dies s k j) i = Some p" "pk_type p = P_GC_WRITE" "pk_plane p = i" "di_controlCyclesLeft (nv_dies s k j) i = 0"
    and reg: "dataReg (di_planes (nv_dies s k j) i) \<noteq> None"
    and q: "pk_type q = P_READ" "pk_package q = k" "pk_die q = j" "pk_plane q = i"
  shows "\<exists>s'. plane_step c k j i s = Inr s' \<and> receiveFromBuffer c q s' = Inl Registers_Full"
  using assms
  by (auto simp: plane_step_def complete_command_def put_die_def end_command_def receiveFromBuffer_def plane_read_def Let_def)

end
