(* ===== verification/Nv_Safe.thy ===== *)
theory Nv_Safe
  imports Nv_Flow
begin

text \<open>
  The protocol between the controller and the planes while nothing is collected. For each plane, the
  packets on their way to it are reads and pairs of data and write command; what is in its registers
  fits to its command and to the packets; a packet on the channel is one that the plane will take;
  and no page is written twice. Shown: each step of a plane succeeds and keeps this.
\<close>

section \<open>Allowed ends\<close>

text \<open>
  The device may run out of pages, and a scheduled read that finds its page in the write queue reads
  past the end of that queue.
\<close>

definition nv_stop :: "nv_cfg \<Rightarrow> nverr \<Rightarrow> bool" where
  "nv_stop c e \<longleftrightarrow> e = Flash_Full \<or> (SCHEDULE c \<and> e = Undefined_Iterator)"

fun nv_ok :: "nv_cfg \<Rightarrow> nverr + 'a \<Rightarrow> ('a \<Rightarrow> bool) \<Rightarrow> bool" where
  "nv_ok c (Inl e) Q = nv_stop c e"
| "nv_ok c (Inr x) Q = Q x"

lemma nv_ok_bind: "nv_ok c (bindR m f) Q \<longleftrightarrow> nv_ok c m (\<lambda>x. nv_ok c (f x) Q)"
  by (cases m) auto

lemma nv_ok_mono: "nv_ok c m P \<Longrightarrow> (\<And>x. P x \<Longrightarrow> Q x) \<Longrightarrow> nv_ok c m Q"
  by (cases m) auto

lemma nv_ok_part: "nv_ok c m P \<Longrightarrow> partR m Q \<Longrightarrow> nv_ok c m (\<lambda>x. P x \<and> Q x)"
  by (cases m) auto

lemma nv_ok_fold:
  "(\<And>x s. x \<in> set xs \<Longrightarrow> P s \<Longrightarrow> nv_ok c (f x s) P) \<Longrightarrow> P s \<Longrightarrow> nv_ok c (foldR f xs s) P"
proof (induction xs arbitrary: s)
  case (Cons x xs)
  have "nv_ok c (f x s) P" using Cons.prems by simp
  then show ?case using Cons.IH Cons.prems(1) by (auto simp: nv_ok_bind intro: nv_ok_mono)
qed simp

section \<open>One plane\<close>

text \<open>The packets for a plane; with the flag, the data of the first write is in the cache register.\<close>

fun line_paired :: "bool \<Rightarrow> ChannelPacket list \<Rightarrow> bool" where
  "line_paired True [] = False"
| "line_paired True (w # l) = (pk_type w = P_WRITE \<and> line_paired False l)"
| "line_paired False [] = True"
| "line_paired False (p # l) = (if pk_type p = P_READ then line_paired False l else pk_type p = P_DATA \<and> line_paired True l)"

lemma line_paired_append: "line_paired b l \<Longrightarrow> line_paired False m \<Longrightarrow> line_paired b (l @ m)"
  by (induction b l rule: line_paired.induct) (auto split: if_splits)

definition has_data :: "nvplane \<Rightarrow> bool" where
  "has_data pl \<longleftrightarrow> (\<exists>d. cacheReg pl = Some d \<and> pk_type d = P_DATA)"

lemma has_data_simps [simp]:
  "has_data (pl\<lparr>dataReg := x\<rparr>) = has_data pl" "has_data (pl\<lparr>blocks := y\<rparr>) = has_data pl"
  "has_data (pl\<lparr>cacheReg := None\<rparr>) = False" "has_data (pl\<lparr>cacheReg := Some p\<rparr>) = (pk_type p = P_DATA)"
  by (auto simp: has_data_def)

lemma has_data_None: "cacheReg pl = None \<Longrightarrow> \<not> has_data pl"
  by (simp add: has_data_def)

definition regs_ok :: "ChannelPacket option \<Rightarrow> nvplane \<Rightarrow> bool" where
  "regs_ok cmd pl \<longleftrightarrow> (case cmd of None \<Rightarrow> dataReg pl = None
     | Some p \<Rightarrow> dataReg pl \<noteq> None \<and> (pk_type p = P_READ \<and> dataReg pl = Some p \<or> pk_type p = P_WRITE))"

definition rets_ok :: "nvplane \<Rightarrow> ChannelPacket list \<Rightarrow> bool" where
  "rets_ok pl rets \<longleftrightarrow> (\<forall>r\<in>set rets. pk_type r = P_READ) \<and>
     (case cacheReg pl of None \<Rightarrow> rets = [] | Some r \<Rightarrow> pk_type r = P_READ \<and> length rets = 1 \<or> pk_type r = P_DATA \<and> rets = [])"

text \<open>The plane will take a packet that is on the channel.\<close>

definition accepts :: "ChannelPacket option \<Rightarrow> nvplane \<Rightarrow> ChannelPacket \<Rightarrow> bool" where
  "accepts cmd pl p \<longleftrightarrow> (if pk_type p = P_DATA then cacheReg pl = None \<and> (\<forall>q. cmd = Some q \<longrightarrow> pk_type q = P_WRITE) else cmd = None)"

definition written :: "ChannelPacket list \<Rightarrow> (nat \<times> nat) list" where
  "written ps = map (\<lambda>p. (pk_block p, pk_page p)) (filter (\<lambda>p. pk_type p = P_WRITE) ps)"

lemma written_simps [simp]:
  "written [] = []" "written (p # ps) = (if pk_type p = P_WRITE then [(pk_block p, pk_page p)] else []) @ written ps"
  "written (ps @ qs) = written ps @ written qs"
  by (auto simp: written_def)

text \<open>Pages to be written are in use and hold nothing yet; pages that hold something are in use.\<close>

definition pages_ok :: "(nat \<Rightarrow> nat \<Rightarrow> bool) \<Rightarrow> ChannelPacket list \<Rightarrow> nvplane \<Rightarrow> bool" where
  "pages_ok u ps pl \<longleftrightarrow> distinct (written ps) \<and> (\<forall>(b, p)\<in>set (written ps). u b p \<and> block_at pl b p = None) \<and>
     (\<forall>b p. block_at pl b p \<noteq> None \<longrightarrow> u b p)"

definition plane_safe :: "nv_cfg \<Rightarrow> (nat \<Rightarrow> nat \<Rightarrow> bool) \<Rightarrow> ChannelPacket list \<Rightarrow> ChannelPacket list \<Rightarrow> ChannelPacket option \<Rightarrow>
    nvplane \<Rightarrow> ChannelPacket list \<Rightarrow> bool" where
  "plane_safe c u outs q cmd pl rets \<longleftrightarrow> regs_ok cmd pl \<and> rets_ok pl rets \<and> line_paired (has_data pl) (outs @ q) \<and>
     (\<forall>p\<in>set outs. accepts cmd pl p) \<and> (GARBAGE_COLLECT c \<longrightarrow> pages_ok u (olist cmd @ outs @ q) pl)"

lemma pages_ok_used: "pages_ok u ps pl \<Longrightarrow> (\<And>b p. u b p \<Longrightarrow> u' b p) \<Longrightarrow> pages_ok u' ps pl"
  unfolding pages_ok_def by blast

lemma plane_safe_used: "plane_safe c u outs q cmd pl rets \<Longrightarrow> (\<And>b p. GARBAGE_COLLECT c \<Longrightarrow> u b p \<Longrightarrow> u' b p) \<Longrightarrow> plane_safe c u' outs q cmd pl rets"
  by (auto simp: plane_safe_def elim: pages_ok_used)

lemma plane_push_read: "plane_safe c u outs q cmd pl rets \<Longrightarrow> pk_type p = P_READ \<Longrightarrow> plane_safe c u outs (q @ [p]) cmd pl rets"
  using line_paired_append [of _ "outs @ q" "[p]"] by (auto simp: plane_safe_def pages_ok_def)

lemma plane_push_write:
  assumes "plane_safe c u outs q cmd pl rets" "pk_type d = P_DATA" "pk_type w = P_WRITE"
    and "GARBAGE_COLLECT c \<Longrightarrow> \<not> u (pk_block w) (pk_page w) \<and> u' (pk_block w) (pk_page w) \<and> (\<forall>b p. u b p \<longrightarrow> u' b p)"
  shows "plane_safe c u' outs (q @ [d, w]) cmd pl rets"
proof -
  have "line_paired (has_data pl) ((outs @ q) @ [d, w])" using assms(1-3) by (intro line_paired_append [of _ "outs @ q"]) (auto simp: plane_safe_def)
  moreover have "pages_ok u' (olist cmd @ outs @ q @ [d, w]) pl" if "GARBAGE_COLLECT c"
  proof -
    have p: "pages_ok u (olist cmd @ outs @ q) pl" using assms(1) that by (simp add: plane_safe_def)
    have n: "(pk_block w, pk_page w) \<notin> set (written (olist cmd @ outs @ q))" "block_at pl (pk_block w) (pk_page w) = None"
      using p assms(4) [OF that] by (auto simp: pages_ok_def)
    then show ?thesis using p assms(2-4) that by (fastforce simp: pages_ok_def)
  qed
  ultimately show ?thesis using assms(1) by (simp add: plane_safe_def)
qed

text \<open>A packet is put on the channel.\<close>

lemma plane_issue:
  assumes "plane_safe c u [] (p # q) cmd pl rets"
    and "cmd = None \<and> (pk_type p = P_DATA \<longrightarrow> cacheReg pl = None) \<or> pk_type p = P_DATA \<and> cacheReg pl = None \<and> (\<exists>r. cmd = Some r \<and> pk_type r = P_WRITE)"
  shows "plane_safe c u [p] q cmd pl rets"
  using assms by (auto simp: plane_safe_def accepts_def)

lemma paired_read: "line_paired b (p # q) \<Longrightarrow> pk_type p = P_READ \<Longrightarrow> \<not> b \<and> line_paired False q"
  by (cases b) auto

lemma paired_data: "line_paired b (p # q) \<Longrightarrow> pk_type p = P_DATA \<Longrightarrow> \<not> b \<and> line_paired True q"
  by (cases b) auto

lemma paired_write: "line_paired b (p # q) \<Longrightarrow> pk_type p = P_WRITE \<Longrightarrow> b \<and> line_paired False q"
  by (cases b) auto

lemma block_at_upd [simp]:
  "block_at (pl\<lparr>blocks := (blocks pl)(b := Some (block_at pl b))\<rparr>) = block_at pl"
  "block_at (pl\<lparr>dataReg := x\<rparr>) = block_at pl" "block_at (pl\<lparr>cacheReg := x\<rparr>) = block_at pl"
  "block_at (pl\<lparr>blocks := (blocks pl)(b := Some g)\<rparr>) = (block_at pl)(b := g)"
  by (auto simp: block_at_def)

text \<open>The plane takes the packet.\<close>

lemma plane_take_read:
  assumes "plane_safe c u [p] q cmd pl rets" "pk_type p = P_READ"
  shows "cmd = None \<and> (\<exists>p' pl'. plane_read p pl = Inr (p', pl') \<and> pk_plane p' = pk_plane p \<and> plane_safe c u [] q (Some p') pl' rets)"
proof -
  have n: "cmd = None" "dataReg pl = None" "\<not> has_data pl" "line_paired False q"
    using assms paired_read [of _ p q] by (auto simp: plane_safe_def accepts_def regs_ok_def)
  obtain p' where p': "plane_read p pl = Inr (p', pl\<lparr>dataReg := Some p'\<rparr>)" "pk_type p' = P_READ" "pk_plane p' = pk_plane p"
    using n(2) assms(2) by (auto simp: plane_read_def Let_def split: option.splits)
  have "plane_safe c u [] q (Some p') (pl\<lparr>dataReg := Some p'\<rparr>) rets"
    using assms n p'(2) by (auto simp: plane_safe_def regs_ok_def rets_ok_def pages_ok_def)
  then show ?thesis using n(1) p' by blast
qed

lemma plane_take_data:
  assumes "plane_safe c u [p] q cmd pl rets" "pk_type p = P_DATA"
  shows "storeInData p pl = Inr (pl\<lparr>cacheReg := Some p\<rparr>) \<and> plane_safe c u [] q cmd (pl\<lparr>cacheReg := Some p\<rparr>) rets"
proof -
  have n: "cacheReg pl = None" "line_paired True q" using assms paired_data [of _ p q] by (auto simp: plane_safe_def accepts_def)
  then show ?thesis using assms
    by (auto simp: plane_safe_def storeInData_def regs_ok_def rets_ok_def pages_ok_def block_at_def split: option.splits)
qed

lemma plane_take_write:
  assumes "plane_safe c u [p] q cmd pl rets" "pk_type p = P_WRITE"
  shows "cmd = None \<and> (\<exists>pl'. plane_write c p pl = Inr pl' \<and> plane_safe c u [] q (Some p) pl' rets)"
proof -
  have n: "cmd = None" "has_data pl" "line_paired False q" using assms paired_write [of _ p q] by (auto simp: plane_safe_def accepts_def)
  then obtain d where d: "cacheReg pl = Some d" "pk_type d = P_DATA" by (auto simp: has_data_def)
  let ?pl = "pl\<lparr>blocks := (blocks pl)(pk_block p := Some (block_at pl (pk_block p))), dataReg := Some d, cacheReg := None\<rparr>"
  have "plane_write c p pl = Inr ?pl" using d assms(2) by (simp add: plane_write_def Let_def)
  moreover have "block_at ?pl = block_at pl" by (auto simp: block_at_def)
  then have "plane_safe c u [] q (Some p) ?pl rets"
    using assms n d by (auto simp: plane_safe_def regs_ok_def rets_ok_def pages_ok_def)
  ultimately show ?thesis using n(1) by blast
qed

text \<open>The command of the plane ends.\<close>

lemma plane_end_read:
  assumes "plane_safe c u outs q (Some p) pl rets" "pk_type p = P_READ" "cacheReg pl = None"
  shows "\<exists>pl'. readFromData pl = Inr (p, pl') \<and> plane_safe c u outs q None pl' (rets @ [p])"
proof -
  have n: "outs = []" "dataReg pl = Some p" "rets = []" using assms by (auto simp: plane_safe_def accepts_def regs_ok_def rets_ok_def split: if_splits)
  have "plane_safe c u outs q None (pl\<lparr>cacheReg := Some p, dataReg := None\<rparr>) [p]"
    using assms n has_data_None [OF assms(3)] by (auto simp: plane_safe_def regs_ok_def rets_ok_def pages_ok_def)
  then show ?thesis using n assms(3) by (auto simp: readFromData_def)
qed

lemma plane_end_write:
  assumes "plane_safe c u outs q (Some p) pl rets" "pk_type p = P_WRITE"
  shows "\<exists>pl'. plane_writeDone c p pl = Inr pl' \<and> plane_safe c u outs q None pl' rets"
proof -
  obtain r where r: "dataReg pl = Some r" using assms by (auto simp: plane_safe_def regs_ok_def)
  let ?b = "block_at pl (pk_block p)"
  let ?pl = "pl\<lparr>blocks := (blocks pl)(pk_block p := Some (?b(pk_page p := Some (pk_data r)))), dataReg := None\<rparr>"
  have "GARBAGE_COLLECT c \<Longrightarrow> ?b (pk_page p) = None" using assms by (auto simp: plane_safe_def pages_ok_def)
  then have "plane_writeDone c p pl = Inr ?pl" using r by (simp add: plane_writeDone_def block_write_def)
  moreover have "pages_ok u (olist None @ outs @ q) ?pl" if "GARBAGE_COLLECT c"
  proof -
    have p: "pages_ok u ((p # outs) @ q) pl" using assms(1) that by (simp add: plane_safe_def)
    then show ?thesis using assms(2) by (fastforce simp: pages_ok_def)
  qed
  then have "plane_safe c u outs q None ?pl rets"
    using assms r by (auto simp: plane_safe_def regs_ok_def rets_ok_def accepts_def split: if_splits)
  ultimately show ?thesis by blast
qed

lemma plane_data_gone:
  assumes "plane_safe c u outs q cmd pl (p # rets)"
  shows "pk_type p = P_READ \<and> plane_safe c u outs q cmd (dataGone pl) rets"
proof -
  obtain r where r: "cacheReg pl = Some r" "pk_type r = P_READ" "rets = []" using assms by (auto simp: plane_safe_def rets_ok_def split: option.splits)
  then have "\<not> has_data pl" by (simp add: has_data_def)
  then show ?thesis using assms r by (auto simp: plane_safe_def regs_ok_def rets_ok_def pages_ok_def accepts_def dataGone_def split: option.splits)
qed

section \<open>All planes\<close>

definition outs_at :: "nvctrl \<Rightarrow> nat \<Rightarrow> nat \<Rightarrow> nat \<Rightarrow> ChannelPacket list" where
  "outs_at ct k j i = filter (\<lambda>p. pk_die p = j \<and> pk_plane p = i) (olist (ct_outgoingPackets ct k))"

definition queue_at :: "nvctrl \<Rightarrow> nat \<Rightarrow> nat \<Rightarrow> nat \<Rightarrow> ChannelPacket list" where
  "queue_at ct k j i = filter (\<lambda>p. pk_plane p = i) (ct_readQueues ct k j)"

definition rets_at :: "nvdie \<Rightarrow> nat \<Rightarrow> ChannelPacket list" where
  "rets_at d i = filter (\<lambda>p. pk_plane p = i) (di_returnDataPackets d)"

text \<open>The number of a block in the tables of the translation layer.\<close>

definition gblock :: "nv_cfg \<Rightarrow> nat \<Rightarrow> nat \<Rightarrow> nat \<Rightarrow> nat \<Rightarrow> nat" where
  "gblock c k j i b = b + BLOCKS_PER_PLANE c * (i + PLANES_PER_DIE c * (j + DIES_PER_PACKAGE c * k))"

definition safe_at :: "nv_cfg \<Rightarrow> (nat \<Rightarrow> nat \<Rightarrow> bool) \<Rightarrow> nvctrl \<Rightarrow> nvdie \<Rightarrow> nat \<Rightarrow> nat \<Rightarrow> nat \<Rightarrow> bool" where
  "safe_at c u ct d k j i \<longleftrightarrow> plane_safe c (\<lambda>b. u (gblock c k j i b)) (outs_at ct k j i) (queue_at ct k j i)
     (di_currentCommands d i) (di_planes d i) (rets_at d i)"

definition planes_safe :: "nv_cfg \<Rightarrow> (nat \<Rightarrow> nat \<Rightarrow> bool) \<Rightarrow> nvctrl \<Rightarrow> (nat \<Rightarrow> nat \<Rightarrow> nvdie) \<Rightarrow> bool" where
  "planes_safe c u ct ds \<longleftrightarrow> (\<forall>k j i. safe_at c u ct (ds k j) k j i)"

lemma planes_safe_used:
  "planes_safe c u ct ds \<Longrightarrow> (\<And>b p. GARBAGE_COLLECT c \<Longrightarrow> u b p \<Longrightarrow> u' b p) \<Longrightarrow> planes_safe c u' ct ds"
  unfolding planes_safe_def safe_at_def by (blast intro: plane_safe_used)

lemma planes_safe_cong:
  "ct_outgoingPackets ct' = ct_outgoingPackets ct \<Longrightarrow> ct_readQueues ct' = ct_readQueues ct \<Longrightarrow> planes_safe c u ct' ds = planes_safe c u ct ds"
  by (simp add: planes_safe_def safe_at_def outs_at_def queue_at_def)

lemma push_at:
  "outs_at (push_packet p ct) k j i = outs_at ct k j i"
  "queue_at (push_packet p ct) k j i = queue_at ct k j i @ (if k = pk_package p \<and> j = pk_die p \<and> i = pk_plane p then [p] else [])"
  by (auto simp: outs_at_def queue_at_def push_packet_def)

lemma planes_push_read: "planes_safe c u ct ds \<Longrightarrow> pk_type p = P_READ \<Longrightarrow> planes_safe c u (push_packet p ct) ds"
  by (auto simp: planes_safe_def safe_at_def push_at plane_push_read)

lemma planes_push_write:
  assumes s: "planes_safe c u ct ds" and d: "pk_type d = P_DATA" "flash_place_of d = flash_place_of w" and w: "pk_type w = P_WRITE"
    and u: "GARBAGE_COLLECT c \<Longrightarrow> gblock c (pk_package w) (pk_die w) (pk_plane w) (pk_block w) = b \<and> \<not> u b (pk_page w) \<and> u' b (pk_page w)"
      "\<And>b p. GARBAGE_COLLECT c \<Longrightarrow> u b p \<Longrightarrow> u' b p"
  shows "planes_safe c u' (push_packet w (push_packet d ct)) ds"
  unfolding planes_safe_def
proof (intro allI)
  fix k j i
  have sa: "plane_safe c (\<lambda>b. u (gblock c k j i b)) (outs_at ct k j i) (queue_at ct k j i) (di_currentCommands (ds k j) i) (di_planes (ds k j) i) (rets_at (ds k j) i)"
    using s by (simp add: planes_safe_def safe_at_def)
  have e: "pk_package d = pk_package w" "pk_die d = pk_die w" "pk_plane d = pk_plane w" using d(2) by (simp_all add: flash_place_of_def)
  show "safe_at c u' (push_packet w (push_packet d ct)) (ds k j) k j i"
  proof (cases "k = pk_package w \<and> j = pk_die w \<and> i = pk_plane w")
    case True
    then have "plane_safe c (\<lambda>b. u' (gblock c k j i b)) (outs_at ct k j i) (queue_at ct k j i @ [d, w]) (di_currentCommands (ds k j) i) (di_planes (ds k j) i) (rets_at (ds k j) i)"
      using u by (intro plane_push_write [OF sa d(1) w]) auto
    then show ?thesis using True e by (simp add: safe_at_def push_at)
  next
    case False
    then show ?thesis using plane_safe_used [OF sa, of "\<lambda>b. u' (gblock c k j i b)"] u(2) e by (auto simp: safe_at_def push_at)
  qed
qed

text \<open>The controller takes a packet from the queue of a die to the channel.\<close>

lemma planes_issue:
  assumes s: "planes_safe c u ct ds" and o: "ct_outgoingPackets ct k = None" and q: "ct_readQueues ct k j = p # ps" and j: "pk_die p = j"
    and r: "di_currentCommands (ds k j) (pk_plane p) = None \<and> (pk_type p = P_DATA \<longrightarrow> cacheReg (di_planes (ds k j) (pk_plane p)) = None) \<or>
      pk_type p = P_DATA \<and> cacheReg (di_planes (ds k j) (pk_plane p)) = None \<and> (\<exists>r. di_currentCommands (ds k j) (pk_plane p) = Some r \<and> pk_type r = P_WRITE)"
    and ct': "ct_outgoingPackets ct' = (ct_outgoingPackets ct)(k := Some p)"
      "ct_readQueues ct' = (ct_readQueues ct)(k := (ct_readQueues ct k)(j := ps))"
  shows "planes_safe c u ct' ds"
  unfolding planes_safe_def
proof (intro allI)
  fix k' j' i
  have sa: "safe_at c u ct (ds k' j') k' j' i" using s by (simp add: planes_safe_def)
  show "safe_at c u ct' (ds k' j') k' j' i"
  proof (cases "k' = k \<and> j' = j \<and> i = pk_plane p")
    case True
    have old: "outs_at ct k j i = []" "queue_at ct k j i = p # queue_at ct' k j i" "outs_at ct' k j i = [p]"
      using o q j True ct' by (simp_all add: outs_at_def queue_at_def)
    show ?thesis using sa plane_issue [of c _ p] r True old by (simp add: safe_at_def)
  next
    case False
    then have "outs_at ct' k' j' i = outs_at ct k' j' i" "queue_at ct' k' j' i = queue_at ct k' j' i"
      using o q j ct' by (auto simp: outs_at_def queue_at_def)
    then show ?thesis using sa by (simp add: safe_at_def)
  qed
qed

text \<open>The plane at the end of the channel changes, and the packet may be gone.\<close>

lemma planes_update:
  assumes s: "planes_safe c u ct ds" and o: "\<And>j' i'. (j', i') \<noteq> (j, i) \<Longrightarrow> outs_at ct' k j' i' = outs_at ct k j' i'"
    and c: "\<And>k'. k' \<noteq> k \<Longrightarrow> ct_outgoingPackets ct' k' = ct_outgoingPackets ct k'" "ct_readQueues ct' = ct_readQueues ct"
    and d: "\<And>i'. i' \<noteq> i \<Longrightarrow> di_currentCommands d' i' = di_currentCommands (ds k j) i' \<and> di_planes d' i' = di_planes (ds k j) i' \<and> rets_at d' i' = rets_at (ds k j) i'"
    and n: "safe_at c u ct' d' k j i"
  shows "planes_safe c u ct' (ds(k := (ds k)(j := d')))"
  unfolding planes_safe_def
proof (intro allI)
  fix k' j' i'
  have sa: "safe_at c u ct (ds k' j') k' j' i'" using s by (simp add: planes_safe_def)
  have q: "queue_at ct' k' j' i' = queue_at ct k' j' i'" using c(2) by (simp add: queue_at_def)
  show "safe_at c u ct' ((ds(k := (ds k)(j := d'))) k' j') k' j' i'"
  proof (cases "k' = k")
    case False
    then have "outs_at ct' k' j' i' = outs_at ct k' j' i'" using c(1) by (simp add: outs_at_def)
    then show ?thesis using sa q False by (simp add: safe_at_def)
  next
    case k: True
    show ?thesis
    proof (cases "(j', i') = (j, i)")
      case True
      then show ?thesis using n k by simp
    next
      case False
      then show ?thesis using sa q o [OF False] d [of i'] k by (auto simp: safe_at_def)
    qed
  qed
qed

end
