(* ===== verification/Whole_Flash.thy ===== *)
theory Whole_Flash
  imports Whole_Memory Nv_Flow
begin

text \<open>
  The whole memory system: \<open>HybridSystem::update\<close> hands the fronts of its queues to the DRAM simulator
  and to the flash simulator, updates both and gets their callbacks. Shown: what the flash simulator
  does is what the hybrid memory was verified against, so neither \<open>HybridSim\<close> nor \<open>DRAMSim2\<close> fails below
  it unless the flash simulator itself gives up.
\<close>

section \<open>The three together\<close>

fun flash_answer :: "nvcall \<Rightarrow> mem_cb" where
  "flash_answer (ReturnReadData a mapped) = Flash_Read_CB a"
| "flash_answer (CriticalLineDone a) = Flash_Crit_CB a"
| "flash_answer (WriteDataDone a) = Flash_Write_CB a"

definition ask_flash :: "nv_cfg \<Rightarrow> hs \<Rightarrow> nvdimm \<Rightarrow> nverr + bool \<times> nvdimm" where
  "ask_flash nc s n = (case flash_queue s of [] \<Rightarrow> Inr (True, n)
     | tmp # _ \<Rightarrow> nv_addTransaction nc (transactionType tmp = DATA_WRITE) (address tmp) n)"

datatype ferr = Whole_Error werr | Flash_Error nverr

text \<open>The callbacks of a cycle are collected from an empty list.\<close>

definition no_calls :: "nvdimm \<Rightarrow> nvdimm" where
  "no_calls n = n\<lparr>nv_calls := []\<rparr>"

text \<open>A cycle; \<open>ns\<close> are the passes of the flash simulator and their channel cycles.\<close>

definition full_update :: "dram_cfg \<Rightarrow> nv_cfg \<Rightarrow> nat list \<Rightarrow> hs \<times> MultiChannelMemorySystem \<times> nvdimm \<Rightarrow>
    ferr + hs \<times> MultiChannelMemorySystem \<times> nvdimm" where
  "full_update dc nc ns = (\<lambda>(s, m, n).
     bindR (mapL (Whole_Error \<circ> Hybrid_Error) (before_issue s)) (\<lambda>s2.
     bindR (mapL (Whole_Error \<circ> Dram_Error) (ask_dram dc s2 m)) (\<lambda>(dram_ok, m1).
     bindR (mapL Flash_Error (ask_flash nc s2 (no_calls n))) (\<lambda>(flash_ok, n1).
     let s3 = tick_delay (issue_flash flash_ok (issue_dram dram_ok s2)) in
     bindR (mapL Whole_Error (update_dram dc m1)) (\<lambda>(m2, out).
     bindR (mapL (Whole_Error \<circ> Hybrid_Error) (run_cbs (map dram_answer out) s3)) (\<lambda>s4.
     bindR (mapL Flash_Error (nvdimm_update nc ns n1)) (\<lambda>n2.
     bindR (mapL (Whole_Error \<circ> Hybrid_Error) (run_cbs (map flash_answer (nv_calls n2)) s4)) (\<lambda>s5.
     Inr (step s5, m2, n2)))))))))"

type_synonym full = "hs \<times> MultiChannelMemorySystem \<times> nvdimm \<times> (bool \<times> nat) multiset"

inductive full_step :: "dram_cfg \<Rightarrow> nv_cfg \<Rightarrow> full \<Rightarrow> full \<Rightarrow> bool" for dc nc where
  f_submit: "a < 2 ^ 64 \<Longrightarrow> addTransaction_rw w a s = Inr s' \<Longrightarrow> full_step dc nc (s, m, n, acc) (s', m, n, add_mset (w, a) acc)"
| f_device: "op \<in> {0, 2, 3, 4} \<Longrightarrow> mmio op a s = Inr s' \<Longrightarrow> full_step dc nc (s, m, n, acc) (s', m, n, acc)"
| f_cycle: "full_update dc nc ns (s, m, n) = Inr (s', m', n') \<Longrightarrow> full_step dc nc (s, m, n, acc) (s', m', n', acc)"

definition full_init :: "hs_cfg \<Rightarrow> dram_cfg \<Rightarrow> nv_cfg \<Rightarrow> full \<Rightarrow> bool" where
  "full_init c dc nc x \<longleftrightarrow> sizes_ok nc \<and> \<not> CRIT_LINE_FIRST nc \<and>
     (\<exists>s m acc. whole_init c dc (s, m, no_reads, acc) \<and> x = (s, m, new_nvdimm nc, acc))"

abbreviation full_run :: "hs_cfg \<Rightarrow> dram_cfg \<Rightarrow> nv_cfg \<Rightarrow> full \<Rightarrow> bool" where
  "full_run c dc nc \<equiv> reach (full_init c dc nc) (full_step dc nc)"

section \<open>The flash as an environment\<close>

text \<open>The reads that the hybrid memory waits for contain those that the flash holds.\<close>

definition flash_inv :: "nv_cfg \<Rightarrow> nvdimm \<Rightarrow> menv \<Rightarrow> bool" where
  "flash_inv nc n e \<longleftrightarrow> sizes_ok nc \<and> \<not> CRIT_LINE_FIRST nc \<and> nv_good nc (mset (fout e)) (no_calls n)"

lemma mset_rest: "A + B \<subseteq># T \<Longrightarrow> B \<subseteq># T - A"
  unfolding subseteq_mset_def by (metis add_le_imp_le_diff count_diff count_union union_commute)

lemma good_no_calls:
  assumes "nv_good c T s"
  shows "nv_good c (T - answered (nv_calls s)) (no_calls s)"
proof -
  have w: "nv_ledger c (no_calls s) = nv_waiting c s" by (simp add: ledger_split no_calls_def nv_waiting_def)
  have "nv_inv c (no_calls s)" using assms by (simp add: nv_good_def nv_inv_def no_calls_def)
  moreover have "nv_keeps c (T - answered (nv_calls s)) (nv_waiting c s)"
    using assms mset_rest [of "answered (nv_calls s)" "nv_waiting c s" T] by (auto simp: nv_good_def nv_keeps_def ledger_split split: if_splits)
  ultimately show ?thesis by (simp add: nv_good_def w)
qed

lemma env_flash_answers:
  assumes "crit_calls es = {}" "answered es \<subseteq># mset (fout e)"
  shows "\<exists>e'. env_cbs (map flash_answer es) e = Some e' \<and> mset (fout e') = mset (fout e) - answered es \<and> dout e' = dout e"
  using assms
proof (induction es arbitrary: e)
  case (Cons x es)
  have c: "crit_calls es = {}" "\<nexists>a. x = CriticalLineDone a" using Cons.prems(1) by (auto simp: crit_calls_def)
  have an: "answered (x # es) = answered [x] + answered es" by (simp add: answered_def)
  show ?case
  proof (cases x)
    case (ReturnReadData a b)
    let ?e = "e\<lparr>fout := remove1 a (fout e), crit := crit e - {a}\<rparr>"
    have a: "a \<in> set (fout e)" using Cons.prems(2) an ReturnReadData by (metis answered_simps(3) insert_subset_eq_iff set_mset_mset add_mset_add_single union_commute)
    have "answered es \<subseteq># mset (fout ?e)" using Cons.prems(2) an ReturnReadData by (simp add: insert_subset_eq_iff)
    from Cons.IH [OF c(1) this] show ?thesis using a an ReturnReadData by auto
  next
    case (WriteDataDone a)
    then show ?thesis using Cons.IH [OF c(1)] Cons.prems(2) an by simp
  qed (use c in simp)
qed auto

lemma ask_flash_good:
  assumes "flash_inv nc n e" "queues_typed s" "ask_flash nc s (no_calls n) = Inr (ok, n1)"
  shows "nv_good nc (mset (fout e) + mset (reads (if ok then take 1 (flash_queue s) else []))) n1"
proof (cases "flash_queue s")
  case (Cons t q)
  then have "transactionType t = DATA_WRITE \<longleftrightarrow> transactionType t \<noteq> DATA_READ" using assms(2) by (auto simp: queues_typed_def is_data_def)
  moreover have "nv_good nc (mset (fout e)) (no_calls n)" using assms(1) by (simp add: flash_inv_def)
  ultimately show ?thesis using nv_add_flow [of nc "mset (fout e)" "no_calls n" "transactionType t = DATA_WRITE" "address t" ok n1] assms(3) Cons
    by (auto simp: ask_flash_def reads_def)
qed (use assms in \<open>simp add: ask_flash_def flash_inv_def reads_def\<close>)

section \<open>A cycle of the three is a cycle of the two\<close>

text \<open>What the flash does in a cycle, apart from its effect on the hybrid memory.\<close>

lemma full_with_flash:
  assumes "before_issue s = Inr s2" "ask_flash nc s2 (no_calls n) = Inr (fok, n1)"
  shows "full_update dc nc ns (s, m, n) = (case nvdimm_update nc ns n1 of
      Inl x \<Rightarrow> bindR (mapL Whole_Error (whole_update dc fok [] (s, m))) (\<lambda>_. Inl (Flash_Error x))
    | Inr n2 \<Rightarrow> bindR (mapL Whole_Error (whole_update dc fok (map flash_answer (nv_calls n2)) (s, m))) (\<lambda>(s', m'). Inr (s', m', n2)))"
proof -
  have l: "bindR (mapL (Whole_Error \<circ> g) x) h = bindR (mapL Whole_Error (mapL g x)) h" for g :: "'e \<Rightarrow> werr" and x :: "'e + 'a" and h :: "'a \<Rightarrow> ferr + 'b"
    by (cases x) simp_all
  have p: "bindR (mapL Whole_Error (bindR (mapL g x) f)) h = bindR (mapL Whole_Error (mapL g x)) (\<lambda>y. bindR (mapL Whole_Error (f y)) h)"
    for g :: "'e \<Rightarrow> werr" and x :: "'e + 'a" and f :: "'a \<Rightarrow> werr + 'b" and h :: "'b \<Rightarrow> ferr + 'c"
    by (cases x) simp_all
  show ?thesis using assms
    by (cases "nvdimm_update nc ns n1")
      (simp_all add: full_update_def whole_update_def l p Let_def case_prod_unfold)
qed

lemma full_cycle_ok:
  assumes w: "whole_inv c dc (s, m, e, acc)" and f: "flash_inv nc n e"
  shows "case full_update dc nc ns (s, m, n) of
      Inl err \<Rightarrow> (\<exists>x. err = Flash_Error x) \<or> ENABLE_STREAM_BUFFER c \<and> err = Whole_Error (Hybrid_Error Iterator_Past_End)
    | Inr (s', m', n') \<Rightarrow> \<exists>fok fcbs e'. legal False fok [] fcbs s e = Some e' \<and> whole_update dc fok fcbs (s, m) = Inr (s', m') \<and> flash_inv nc n' e'"
proof (cases "before_issue s")
  case (Inl err)
  then have "legal False True [] [] s e = Some e" by (simp add: legal_def)
  from whole_cycle_ok [OF w this] show ?thesis using Inl by (simp add: full_update_def whole_update_def)
next
  case (Inr s2)
  obtain d where d: "run c (s, e\<lparr>dout := d\<rparr>, acc)" using w by (auto simp: whole_inv_def)
  have ty: "queues_typed s2" using typed_before_issue [of s] typed_run [OF d] Inr by simp
  show ?thesis
  proof (cases "ask_flash nc s2 (no_calls n)")
    case (Inl x)
    obtain m1 where "ask_dram dc s2 m = Inr (True, m1)" using ask_dram_ok [OF _ ty] w by (auto simp: whole_inv_def)
    then show ?thesis using Inr Inl by (simp add: full_update_def)
  next
    case flash: (Inr p)
    obtain fok n1 where p: "p = (fok, n1)" by (cases p)
    note u = full_with_flash [OF Inr flash [unfolded p], of dc ns m]
    let ?e = "env_issue False fok s2 e"
    have g: "nv_good nc (mset (fout ?e)) n1" using ask_flash_good [OF f ty flash [unfolded p]] by (simp add: env_issue_def)
    show ?thesis
    proof (cases "nvdimm_update nc ns n1")
      case (Inl x)
      have "legal False fok [] [] s e = Some ?e" using Inr by (simp add: legal_def)
      from whole_cycle_ok [OF w this] show ?thesis using Inl u by (cases "whole_update dc fok [] (s, m)") auto
    next
      case upd: (Inr n2)
      have si: "sizes_ok nc" "\<not> CRIT_LINE_FIRST nc" using f by (simp_all add: flash_inv_def)
      have g2: "nv_good nc (mset (fout ?e)) n2" using nvdimm_update_flow [OF si(1) g, of ns] upd by simp
      have "crit_calls (nv_calls n2) = {}" using g2 si(2) by (auto simp: nv_good_def nv_inv_def)
      from env_flash_answers [OF this good_answered [OF g2]] obtain e' where e': "env_cbs (map flash_answer (nv_calls n2)) ?e = Some e'"
        "mset (fout e') = mset (fout ?e) - answered (nv_calls n2)" by blast
      have l: "legal False fok [] (map flash_answer (nv_calls n2)) s e = Some e'" using Inr e'(1) by (simp add: legal_def)
      have "flash_inv nc n2 e'" using good_no_calls [OF g2] si e'(2) by (simp add: flash_inv_def)
      then show ?thesis using whole_cycle_ok [OF w l] l u upd
        by (cases "whole_update dc fok (map flash_answer (nv_calls n2)) (s, m)") (auto intro!: exI)
    qed
  qed
qed

section \<open>Every run of the three is a run of the two\<close>

lemma whole_next: "whole_run c dc x \<Longrightarrow> whole_step dc x y \<Longrightarrow> whole_run c dc y"
  by (rule reach_step)

definition full_inv :: "hs_cfg \<Rightarrow> dram_cfg \<Rightarrow> nv_cfg \<Rightarrow> full \<Rightarrow> bool" where
  "full_inv c dc nc = (\<lambda>(s, m, n, acc). \<exists>e. whole_run c dc (s, m, e, acc) \<and> flash_inv nc n e)"

lemma full_inv_init: "full_init c dc nc x \<Longrightarrow> full_inv c dc nc x"
proof -
  assume "full_init c dc nc x"
  then obtain s m acc where x: "sizes_ok nc" "\<not> CRIT_LINE_FIRST nc" "whole_init c dc (s, m, no_reads, acc)" "x = (s, m, new_nvdimm nc, acc)"
    by (auto simp: full_init_def)
  have "flash_inv nc (new_nvdimm nc) no_reads" using x(1,2) good_no_calls [OF good_new [OF x(1)]] by (simp add: flash_inv_def no_reads_def)
  then show ?thesis using x(3,4) by (auto simp: full_inv_def intro: reach_init)
qed

lemma full_inv_step:
  assumes "full_inv c dc nc x" "full_step dc nc x y"
  shows "full_inv c dc nc y"
  using assms(2)
proof cases
  case (f_submit a w s s' m n acc)
  then show ?thesis using assms(1) whole_next [OF _ w_submit [OF f_submit(3,4)]] by (force simp: full_inv_def)
next
  case (f_device op a s s' m n acc)
  then show ?thesis using assms(1) whole_next [OF _ w_device [OF f_device(3,4)]] by (force simp: full_inv_def)
next
  case (f_cycle ns s m n s' m' n' acc)
  obtain e where e: "whole_run c dc (s, m, e, acc)" "flash_inv nc n e" using assms(1) f_cycle by (auto simp: full_inv_def)
  from full_cycle_ok [OF whole_memory.reach_inv [OF e(1)] e(2), of ns] f_cycle(3)
  obtain fok fcbs e' where "legal False fok [] fcbs s e = Some e'" "whole_update dc fok fcbs (s, m) = Inr (s', m')" "flash_inv nc n' e'" by auto
  then show ?thesis using whole_next [OF e(1) w_cycle] f_cycle(2) by (fastforce simp: full_inv_def)
qed

interpretation full_memory: safe_system "full_init c dc nc" "full_step dc nc" "full_inv c dc nc" for c dc nc
  by unfold_locales (auto intro: full_inv_init full_inv_step)

text \<open>Without garbage collection the hybrid memory waits for exactly the reads that the flash holds.\<close>

lemma flash_inv_waiting: "flash_inv nc n e \<Longrightarrow> \<not> gc_active nc \<Longrightarrow> mset (fout e) = nv_waiting nc n"
  by (simp add: flash_inv_def nv_good_def nv_keeps_def ledger_split no_calls_def nv_waiting_def)

end
