(* ===== verification/Spec2Isabelle.thy ===== *)
theory Spec2Isabelle
  imports Hybrid_Properties Hybrid_Sync Hybrid_Host Dram_Properties Whole_Memory Nv_Properties Nv_Safe Whole_Flash
begin

text \<open>
  \<^bold>\<open>The hybrid memory simulator\<close>

  The program simulates a main memory made of DRAM and flash. \<open>src/HybridSim\<close> is the controller
  that uses the DRAM as a set-associative cache of flash pages: it takes requests, keeps the
  tag store, moves pages, and answers each request by a callback. Below it, \<open>src/DRAMSim2\<close>
  simulates the DRAM cycle by cycle: address mapping, command queues, timing, ranks and banks,
  several channels in one memory. \<open>src/NVDIMMSim\<close> simulates the flash. On top, a processor
  simulator or a trace driver calls \<open>addTransaction\<close> and \<open>update\<close>.

  \<^bold>\<open>How the model corresponds to the code\<close>

  A class is a record, an enumeration a datatype, and each method one function from the state
  before to the state after. A method that can fail returns \<open>'e + 'a\<close>, where \<open>Inl\<close> carries the
  assertion, abort or undefined operation met; loops that may run on are
  \<open>partial_function (option)\<close>. Unsigned 64-bit values of HybridSim are natural numbers with the
  wrap-around written out (\<open>u64\<close>, \<open>u64_sub\<close>), physical addresses of DRAMSim2 are 64-bit words, and
  its clock is an unbounded counter. Hash maps are association lists (\<open>umap\<close>), vectors that are
  indexed by rank and bank are functions. Callbacks are collected in the result. Settings that
  the code keeps in global variables are an argument (\<open>hs_cfg\<close>, \<open>dram_cfg\<close>, \<open>nv_cfg\<close>). Names that occur in
  more than one of the simulators carry a prefix.

  \<^bold>\<open>The prelude\<close>

  \<open>Sim_Prelude\<close> has 64-bit arithmetic, hash maps, results and their rules (\<open>bindR\<close>, \<open>okR\<close>,
  \<open>partR\<close>, the loop \<open>foldR\<close>), and the
  contracts that components share: \<open>hash_map\<close>, \<open>coding\<close> (an encoding and its inverse),
  \<open>safe_system\<close> (an invariant of a transition system), \<open>circle\<close> (a round-robin pointer).

  \<^bold>\<open>HybridSim\<close> (\<open>src/HybridSim\<close>)

  \<^item> \<open>Hybrid_Config\<close>: settings and address macros of \<open>config.h\<close>, \<open>IniReader.cpp\<close> and the data of
    \<open>Transaction.h\<close> and \<open>config.h\<close>. Tag and set index are shown to be a \<open>coding\<close> of page addresses.
  \<^item> \<open>Hybrid_State\<close>: the record \<open>hs\<close> of \<open>HybridSystem\<close>; request queue, page contention, TLB,
    prefetching and stream buffers.
  \<^item> \<open>Hybrid_Ops\<close>: page transfers, hits and misses, the callbacks of the memories, the cycle
    \<open>update\<close>, the device interface \<open>mmio\<close>, saving and restoring, the C interface.
  \<^item> \<open>Hybrid_Flights\<close>, \<open>Hybrid_Invariant\<close>, \<open>Hybrid_Process\<close>, \<open>Hybrid_System\<close>: the proof. A flight
    is a transaction in work; \<open>Rel\<close> ties the flights to all tables of the controller, and every
    operation is shown to keep it and to keep the ledger of calls made and owed.
  \<^item> \<open>Hybrid_Closed\<close>, \<open>Hybrid_Properties\<close>: the controller with memories that answer what they
    were asked, as a transition system, and the properties of its reachable states: no
    assertion fails, requests are answered exactly once, locks balance, no page is cached twice,
    nothing is waited for that does not come.
  \<^item> \<open>Hybrid_Queues\<close>: only plain reads and writes reach the memories. \<open>Hybrid_Sync\<close>: the lock that
    \<open>sync\<close> loses, and the set that starves by it. \<open>Hybrid_Host\<close>: save and restore, and the polled
    completions as a queue (\<open>fifo\<close>).

  \<^bold>\<open>DRAMSim2\<close> (\<open>src/DRAMSim2\<close>)

  \<^item> \<open>Dram_Config\<close>, \<open>Dram_Mapping\<close>: settings, packets, and \<open>AddressMapping.cpp\<close> with all seven
    schemes, a \<open>coding\<close> of addresses.
  \<^item> \<open>Dram_Bank\<close>: the storage of \<open>Bank.cpp\<close>, a random access memory.
  \<^item> \<open>Dram_Queue\<close>, \<open>Dram_Schedule\<close>: \<open>CommandQueue.cpp\<close>: what \<open>pop\<close> takes is allowed, something is
    taken when something is allowed, the round-robin search is complete, at most four
    activations fall into a window.
  \<^item> \<open>Dram_Rank\<close>, \<open>Dram_Controller\<close>, \<open>Dram_System\<close>: \<open>Rank.cpp\<close>, \<open>MemoryController.cpp\<close>, \<open>MemorySystem.cpp\<close>.
  \<^item> \<open>Dram_Protocol\<close>, \<open>Dram_Line\<close>, \<open>Dram_Timing\<close>, \<open>Dram_Safety\<close>, \<open>Dram_Channel\<close>: a channel never
    reports an error, and answers every read and write exactly once. The bank states of the
    controller and of the ranks agree, and bursts never meet on the data bus.
  \<^item> \<open>Dram_Clock\<close>: \<open>ClockDomain.cpp\<close>; the loop ends and the rates do not drift. \<open>Dram_Multi\<close>:
    \<open>MultiChannelMemorySystem.cpp\<close>. \<open>Dram_Ini\<close>, \<open>Dram_Files\<close>: \<open>IniReader.cpp\<close> on text, and the two
    settings files of the repository, evaluated. \<open>Dram_Properties\<close>: the properties.

  \<^bold>\<open>NVDIMMSim\<close> (\<open>src/NVDIMMSim/src\<close>)

  \<^item> \<open>Nv_Config\<close>, \<open>Nv_State\<close>: settings, transactions, packets, \<open>Ftl::translate\<close>, and one record per class.
  \<^item> \<open>Nv_Die\<close>: \<open>Block.cpp\<close>, \<open>Plane.cpp\<close> and the command side of \<open>Die.cpp\<close>. \<open>Nv_Ftl\<close>: \<open>Ftl.cpp\<close> and \<open>GCFtl.cpp\<close>,
    the translation layer with and without garbage collection. \<open>Nv_Front\<close>: \<open>FrontBuffer.cpp\<close>.
    \<open>Nv_Controller\<close>: \<open>Channel.cpp\<close>, \<open>Controller.cpp\<close>, \<open>Die::update\<close> and \<open>NVDIMM.cpp\<close>.
  \<^item> \<open>Nv_Ledger\<close>: where reads are, and the invariant of the device. \<open>Nv_Flow_Ftl\<close>, \<open>Nv_Flow_Front\<close>,
    \<open>Nv_Flow\<close>: every operation keeps both.
  \<^item> \<open>Nv_Properties\<close>: accepted reads are answered at most once, and exactly once while nothing is
    collected; different virtual pages lie at different places; and three faults of the
    collector and of the search for free pages. \<open>Nv_Safe\<close>: the protocol between the controller and
    the registers of a plane.

  \<^bold>\<open>The whole\<close>

  \<open>Whole_Memory\<close> puts the model of DRAMSim2 in the place of the abstract DRAM, with the size,
  the callbacks and the calls of \<open>HybridSystem.cpp\<close>. This theory shows that the two together
  refine the controller with an abstract DRAM, and never fail. \<open>Whole_Flash\<close> adds the model of
  NVDIMMSim: the three together are a run of the two, so that HybridSim and DRAMSim2 do not fail
  whatever the flash simulator answers, and requests are answered once.

  \<^bold>\<open>Bounds and fuel\<close>

  The restoring loop of HybridSim runs with as many rounds as numbers in the file and one more,
  which is enough because every round but the last takes six. All other loops are structural,
  have a termination proof, or are shown to return.

  \<^bold>\<open>Not modelled\<close>

  Log and statistics output, trace drivers, floating-point power figures, and data contents
  that the build of DRAMSim2 (\<open>NO_STORAGE\<close>) does not carry. Of NVDIMMSim, what \<open>nvdimm.ini\<close> switches
  off (\<open>BUFFERED\<close> with \<open>Buffer.cpp\<close>, \<open>CTRL_SCHEDULE\<close>, write scripts), and saving and restoring; cycle
  counts, thresholds and clock ratios, which it computes in floating point, are arguments of the
  model. NVMain, MARSS and QEMU are separate programs that
  are compiled in or linked; QEMU and the x86 core are beyond what is modelled here.
\<close>

section \<open>The whole memory\<close>


text \<open>The smallest memory that DRAMSim2 makes, under a hybrid memory of four cache pages.\<close>

definition small_device :: dram_cfg where
  "small_device = ddr3_cfg\<lparr>NUM_RANKS := 0, NUM_RANKS_LOG := 0, NUM_DEVICES := 0\<rparr>"

lemma small_whole: "\<exists>dc m. whole_run small_cfg dc (init_hs small_cfg 0 True True, m, no_reads, {#}) \<and> dram_owes dc m = {#}"
proof -
  have n: "u32 (dram_size small_cfg) = 2 ^ 0" by (simp add: dram_size_def small_cfg_def default_cfg_def u64_def u32_def)
  have d: "device_ok small_device" "NUM_CHANS small_device \<le> u32 (dram_size small_cfg)"
    using ddr3_device by (simp_all add: n small_device_def ddr3_cfg_def)
  then obtain dc m where m: "create_dram small_device small_cfg = Inr (dc, m)"
    using newMultiChannel_ok [of small_device "2 ^ 0" 0] by (auto simp: n create_dram_def)
  then have "whole_init small_cfg dc (init_hs small_cfg 0 True True, m, no_reads, {#})"
    using small_cfg_ok d unfolding whole_init_def by metis
  then show ?thesis using create_dram_ok(2) [OF d m] by (blast intro: reach_init)
qed


text \<open>C4. The DRAM simulator implements the DRAM that the hybrid memory was verified against:
  every state of the two together is a state of the hybrid memory with an abstract DRAM that
  holds exactly the reads which the channels of the simulator still owe.\<close>

theorem whole_refines_hybrid:
  assumes "whole_run c dc (s, m, e, acc)"
  shows "\<exists>d. run c (s, e\<lparr>dout := d\<rparr>, acc) \<and> mset d = dram_owes dc m"
  using whole_memory.reach_inv [OF assms] by (auto simp: whole_inv_def)

text \<open>A write into the range of the memory-mapped devices.\<close>

definition device_write :: hs where
  "device_write = (init_hs small_cfg 0 True True)\<lparr>done_calls := [(True, 0, 3758096384, 0)]\<rparr>"

lemma device_write_submitted: "addTransaction_rw True 3758096384 (init_hs small_cfg 0 True True) = Inr device_write"
  by (simp add: addTransaction_rw_def addTransaction_def mkTransaction_def init_hs_def blank_hs_def small_cfg_def default_cfg_def
      device_write_def THREEPOINTFIVEGB_def FOURGB_def Let_def)

lemma small_submitted: "\<exists>dc m. whole_run small_cfg dc (device_write, m, no_reads, {#(True, 3758096384)#}) \<and> dram_owes dc m = {#}"
proof -
  obtain dc m where r: "whole_run small_cfg dc (init_hs small_cfg 0 True True, m, no_reads, {#})" "dram_owes dc m = {#}" using small_whole by blast
  then show ?thesis using reach_step [OF r(1) w_submit [of 3758096384 True]] device_write_submitted by auto
qed

theorem whole_refines_hybrid_witness: "\<exists>dc m d. run small_cfg (device_write, no_reads\<lparr>dout := d\<rparr>, {#(True, 3758096384)#}) \<and> mset d = dram_owes dc m"
  using small_submitted whole_refines_hybrid by blast

lemma whole_accounts:
  assumes "whole_run c dc (s, m, e, acc)"
  shows "done_mset s \<subseteq># acc \<and>
    (trans_queue s = [] \<and> \<not> active_transaction_flag s \<and> reads (dram_queue s) = [] \<and> reads (flash_queue s) = [] \<and>
       fout e = [] \<and> dram_owes dc m = {#} \<longrightarrow> done_mset s = acc)"
proof -
  obtain d where d: "run c (s, e\<lparr>dout := d\<rparr>, acc)" "mset d = dram_owes dc m"
    using whole_memory.reach_inv [OF assms] by (auto simp: whole_inv_def)
  obtain fl where fl: "hinv s fl (e\<lparr>dout := d\<rparr>)" "ledger s fl = acc" using d(1) by (rule runE)
  have "done_mset s \<subseteq># acc" using fl(2) by (auto simp: ledger_def account_def add.assoc)
  moreover have "fl = Map.empty" if "reads (dram_queue s) = []" "reads (flash_queue s) = []" "fout e = []" "dram_owes dc m = {#}"
    using quiet_empty [OF fl(1)] that d(2) by simp
  ultimately show ?thesis using fl(2) by (auto simp: ledger_def account_def queue_mset_def owed_fl_def)
qed

text \<open>With the DRAM simulator below, requests are answered exactly once: the completion
  calls are among the accepted requests, and they are all of them when no request waits, no
  transaction is in the controller, and neither the queues, nor the flash, nor any channel of
  the DRAM holds a read.\<close>

theorem whole_answers_once:
  assumes "whole_run c dc (s, m, e, acc)"
  shows "done_mset s \<subseteq># acc \<and>
    (trans_queue s = [] \<and> \<not> active_transaction_flag s \<and> reads (dram_queue s) = [] \<and> reads (flash_queue s) = [] \<and>
       fout e = [] \<and> dram_owes dc m = {#} \<longrightarrow> done_mset s = acc)"
  by (rule whole_accounts [OF assms])

theorem whole_answers_once_witness: "\<exists>dc m. dram_owes dc m = {#} \<and> done_mset device_write = {#(True, 3758096384)#}"
proof -
  obtain dc m where r: "whole_run small_cfg dc (device_write, m, no_reads, {#(True, 3758096384)#})" "dram_owes dc m = {#}" using small_submitted by blast
  have "trans_queue device_write = []" "\<not> active_transaction_flag device_write" "reads (dram_queue device_write) = []"
    "reads (flash_queue device_write) = []" "fout no_reads = []"
    by (simp_all add: device_write_def init_hs_def blank_hs_def Let_def reads_def no_reads_def)
  then show ?thesis using whole_answers_once [OF r(1)] r(2) by blast
qed


lemma small_full: "\<exists>dc m. full_run small_cfg dc probe_cfg (init_hs small_cfg 0 True True, m, new_nvdimm probe_cfg, {#}) \<and> dram_owes dc m = {#}"
proof -
  have n: "u32 (dram_size small_cfg) = 2 ^ 0" by (simp add: dram_size_def small_cfg_def default_cfg_def u64_def u32_def)
  have d: "device_ok small_device" "NUM_CHANS small_device \<le> u32 (dram_size small_cfg)"
    using ddr3_device by (simp_all add: n small_device_def ddr3_cfg_def)
  then obtain dc m where m: "create_dram small_device small_cfg = Inr (dc, m)"
    using newMultiChannel_ok [of small_device "2 ^ 0" 0] by (auto simp: n create_dram_def)
  then have "whole_init small_cfg dc (init_hs small_cfg 0 True True, m, no_reads, {#})"
    using small_cfg_ok d unfolding whole_init_def by metis
  then have "full_init small_cfg dc probe_cfg (init_hs small_cfg 0 True True, m, new_nvdimm probe_cfg, {#})"
    using probe_ok(1) unfolding full_init_def by (auto simp: probe_cfg_def)
  then show ?thesis using create_dram_ok(2) [OF d m] by (blast intro: reach_init)
qed


text \<open>C5. With both simulators below, requests are answered exactly once: the completion calls are
  among the accepted requests, and without garbage collection they are all of them when no request
  waits, no transaction is in the controller, and neither the queues, nor a channel of the DRAM, nor
  any part of the flash simulator holds a read.\<close>

theorem full_answers_once:
  assumes "full_run c dc nc (s, m, n, acc)"
  shows "done_mset s \<subseteq># acc \<and>
    (trans_queue s = [] \<and> \<not> active_transaction_flag s \<and> reads (dram_queue s) = [] \<and> reads (flash_queue s) = [] \<and>
       dram_owes dc m = {#} \<and> \<not> gc_active nc \<and> nv_waiting nc n = {#} \<longrightarrow> done_mset s = acc)"
proof -
  obtain e where e: "whole_run c dc (s, m, e, acc)" "flash_inv nc n e" using full_memory.reach_inv [OF assms] by (auto simp: full_inv_def)
  have "fout e = []" if "\<not> gc_active nc" "nv_waiting nc n = {#}" using flash_inv_waiting [OF e(2) that(1)] that(2) by simp
  then show ?thesis using whole_accounts [OF e(1)] by blast
qed

theorem full_answers_once_witness: "\<exists>dc m. full_run small_cfg dc probe_cfg (device_write, m, new_nvdimm probe_cfg, {#(True, 3758096384)#}) \<and>
    done_mset device_write = {#(True, 3758096384)#}"
proof -
  obtain dc m where r: "full_run small_cfg dc probe_cfg (init_hs small_cfg 0 True True, m, new_nvdimm probe_cfg, {#})" "dram_owes dc m = {#}"
    using small_full by blast
  have f: "full_run small_cfg dc probe_cfg (device_write, m, new_nvdimm probe_cfg, {#(True, 3758096384)#})"
    using reach_step [OF r(1) f_submit [of 3758096384 True]] device_write_submitted by auto
  have "trans_queue device_write = []" "\<not> active_transaction_flag device_write" "reads (dram_queue device_write) = []"
    "reads (flash_queue device_write) = []" by (simp_all add: device_write_def init_hs_def blank_hs_def Let_def reads_def)
  moreover have "nv_waiting probe_cfg (new_nvdimm probe_cfg) = {#}"
    using good_new [OF probe_ok(1)] probe_ok(2) by (simp add: nv_good_def nv_keeps_def ledger_split)
  ultimately show ?thesis using full_answers_once [OF f] f r(2) probe_ok(2) by blast
qed

end
